(* ===== verification/Go_Prelude.thy ===== *)
theory Go_Prelude
  imports Main "HOL-Library.Word" "HOL-Library.AList" "HOL-Library.Char_ord"
    "HOL-Library.List_Lexorder" "HOL-Library.Multiset"
begin

text \<open>
  The vocabulary every component theory shares.

  \<^item> Machine integers: a Go \<^verbatim>\<open>uint64\<close> is a \<^typ>\<open>64 word\<close>, so \<open>+\<close> wraps at \<open>2^64\<close>.
    A Go \<^verbatim>\<open>int\<close> is an \<^typ>\<open>int\<close>; where the code converts between the two the
    conversion is written out (\<open>sint\<close>, or the clamping helper the code calls).
  \<^item> Maps: a Go map is an association list read through \<^const>\<open>map_of\<close>. Any association list
    stands for the map it looks up, so no well-formedness invariant is carried around; a
    \<^verbatim>\<open>range\<close> loop visits the entries of \<open>gm_range\<close>, each key once. Go leaves the visiting
    order open: it is the order of the list, and the theorems quantify over every list.
  \<^item> The zero value of a missing key is the first argument of \<open>gm_get\<close>. A nil map and an
    empty map behave alike when read; a field the code compares with nil is an \<^typ>\<open>'a option\<close>.
  \<^item> Generic interfaces: \<open>transition_system\<close> (an invariant of every reachable state),
    \<open>bounded_queue\<close> (a Go channel written with a non-blocking send), \<open>componentwise_order\<close>
    (a comparison of two counter maps) and \<open>logical_clock\<close> (what the process layer relies on
    in a clock). Each component interprets the ones it provides.
\<close>

named_theorems gm_simps \<open>lookups in the maps that the map operations return\<close>
named_theorems op_defs \<open>definitions of the operations, unfolded to evaluate a concrete run\<close>

type_synonym u64 = "64 word"
type_synonym pid = string
type_synonym ('k, 'v) gomap = "('k \<times> 'v) list"

section \<open>Maps\<close>

definition gm_get :: "'v \<Rightarrow> ('k, 'v) gomap \<Rightarrow> 'k \<Rightarrow> 'v" where
  "gm_get z m k = (case map_of m k of None \<Rightarrow> z | Some v \<Rightarrow> v)"

definition gm_set :: "('k, 'v) gomap \<Rightarrow> 'k \<Rightarrow> 'v \<Rightarrow> ('k, 'v) gomap" where
  "gm_set m k v = AList.update k v m"

definition gm_del :: "('k, 'v) gomap \<Rightarrow> 'k \<Rightarrow> ('k, 'v) gomap" where
  "gm_del m k = AList.delete k m"

definition gm_range :: "('k, 'v) gomap \<Rightarrow> ('k \<times> 'v) list" where
  "gm_range m = AList.clearjunk m"

definition gm_keys :: "('k, 'v) gomap \<Rightarrow> 'k list" where
  "gm_keys m = map fst (gm_range m)"

definition gm_vals :: "('k, 'v) gomap \<Rightarrow> 'v list" where
  "gm_vals m = map snd (gm_range m)"

definition gm_len :: "('k, 'v) gomap \<Rightarrow> nat" where
  "gm_len m = length (gm_range m)"

text \<open>A range loop whose body threads a state.\<close>

definition gm_fold :: "('k \<Rightarrow> 'v \<Rightarrow> 's \<Rightarrow> 's) \<Rightarrow> ('k, 'v) gomap \<Rightarrow> 's \<Rightarrow> 's" where
  "gm_fold f m s = fold (\<lambda>(k, v). f k v) (gm_range m) s"

text \<open>The copying loop \<^verbatim>\<open>for k, v := range m { result[k] = v }\<close>.\<close>

definition gm_copy :: "('k, 'v) gomap \<Rightarrow> ('k, 'v) gomap" where
  "gm_copy m = gm_fold (\<lambda>k v r. gm_set r k v) m []"

text \<open>The set of keys of two maps, built by two range loops.\<close>

definition gm_union_keys :: "('k, 'v) gomap \<Rightarrow> ('k, 'v) gomap \<Rightarrow> 'k list" where
  "gm_union_keys a b = remdups (gm_keys a @ gm_keys b)"

text \<open>The raising loop \<^verbatim>\<open>for k, v := range b { if r[k] < v { r[k] = v } }\<close>.\<close>

definition gm_raise :: "('k, u64) gomap \<Rightarrow> ('k, u64) gomap \<Rightarrow> ('k, u64) gomap" where
  "gm_raise a b = gm_fold (\<lambda>k v r. if gm_get 0 r k < v then gm_set r k v else r) b a"

lemma map_of_gm_set [simp, gm_simps]: "map_of (gm_set m k v) = (map_of m)(k \<mapsto> v)"
  by (simp add: gm_set_def update_conv')

lemma map_of_gm_del [simp, gm_simps]: "map_of (gm_del m k) = (map_of m)(k := None)"
  by (simp add: gm_del_def delete_conv')

lemma gm_get_set [simp, gm_simps]: "gm_get z (gm_set m k v) j = (if j = k then v else gm_get z m j)"
  by (simp add: gm_get_def)

lemma gm_get_del [simp, gm_simps]: "gm_get z (gm_del m k) j = (if j = k then z else gm_get z m j)"
  by (simp add: gm_get_def)

lemma gm_get_Nil [simp]: "gm_get z [] k = z"
  by (simp add: gm_get_def)

lemma map_of_gm_range [simp]: "map_of (gm_range m) = map_of m"
  by (simp add: gm_range_def map_of_clearjunk)

lemma gm_range_Nil [simp]: "gm_range [] = []"
  by (simp add: gm_range_def)

lemma distinct_gm_range [simp]: "distinct (map fst (gm_range m))"
  by (simp add: gm_range_def)

lemma distinct_gm_keys [simp]: "distinct (gm_keys m)"
  by (simp add: gm_keys_def)

lemma gm_keys_Nil [simp]: "gm_keys [] = []"
  by (simp add: gm_keys_def)

lemma set_gm_keys [simp]: "set (gm_keys m) = dom (map_of m)"
  using dom_map_of_conv_image_fst [of "gm_range m"] by (simp add: gm_keys_def)

lemma set_gm_union_keys [simp]:
  "set (gm_union_keys a b) = dom (map_of a) \<union> dom (map_of b)"
  by (simp add: gm_union_keys_def)

lemma mem_gm_range: "(k, v) \<in> set (gm_range m) \<longleftrightarrow> map_of m k = Some v"
  by (metis distinct_gm_range map_of_eq_Some_iff map_of_gm_range)

lemma mem_gm_vals: "v \<in> set (gm_vals m) \<longleftrightarrow> (\<exists>k. map_of m k = Some v)"
  by (force simp: gm_vals_def image_iff simp flip: mem_gm_range)

lemma gm_len_conv_keys: "gm_len m = card (dom (map_of m))"
  using distinct_card [OF distinct_gm_keys, of m]
  by (simp add: gm_len_def gm_keys_def flip: set_gm_keys)

lemma gm_get_not_dom: "k \<notin> dom (map_of m) \<Longrightarrow> gm_get z m k = z"
  by (simp add: gm_get_def domIff)

lemma gm_get_Some: "map_of m k = Some v \<Longrightarrow> gm_get z m k = v"
  by (simp add: gm_get_def)

lemma gm_len_set: "gm_len (gm_set m k v) = (if k \<in> dom (map_of m) then gm_len m else Suc (gm_len m))"
  by (simp add: gm_len_conv_keys card_insert_if finite_dom_map_of)

lemma gm_fold_Nil [simp]: "gm_fold f [] s = s"
  by (simp add: gm_fold_def)

subsection \<open>Loops that touch only the key they visit\<close>

text \<open>
  A loop body that changes the result at the visited key only leaves, at key \<open>k\<close>, the effect
  of the one iteration that visited \<open>k\<close>. This one lemma characterises every copying,
  raising and filtering loop of the program.
\<close>

lemma fold_pointwise:
  assumes loc: "\<And>k v r j. j \<noteq> k \<Longrightarrow> look (f k v r) j = look r j"
    and own: "\<And>k v r. look (f k v r) k = g k v (look r k)"
    and dist: "distinct (map fst xs)"
  shows "look (fold (\<lambda>(k, v). f k v) xs r) j =
    (case map_of xs j of None \<Rightarrow> look r j | Some v \<Rightarrow> g j v (look r j))"
  using dist
proof (induction xs arbitrary: r)
  case Nil
  then show ?case by simp
next
  case (Cons x xs)
  obtain k v where x: "x = (k, v)" by (cases x)
  have "k \<notin> fst ` set xs" and "distinct (map fst xs)"
    using Cons.prems x by auto
  then have "map_of xs k = None" by (simp add: map_of_eq_None_iff)
  then show ?case
    using Cons.IH [OF \<open>distinct (map fst xs)\<close>, of "f k v r"] x loc own
    by (auto split: option.splits)
qed

lemma gm_fold_pointwise:
  assumes "\<And>k v r j. j \<noteq> k \<Longrightarrow> look (f k v r) j = look r j"
    and "\<And>k v r. look (f k v r) k = g k v (look r k)"
  shows "look (gm_fold f m r) j =
    (case map_of m j of None \<Rightarrow> look r j | Some v \<Rightarrow> g j v (look r j))"
  using fold_pointwise [of look f g "gm_range m" r j] assms by (simp add: gm_fold_def)

lemma map_of_gm_copy [simp, gm_simps]: "map_of (gm_copy m) = map_of m"
proof
  fix j
  show "map_of (gm_copy m) j = map_of m j"
    using gm_fold_pointwise [of map_of "\<lambda>k v r. gm_set r k v" "\<lambda>_ v _. Some v" m "[]" j]
    by (simp add: gm_copy_def split: option.splits)
qed

lemma gm_get_copy [simp, gm_simps]: "gm_get z (gm_copy m) k = gm_get z m k"
  by (simp add: gm_get_def)

lemma gm_get_raise [simp, gm_simps]: "gm_get 0 (gm_raise a b) k = max (gm_get 0 a k) (gm_get 0 b k)"
proof -
  have "gm_get 0 (gm_raise a b) k =
      (case map_of b k of None \<Rightarrow> gm_get 0 a k | Some v \<Rightarrow> max (gm_get 0 a k) v)"
    unfolding gm_raise_def
    by (rule gm_fold_pointwise [where g = "\<lambda>_ v w. max w v"]) (auto simp: max_def)
  then show ?thesis
    by (simp add: gm_get_def [of _ b] word_zero_le max_absorb1 split: option.splits)
qed

lemma dom_gm_raise: "dom (map_of (gm_raise a b)) =
    dom (map_of a) \<union> {k \<in> dom (map_of b). gm_get 0 a k < gm_get 0 b k}"
proof -
  have "map_of (gm_raise a b) k = (case map_of b k of None \<Rightarrow> map_of a k
      | Some v \<Rightarrow> (if (case map_of a k of None \<Rightarrow> 0 | Some w \<Rightarrow> w) < v then Some v else map_of a k))" for k
    unfolding gm_raise_def
    by (rule gm_fold_pointwise [where look = map_of and
          g = "\<lambda>_ v w. if (case w of None \<Rightarrow> 0 | Some w \<Rightarrow> w) < v then Some v else w"])
      (auto simp: gm_get_def)
  then show ?thesis
    by (auto simp: gm_get_def domIff split: option.splits if_splits)
qed

section \<open>Finite sets\<close>

lemma card_Diff_insert_less:
  "finite A \<Longrightarrow> x \<in> A \<Longrightarrow> x \<notin> B \<Longrightarrow> card (A - insert x B) < card (A - B)"
  by (intro psubset_card_mono) auto

section \<open>Words\<close>

text \<open>An increment that does not wrap: the value is not the largest one, \<open>2^64 - 1\<close>.\<close>

definition can_inc :: "u64 \<Rightarrow> bool" where
  "can_inc x \<longleftrightarrow> x \<noteq> - 1"

lemma unat_inc: "can_inc x \<Longrightarrow> unat (x + 1) = Suc (unat x)"
  using unatSuc [of x] by (auto simp: can_inc_def add.commute eq_neg_iff_add_eq_0)

lemma can_inc_less [simp]: "can_inc x \<Longrightarrow> x < x + 1"
  by (simp add: word_less_nat_alt unat_inc)

lemma can_inc_le [simp]: "can_inc x \<Longrightarrow> x \<le> x + 1"
  by (simp add: order_less_imp_le)

lemma can_inc_mono: "can_inc y \<Longrightarrow> x \<le> y \<Longrightarrow> can_inc x"
  by (auto simp: can_inc_def word_order.extremum_unique)

lemma le_plus_1_trans: "can_inc y \<Longrightarrow> x \<le> y \<Longrightarrow> x < y + (1 :: u64)"
  using can_inc_less order_le_less_trans by blast

lemma can_inc_unat: "Suc (unat x) < 2 ^ 64 \<Longrightarrow> can_inc x"
  by (auto simp: can_inc_def unsigned_minus_1_eq_mask mask_eq_exp_minus_1)

section \<open>Formatting numbers\<close>

text \<open>The verb \<^verbatim>\<open>%d\<close> of \<^verbatim>\<open>fmt.Sprintf\<close> on an unsigned integer, and its inverse.\<close>

definition digit :: "nat \<Rightarrow> char" where
  "digit n = char_of (48 + n)"

fun dec :: "nat \<Rightarrow> string" where
  "dec n = (if n < 10 then [digit n] else dec (n div 10) @ [digit (n mod 10)])"

declare dec.simps [simp del]

definition undec :: "string \<Rightarrow> nat" where
  "undec s = foldl (\<lambda>a c. 10 * a + (of_char c - 48)) 0 s"

lemma of_char_digit: "n < 10 \<Longrightarrow> of_char (digit n) = (48 + n :: nat)"
  by (simp add: digit_def)

lemma undec_dec [simp]: "undec (dec n) = n"
proof (induction n rule: dec.induct)
  case (1 n)
  show ?case
  proof (cases "n < 10")
    case True
    then show ?thesis by (subst dec.simps) (simp add: undec_def of_char_digit)
  next
    case False
    have "undec (dec n) = 10 * undec (dec (n div 10)) + (of_char (digit (n mod 10)) - 48)"
      using False by (subst dec.simps) (simp add: undec_def)
    also have "\<dots> = n" using 1 [OF False] by (simp add: of_char_digit)
    finally show ?thesis .
  qed
qed

lemma dec_inject [simp]: "dec m = dec n \<longleftrightarrow> m = n"
  by (metis undec_dec)

end
