(* ===== verification/Go_Interfaces.thy ===== *)
theory Go_Interfaces
  imports Go_Prelude
begin

text \<open>
  The interfaces between the components, as locales. A locale fixes the operations a client
  calls and assumes the laws the provider promises; the client's lemmas are proved here, once.
  Every locale is interpreted on the program's own operations in the theory that models them:
  \<^item> \<open>transition_system\<close> by the components with a step relation or a sequence of operations;
  \<^item> \<open>bounded_queue\<close> and \<open>counted_queue\<close> by the buffered Go channels (bus, subscriber,
    transport);
  \<^item> \<open>componentwise_order\<close> by \<^verbatim>\<open>vector.Compare\<close> and \<^verbatim>\<open>VersionVector.Sync\<close>;
  \<^item> \<open>logical_clock\<close> by the Lamport, vector and matrix clocks.
\<close>

section \<open>Invariants of reachable states\<close>

locale transition_system =
  fixes init :: "'s \<Rightarrow> bool"
    and step :: "'s \<Rightarrow> 's \<Rightarrow> bool"
    and inv :: "'s \<Rightarrow> bool"
  assumes inv_init: "init s \<Longrightarrow> inv s"
    and inv_step: "step s t \<Longrightarrow> inv s \<Longrightarrow> inv t"
begin

lemma inv_steps: "step\<^sup>*\<^sup>* s t \<Longrightarrow> inv s \<Longrightarrow> inv t"
  by (induction rule: rtranclp_induct) (auto intro: inv_step)

lemma inv_reachable: "init s \<Longrightarrow> step\<^sup>*\<^sup>* s t \<Longrightarrow> inv t"
  by (blast intro: inv_init inv_steps)

end

section \<open>Systems that come to rest\<close>

text \<open>
  Runs in which the steps of a group of goroutines are interleaved with steps of others: the number of own steps,
  and of the items that arrived in their queues meanwhile.
\<close>

inductive counted_run :: "('s \<Rightarrow> 's \<Rightarrow> bool) \<Rightarrow> ('s \<Rightarrow> 's \<Rightarrow> bool) \<Rightarrow> ('s \<Rightarrow> nat) \<Rightarrow> nat \<Rightarrow> nat \<Rightarrow> 's \<Rightarrow> 's \<Rightarrow> bool"
  for step :: "'s \<Rightarrow> 's \<Rightarrow> bool" and others :: "'s \<Rightarrow> 's \<Rightarrow> bool" and queued :: "'s \<Rightarrow> nat" where
  no_step: "counted_run step others queued 0 0 s s"
| own_step: "counted_run step others queued n arrived s t \<Longrightarrow> step t u \<Longrightarrow>
    counted_run step others queued (Suc n) (arrived + (queued u - queued t)) s u"
| other_step: "counted_run step others queued n arrived s t \<Longrightarrow> others t u \<Longrightarrow>
    counted_run step others queued n (arrived + (queued u - queued t)) s u"

text \<open>
  Steps that each use up some work or take an item from a queue, and are possible until the system has finished,
  whatever others do meanwhile: a run has at most as many steps as there was work and items at its start, and as
  items arrived, and it cannot stop before the system has finished.
\<close>

locale draining_system = transition_system init step inv
  for init :: "'s \<Rightarrow> bool" and step :: "'s \<Rightarrow> 's \<Rightarrow> bool" and inv :: "'s \<Rightarrow> bool" +
  fixes others :: "'s \<Rightarrow> 's \<Rightarrow> bool"
    and work :: "'s \<Rightarrow> nat"
    and queued :: "'s \<Rightarrow> nat"
    and finished :: "'s \<Rightarrow> bool"
  assumes step_work: "inv s \<Longrightarrow> step s t \<Longrightarrow> work t < work s \<or> work t = work s \<and> queued t < queued s"
    and others_inv: "others s t \<Longrightarrow> inv s \<Longrightarrow> inv t"
    and others_work: "inv s \<Longrightarrow> others s t \<Longrightarrow> work t \<le> work s"
    and progress: "inv s \<Longrightarrow> \<not> finished s \<Longrightarrow> \<exists>t. step s t"
begin

lemma run_work:
  "counted_run step others queued n arrived s t \<Longrightarrow> inv s \<Longrightarrow>
     inv t \<and> n + work t + queued t \<le> work s + queued s + arrived"
proof (induction rule: counted_run.induct)
  case (own_step n arrived s t u)
  then show ?case using step_work [of t u] inv_step [of t u] by auto
next
  case (other_step n arrived s t u)
  then show ?case using others_work [of t u] others_inv [of t u] by auto
qed auto

lemma run_ends:
  "init s \<Longrightarrow> counted_run step others queued n arrived s t \<Longrightarrow>
     n \<le> work s + queued s + arrived \<and> (finished t \<or> (\<exists>u. step t u))"
  using run_work [of n arrived s t] inv_init [of s] progress [of t] by auto

end

section \<open>Buffered channels written without blocking\<close>

text \<open>
  \<^verbatim>\<open>select { case ch <- x: default: ... }\<close> on a channel made with a capacity appends when
  there is room and otherwise leaves the buffer alone.
\<close>

locale bounded_queue =
  fixes contents :: "'q \<Rightarrow> 'a list"
    and capacity :: nat
    and push :: "'a \<Rightarrow> 'q \<Rightarrow> 'q"
  assumes push_room: "length (contents q) < capacity \<Longrightarrow> contents (push x q) = contents q @ [x]"
    and push_full: "\<not> length (contents q) < capacity \<Longrightarrow> contents (push x q) = contents q"
begin

lemma push_bounded: "length (contents q) \<le> capacity \<Longrightarrow> length (contents (push x q)) \<le> capacity"
  by (cases "length (contents q) < capacity") (simp_all add: push_room push_full)

text \<open>A burst of pushes keeps the oldest elements, in the order they were pushed.\<close>

lemma pushes_contents:
  "length (contents q) \<le> capacity \<Longrightarrow>
   contents (fold push xs q) = contents q @ take (capacity - length (contents q)) xs"
proof (induction xs arbitrary: q)
  case Nil
  then show ?case by simp
next
  case (Cons x xs)
  show ?case
  proof (cases "length (contents q) < capacity")
    case True
    then have "length (contents (push x q)) \<le> capacity" by (simp add: push_room)
    from Cons.IH [OF this] True show ?thesis
      by (simp add: push_room take_Cons' Suc_diff_Suc)
  next
    case False
    then have "length (contents (push x q)) \<le> capacity" using Cons.prems by (simp add: push_full)
    from Cons.IH [OF this] False show ?thesis
      by (simp add: push_full take_Cons')
  qed
qed

end

text \<open>A channel whose owner counts what it drops, in a counter of 64 bits.\<close>

locale counted_queue = bounded_queue contents capacity push
  for contents :: "'q \<Rightarrow> 'a list" and capacity and push +
  fixes drops :: "'q \<Rightarrow> u64"
  assumes drops_room: "length (contents q) < capacity \<Longrightarrow> drops (push x q) = drops q"
    and drops_full: "\<not> length (contents q) < capacity \<Longrightarrow> drops (push x q) = drops q + 1"
begin

lemma pushes_drops:
  "length (contents q) \<le> capacity \<Longrightarrow>
   drops (fold push xs q) = drops q + of_nat (length xs - (capacity - length (contents q)))"
proof (induction xs arbitrary: q)
  case Nil
  then show ?case by simp
next
  case (Cons x xs)
  show ?case
  proof (cases "length (contents q) < capacity")
    case True
    then have "length (contents (push x q)) \<le> capacity" by (simp add: push_room)
    from Cons.IH [OF this] True show ?thesis
      by (simp add: push_room drops_room Suc_diff_le)
  next
    case False
    then have "length (contents (push x q)) \<le> capacity" using Cons.prems by (simp add: push_full)
    from Cons.IH [OF this] False show ?thesis
      by (simp add: push_full drops_full add_ac)
  qed
qed

end

section \<open>Comparing counter maps\<close>

text \<open>
  A comparison of two maps of counters that answers with one of four verdicts, decided by
  the two facts "some component of the first is smaller" and "some component of the second is
  smaller".
\<close>

locale componentwise_order =
  fixes look :: "'c \<Rightarrow> 'k \<Rightarrow> u64"
    and cmp :: "'c \<Rightarrow> 'c \<Rightarrow> 'r"
    and before after conc same :: 'r
  assumes verdicts: "distinct [before, after, conc, same]"
    and cmp_spec: "cmp a b =
      (if \<exists>k. look a k < look b k
       then (if \<exists>k. look b k < look a k then conc else before)
       else (if \<exists>k. look b k < look a k then after else same))"
begin

lemma cmp_before: "cmp a b = before \<longleftrightarrow> (\<forall>k. look a k \<le> look b k) \<and> (\<exists>k. look a k < look b k)"
  using verdicts by (auto simp: cmp_spec simp flip: not_less)

lemma cmp_after: "cmp a b = after \<longleftrightarrow> (\<forall>k. look b k \<le> look a k) \<and> (\<exists>k. look b k < look a k)"
  using verdicts by (auto simp: cmp_spec simp flip: not_less)

lemma cmp_conc: "cmp a b = conc \<longleftrightarrow> (\<exists>k. look a k < look b k) \<and> (\<exists>k. look b k < look a k)"
  using verdicts by (auto simp: cmp_spec)

lemma cmp_same: "cmp a b = same \<longleftrightarrow> look a = look b"
proof
  assume "cmp a b = same"
  then have "\<forall>k. \<not> look a k < look b k \<and> \<not> look b k < look a k"
    using verdicts by (auto simp: cmp_spec split: if_splits)
  then show "look a = look b" by (intro ext) (meson linorder_neqE)
next
  assume "look a = look b"
  then show "cmp a b = same" by (simp add: cmp_spec)
qed

lemma cmp_exhaust: "cmp a b \<in> {before, after, conc, same}"
  by (simp add: cmp_spec)

lemma cmp_flip: "cmp a b = before \<longleftrightarrow> cmp b a = after" "cmp a b = conc \<longleftrightarrow> cmp b a = conc"
    "cmp a b = same \<longleftrightarrow> cmp b a = same"
  by (auto simp: cmp_before cmp_after cmp_conc cmp_same)

lemma cmp_irrefl: "cmp a a = same"
  by (simp add: cmp_same)

lemma cmp_before_trans:
  assumes ab: "cmp a b = before" and bc: "cmp b c = before"
  shows "cmp a c = before"
proof -
  obtain k where "look a k < look b k" using ab by (auto simp: cmp_before)
  moreover have "look b k \<le> look c k" using bc by (simp add: cmp_before)
  ultimately have "look a k < look c k" by (rule order_less_le_trans)
  moreover have "look a j \<le> look c j" for j
    using ab bc unfolding cmp_before by (meson order_trans)
  ultimately show ?thesis by (auto simp: cmp_before)
qed

lemma cmp_cong: "look a = look a' \<Longrightarrow> look b = look b' \<Longrightarrow> cmp a b = cmp a' b'"
  by (simp add: cmp_spec)

text \<open>The weak order "before or the same" is the componentwise order.\<close>

lemma cmp_weak: "cmp a b = before \<or> cmp a b = same \<longleftrightarrow> (\<forall>k. look a k \<le> look b k)"
proof
  assume "\<forall>k. look a k \<le> look b k"
  then show "cmp a b = before \<or> cmp a b = same"
    by (auto simp: cmp_spec not_le [symmetric])
qed (auto simp: cmp_before cmp_same)

end

section \<open>Logical clocks\<close>

text \<open>
  What the process layer needs of a clock. \<open>time\<close> is the part of a clock that is compared,
  \<open>stamp\<close> the same part of a message; \<open>room\<close> says that an increment of the clock does not
  wrap, \<open>fits\<close> the same of the receipt of a message.
\<close>

datatype 'm local_event = Internal | Received 'm

fun clock_step :: "('c \<Rightarrow> 'c) \<Rightarrow> ('c \<Rightarrow> 'm \<Rightarrow> 'c) \<Rightarrow> 'c \<Rightarrow> 'm local_event \<Rightarrow> 'c" where
  "clock_step tick recv c Internal = tick c"
| "clock_step tick recv c (Received m) = recv c m"

text \<open>The clock of a process after a sequence of its events.\<close>

fun clock_run :: "('c \<Rightarrow> 'c) \<Rightarrow> ('c \<Rightarrow> 'm \<Rightarrow> 'c) \<Rightarrow> 'c \<Rightarrow> 'm local_event list \<Rightarrow> 'c" where
  "clock_run tick recv c [] = c"
| "clock_run tick recv c (e # es) = clock_run tick recv (clock_step tick recv c e) es"

text \<open>No event of the sequence makes a counter wrap.\<close>

fun clock_ok :: "('c \<Rightarrow> bool) \<Rightarrow> ('c \<Rightarrow> 'm \<Rightarrow> bool) \<Rightarrow> ('c \<Rightarrow> 'c) \<Rightarrow> ('c \<Rightarrow> 'm \<Rightarrow> 'c) \<Rightarrow>
    'c \<Rightarrow> 'm local_event list \<Rightarrow> bool" where
  "clock_ok room fits tick recv c [] = True"
| "clock_ok room fits tick recv c (Internal # es) =
     (room c \<and> clock_ok room fits tick recv (tick c) es)"
| "clock_ok room fits tick recv c (Received m # es) =
     (fits c m \<and> clock_ok room fits tick recv (recv c m) es)"

locale logical_clock =
  fixes le :: "'t \<Rightarrow> 't \<Rightarrow> bool"
    and time :: "'c \<Rightarrow> 't"
    and stamp :: "'m \<Rightarrow> 't"
    and room :: "'c \<Rightarrow> bool"
    and fits :: "'c \<Rightarrow> 'm \<Rightarrow> bool"
    and tick :: "'c \<Rightarrow> 'c"
    and recv :: "'c \<Rightarrow> 'm \<Rightarrow> 'c"
  assumes le_refl: "le x x"
    and le_trans: "le x y \<Longrightarrow> le y z \<Longrightarrow> le x z"
    and tick_le: "room c \<Longrightarrow> le (time c) (time (tick c))"
    and tick_strict: "room c \<Longrightarrow> \<not> le (time (tick c)) (time c)"
    and recv_le_local: "fits c m \<Longrightarrow> le (time c) (time (recv c m))"
    and recv_strict_local: "fits c m \<Longrightarrow> \<not> le (time (recv c m)) (time c)"
    and recv_le_stamp: "fits c m \<Longrightarrow> le (stamp m) (time (recv c m))"
    and recv_strict_stamp: "fits c m \<Longrightarrow> \<not> le (time (recv c m)) (stamp m)"
begin

definition before :: "'t \<Rightarrow> 't \<Rightarrow> bool" where
  "before x y \<longleftrightarrow> le x y \<and> \<not> le y x"

lemma before_trans: "before x y \<Longrightarrow> before y z \<Longrightarrow> before x z"
  unfolding before_def by (blast intro: le_trans)

lemma before_le_trans: "before x y \<Longrightarrow> le y z \<Longrightarrow> before x z"
  unfolding before_def by (blast intro: le_trans)

lemma le_before_trans: "le x y \<Longrightarrow> before y z \<Longrightarrow> before x z"
  unfolding before_def by (blast intro: le_trans)

lemma tick_before: "room c \<Longrightarrow> before (time c) (time (tick c))"
  by (simp add: before_def tick_le tick_strict)

lemma recv_before_local: "fits c m \<Longrightarrow> before (time c) (time (recv c m))"
  by (simp add: before_def recv_le_local recv_strict_local)

lemma recv_before_stamp: "fits c m \<Longrightarrow> before (stamp m) (time (recv c m))"
  by (simp add: before_def recv_le_stamp recv_strict_stamp)

lemma clock_run_le: "clock_ok room fits tick recv c es \<Longrightarrow> le (time c) (time (clock_run tick recv c es))"
proof (induction es arbitrary: c rule: list.induct)
  case Nil
  then show ?case by (simp add: le_refl)
next
  case (Cons e es)
  then show ?case
    by (cases e) (auto intro: le_trans tick_le recv_le_local)
qed

text \<open>Program order: every later event of a process has a larger time.\<close>

lemma clock_run_before:
  assumes "clock_ok room fits tick recv c es" and "es \<noteq> []"
  shows "before (time c) (time (clock_run tick recv c es))"
proof -
  obtain e es' where es: "es = e # es'" using assms(2) by (cases es) auto
  have "before (time c) (time (clock_step tick recv c e))"
    using assms(1) es by (cases e) (auto intro: tick_before recv_before_local)
  moreover have "le (time (clock_step tick recv c e)) (time (clock_run tick recv (clock_step tick recv c e) es'))"
    using assms(1) es by (cases e) (auto intro: clock_run_le)
  ultimately show ?thesis using es by (auto intro: before_le_trans)
qed

text \<open>The clock condition across a message: the receiver, after any further events, is
  after the stamp of every message it received.\<close>

lemma message_before:
  assumes "clock_ok room fits tick recv c (Received m # es)"
  shows "before (stamp m) (time (clock_run tick recv c (Received m # es)))"
proof -
  have "before (stamp m) (time (recv c m))" using assms by (simp add: recv_before_stamp)
  moreover have "le (time (recv c m)) (time (clock_run tick recv (recv c m) es))"
    using assms by (intro clock_run_le) simp
  ultimately show ?thesis by (simp add: before_le_trans)
qed

end

end
