(* ===== verification/Lamport_Clock.thy ===== *)
theory Lamport_Clock
  imports Go_Interfaces
begin

text \<open>
  \<^verbatim>\<open>internal/clock/lamport/clock.go\<close>: the scalar clock and the total order on its
  timestamps. The mutex makes each method one atomic step, so a method is a function from the
  clock to the new clock and the value it returns.
\<close>

record lamport =
  lc_value :: u64
  lc_pid :: string

definition lamport_New :: "string \<Rightarrow> lamport" where
  "lamport_New p = \<lparr>lc_value = 0, lc_pid = p\<rparr>"

definition lamport_Tick :: "lamport \<Rightarrow> lamport \<times> u64" where
  "lamport_Tick c = (let c' = c\<lparr>lc_value := lc_value c + 1\<rparr> in (c', lc_value c'))"

definition lamport_Send :: "lamport \<Rightarrow> lamport \<times> u64" where
  "lamport_Send c = lamport_Tick c"

definition lamport_Receive :: "lamport \<Rightarrow> u64 \<Rightarrow> lamport \<times> u64" where
  "lamport_Receive c ts =
     (let c' = (if lc_value c < ts then c\<lparr>lc_value := ts\<rparr> else c);
          c'' = c'\<lparr>lc_value := lc_value c' + 1\<rparr>
      in (c'', lc_value c''))"

definition lamport_Value :: "lamport \<Rightarrow> u64" where
  "lamport_Value c = lc_value c"

definition lamport_PID :: "lamport \<Rightarrow> string" where
  "lamport_PID c = lc_pid c"

definition lamport_TotalOrder :: "u64 \<Rightarrow> string \<Rightarrow> u64 \<Rightarrow> string \<Rightarrow> int" where
  "lamport_TotalOrder ts1 pid1 ts2 pid2 =
     (if ts1 \<noteq> ts2 then (if ts1 < ts2 then - 1 else 1)
      else if pid1 < pid2 then - 1
      else if pid1 > pid2 then 1
      else 0)"

section \<open>The clock laws\<close>

lemma lamport_Tick_value [simp]: "lc_value (fst (lamport_Tick c)) = lc_value c + 1"
  by (simp add: lamport_Tick_def Let_def)

lemma lamport_Receive_value [simp]:
  "lc_value (fst (lamport_Receive c ts)) = max (lc_value c) ts + 1"
  by (auto simp: lamport_Receive_def Let_def max_def)

definition lamport_room :: "lamport \<Rightarrow> bool" where
  "lamport_room c \<longleftrightarrow> can_inc (lc_value c)"

definition lamport_fits :: "lamport \<Rightarrow> u64 \<Rightarrow> bool" where
  "lamport_fits c ts \<longleftrightarrow> can_inc (max (lc_value c) ts)"

interpretation lamport_lc: logical_clock "(\<le>)" lc_value "\<lambda>ts. ts" lamport_room lamport_fits
  "\<lambda>c. fst (lamport_Tick c)" "\<lambda>c ts. fst (lamport_Receive c ts)"
proof unfold_locales
  fix c :: lamport and m :: u64
  assume fits: "lamport_fits c m"
  have "lc_value c < max (lc_value c) m + 1" and "m < max (lc_value c) m + 1"
    using fits by (auto simp: lamport_fits_def intro: le_plus_1_trans)
  then show "lc_value c \<le> lc_value (fst (lamport_Receive c m))"
    and "\<not> lc_value (fst (lamport_Receive c m)) \<le> lc_value c"
    and "m \<le> lc_value (fst (lamport_Receive c m))"
    and "\<not> lc_value (fst (lamport_Receive c m)) \<le> m"
    by (simp_all add: not_le)
qed (auto simp: lamport_room_def not_le)

abbreviation lamport_run :: "lamport \<Rightarrow> u64 local_event list \<Rightarrow> lamport" where
  "lamport_run \<equiv> clock_run (\<lambda>c. fst (lamport_Tick c)) (\<lambda>c ts. fst (lamport_Receive c ts))"

abbreviation lamport_ok :: "lamport \<Rightarrow> u64 local_event list \<Rightarrow> bool" where
  "lamport_ok \<equiv> clock_ok lamport_room lamport_fits
     (\<lambda>c. fst (lamport_Tick c)) (\<lambda>c ts. fst (lamport_Receive c ts))"

lemma lamport_before_iff [simp]: "lamport_lc.before x y \<longleftrightarrow> x < y"
  by (auto simp: lamport_lc.before_def)

section \<open>The total order on timestamps\<close>

text \<open>Timestamps with their process identifiers, ordered by \<^const>\<open>lamport_TotalOrder\<close>.\<close>

datatype lamport_stamp = LamportStamp (ls_time: u64) (ls_pid: string)

definition stamp_order :: "lamport_stamp \<Rightarrow> lamport_stamp \<Rightarrow> int" where
  "stamp_order a b = lamport_TotalOrder (ls_time a) (ls_pid a) (ls_time b) (ls_pid b)"

lemma stamp_order_less:
  "stamp_order a b = - 1 \<longleftrightarrow> ls_time a < ls_time b \<or> ls_time a = ls_time b \<and> ls_pid a < ls_pid b"
  by (auto simp: stamp_order_def lamport_TotalOrder_def)

lemma stamp_order_greater: "stamp_order a b = 1 \<longleftrightarrow> stamp_order b a = - 1"
  by (auto simp: stamp_order_def lamport_TotalOrder_def)

lemma stamp_order_equal: "stamp_order a b = 0 \<longleftrightarrow> a = b"
  by (cases a; cases b) (auto simp: stamp_order_def lamport_TotalOrder_def)

lemma stamp_order_values: "stamp_order a b \<in> {- 1, 0, 1}"
  by (simp add: stamp_order_def lamport_TotalOrder_def)

instantiation lamport_stamp :: linorder
begin

definition less_lamport_stamp :: "lamport_stamp \<Rightarrow> lamport_stamp \<Rightarrow> bool" where
  "less_lamport_stamp a b \<longleftrightarrow> stamp_order a b = - 1"

definition less_eq_lamport_stamp :: "lamport_stamp \<Rightarrow> lamport_stamp \<Rightarrow> bool" where
  "less_eq_lamport_stamp a b \<longleftrightarrow> stamp_order a b \<noteq> 1"

instance
proof
  fix a b c :: lamport_stamp
  have leq: "a \<le> b \<longleftrightarrow> a < b \<or> a = b" for a b :: lamport_stamp
    by (cases a; cases b) (auto simp: less_lamport_stamp_def less_eq_lamport_stamp_def
        stamp_order_def lamport_TotalOrder_def)
  have tr: "a < b \<Longrightarrow> b < c \<Longrightarrow> a < c" for a b c :: lamport_stamp
    unfolding less_lamport_stamp_def stamp_order_less by (elim disjE conjE) auto
  have irr: "\<not> a < a" for a :: lamport_stamp
    unfolding less_lamport_stamp_def stamp_order_less by blast
  have asym: "a < b \<Longrightarrow> \<not> b < a" for a b :: lamport_stamp
    using tr [of a b a] irr [of a] by blast
  show "a < b \<longleftrightarrow> a \<le> b \<and> \<not> b \<le> a"
    unfolding leq using asym [of a b] irr [of a] by auto
  show "a \<le> a" by (simp add: leq)
  show "a \<le> b \<Longrightarrow> b \<le> c \<Longrightarrow> a \<le> c"
    unfolding leq using tr [of a b c] by auto
  show "a \<le> b \<Longrightarrow> b \<le> a \<Longrightarrow> a = b"
    unfolding leq using asym [of a b] by auto
  show "a \<le> b \<or> b \<le> a"
    using stamp_order_greater [of a b] by (auto simp: less_eq_lamport_stamp_def)
qed

end

section \<open>Properties\<close>

text \<open>
  The Lamport clock condition. A process sends with stamp \<open>ts\<close>; a process that
  receives that stamp, and then takes any further local steps, is at a strictly larger clock
  value, as long as no counter wraps. In particular the value of a process grows strictly
  with each of its events.
\<close>

theorem lamport_clock_condition:
  assumes "lamport_Send s = (s', ts)" and "lamport_room s"
    and "lamport_ok c (Received ts # es)"
  shows "lc_value s < ts \<and> lamport_Value s' = ts
    \<and> ts < lamport_Value (lamport_run c (Received ts # es))
    \<and> lamport_Value c < lamport_Value (lamport_run c (Received ts # es))"
proof -
  have ts: "ts = lc_value s + 1" "s' = fst (lamport_Tick s)"
    using assms(1) by (auto simp: lamport_Send_def lamport_Tick_def Let_def)
  show ?thesis
    using assms lamport_lc.message_before [OF assms(3)] lamport_lc.clock_run_before [OF assms(3)] ts
    by (auto simp: lamport_Value_def lamport_room_def)
qed

theorem lamport_clock_condition_witness:
  "(5 :: u64) < 6 \<and> (6 :: u64) < lamport_Value (lamport_run (lamport_New ''P2'') [Received 6, Internal])"
proof -
  have "lamport_Send \<lparr>lc_value = 5, lc_pid = ''P1''\<rparr> = (\<lparr>lc_value = 6, lc_pid = ''P1''\<rparr>, 6)"
    by (simp add: lamport_Send_def lamport_Tick_def)
  moreover have "lamport_room \<lparr>lc_value = 5, lc_pid = ''P1''\<rparr>"
    by (simp add: lamport_room_def can_inc_def)
  moreover have "lamport_ok (lamport_New ''P2'') (Received 6 # [Internal])"
    by (simp add: lamport_room_def lamport_fits_def can_inc_def lamport_New_def)
  ultimately show ?thesis
    using lamport_clock_condition by fastforce
qed

text \<open>
  \<^verbatim>\<open>TotalOrder\<close> is a total order on (timestamp, process) pairs: it answers \<open>-1\<close>,
  \<open>0\<close> or \<open>1\<close>; swapping the arguments negates the answer; it answers \<open>0\<close> exactly on
  equal pairs; and "smaller" is transitive.
\<close>

theorem lamport_TotalOrder_total:
  "lamport_TotalOrder t p u q \<in> {- 1, 0, 1}
   \<and> lamport_TotalOrder u q t p = - lamport_TotalOrder t p u q
   \<and> (lamport_TotalOrder t p u q = 0 \<longleftrightarrow> t = u \<and> p = q)
   \<and> (lamport_TotalOrder t p u q = - 1 \<and> lamport_TotalOrder u q v r = - 1
        \<longrightarrow> lamport_TotalOrder t p v r = - 1)"
proof (intro conjI impI)
  show "lamport_TotalOrder t p u q \<in> {- 1, 0, 1}"
    by (simp add: lamport_TotalOrder_def)
  show "lamport_TotalOrder u q t p = - lamport_TotalOrder t p u q"
    by (auto simp: lamport_TotalOrder_def)
  show "lamport_TotalOrder t p u q = 0 \<longleftrightarrow> t = u \<and> p = q"
    by (auto simp: lamport_TotalOrder_def)
  assume "lamport_TotalOrder t p u q = - 1 \<and> lamport_TotalOrder u q v r = - 1"
  then have "LamportStamp t p < LamportStamp u q" "LamportStamp u q < LamportStamp v r"
    by (simp_all add: less_lamport_stamp_def stamp_order_def)
  then have "LamportStamp t p < LamportStamp v r" by (rule order_less_trans)
  then show "lamport_TotalOrder t p v r = - 1"
    by (simp add: less_lamport_stamp_def stamp_order_def)
qed

theorem lamport_TotalOrder_total_witness:
  "lamport_TotalOrder 3 ''P1'' 3 ''P2'' = - 1 \<and> lamport_TotalOrder 3 ''P2'' 4 ''P1'' = - 1
   \<and> lamport_TotalOrder 3 ''P1'' 4 ''P1'' = - 1"
  using lamport_TotalOrder_total [of 3 "''P1''" 3 "''P2''" 4 "''P1''"]
  by (simp add: lamport_TotalOrder_def)

end
