(* ===== verification/Vector_Clock.thy ===== *)
theory Vector_Clock
  imports Go_Interfaces "HOL-Library.Product_Lexorder"
begin

text \<open>
  \<^verbatim>\<open>internal/clock/vector\<close>: the vector clock operations (\<^verbatim>\<open>clock.go\<close>), the comparison and
  the grouping of concurrent events (\<^verbatim>\<open>compare.go\<close>), and differences of clocks
  (\<^verbatim>\<open>diff.go\<close>). Clocks are maps whose missing keys read as 0; the functions never mutate
  their arguments, so each is a function of its arguments.
\<close>

type_synonym vclock = "(pid, u64) gomap"

abbreviation vget :: "vclock \<Rightarrow> pid \<Rightarrow> u64" where
  "vget \<equiv> gm_get 0"

section \<open>Clock operations\<close>

definition vector_New :: "pid list \<Rightarrow> vclock" where
  "vector_New pids = fold (\<lambda>p vc. gm_set vc p 0) pids []"

definition vector_Copy :: "vclock \<Rightarrow> vclock" where
  "vector_Copy vc = gm_copy vc"

definition vector_Tick :: "vclock \<Rightarrow> pid \<Rightarrow> vclock" where
  "vector_Tick vc p = (let result = vector_Copy vc in gm_set result p (vget result p + 1))"

definition vector_Send :: "vclock \<Rightarrow> pid \<Rightarrow> vclock \<times> vclock" where
  "vector_Send vc p = (let local = vector_Tick vc p in (local, vector_Copy local))"

definition vector_MergePassive :: "vclock \<Rightarrow> vclock \<Rightarrow> vclock" where
  "vector_MergePassive a b =
     gm_fold (\<lambda>k v result. if vget result k < v then gm_set result k v else result) b (vector_Copy a)"

definition vector_Receive :: "vclock \<Rightarrow> vclock \<Rightarrow> pid \<Rightarrow> vclock" where
  "vector_Receive local msgVC p = vector_Tick (vector_MergePassive local msgVC) p"

section \<open>Comparison\<close>

datatype ClockOrder = HappenedBefore | HappenedAfter | Concurrent | Identical

text \<open>The loop over the union of the keys, with its early exit.\<close>

fun vector_Compare_loop :: "vclock \<Rightarrow> vclock \<Rightarrow> pid list \<Rightarrow> bool \<Rightarrow> bool \<Rightarrow> ClockOrder" where
  "vector_Compare_loop a b [] aLessB bLessA =
     (if \<not> aLessB \<and> \<not> bLessA then Identical
      else if aLessB \<and> \<not> bLessA then HappenedBefore
      else if bLessA \<and> \<not> aLessB then HappenedAfter
      else Concurrent)"
| "vector_Compare_loop a b (k # ks) aLessB bLessA =
     (let av = vget a k; bv = vget b k;
          aLessB' = (if av < bv then True else aLessB);
          bLessA' = (if bv < av then True else bLessA)
      in if aLessB' \<and> bLessA' then Concurrent
         else vector_Compare_loop a b ks aLessB' bLessA')"

definition vector_Compare :: "vclock \<Rightarrow> vclock \<Rightarrow> ClockOrder" where
  "vector_Compare a b = vector_Compare_loop a b (gm_union_keys a b) False False"

definition vector_Equal :: "vclock \<Rightarrow> vclock \<Rightarrow> bool" where
  "vector_Equal a b \<longleftrightarrow> vector_Compare a b = Identical"

definition vector_LessThan :: "vclock \<Rightarrow> vclock \<Rightarrow> bool" where
  "vector_LessThan a b \<longleftrightarrow> vector_Compare a b = HappenedBefore"

section \<open>Groups of concurrent events\<close>

record VCEvent =
  vce_ID :: string
  vce_Clock :: vclock

text \<open>The sort key: the wrapping sum of the components, then the identifier.\<close>

definition clock_sum :: "vclock \<Rightarrow> u64" where
  "clock_sum vc = gm_fold (\<lambda>_ v s. s + v) vc 0"

definition vector_sortEvents :: "VCEvent list \<Rightarrow> VCEvent list" where
  "vector_sortEvents events = sort_key (\<lambda>e. (clock_sum (vce_Clock e), vce_ID e)) events"

definition concurrent_with_all :: "VCEvent \<Rightarrow> VCEvent list \<Rightarrow> bool" where
  "concurrent_with_all ev grp \<longleftrightarrow>
     list_all (\<lambda>gev. let rel = vector_Compare (vce_Clock ev) (vce_Clock gev)
        in \<not> (rel = HappenedBefore \<or> rel = HappenedAfter \<or> rel = Identical)) grp"

text \<open>The inner loop: append to the first group the event is concurrent with, else open one.\<close>

fun place_event :: "VCEvent \<Rightarrow> VCEvent list list \<Rightarrow> VCEvent list list" where
  "place_event ev [] = [[ev]]"
| "place_event ev (g # gs) =
     (if concurrent_with_all ev g then (g @ [ev]) # gs else g # place_event ev gs)"

definition vector_ConcurrentSet :: "VCEvent list \<Rightarrow> VCEvent list list" where
  "vector_ConcurrentSet events =
     (if events = [] then [] else fold place_event (vector_sortEvents events) [])"

section \<open>Differences\<close>

record DiffVC =
  Entries :: "(pid, u64) gomap"

definition vector_Diff :: "vclock \<Rightarrow> vclock \<Rightarrow> DiffVC" where
  "vector_Diff prev current =
     \<lparr>Entries = fold (\<lambda>k entries. if vget prev k < vget current k
        then gm_set entries k (vget current k) else entries) (gm_union_keys prev current) []\<rparr>"

definition vector_Apply :: "vclock \<Rightarrow> DiffVC \<Rightarrow> vclock" where
  "vector_Apply base diff =
     gm_fold (\<lambda>k v result. if v > vget result k then gm_set result k v else result)
       (Entries diff) (vector_Copy base)"

section \<open>Component lemmas\<close>

lemma vget_New [simp, gm_simps]: "vget (vector_New pids) k = 0"
proof -
  have "vget (fold (\<lambda>p vc. gm_set vc p 0) pids m) k = 0" if "vget m k = 0" for m
    using that by (induction pids arbitrary: m) auto
  then show ?thesis by (simp add: vector_New_def)
qed

lemma vget_Copy [simp, gm_simps]: "vget (vector_Copy vc) k = vget vc k"
  by (simp add: vector_Copy_def)

lemma map_of_Copy [simp]: "map_of (vector_Copy vc) = map_of vc"
  by (simp add: vector_Copy_def)

lemma vget_Tick [simp, gm_simps]:
  "vget (vector_Tick vc p) k = (if k = p then vget vc p + 1 else vget vc k)"
  by (simp add: vector_Tick_def Let_def)

lemma MergePassive_raise: "vector_MergePassive a b = gm_raise (vector_Copy a) b"
  by (simp add: vector_MergePassive_def gm_raise_def)

lemma vget_MergePassive [simp, gm_simps]:
  "vget (vector_MergePassive a b) k = max (vget a k) (vget b k)"
  by (simp add: MergePassive_raise)

lemma vget_Receive [gm_simps]: "vget (vector_Receive local msgVC p) k =
    (if k = p then max (vget local p) (vget msgVC p) + 1 else max (vget local k) (vget msgVC k))"
  by (simp add: vector_Receive_def)

lemma Send_parts [simp]:
  "fst (vector_Send vc p) = vector_Tick vc p"
  "vget (snd (vector_Send vc p)) k = vget (vector_Tick vc p) k"
  by (simp_all add: vector_Send_def Let_def)

subsection \<open>The comparison\<close>

lemma Compare_loop_spec:
  "\<not> (l \<and> g) \<Longrightarrow> vector_Compare_loop a b ks l g =
    (if l \<or> (\<exists>k \<in> set ks. vget a k < vget b k)
     then (if g \<or> (\<exists>k \<in> set ks. vget b k < vget a k) then Concurrent else HappenedBefore)
     else (if g \<or> (\<exists>k \<in> set ks. vget b k < vget a k) then HappenedAfter else Identical))"
  by (induction ks arbitrary: l g) (auto simp: Let_def)

lemma less_in_union_keys: "vget a k < vget b k \<Longrightarrow> k \<in> set (gm_union_keys a b)"
  by (cases "k \<in> dom (map_of b)") (auto simp: gm_get_not_dom)

lemma greater_in_union_keys: "vget b k < vget a k \<Longrightarrow> k \<in> set (gm_union_keys a b)"
  by (cases "k \<in> dom (map_of a)") (auto simp: gm_get_not_dom)

interpretation vector_cmp: componentwise_order vget vector_Compare
  HappenedBefore HappenedAfter Concurrent Identical
proof unfold_locales
  fix a b
  have "(\<exists>k \<in> set (gm_union_keys a b). vget a k < vget b k) \<longleftrightarrow> (\<exists>k. vget a k < vget b k)"
    and "(\<exists>k \<in> set (gm_union_keys a b). vget b k < vget a k) \<longleftrightarrow> (\<exists>k. vget b k < vget a k)"
    using less_in_union_keys greater_in_union_keys by blast+
  then show "vector_Compare a b =
      (if \<exists>k. vget a k < vget b k
       then if \<exists>k. vget b k < vget a k then Concurrent else HappenedBefore
       else if \<exists>k. vget b k < vget a k then HappenedAfter else Identical)"
    by (simp add: vector_Compare_def Compare_loop_spec)
qed simp

subsection \<open>The clock laws\<close>

definition vector_le :: "vclock \<Rightarrow> vclock \<Rightarrow> bool" where
  "vector_le a b \<longleftrightarrow> vector_Compare a b = HappenedBefore \<or> vector_Compare a b = Identical"

lemma vector_le_iff: "vector_le a b \<longleftrightarrow> (\<forall>k. vget a k \<le> vget b k)"
  by (simp add: vector_le_def vector_cmp.cmp_weak)

definition vector_room :: "pid \<Rightarrow> vclock \<Rightarrow> bool" where
  "vector_room p vc \<longleftrightarrow> can_inc (vget vc p)"

definition vector_fits :: "pid \<Rightarrow> vclock \<Rightarrow> vclock \<Rightarrow> bool" where
  "vector_fits p vc m \<longleftrightarrow> can_inc (max (vget vc p) (vget m p))"

lemma vector_le_Receive:
  assumes "vector_fits p c m"
  shows "vector_le c (vector_Receive c m p)" "vector_le m (vector_Receive c m p)"
    "\<not> vector_le (vector_Receive c m p) c" "\<not> vector_le (vector_Receive c m p) m"
proof -
  have "vget c p < max (vget c p) (vget m p) + 1" "vget m p < max (vget c p) (vget m p) + 1"
    using assms by (auto simp: vector_fits_def intro: le_plus_1_trans)
  then show "vector_le c (vector_Receive c m p)" "vector_le m (vector_Receive c m p)"
    "\<not> vector_le (vector_Receive c m p) c" "\<not> vector_le (vector_Receive c m p) m"
    by (auto simp: vector_le_iff vget_Receive not_le intro: order_less_imp_le)
qed

interpretation vector_lc: logical_clock vector_le "\<lambda>c. c" "\<lambda>m. m" "vector_room p" "vector_fits p"
  "\<lambda>c. vector_Tick c p" "\<lambda>c m. vector_Receive c m p" for p
proof unfold_locales
  fix x y z :: vclock
  show "vector_le x x" by (simp add: vector_le_iff)
  show "vector_le x y \<Longrightarrow> vector_le y z \<Longrightarrow> vector_le x z"
    unfolding vector_le_iff by (meson order_trans)
  show "vector_room p x \<Longrightarrow> vector_le x (vector_Tick x p)"
    by (simp add: vector_le_iff vector_room_def)
  show "vector_room p x \<Longrightarrow> \<not> vector_le (vector_Tick x p) x"
    by (auto simp: vector_le_iff vector_room_def not_le intro!: exI [of _ p])
qed (fact vector_le_Receive)+

abbreviation vector_run :: "pid \<Rightarrow> vclock \<Rightarrow> vclock local_event list \<Rightarrow> vclock" where
  "vector_run p \<equiv> clock_run (\<lambda>c. vector_Tick c p) (\<lambda>c m. vector_Receive c m p)"

abbreviation vector_ok :: "pid \<Rightarrow> vclock \<Rightarrow> vclock local_event list \<Rightarrow> bool" where
  "vector_ok p \<equiv> clock_ok (vector_room p) (vector_fits p)
     (\<lambda>c. vector_Tick c p) (\<lambda>c m. vector_Receive c m p)"

lemma vector_before_iff: "vector_lc.before a b \<longleftrightarrow> vector_Compare a b = HappenedBefore"
  unfolding vector_lc.before_def vector_le_def
  using vector_cmp.cmp_flip [of a b] vector_cmp.cmp_flip [of b a] by auto

subsection \<open>Grouping\<close>

definition pairwise_concurrent :: "VCEvent list \<Rightarrow> bool" where
  "pairwise_concurrent g \<longleftrightarrow>
     sorted_wrt (\<lambda>e f. vector_Compare (vce_Clock e) (vce_Clock f) = Concurrent) g"

lemma concurrent_with_all_iff: "concurrent_with_all ev g \<longleftrightarrow>
    (\<forall>gev \<in> set g. vector_Compare (vce_Clock ev) (vce_Clock gev) = Concurrent)"
  unfolding concurrent_with_all_def Let_def list_all_iff
  by (metis ClockOrder.distinct ClockOrder.exhaust)

lemma pairwise_concurrent_snoc:
  "pairwise_concurrent g \<Longrightarrow> concurrent_with_all ev g \<Longrightarrow> pairwise_concurrent (g @ [ev])"
  using vector_cmp.cmp_flip(2)
  by (auto simp: pairwise_concurrent_def sorted_wrt_append concurrent_with_all_iff)

lemma place_event_groups:
  "(\<forall>g \<in> set gs. g \<noteq> [] \<and> pairwise_concurrent g) \<Longrightarrow>
   (\<forall>g \<in> set (place_event ev gs). g \<noteq> [] \<and> pairwise_concurrent g)"
  by (induction gs) (auto simp: pairwise_concurrent_snoc, auto simp: pairwise_concurrent_def)

lemma place_event_mset: "mset (concat (place_event ev gs)) = add_mset ev (mset (concat gs))"
  by (induction gs) auto

lemma place_events:
  "(\<forall>g \<in> set gs. g \<noteq> [] \<and> pairwise_concurrent g) \<Longrightarrow>
   (\<forall>g \<in> set (fold place_event evs gs). g \<noteq> [] \<and> pairwise_concurrent g)
   \<and> mset (concat (fold place_event evs gs)) = mset evs + mset (concat gs)"
proof (induction evs arbitrary: gs)
  case Nil
  then show ?case by simp
next
  case (Cons ev evs)
  from Cons.IH [OF place_event_groups [OF Cons.prems, of ev]] show ?case
    by (simp add: place_event_mset)
qed

subsection \<open>Differences\<close>

lemma fold_diff_entries:
  "vget (fold (\<lambda>k es. if vget prev k < vget cur k then gm_set es k (vget cur k) else es) ks es) k =
   (if k \<in> set ks \<and> vget prev k < vget cur k then vget cur k else vget es k)"
  by (induction ks arbitrary: es) auto

lemma vget_Diff [gm_simps]: "vget (Entries (vector_Diff prev cur)) k =
    (if vget prev k < vget cur k then vget cur k else 0)"
  using less_in_union_keys [of prev k cur] by (simp add: vector_Diff_def fold_diff_entries)

lemma vget_Apply [simp, gm_simps]:
  "vget (vector_Apply base d) k = max (vget base k) (vget (Entries d) k)"
proof -
  have "vector_Apply base d = gm_raise (vector_Copy base) (Entries d)"
    by (simp add: vector_Apply_def gm_raise_def)
  then show ?thesis by simp
qed

section \<open>Properties\<close>

text \<open>
  C2: \<^verbatim>\<open>Compare\<close> decides the componentwise order of the clocks, missing keys read as 0, although
  it visits only the keys that occur in one of the maps and stops early. The four verdicts are
  exactly "strictly below", "strictly above", "incomparable" and "equal in every component", and
  "happened before" is a strict partial order whose converse is "happened after".
\<close>

theorem vector_Compare_characterisation:
  "(vector_Compare a b = HappenedBefore \<longleftrightarrow>
      (\<forall>k. vget a k \<le> vget b k) \<and> (\<exists>k. vget a k < vget b k))
   \<and> (vector_Compare a b = HappenedAfter \<longleftrightarrow> vector_Compare b a = HappenedBefore)
   \<and> (vector_Compare a b = Concurrent \<longleftrightarrow>
      (\<exists>k. vget a k < vget b k) \<and> (\<exists>k. vget b k < vget a k))
   \<and> (vector_Equal a b \<longleftrightarrow> (\<forall>k. vget a k = vget b k))
   \<and> \<not> vector_LessThan a a
   \<and> (vector_LessThan a b \<and> vector_LessThan b c \<longrightarrow> vector_LessThan a c)"
proof (intro conjI)
  show "vector_LessThan a b \<and> vector_LessThan b c \<longrightarrow> vector_LessThan a c"
    by (auto simp: vector_LessThan_def intro: vector_cmp.cmp_before_trans)
  show "vector_Compare a b = HappenedAfter \<longleftrightarrow> vector_Compare b a = HappenedBefore"
    by (simp add: vector_cmp.cmp_flip(1))
  show "vector_Equal a b \<longleftrightarrow> (\<forall>k. vget a k = vget b k)"
    by (auto simp: vector_Equal_def vector_cmp.cmp_same)
qed (simp_all add: vector_cmp.cmp_before vector_cmp.cmp_conc vector_LessThan_def)

theorem vector_Compare_characterisation_witness:
  "vector_LessThan [(''P1'', 1)] [(''P2'', 3), (''P1'', 2)]"
proof -
  have "vector_LessThan [(''P1'', 1)] [(''P1'', 2)]"
    and "vector_LessThan [(''P1'', 2)] [(''P2'', 3), (''P1'', 2)]"
    by code_simp+
  then show ?thesis
    using vector_Compare_characterisation
      [of "[(''P1'', 1)]" "[(''P1'', 2)]" "[(''P2'', 3), (''P1'', 2)]"] by blast
qed

text \<open>
  \<^verbatim>\<open>MergePassive\<close> is the least upper bound of two clocks in the order \<^verbatim>\<open>Compare\<close> decides:
  it is above both arguments and below every clock that is above both. Hence merging is
  commutative, associative and idempotent up to \<^verbatim>\<open>Equal\<close>.
\<close>

theorem vector_MergePassive_lub:
  "vector_le a (vector_MergePassive a b) \<and> vector_le b (vector_MergePassive a b)
   \<and> (vector_le a c \<and> vector_le b c \<longrightarrow> vector_le (vector_MergePassive a b) c)
   \<and> vector_Equal (vector_MergePassive a b) (vector_MergePassive b a)
   \<and> vector_Equal (vector_MergePassive a (vector_MergePassive b c))
       (vector_MergePassive (vector_MergePassive a b) c)
   \<and> vector_Equal (vector_MergePassive a a) a"
  by (auto simp: vector_le_iff vector_Equal_def vector_cmp.cmp_same fun_eq_iff ac_simps)

theorem vector_MergePassive_lub_witness:
  "vector_le (vector_MergePassive [(''P1'', 1)] [(''P2'', 4)]) [(''P1'', 2), (''P2'', 4)]"
proof -
  have "vector_le [(''P1'', 1)] [(''P1'', 2), (''P2'', 4)]"
    and "vector_le [(''P2'', 4)] [(''P1'', 2), (''P2'', 4)]"
    by code_simp+
  then show ?thesis using vector_MergePassive_lub by blast
qed

text \<open>
  C33: a difference carries exactly what is missing. Applying \<^verbatim>\<open>Diff(prev, current)\<close> to
  \<open>prev\<close> gives the merge of the two clocks, hence \<open>current\<close> itself whenever \<open>prev\<close> is not
  ahead of it; every entry of the difference is a component that really grew.
\<close>

theorem vector_Diff_Apply:
  assumes "vector_le prev cur"
  shows "vector_Equal (vector_Apply prev (vector_Diff prev cur)) cur
    \<and> (\<forall>k. vget (Entries (vector_Diff prev cur)) k \<noteq> 0 \<longrightarrow> vget prev k < vget cur k)"
proof -
  have "vget (vector_Apply prev (vector_Diff prev cur)) k = vget cur k" for k
    using assms unfolding vector_le_iff
    by (cases "vget prev k < vget cur k") (simp_all add: vget_Diff max_absorb2 order_antisym)
  then show ?thesis
    by (simp add: vector_Equal_def vector_cmp.cmp_same fun_eq_iff vget_Diff)
qed

theorem vector_Diff_Apply_witness:
  "vector_Equal (vector_Apply [(''P1'', 1)] (vector_Diff [(''P1'', 1)] [(''P1'', 3), (''P2'', 1)]))
     [(''P1'', 3), (''P2'', 1)]"
proof -
  have "vector_le [(''P1'', 1)] [(''P1'', 3), (''P2'', 1)]" by code_simp
  from vector_Diff_Apply [OF this] show ?thesis by blast
qed

text \<open>
  \<^verbatim>\<open>ConcurrentSet\<close> partitions its input: every event lands in exactly one group (the groups
  together are a permutation of the input), no group is empty, and any two events of a group
  are concurrent.
\<close>

theorem vector_ConcurrentSet_partition:
  "mset (concat (vector_ConcurrentSet events)) = mset events
   \<and> (\<forall>g \<in> set (vector_ConcurrentSet events). g \<noteq> [] \<and> pairwise_concurrent g)"
  using place_events [of "[]" "vector_sortEvents events"]
  by (simp add: vector_ConcurrentSet_def vector_sortEvents_def)

theorem vector_ConcurrentSet_partition_witness:
  "vector_ConcurrentSet [\<lparr>vce_ID = ''b'', vce_Clock = [(''P2'', 1)]\<rparr>,
       \<lparr>vce_ID = ''a'', vce_Clock = [(''P1'', 1)]\<rparr>] =
     [[\<lparr>vce_ID = ''a'', vce_Clock = [(''P1'', 1)]\<rparr>, \<lparr>vce_ID = ''b'', vce_Clock = [(''P2'', 1)]\<rparr>]]
   \<and> mset (concat (vector_ConcurrentSet [\<lparr>vce_ID = ''b'', vce_Clock = [(''P2'', 1)]\<rparr>,
       \<lparr>vce_ID = ''a'', vce_Clock = [(''P1'', 1)]\<rparr>])) =
     mset [\<lparr>vce_ID = ''b'', vce_Clock = [(''P2'', 1)]\<rparr>, \<lparr>vce_ID = ''a'', vce_Clock = [(''P1'', 1)]\<rparr>]"
proof
  show "vector_ConcurrentSet [\<lparr>vce_ID = ''b'', vce_Clock = [(''P2'', 1)]\<rparr>,
       \<lparr>vce_ID = ''a'', vce_Clock = [(''P1'', 1)]\<rparr>] =
     [[\<lparr>vce_ID = ''a'', vce_Clock = [(''P1'', 1)]\<rparr>, \<lparr>vce_ID = ''b'', vce_Clock = [(''P2'', 1)]\<rparr>]]"
    by code_simp
qed (use vector_ConcurrentSet_partition in blast)

text \<open>
  The vector clock condition. The stamp of a sent message is strictly before the clock of
  the receiver from the receipt on, whatever local events follow, and so is every earlier
  clock value of the receiver; no counter may wrap on the way.
\<close>

theorem vector_clock_condition:
  assumes "vector_Send s q = (s', stamp)" and "vector_room q s"
    and "vector_ok p c (Received stamp # es)"
  shows "vector_Compare s stamp = HappenedBefore
    \<and> vector_Compare stamp (vector_run p c (Received stamp # es)) = HappenedBefore
    \<and> vector_Compare c (vector_run p c (Received stamp # es)) = HappenedBefore"
proof -
  have "vector_Compare s stamp = vector_Compare s (vector_Tick s q)"
    using assms(1) by (intro vector_cmp.cmp_cong) (auto simp: vector_Send_def Let_def)
  also have "\<dots> = HappenedBefore"
    using vector_lc.tick_before [OF assms(2)] by (simp add: vector_before_iff)
  finally show ?thesis
    using vector_lc.message_before [OF assms(3)] vector_lc.clock_run_before [OF assms(3)]
    by (simp add: vector_before_iff)
qed

theorem vector_clock_condition_witness:
  "vector_Compare [(''P1'', 1)]
     (vector_run ''P2'' [(''P2'', 4)] [Received [(''P1'', 1)], Internal]) = HappenedBefore"
proof -
  have "vector_Send [] ''P1'' = ([(''P1'', 1)], [(''P1'', 1)])" by code_simp
  moreover have "vector_room ''P1'' []" by code_simp
  moreover have "vector_ok ''P2'' [(''P2'', 4)] [Received [(''P1'', 1)], Internal]" by code_simp
  ultimately show ?thesis using vector_clock_condition by blast
qed

end
