(* ===== verification/Vector_System.thy ===== *)
theory Vector_System
  imports Vector_Clock
begin

text \<open>
  What vector clocks are for: in a system of processes that run the operations of
  \<^verbatim>\<open>internal/clock/vector/clock.go\<close>, comparing the stamps of two events with \<^verbatim>\<open>Compare\<close> decides whether one
  happened before the other. Messages may be delayed, reordered, lost, duplicated and sent to oneself. The
  log lists the events of all processes in the order they take place, each with its process, its
  stamp, whether it is a send, and for a receipt the position of the send.
\<close>

section \<open>The system\<close>

record vevent =
  ve_proc :: pid
  ve_clock :: vclock
  ve_send :: bool
  ve_from :: "nat option"

record vsys =
  vs_clocks :: "pid \<Rightarrow> vclock"
  vs_log :: "vevent list"

definition vs_event :: "pid \<Rightarrow> vclock \<Rightarrow> vclock \<Rightarrow> bool \<Rightarrow> nat option \<Rightarrow> vsys \<Rightarrow> vsys" where
  "vs_event p c stamp snd_ev src s = s\<lparr>vs_clocks := (vs_clocks s)(p := c),
     vs_log := vs_log s @ [\<lparr>ve_proc = p, ve_clock = stamp, ve_send = snd_ev, ve_from = src\<rparr>]\<rparr>"

definition vs_local :: "pid \<Rightarrow> vsys \<Rightarrow> vsys" where
  "vs_local p s = (let c = vector_Tick (vs_clocks s p) p in vs_event p c c False None s)"

definition vs_send :: "pid \<Rightarrow> vsys \<Rightarrow> vsys" where
  "vs_send p s = (let (c, stamp) = vector_Send (vs_clocks s p) p in vs_event p c stamp True None s)"

definition vs_receive :: "pid \<Rightarrow> nat \<Rightarrow> vsys \<Rightarrow> vsys" where
  "vs_receive p i s = (let c = vector_Receive (vs_clocks s p) (ve_clock (vs_log s ! i)) p in vs_event p c c False (Some i) s)"

inductive vsys_step :: "vsys \<Rightarrow> vsys \<Rightarrow> bool" where
  local: "vector_room p (vs_clocks s p) \<Longrightarrow> vsys_step s (vs_local p s)"
| send: "vector_room p (vs_clocks s p) \<Longrightarrow> vsys_step s (vs_send p s)"
| receive: "i < length (vs_log s) \<Longrightarrow> ve_send (vs_log s ! i) \<Longrightarrow>
    vector_fits p (vs_clocks s p) (ve_clock (vs_log s ! i)) \<Longrightarrow> vsys_step s (vs_receive p i s)"

definition vsys_init :: "vsys \<Rightarrow> bool" where
  "vsys_init s \<longleftrightarrow> vs_log s = [] \<and> (\<forall>p. \<exists>pids. vs_clocks s p = vector_New pids)"

text \<open>The happened-before relation of a log: the order of each process, from a send to its receipts, and
  what follows.\<close>

definition hb_edge :: "vevent list \<Rightarrow> nat \<Rightarrow> nat \<Rightarrow> bool" where
  "hb_edge log i j \<longleftrightarrow> i < j \<and> j < length log
     \<and> (ve_proc (log ! i) = ve_proc (log ! j) \<or> ve_from (log ! j) = Some i)"

abbreviation happens_before :: "vevent list \<Rightarrow> nat \<Rightarrow> nat \<Rightarrow> bool" where
  "happens_before log \<equiv> (hb_edge log)\<^sup>+\<^sup>+"

abbreviation stamp_of :: "vevent list \<Rightarrow> nat \<Rightarrow> vclock" where
  "stamp_of log i \<equiv> ve_clock (log ! i)"

text \<open>The component of an event's own process in its stamp.\<close>

definition own :: "vevent list \<Rightarrow> nat \<Rightarrow> u64" where
  "own log i = vget (stamp_of log i) (ve_proc (log ! i))"

section \<open>The invariant\<close>

text \<open>Along an edge stamps grow, strictly in the process of the later event. Every non-zero component of a stamp
  is the own component of an event that is the stamped one or happened before it. A process that has had
  an event has the clock of one of its events, which no other event of it exceeds.\<close>

definition edges_grow :: "vevent list \<Rightarrow> bool" where
  "edges_grow log \<longleftrightarrow> (\<forall>i j. hb_edge log i j \<longrightarrow> vector_le (stamp_of log i) (stamp_of log j)
     \<and> vget (stamp_of log i) (ve_proc (log ! j)) < own log j)"

definition known :: "vevent list \<Rightarrow> nat \<Rightarrow> pid \<Rightarrow> u64 \<Rightarrow> bool" where
  "known log j q n \<longleftrightarrow> (\<exists>i < length log. ve_proc (log ! i) = q \<and> own log i = n \<and> (i = j \<or> happens_before log i j))"

definition vsys_inv :: "vsys \<Rightarrow> bool" where
  "vsys_inv s \<longleftrightarrow> edges_grow (vs_log s)
     \<and> (\<forall>j < length (vs_log s). 0 < own (vs_log s) j)
     \<and> (\<forall>j < length (vs_log s). \<forall>q. vget (stamp_of (vs_log s) j) q = 0 \<or> known (vs_log s) j q (vget (stamp_of (vs_log s) j) q))
     \<and> (\<forall>j < length (vs_log s). vector_le (stamp_of (vs_log s) j) (vs_clocks s (ve_proc (vs_log s ! j))))
     \<and> (\<forall>p. (\<forall>k. vget (vs_clocks s p) k = 0)
          \<or> (\<exists>j < length (vs_log s). ve_proc (vs_log s ! j) = p \<and> (\<forall>k. vget (vs_clocks s p) k = vget (stamp_of (vs_log s) j) k)))"

lemma vsys_invD:
  assumes "vsys_inv s"
  shows "edges_grow (vs_log s)" "j < length (vs_log s) \<Longrightarrow> 0 < own (vs_log s) j"
    "j < length (vs_log s) \<Longrightarrow> vget (stamp_of (vs_log s) j) q \<noteq> 0 \<Longrightarrow> known (vs_log s) j q (vget (stamp_of (vs_log s) j) q)"
    "j < length (vs_log s) \<Longrightarrow> vector_le (stamp_of (vs_log s) j) (vs_clocks s (ve_proc (vs_log s ! j)))"
    "vget (vs_clocks s p) q \<noteq> 0 \<Longrightarrow>
       \<exists>j < length (vs_log s). ve_proc (vs_log s ! j) = p \<and> (\<forall>k. vget (vs_clocks s p) k = vget (stamp_of (vs_log s) j) k)"
  using assms unfolding vsys_inv_def by blast+

subsection \<open>Appending an event\<close>

lemma hb_edge_append: "hb_edge log i j \<Longrightarrow> hb_edge (log @ es) i j"
  by (auto simp: hb_edge_def nth_append)

lemma hb_append: "happens_before log i j \<Longrightarrow> happens_before (log @ es) i j"
  by (induction rule: tranclp_induct) (auto intro: hb_edge_append tranclp.trancl_into_trancl)

lemma own_append [simp]: "i < length log \<Longrightarrow> own (log @ es) i = own log i"
  by (simp add: own_def nth_append)

lemma known_append: "known log j q n \<Longrightarrow> known (log @ es) j q n"
  unfolding known_def by (auto simp: nth_append intro!: hb_append)

lemma known_edge:
  assumes "known log i q n" "hb_edge log i j"
  shows "known log j q n"
proof -
  obtain h where "h < length log" "ve_proc (log ! h) = q" "own log h = n" "h = i \<or> happens_before log h i"
    using assms(1) by (auto simp: known_def)
  with assms(2) show ?thesis by (auto simp: known_def intro: tranclp.trancl_into_trancl)
qed

lemma hb_edge_new:
  "hb_edge (log @ [e]) i j \<longleftrightarrow> hb_edge log i j
     \<or> j = length log \<and> i < length log \<and> (ve_proc (log ! i) = ve_proc e \<or> ve_from e = Some i)"
  by (auto simp: hb_edge_def nth_append less_Suc_eq)

lemma edges_growD:
  assumes "edges_grow log" "hb_edge log i j"
  shows "vector_le (stamp_of log i) (stamp_of log j)" "vget (stamp_of log i) (ve_proc (log ! j)) < own log j"
  using assms unfolding edges_grow_def by blast+

lemma edges_grow_append:
  assumes old: "edges_grow log"
    and new: "\<And>i. i < length log \<Longrightarrow> ve_proc (log ! i) = ve_proc e \<or> ve_from e = Some i \<Longrightarrow>
      vector_le (stamp_of log i) (ve_clock e) \<and> vget (stamp_of log i) (ve_proc e) < vget (ve_clock e) (ve_proc e)"
  shows "edges_grow (log @ [e])"
  unfolding edges_grow_def
proof (intro allI impI)
  fix i j assume "hb_edge (log @ [e]) i j"
  then consider "hb_edge log i j" | "j = length log" "i < length log" "ve_proc (log ! i) = ve_proc e \<or> ve_from e = Some i"
    unfolding hb_edge_new by blast
  then show "vector_le (stamp_of (log @ [e]) i) (stamp_of (log @ [e]) j)
      \<and> vget (stamp_of (log @ [e]) i) (ve_proc ((log @ [e]) ! j)) < own (log @ [e]) j"
  proof cases
    case 1
    then have "i < length log" "j < length log" by (auto simp: hb_edge_def)
    with edges_growD [OF old 1] show ?thesis by (simp add: nth_append)
  next
    case 2
    with new [of i] show ?thesis by (simp add: nth_append own_def)
  qed
qed

lemma known_new:
  assumes "known log i q n" "i < length log" "ve_proc (log ! i) = ve_proc e \<or> ve_from e = Some i"
  shows "known (log @ [e]) (length log) q n"
  using known_edge [OF known_append [OF assms(1)]] assms(2,3) by (simp add: hb_edge_new)

lemma known_self: "known (log @ [e]) (length log) (ve_proc e) (vget (ve_clock e) (ve_proc e))"
  by (auto simp: known_def own_def intro!: exI [of _ "length log"])

text \<open>What the three operations have in common: the new clock of process \<open>p\<close> is above its old one and above the
  stamp received, strictly in \<open>p\<close>'s component, and takes its other components from them.\<close>

definition vs_advance :: "vsys \<Rightarrow> pid \<Rightarrow> vclock \<Rightarrow> nat option \<Rightarrow> bool" where
  "vs_advance s p c src \<longleftrightarrow> vector_le (vs_clocks s p) c \<and> vget (vs_clocks s p) p < vget c p
     \<and> (\<forall>i. src = Some i \<longrightarrow> i < length (vs_log s) \<and> vector_le (stamp_of (vs_log s) i) c
          \<and> vget (stamp_of (vs_log s) i) p < vget c p)
     \<and> (\<forall>q. q \<noteq> p \<longrightarrow> vget c q = vget (vs_clocks s p) q
          \<or> (\<exists>i. src = Some i \<and> vget c q = vget (stamp_of (vs_log s) i) q))"

lemma vs_advance_edge:
  assumes "vsys_inv s" "vs_advance s p c src" "i < length (vs_log s)" "ve_proc (vs_log s ! i) = p \<or> src = Some i"
  shows "vector_le (stamp_of (vs_log s) i) c \<and> vget (stamp_of (vs_log s) i) p < vget c p"
  using assms(4)
proof
  assume "ve_proc (vs_log s ! i) = p"
  with vsys_invD(4) [OF assms(1,3)] have "vget (stamp_of (vs_log s) i) k \<le> vget (vs_clocks s p) k" for k
    by (simp add: vector_le_iff)
  moreover have "vget (vs_clocks s p) k \<le> vget c k" "vget (vs_clocks s p) p < vget c p" for k
    using assms(2) by (simp_all add: vs_advance_def vector_le_iff)
  ultimately show ?thesis unfolding vector_le_iff by (blast intro: order_trans order_le_less_trans)
qed (use assms(2) in \<open>simp add: vs_advance_def\<close>)

lemma vs_advance_source:
  assumes "vsys_inv s" "vs_advance s p c src" "q \<noteq> p" "vget c q \<noteq> 0"
  obtains i where "i < length (vs_log s)" "ve_proc (vs_log s ! i) = p \<or> src = Some i"
    "vget c q = vget (stamp_of (vs_log s) i) q"
proof -
  consider "vget c q = vget (vs_clocks s p) q" | i where "src = Some i" "vget c q = vget (stamp_of (vs_log s) i) q"
    using assms(2,3) unfolding vs_advance_def by blast
  then show thesis
  proof cases
    case 1
    with assms(4) have "vget (vs_clocks s p) q \<noteq> 0" by simp
    from vsys_invD(5) [OF assms(1) this] obtain j where "j < length (vs_log s)" "ve_proc (vs_log s ! j) = p"
      "\<forall>k. vget (vs_clocks s p) k = vget (stamp_of (vs_log s) j) k" by blast
    with 1 that [of j] show thesis by simp
  next
    case (2 i)
    with assms(2) that [of i] show thesis by (simp add: vs_advance_def)
  qed
qed

lemma vs_advance_known:
  assumes "vsys_inv s" "vs_advance s p c src" "vget c q \<noteq> 0"
    and e: "ve_proc e = p" "ve_from e = src" "vget (ve_clock e) = vget c"
  shows "known (vs_log s @ [e]) (length (vs_log s)) q (vget c q)"
proof (cases "q = p")
  case True
  with known_self [of "vs_log s" e] e show ?thesis by simp
next
  case False
  from vs_advance_source [OF assms(1,2) False assms(3)]
  obtain i where i: "i < length (vs_log s)" "ve_proc (vs_log s ! i) = p \<or> src = Some i"
    "vget c q = vget (stamp_of (vs_log s) i) q" .
  with vsys_invD(3) [OF assms(1) i(1), of q] assms(3) have "known (vs_log s) i q (vget c q)" by simp
  then show ?thesis using i(1,2) e by (intro known_new [of _ i]) auto
qed

lemma vs_event_simps [simp]:
  "vs_clocks (vs_event p c stamp b src s) = (vs_clocks s)(p := c)"
  "vs_log (vs_event p c stamp b src s) = vs_log s @ [\<lparr>ve_proc = p, ve_clock = stamp, ve_send = b, ve_from = src\<rparr>]"
  by (simp_all add: vs_event_def)

lemma vsys_inv_event:
  assumes inv: "vsys_inv s" and adv: "vs_advance s p c src" and stamp: "vget stamp = vget c"
  shows "vsys_inv (vs_event p c stamp b src s)"
proof -
  define e where "e = \<lparr>ve_proc = p, ve_clock = stamp, ve_send = b, ve_from = src\<rparr>"
  let ?old = "vs_log s" let ?log = "?old @ [e]" and ?n = "length ?old" and ?cs = "(vs_clocks s)(p := c)"
  have e: "ve_proc e = p" "ve_clock e = stamp" "ve_from e = src" by (simp_all add: e_def)
  note edge = vs_advance_edge [OF inv adv]
  have "edges_grow ?log"
    using edge by (intro edges_grow_append [OF vsys_invD(1) [OF inv]]) (simp add: e vector_le_iff stamp)
  moreover have "0 < own ?log j" if "j < Suc ?n" for j
  proof (cases "j = ?n")
    case True
    have "0 < vget c p" using adv by (auto simp: vs_advance_def intro: order_le_less_trans [OF word_zero_le])
    with True show ?thesis by (simp add: own_def e stamp)
  qed (use that vsys_invD(2) [OF inv] in simp)
  moreover have "vget (stamp_of ?log j) q = 0 \<or> known ?log j q (vget (stamp_of ?log j) q)" if "j < Suc ?n" for j q
    using that vsys_invD(3) [OF inv, of j q] vs_advance_known [OF inv adv, of q e]
    by (cases "j = ?n") (auto simp: nth_append e stamp intro: known_append)
  moreover have "vector_le (stamp_of ?log j) (?cs (ve_proc (?log ! j)))" if "j < Suc ?n" for j
    using that vsys_invD(4) [OF inv, of j] edge [of j] by (cases "j = ?n") (auto simp: nth_append e vector_le_iff stamp)
  moreover have "(\<forall>k. vget (?cs r) k = 0)
      \<or> (\<exists>j < Suc ?n. ve_proc (?log ! j) = r \<and> (\<forall>k. vget (?cs r) k = vget (stamp_of ?log j) k))" for r
  proof (cases "r = p")
    case True
    then have "ve_proc (?log ! ?n) = r \<and> (\<forall>k. vget (?cs r) k = vget (stamp_of ?log ?n) k)" by (simp add: e stamp)
    then show ?thesis by blast
  next
    case False
    then have "?cs r = vs_clocks s r" by simp
    moreover have "ve_proc (?log ! j) = ve_proc (?old ! j)" "stamp_of ?log j = stamp_of ?old j" if "j < ?n" for j
      using that by (simp_all add: nth_append)
    ultimately show ?thesis using vsys_invD(5) [OF inv, of r] by (metis less_Suc_eq)
  qed
  ultimately show ?thesis
    unfolding vsys_inv_def vs_event_simps e_def [symmetric] length_append_singleton by blast
qed

lemma Tick_advance: "vector_room p (vs_clocks s p) \<Longrightarrow> vs_advance s p (vector_Tick (vs_clocks s p) p) None"
  by (simp add: vs_advance_def vector_le_iff vector_room_def)

lemma Receive_advance:
  assumes "i < length (vs_log s)" "vector_fits p (vs_clocks s p) (stamp_of (vs_log s) i)"
  shows "vs_advance s p (vector_Receive (vs_clocks s p) (stamp_of (vs_log s) i) p) (Some i)"
proof -
  let ?c = "vs_clocks s p" and ?m = "stamp_of (vs_log s) i"
  have "vget ?c p < max (vget ?c p) (vget ?m p) + 1" "vget ?m p < max (vget ?c p) (vget ?m p) + 1"
    using assms(2) by (auto simp: vector_fits_def intro: le_plus_1_trans)
  with vector_le_Receive(1,2) [OF assms(2)] assms(1) show ?thesis
    by (auto simp: vs_advance_def vget_Receive max_def)
qed

interpretation vsys: transition_system vsys_init vsys_step vsys_inv
proof unfold_locales
  show "vsys_inv s" if "vsys_init s" for s
  proof -
    have "vget (vs_clocks s p) k = 0" for p k using that unfolding vsys_init_def by (metis vget_New)
    then show ?thesis using that by (simp add: vsys_inv_def vsys_init_def edges_grow_def hb_edge_def)
  qed
  show "vsys_inv t" if "vsys_step s t" "vsys_inv s" for s t
    using that by cases (auto intro!: vsys_inv_event Tick_advance Receive_advance
        simp: vs_local_def vs_send_def vs_receive_def vector_Send_def Let_def fun_eq_iff)
qed

section \<open>Stamps and causality\<close>

lemma hb_bound: "happens_before log i j \<Longrightarrow> i < j \<and> j < length log"
  by (induction rule: tranclp_induct) (auto simp: hb_edge_def)

lemma hb_grows:
  assumes "edges_grow log" "happens_before log i j"
  shows "vector_le (stamp_of log i) (stamp_of log j) \<and> vget (stamp_of log i) (ve_proc (log ! j)) < own log j"
  using assms(2)
proof (induction rule: tranclp_induct)
  case (base j)
  with edges_growD [OF assms(1)] show ?case by blast
next
  case (step j k)
  with edges_growD [OF assms(1) step(2)] show ?case
    unfolding vector_le_iff by (meson order_trans order_le_less_trans)
qed

lemma same_process_ordered:
  assumes "i < length log" "j < length log" "ve_proc (log ! i) = ve_proc (log ! j)"
  shows "i = j \<or> hb_edge log i j \<or> hb_edge log j i"
  using assms by (auto simp: hb_edge_def)

text \<open>An event whose own component is reached by a stamp is the stamped event or happened before it.\<close>

lemma own_le_hb:
  assumes inv: "vsys_inv s" and i: "i < length (vs_log s)" and j: "j < length (vs_log s)"
    and le: "own (vs_log s) i \<le> vget (stamp_of (vs_log s) j) (ve_proc (vs_log s ! i))"
  shows "i = j \<or> happens_before (vs_log s) i j"
proof -
  let ?log = "vs_log s" and ?p = "ve_proc (vs_log s ! i)"
  have "0 < own ?log i" using vsys_invD(2) [OF inv i] .
  with le have "vget (stamp_of ?log j) ?p \<noteq> 0" by auto
  from vsys_invD(3) [OF inv j this] obtain h where h: "h < length ?log" "ve_proc (?log ! h) = ?p"
    "own ?log h = vget (stamp_of ?log j) ?p" "h = j \<or> happens_before ?log h j"
    unfolding known_def by blast
  have "\<not> hb_edge ?log h i"
  proof
    assume "hb_edge ?log h i"
    from edges_growD(2) [OF vsys_invD(1) [OF inv] this] h(2,3) le show False by (simp add: own_def [of _ h])
  qed
  with same_process_ordered [OF i h(1)] h(2) have "i = h \<or> hb_edge ?log i h" by auto
  with h(4) show ?thesis by (metis tranclp.r_into_trancl tranclp_trans)
qed

lemma stamp_le_iff:
  assumes "vsys_inv s" "i < length (vs_log s)" "j < length (vs_log s)"
  shows "vector_le (stamp_of (vs_log s) i) (stamp_of (vs_log s) j) \<longleftrightarrow> i = j \<or> happens_before (vs_log s) i j"
proof
  assume "vector_le (stamp_of (vs_log s) i) (stamp_of (vs_log s) j)"
  then show "i = j \<or> happens_before (vs_log s) i j"
    using own_le_hb [OF assms] by (simp add: own_def vector_le_iff)
next
  assume "i = j \<or> happens_before (vs_log s) i j"
  then show "vector_le (stamp_of (vs_log s) i) (stamp_of (vs_log s) j)"
    using hb_grows [OF vsys_invD(1) [OF assms(1)]] by (auto simp: vector_le_iff)
qed

section \<open>Properties\<close>

text \<open>
  C1: \<^verbatim>\<open>Compare\<close> decides causality. In every state that processes running \<^verbatim>\<open>Tick\<close>, \<^verbatim>\<open>Send\<close> and
  \<^verbatim>\<open>Receive\<close> reach from fresh clocks, with messages delayed, reordered, lost or received several times,
  and no counter overflowing, the stamp of one event is \<^verbatim>\<open>HappenedBefore\<close> the stamp of
  another exactly when the event happened before it (through the order of the processes and the
  messages), the stamps are \<^verbatim>\<open>Concurrent\<close> exactly when neither happened before the other, and no two events
  share a stamp.
\<close>

theorem vector_clock_characterises_causality:
  assumes "vsys_init s0" "vsys_step\<^sup>*\<^sup>* s0 s" "i < length (vs_log s)" "j < length (vs_log s)"
  shows "(vector_Compare (stamp_of (vs_log s) i) (stamp_of (vs_log s) j) = HappenedBefore \<longleftrightarrow> happens_before (vs_log s) i j)
    \<and> (vector_Compare (stamp_of (vs_log s) i) (stamp_of (vs_log s) j) = HappenedAfter \<longleftrightarrow> happens_before (vs_log s) j i)
    \<and> (vector_Compare (stamp_of (vs_log s) i) (stamp_of (vs_log s) j) = Concurrent
         \<longleftrightarrow> i \<noteq> j \<and> \<not> happens_before (vs_log s) i j \<and> \<not> happens_before (vs_log s) j i)
    \<and> (vector_Compare (stamp_of (vs_log s) i) (stamp_of (vs_log s) j) = Identical \<longleftrightarrow> i = j)"
proof -
  let ?c = "vector_Compare (stamp_of (vs_log s) i) (stamp_of (vs_log s) j)"
  have inv: "vsys_inv s" using vsys.inv_reachable assms(1,2) by blast
  have "(?c = HappenedBefore \<or> ?c = Identical) \<longleftrightarrow> i = j \<or> happens_before (vs_log s) i j"
    using stamp_le_iff [OF inv assms(3,4)] by (simp add: vector_le_def)
  moreover have "(?c = HappenedAfter \<or> ?c = Identical) \<longleftrightarrow> i = j \<or> happens_before (vs_log s) j i"
    using stamp_le_iff [OF inv assms(4,3)] vector_cmp.cmp_flip by (auto simp: vector_le_def)
  moreover have "\<not> (happens_before (vs_log s) i j \<and> (i = j \<or> happens_before (vs_log s) j i))"
    "\<not> (happens_before (vs_log s) j i \<and> i = j)"
    using hb_bound [of "vs_log s" i j] hb_bound [of "vs_log s" j i] by auto
  ultimately show ?thesis by (cases ?c) auto
qed

text \<open>\<open>P1\<close> sends, \<open>P2\<close> has an event of its own, \<open>P2\<close> receives the message.\<close>

definition vsys_example :: vsys where
  "vsys_example = vs_receive ''P2'' 0 (vs_local ''P2'' (vs_send ''P1''
     \<lparr>vs_clocks = (\<lambda>_. vector_New [''P1'', ''P2'']), vs_log = []\<rparr>))"

theorem vector_clock_characterises_causality_witness:
  "happens_before (vs_log vsys_example) 0 2
   \<and> vector_Compare (stamp_of (vs_log vsys_example) 0) (stamp_of (vs_log vsys_example) 1) = Concurrent
   \<and> \<not> happens_before (vs_log vsys_example) 0 1"
proof -
  let ?s0 = "\<lparr>vs_clocks = (\<lambda>_. vector_New [''P1'', ''P2'']), vs_log = []\<rparr> :: vsys"
  let ?s1 = "vs_send ''P1'' ?s0" let ?s2 = "vs_local ''P2'' ?s1"
  have init: "vsys_init ?s0" by (auto simp: vsys_init_def)
  have "vsys_step ?s0 ?s1" by (rule vsys_step.send) code_simp
  moreover have "vsys_step ?s1 ?s2" by (rule vsys_step.local) code_simp
  moreover have "vsys_step ?s2 vsys_example" unfolding vsys_example_def by (rule vsys_step.receive) code_simp+
  ultimately have run: "vsys_step\<^sup>*\<^sup>* ?s0 vsys_example" by auto
  have len: "0 < length (vs_log vsys_example)" "1 < length (vs_log vsys_example)" "2 < length (vs_log vsys_example)"
    by code_simp+
  have "vector_Compare (stamp_of (vs_log vsys_example) 0) (stamp_of (vs_log vsys_example) 2) = HappenedBefore"
    "vector_Compare (stamp_of (vs_log vsys_example) 0) (stamp_of (vs_log vsys_example) 1) = Concurrent"
    by code_simp+
  then show ?thesis
    using vector_clock_characterises_causality [OF init run len(1,3)]
      vector_clock_characterises_causality [OF init run len(1,2)] by blast
qed

end
