(* ===== verification/Version_Vectors.thy ===== *)
theory Version_Vectors
  imports Vector_Clock
begin

text \<open>
  \<^verbatim>\<open>internal/clock/version/vector.go\<close> (plain version vectors) and
  \<^verbatim>\<open>internal/clock/dvv/dvv.go\<close> (dotted version vectors and sets of siblings).
\<close>

section \<open>Plain version vectors\<close>


type_synonym VersionVector = "(string, u64) gomap"

definition version_New :: "string list \<Rightarrow> VersionVector" where
  "version_New replicaIDs = fold (\<lambda>r vv. gm_set vv r 0) replicaIDs []"

definition version_Copy :: "VersionVector \<Rightarrow> VersionVector" where
  "version_Copy vv = gm_copy vv"

definition version_Update :: "VersionVector \<Rightarrow> string \<Rightarrow> VersionVector" where
  "version_Update vv r = (let result = version_Copy vv in gm_set result r (gm_get 0 result r + 1))"





lemma version_get_Update [simp, gm_simps]:
  "gm_get 0 (version_Update vv r) k = (if k = r then gm_get 0 vv r + 1 else gm_get 0 vv k)"
  by (simp add: version_Update_def version_Copy_def Let_def)

section \<open>Dotted version vectors\<close>

type_synonym bytes = "8 word list"

record Dot =
  dot_Replica :: string
  dot_Counter :: u64

record DVV =
  dvv_Vector :: "(string, u64) gomap"
  dvv_Dot :: "Dot option"

record DVVEntry =
  dve_DVV :: DVV
  dve_Value :: bytes

record DVVSet =
  dvs_Siblings :: "DVVEntry list"

definition dvv_ToVV :: "DVV \<Rightarrow> (string, u64) gomap" where
  "dvv_ToVV d =
     (let vv = gm_copy (dvv_Vector d)
      in case dvv_Dot d of
           None \<Rightarrow> vv
         | Some dot \<Rightarrow>
             (if gm_get 0 vv (dot_Replica dot) < dot_Counter dot
              then gm_set vv (dot_Replica dot) (dot_Counter dot) else vv))"

definition dvv_NewDVV :: "string \<Rightarrow> u64 \<Rightarrow> DVV" where
  "dvv_NewDVV serverID serverClock =
     \<lparr>dvv_Vector = [], dvv_Dot = Some \<lparr>dot_Replica = serverID, dot_Counter = serverClock\<rparr>\<rparr>"

definition dvv_UpdateDVV :: "DVV \<Rightarrow> string \<Rightarrow> u64 \<Rightarrow> DVV" where
  "dvv_UpdateDVV old serverID serverClock =
     \<lparr>dvv_Vector = dvv_ToVV old,
      dvv_Dot = Some \<lparr>dot_Replica = serverID, dot_Counter = serverClock\<rparr>\<rparr>"

definition dvv_Dominates :: "DVV \<Rightarrow> DVV \<Rightarrow> bool" where
  "dvv_Dominates a b =
     (let bVV = dvv_ToVV b; aVV = dvv_ToVV a
      in list_all (\<lambda>(k, bv). \<not> gm_get 0 aVV k < bv) (gm_range bVV))"

definition dvv_Sync :: "DVVSet \<Rightarrow> DVVEntry \<Rightarrow> DVVSet" where
  "dvv_Sync st incoming =
     (let survivors = filter (\<lambda>existing. \<not> dvv_Dominates (dve_DVV incoming) (dve_DVV existing))
            (dvs_Siblings st);
          dominated = list_ex (\<lambda>s. dvv_Dominates (dve_DVV s) (dve_DVV incoming)) survivors
      in \<lparr>dvs_Siblings = (if \<not> dominated then survivors @ [incoming] else survivors)\<rparr>)"

lemma get_ToVV [gm_simps]: "gm_get 0 (dvv_ToVV d) k =
    (case dvv_Dot d of None \<Rightarrow> gm_get 0 (dvv_Vector d) k
     | Some dot \<Rightarrow> if k = dot_Replica dot then max (gm_get 0 (dvv_Vector d) k) (dot_Counter dot)
         else gm_get 0 (dvv_Vector d) k)"
  by (auto simp: dvv_ToVV_def Let_def max_def split: option.splits)

lemma get_ToVV_Update: "gm_get 0 (dvv_ToVV (dvv_UpdateDVV ctx s c)) k =
    (if k = s then max (gm_get 0 (dvv_ToVV ctx) k) c else gm_get 0 (dvv_ToVV ctx) k)"
  by (subst get_ToVV) (simp add: dvv_UpdateDVV_def)

text \<open>Domination is the componentwise order of the folded vectors, a preorder.\<close>

lemma dvv_Dominates_iff: "dvv_Dominates a b \<longleftrightarrow>
    (\<forall>k. gm_get 0 (dvv_ToVV b) k \<le> gm_get 0 (dvv_ToVV a) k)"
proof -
  have "dvv_Dominates a b \<longleftrightarrow>
      (\<forall>k v. map_of (dvv_ToVV b) k = Some v \<longrightarrow> v \<le> gm_get 0 (dvv_ToVV a) k)"
    by (auto simp: dvv_Dominates_def Let_def list_all_iff mem_gm_range not_less)
  also have "\<dots> \<longleftrightarrow> (\<forall>k. gm_get 0 (dvv_ToVV b) k \<le> gm_get 0 (dvv_ToVV a) k)"
    by (auto simp: gm_get_def [of _ "dvv_ToVV b"] split: option.splits)
  finally show ?thesis .
qed

lemma dvv_Dominates_refl [simp]: "dvv_Dominates a a"
  by (simp add: dvv_Dominates_iff)

lemma dvv_Dominates_trans: "dvv_Dominates a b \<Longrightarrow> dvv_Dominates b c \<Longrightarrow> dvv_Dominates a c"
  unfolding dvv_Dominates_iff by (meson order_trans)

text \<open>A set of siblings no two of which are comparable.\<close>

definition dvv_antichain :: "DVVEntry list \<Rightarrow> bool" where
  "dvv_antichain es \<longleftrightarrow> sorted_wrt (\<lambda>x y. \<not> dvv_Dominates (dve_DVV x) (dve_DVV y)
      \<and> \<not> dvv_Dominates (dve_DVV y) (dve_DVV x)) es"

lemma dvv_antichain_filter: "dvv_antichain es \<Longrightarrow> dvv_antichain (filter P es)"
  by (simp add: dvv_antichain_def sorted_wrt_filter)

section \<open>Properties\<close>



text \<open>
  \<^verbatim>\<open>Sync\<close> on a set of dotted versions keeps an antichain and forgets nothing: from
  incomparable siblings it returns incomparable siblings, and every version it was given (an old
  sibling or the incoming one) is dominated by a version it returns.
\<close>

theorem dvv_Sync_antichain_covers:
  assumes "dvv_antichain (dvs_Siblings st)"
  shows "dvv_antichain (dvs_Siblings (dvv_Sync st incoming))
    \<and> (\<forall>e \<in> insert incoming (set (dvs_Siblings st)).
         \<exists>s \<in> set (dvs_Siblings (dvv_Sync st incoming)). dvv_Dominates (dve_DVV s) (dve_DVV e))"
proof -
  let ?D = "\<lambda>x y. dvv_Dominates (dve_DVV x) (dve_DVV y)"
  define survivors where "survivors = filter (\<lambda>e. \<not> ?D incoming e) (dvs_Siblings st)"
  have anti: "dvv_antichain survivors"
    using assms by (simp add: survivors_def dvv_antichain_filter)
  have fresh: "\<not> ?D incoming s" if "s \<in> set survivors" for s
    using that by (simp add: survivors_def)
  show ?thesis
  proof (cases "\<exists>s \<in> set survivors. ?D s incoming")
    case True
    then have sync: "dvs_Siblings (dvv_Sync st incoming) = survivors"
      by (auto simp: dvv_Sync_def Let_def survivors_def list_ex_iff)
    obtain s where s: "s \<in> set survivors" "?D s incoming" using True by blast
    have "\<exists>t \<in> set survivors. ?D t e" if "e \<in> insert incoming (set (dvs_Siblings st))" for e
    proof (cases "e \<in> set survivors")
      case True
      then show ?thesis by (auto intro: bexI [of _ e])
    next
      case False
      then have "?D incoming e" using that by (auto simp: survivors_def)
      then show ?thesis using s dvv_Dominates_trans by blast
    qed
    with anti sync show ?thesis by simp
  next
    case False
    then have "dvs_Siblings (dvv_Sync st incoming) = survivors @ [incoming]"
      by (auto simp: dvv_Sync_def Let_def survivors_def list_ex_iff)
    moreover have "dvv_antichain (survivors @ [incoming])"
      using anti fresh False by (auto simp: dvv_antichain_def sorted_wrt_append)
    moreover have "\<exists>s \<in> set (survivors @ [incoming]). ?D s e"
      if "e \<in> insert incoming (set (dvs_Siblings st))" for e
      using that by (cases "?D incoming e") (auto simp: survivors_def intro: bexI [of _ e])
    ultimately show ?thesis by simp
  qed
qed

theorem dvv_Sync_antichain_covers_witness:
  "dvv_antichain (dvs_Siblings (dvv_Sync
     \<lparr>dvs_Siblings = [\<lparr>dve_DVV = dvv_NewDVV ''A'' 1, dve_Value = [118]\<rparr>]\<rparr>
     \<lparr>dve_DVV = dvv_NewDVV ''B'' 1, dve_Value = [119]\<rparr>))"
proof -
  have "dvv_antichain (dvs_Siblings \<lparr>dvs_Siblings = [\<lparr>dve_DVV = dvv_NewDVV ''A'' 1, dve_Value = [118]\<rparr>]\<rparr>)"
    by (simp add: dvv_antichain_def)
  from dvv_Sync_antichain_covers [OF this] show ?thesis by blast
qed

text \<open>
  The dot does not separate concurrent writes through one server. Two writes made from the
  same context \<open>ctx\<close> at the same server get dots with different counters; neither writer saw
  the other value, but the one with the larger counter dominates, so \<^verbatim>\<open>Sync\<close> silently
  drops the other instead of keeping both as siblings.
\<close>

theorem dvv_same_server_lost_update:
  assumes "c1 \<le> c2"
  shows "dvv_Dominates (dvv_UpdateDVV ctx server c2) (dvv_UpdateDVV ctx server c1)
    \<and> dvs_Siblings (dvv_Sync \<lparr>dvs_Siblings = [\<lparr>dve_DVV = dvv_UpdateDVV ctx server c1, dve_Value = v1\<rparr>]\<rparr>
        \<lparr>dve_DVV = dvv_UpdateDVV ctx server c2, dve_Value = v2\<rparr>)
      = [\<lparr>dve_DVV = dvv_UpdateDVV ctx server c2, dve_Value = v2\<rparr>]"
proof -
  have "dvv_Dominates (dvv_UpdateDVV ctx server c2) (dvv_UpdateDVV ctx server c1)"
    using assms by (auto simp: dvv_Dominates_iff get_ToVV_Update le_max_iff_disj)
  then show ?thesis by (simp add: dvv_Sync_def Let_def)
qed

theorem dvv_same_server_lost_update_witness:
  "dvv_Dominates (dvv_UpdateDVV \<lparr>dvv_Vector = [], dvv_Dot = None\<rparr> ''A'' 2)
     (dvv_UpdateDVV \<lparr>dvv_Vector = [], dvv_Dot = None\<rparr> ''A'' 1)"
proof -
  have "(1 :: u64) \<le> 2" by simp
  from dvv_same_server_lost_update [OF this] show ?thesis by blast
qed

end
