(* ===== verification/Matrix_Clock.thy ===== *)
theory Matrix_Clock
  imports Vector_Clock
begin

text \<open>
  \<^verbatim>\<open>internal/clock/matrix/clock.go\<close>: matrix clocks, a map from processes to rows, each row a
  map of counters; a missing row reads as an empty one. The last section runs the clocks of a
  system of processes as a transition system and shows that the garbage-collection bound is
  sound.
\<close>

type_synonym mclock = "(pid, vclock) gomap"

abbreviation mrow :: "mclock \<Rightarrow> pid \<Rightarrow> vclock" where
  "mrow \<equiv> gm_get []"

abbreviation mget :: "mclock \<Rightarrow> pid \<Rightarrow> pid \<Rightarrow> u64" where
  "mget mc p q \<equiv> vget (mrow mc p) q"

definition matrix_New :: "pid list \<Rightarrow> mclock" where
  "matrix_New pids = fold (\<lambda>p mc. gm_set mc p (fold (\<lambda>q row. gm_set row q 0) pids [])) pids []"

definition matrix_DeepCopy :: "mclock \<Rightarrow> mclock" where
  "matrix_DeepCopy mc = gm_fold (\<lambda>p row result. gm_set result p (gm_copy row)) mc []"

definition matrix_inc :: "mclock \<Rightarrow> pid \<Rightarrow> mclock" where
  "matrix_inc result self =
     (let result' = (if map_of result self = None then gm_set result self [] else result);
          row = mrow result' self
      in gm_set result' self (gm_set row self (vget row self + 1)))"

definition matrix_Tick :: "mclock \<Rightarrow> pid \<Rightarrow> mclock" where
  "matrix_Tick mc self = matrix_inc (matrix_DeepCopy mc) self"

definition matrix_Send :: "mclock \<Rightarrow> pid \<Rightarrow> mclock \<times> mclock" where
  "matrix_Send mc self = (let local = matrix_Tick mc self in (local, matrix_DeepCopy local))"

text \<open>\<^verbatim>\<open>if result[k][pid] < val { result[k][pid] = val }\<close>\<close>

definition matrix_raise :: "pid \<Rightarrow> pid \<Rightarrow> u64 \<Rightarrow> mclock \<Rightarrow> mclock" where
  "matrix_raise k p v result =
     (if mget result k p < v then gm_set result k (gm_set (mrow result k) p v) else result)"

definition matrix_Receive :: "mclock \<Rightarrow> mclock \<Rightarrow> pid \<Rightarrow> pid \<Rightarrow> mclock" where
  "matrix_Receive local incoming self sender =
     (let result1 = matrix_inc (matrix_DeepCopy local) self;
          result2 = gm_fold (matrix_raise self) (mrow incoming sender) result1
      in gm_fold (\<lambda>k incomingRow result.
           if k = self then result
           else gm_fold (matrix_raise k) incomingRow
             (if map_of result k = None then gm_set result k [] else result)) incoming result2)"

definition matrix_MinKnowledge :: "mclock \<Rightarrow> pid \<Rightarrow> u64" where
  "matrix_MinKnowledge mc p =
     (if gm_len mc = 0 then 0
      else let m = fold (\<lambda>row m. if vget row p < m then vget row p else m) (gm_vals mc) (- 1)
           in if m = - 1 then 0 else m)"

definition matrix_CanGC :: "mclock \<Rightarrow> pid \<Rightarrow> u64 \<Rightarrow> bool" where
  "matrix_CanGC mc p upTo \<longleftrightarrow> matrix_MinKnowledge mc p \<ge> upTo"

section \<open>Component lemmas\<close>

lemma mrow_DeepCopy_Some: "map_of (matrix_DeepCopy mc) p = map_option gm_copy (map_of mc p)"
  unfolding matrix_DeepCopy_def
  by (subst gm_fold_pointwise [where look = map_of and g = "\<lambda>_ row _. Some (gm_copy row)"])
    (auto split: option.splits)

lemma mget_DeepCopy [simp, gm_simps]: "mget (matrix_DeepCopy mc) p q = mget mc p q"
  by (auto simp: gm_get_def [where z = "[]"] mrow_DeepCopy_Some split: option.splits)

lemma dom_DeepCopy [simp]: "dom (map_of (matrix_DeepCopy mc)) = dom (map_of mc)"
  by (auto simp: mrow_DeepCopy_Some domIff)

lemma mget_inc: "mget (matrix_inc mc self) p q =
    (if p = self \<and> q = self then mget mc self self + 1 else mget mc p q)"
  by (auto simp: matrix_inc_def Let_def gm_get_def [where z = "[]"] split: option.splits)

lemma dom_inc [simp]: "dom (map_of (matrix_inc mc self)) = insert self (dom (map_of mc))"
  by (auto simp: matrix_inc_def Let_def)

lemma mget_Tick [gm_simps]: "mget (matrix_Tick mc self) p q =
    (if p = self \<and> q = self then mget mc self self + 1 else mget mc p q)"
  by (simp add: matrix_Tick_def mget_inc)

lemma matrix_Send_parts [simp]:
  "fst (matrix_Send mc self) = matrix_Tick mc self"
  "mget (snd (matrix_Send mc self)) p q = mget (matrix_Tick mc self) p q"
  by (simp_all add: matrix_Send_def Let_def)

lemma mget_raise: "mget (matrix_raise k p v mc) i j =
    (if i = k \<and> j = p then max (mget mc k p) v else mget mc i j)"
  by (auto simp: matrix_raise_def max_def)

lemma mget_raise_row:
  "mget (gm_fold (matrix_raise k) row mc) i j =
    (if i = k then max (mget mc k j) (vget row j) else mget mc i j)"
proof (cases "i = k")
  case False
  have "mget (fold (\<lambda>(p, v). matrix_raise k p v) xs mc) i j = mget mc i j" for xs
    using False by (induction xs arbitrary: mc) (auto simp: mget_raise)
  with False show ?thesis by (simp add: gm_fold_def)
next
  case True
  have "mget (gm_fold (matrix_raise k) row mc) k j =
      (case map_of row j of None \<Rightarrow> mget mc k j | Some v \<Rightarrow> max (mget mc k j) v)"
    by (rule gm_fold_pointwise [where look = "\<lambda>mc. mget mc k" and g = "\<lambda>_ v w. max w v"])
      (auto simp: mget_raise)
  with True show ?thesis
    by (simp add: gm_get_def [of _ row] max_absorb1 split: option.splits)
qed

lemma mget_Receive [gm_simps]:
  "mget (matrix_Receive local incoming self sender) i j =
    (if i = self
     then max (if j = self then mget local self self + 1 else mget local self j) (mget incoming sender j)
     else max (mget local i j) (mget incoming i j))"
proof -
  let ?body = "\<lambda>k row result. if k = self then result else gm_fold (matrix_raise k) row
      (if map_of result k = None then gm_set result k [] else result)"
  let ?r2 = "gm_fold (matrix_raise self) (mrow incoming sender)
      (matrix_inc (matrix_DeepCopy local) self)"
  have ini: "mget (if map_of r k = None then gm_set r k [] else r) a b = mget r a b" for r k a b
    by (simp add: gm_get_def [where z = "[]"])
  have "(\<lambda>mc i. mget mc i j) (gm_fold ?body incoming ?r2) i =
      (case map_of incoming i of None \<Rightarrow> mget ?r2 i j
       | Some row \<Rightarrow> if i = self then mget ?r2 i j else max (mget ?r2 i j) (vget row j))"
    unfolding gm_fold_def [of ?body]
    by (rule fold_pointwise [where look = "\<lambda>mc i. mget mc i j" and f = ?body and
          g = "\<lambda>k row w. if k = self then w else max w (vget row j)",
          THEN trans])
      (auto simp: mget_raise_row ini split: option.splits)
  then show ?thesis
    by (auto simp: matrix_Receive_def Let_def mget_raise_row mget_inc max_absorb1
        gm_get_def [where z = "[]" and m = incoming] split: option.splits)
qed

lemma vget_zero_row: "vget (fold (\<lambda>q row. gm_set row q 0) pids []) k = 0"
  using vget_New [of pids k] by (simp add: vector_New_def)

lemma mget_New [simp, gm_simps]: "mget (matrix_New pids) p q = 0"
proof -
  have "mget (fold (\<lambda>p mc. gm_set mc p (fold (\<lambda>q row. gm_set row q 0) pids [])) ps mc) p q = 0"
    if "\<forall>p q. mget mc p q = 0" for ps mc
    using that by (induction ps arbitrary: mc) (simp_all add: vget_zero_row)
  then show ?thesis by (simp add: matrix_New_def)
qed

subsection \<open>The bound on common knowledge\<close>

lemma min_fold:
  "fold (\<lambda>row m. if vget row p < m then vget row p else m) rows m =
   Min (insert m ((\<lambda>row. vget row p) ` set rows))"
proof -
  have "(\<lambda>row m. if vget row p < m then vget row p else m) = (\<lambda>row. min (vget row p))"
    by (auto simp: fun_eq_iff min_def)
  then have "fold (\<lambda>row m. if vget row p < m then vget row p else m) rows m =
      fold min (map (\<lambda>row. vget row p) rows) m"
    by (simp add: fold_map comp_def)
  then show ?thesis using Min.set_eq_fold [of m "map (\<lambda>row. vget row p) rows"] by simp
qed

lemma MinKnowledge_lower:
  assumes "k \<in> dom (map_of mc)"
  shows "matrix_MinKnowledge mc p \<le> mget mc k p"
proof -
  obtain row where row: "map_of mc k = Some row" using assms by auto
  then have "row \<in> set (gm_vals mc)" by (auto simp: mem_gm_vals)
  moreover have "mrow mc k = row" using row by (simp add: gm_get_Some)
  ultimately show ?thesis
    by (auto simp: matrix_MinKnowledge_def Let_def min_fold)
qed

lemma MinKnowledge_greatest:
  assumes "dom (map_of mc) \<noteq> {}" and "b \<noteq> - 1"
    and below: "\<And>k. k \<in> dom (map_of mc) \<Longrightarrow> b \<le> mget mc k p"
    and "\<exists>k \<in> dom (map_of mc). mget mc k p \<noteq> - 1"
  shows "b \<le> matrix_MinKnowledge mc p"
proof -
  let ?m = "fold (\<lambda>row m. if vget row p < m then vget row p else m) (gm_vals mc) (- 1)"
  have len: "gm_len mc \<noteq> 0"
    using assms(1) finite_dom_map_of [of mc] by (simp add: gm_len_conv_keys)
  have rows: "b \<le> vget row p" if mem: "row \<in> set (gm_vals mc)" for row
  proof -
    obtain k where "map_of mc k = Some row" using mem by (auto simp: mem_gm_vals)
    then show ?thesis using below [of k] by (simp add: gm_get_Some domI)
  qed
  obtain k row where k: "map_of mc k = Some row" "vget row p \<noteq> - 1"
    using assms(4) by (auto simp: gm_get_Some)
  then have "row \<in> set (gm_vals mc)" by (auto simp: mem_gm_vals)
  then have "?m \<le> vget row p" by (simp add: min_fold)
  then have "?m \<noteq> - 1" using k(2) by (auto simp: word_order.extremum_unique)
  then show ?thesis
    using len rows by (auto simp: matrix_MinKnowledge_def Let_def min_fold)
qed

section \<open>The clock laws\<close>

definition matrix_room :: "pid \<Rightarrow> mclock \<Rightarrow> bool" where
  "matrix_room self mc \<longleftrightarrow> can_inc (mget mc self self)"

text \<open>A message fits when the sender does not claim to know more events of the receiver than
  the receiver has done.\<close>

definition matrix_fits :: "pid \<Rightarrow> pid \<Rightarrow> mclock \<Rightarrow> mclock \<Rightarrow> bool" where
  "matrix_fits self sender mc m \<longleftrightarrow>
     can_inc (mget mc self self) \<and> mget m sender self \<le> mget mc self self"

lemma matrix_Receive_own: "matrix_fits self sender c m \<Longrightarrow>
    mget (matrix_Receive c m self sender) self self = mget c self self + 1"
  by (simp add: matrix_fits_def mget_Receive max_absorb1 order_trans [OF _ can_inc_le])

lemma matrix_Receive_le:
  assumes "matrix_fits self sender c m"
  shows "vector_le (mrow c self) (mrow (matrix_Receive c m self sender) self)"
    "vector_le (mrow m sender) (mrow (matrix_Receive c m self sender) self)"
    "\<not> vector_le (mrow (matrix_Receive c m self sender) self) (mrow c self)"
    "\<not> vector_le (mrow (matrix_Receive c m self sender) self) (mrow m sender)"
proof -
  have inc: "can_inc (mget c self self)" and le: "mget m sender self \<le> mget c self self"
    using assms by (auto simp: matrix_fits_def)
  show "vector_le (mrow c self) (mrow (matrix_Receive c m self sender) self)"
    using inc by (auto simp: vector_le_iff mget_Receive le_max_iff_disj)
  show "vector_le (mrow m sender) (mrow (matrix_Receive c m self sender) self)"
    by (auto simp: vector_le_iff mget_Receive)
  have "mget c self self < mget (matrix_Receive c m self sender) self self"
    and "mget m sender self < mget (matrix_Receive c m self sender) self self"
    using inc le_plus_1_trans [OF inc le] by (simp_all add: matrix_Receive_own [OF assms])
  then show "\<not> vector_le (mrow (matrix_Receive c m self sender) self) (mrow c self)"
    and "\<not> vector_le (mrow (matrix_Receive c m self sender) self) (mrow m sender)"
    by (auto simp: vector_le_iff not_le)
qed

interpretation matrix_lc: logical_clock vector_le "\<lambda>c. mrow c self" "\<lambda>m. mrow m sender"
  "matrix_room self" "matrix_fits self sender"
  "\<lambda>c. matrix_Tick c self" "\<lambda>c m. matrix_Receive c m self sender" for self sender
proof unfold_locales
  fix c :: mclock
  show "matrix_room self c \<Longrightarrow> vector_le (mrow c self) (mrow (matrix_Tick c self) self)"
    by (simp add: vector_le_iff mget_Tick matrix_room_def)
  show "matrix_room self c \<Longrightarrow> \<not> vector_le (mrow (matrix_Tick c self) self) (mrow c self)"
    by (auto simp: vector_le_iff mget_Tick matrix_room_def not_le intro!: exI [of _ self])
qed (fact vector_lc.le_refl vector_lc.le_trans matrix_Receive_le)+

section \<open>A system of matrix clocks\<close>

text \<open>
  Processes with matrix clocks that tick, send and receive. A stamp that was sent stays
  available, so it may be received late, out of order, twice or never; the guard of each step
  is that no counter wraps.
\<close>

record msys =
  clocks :: "pid \<Rightarrow> mclock"
  stamps :: "(pid \<times> mclock) set"

inductive matrix_step :: "msys \<Rightarrow> msys \<Rightarrow> bool" where
  internal: "matrix_room p (clocks s p) \<Longrightarrow>
     matrix_step s (s\<lparr>clocks := (clocks s)(p := matrix_Tick (clocks s p) p)\<rparr>)"
| send: "matrix_room p (clocks s p) \<Longrightarrow> matrix_Send (clocks s p) p = (local, stamp) \<Longrightarrow>
     matrix_step s (s\<lparr>clocks := (clocks s)(p := local), stamps := insert (p, stamp) (stamps s)\<rparr>)"
| receive: "matrix_room p (clocks s p) \<Longrightarrow> (q, stamp) \<in> stamps s \<Longrightarrow>
     matrix_step s (s\<lparr>clocks := (clocks s)(p := matrix_Receive (clocks s p) stamp p q)\<rparr>)"

definition matrix_init :: "msys \<Rightarrow> bool" where
  "matrix_init s \<longleftrightarrow> (\<forall>i k j. mget (clocks s i) k j = 0) \<and> stamps s = {}"

text \<open>Nobody knows more about the row of a process than that process itself.\<close>

definition matrix_inv :: "msys \<Rightarrow> bool" where
  "matrix_inv s \<longleftrightarrow>
     (\<forall>i k j. mget (clocks s i) k j \<le> mget (clocks s k) k j)
     \<and> (\<forall>q m k j. (q, m) \<in> stamps s \<longrightarrow> mget m k j \<le> mget (clocks s k) k j)"

lemma matrix_inv_grow:
  assumes inv: "matrix_inv s"
    and own: "\<And>j. mget (clocks s p) p j \<le> mget c p j"
    and other: "\<And>k j. k \<noteq> p \<Longrightarrow> mget c k j \<le> mget (clocks s k) k j"
    and new: "\<And>q m k j. (q, m) \<in> st \<Longrightarrow> (q, m) \<in> stamps s \<or>
      mget m k j \<le> mget (if k = p then c else clocks s k) k j"
  shows "matrix_inv (s\<lparr>clocks := (clocks s)(p := c), stamps := st\<rparr>)"
  unfolding matrix_inv_def
proof (intro conjI allI impI)
  let ?cl = "(clocks s)(p := c)"
  have grow: "mget (clocks s k) k j \<le> mget (?cl k) k j" for k j
    using own by simp
  show "mget (clocks (s\<lparr>clocks := ?cl, stamps := st\<rparr>) i) k j
      \<le> mget (clocks (s\<lparr>clocks := ?cl, stamps := st\<rparr>) k) k j" for i k j
    using inv grow [of k j] other [of k j]
    by (auto simp: matrix_inv_def intro: order_trans [OF _ own])
  show "(q, m) \<in> stamps (s\<lparr>clocks := ?cl, stamps := st\<rparr>) \<Longrightarrow>
      mget m k j \<le> mget (clocks (s\<lparr>clocks := ?cl, stamps := st\<rparr>) k) k j" for q m k j
    using new [of q m k j] inv grow [of k j] 
    by (auto simp: matrix_inv_def split: if_splits intro: order_trans [OF _ own])
qed

lemma matrix_inv_tick:
  assumes "matrix_inv s" "matrix_room p (clocks s p)"
  shows "matrix_inv (s\<lparr>clocks := (clocks s)(p := matrix_Tick (clocks s p) p)\<rparr>)"
  using matrix_inv_grow [of s p "matrix_Tick (clocks s p) p" "stamps s"] assms
  by (simp add: mget_Tick matrix_room_def matrix_inv_def)

lemma matrix_inv_send:
  assumes "matrix_inv s" "matrix_room p (clocks s p)" "matrix_Send (clocks s p) p = (local, stamp)"
  shows "matrix_inv (s\<lparr>clocks := (clocks s)(p := local), stamps := insert (p, stamp) (stamps s)\<rparr>)"
proof (rule matrix_inv_grow [OF assms(1)])
  have local: "local = matrix_Tick (clocks s p) p" and st: "mget stamp k j = mget local k j" for k j
    using assms(3) matrix_Send_parts [of "clocks s p" p] by auto
  have inv: "mget (clocks s i) k j \<le> mget (clocks s k) k j" for i k j
    using assms(1) by (simp add: matrix_inv_def)
  show "mget (clocks s p) p j \<le> mget local p j" for j
    using assms(2) by (simp add: local mget_Tick matrix_room_def)
  show "k \<noteq> p \<Longrightarrow> mget local k j \<le> mget (clocks s k) k j" for k j
    using inv by (simp add: local mget_Tick)
  then show "(q, m) \<in> insert (p, stamp) (stamps s) \<Longrightarrow> (q, m) \<in> stamps s \<or>
      mget m k j \<le> mget (if k = p then local else clocks s k) k j" for q m k j
    by (auto simp: st)
qed

lemma matrix_inv_receive:
  assumes "matrix_inv s" "matrix_room p (clocks s p)" "(q, stamp) \<in> stamps s"
  shows "matrix_inv (s\<lparr>clocks := (clocks s)(p := matrix_Receive (clocks s p) stamp p q)\<rparr>)"
  using matrix_inv_grow [of s p "matrix_Receive (clocks s p) stamp p q" "stamps s"] assms
  by (auto simp: mget_Receive matrix_room_def matrix_inv_def le_max_iff_disj)

interpretation matrix_sys: transition_system matrix_init matrix_step matrix_inv
proof unfold_locales
  show "matrix_init s \<Longrightarrow> matrix_inv s" for s
    by (simp add: matrix_init_def matrix_inv_def)
  show "matrix_step s t \<Longrightarrow> matrix_inv s \<Longrightarrow> matrix_inv t" for s t
    by (induction rule: matrix_step.induct)
      (auto intro: matrix_inv_tick matrix_inv_send matrix_inv_receive)
qed

section \<open>Properties\<close>

text \<open>
  C10: garbage collection by the matrix clock is safe. In every state a system of matrix clocks
  can reach, if \<^verbatim>\<open>CanGC\<close> holds at process \<open>i\<close> for the first \<open>upTo\<close> events of \<open>q\<close>, then every
  process \<open>k\<close> that has a row in \<open>i\<close>'s matrix really knows at least \<open>upTo\<close> events of \<open>q\<close>.
  \<^verbatim>\<open>MinKnowledge\<close> never overstates, however late, reordered or duplicated the messages are.
\<close>

theorem matrix_CanGC_safe:
  assumes "matrix_init s0" and "matrix_step\<^sup>*\<^sup>* s0 s"
    and "matrix_CanGC (clocks s i) q upTo" and "k \<in> dom (map_of (clocks s i))"
  shows "upTo \<le> mget (clocks s k) k q"
proof -
  have "upTo \<le> mget (clocks s i) k q"
    using assms(3,4) MinKnowledge_lower order_trans unfolding matrix_CanGC_def by blast
  also have "\<dots> \<le> mget (clocks s k) k q"
    using matrix_sys.inv_reachable [OF assms(1,2)] by (simp add: matrix_inv_def)
  finally show ?thesis .
qed

definition matrix_demo0 :: msys where
  "matrix_demo0 = \<lparr>clocks = (\<lambda>_. matrix_New [''P1'', ''P2'']), stamps = {}\<rparr>"

definition matrix_demo1 :: msys where
  "matrix_demo1 = \<lparr>clocks = (clocks matrix_demo0)(''P1'' := matrix_Tick (matrix_New [''P1'', ''P2'']) ''P1''),
     stamps = {(''P1'', matrix_DeepCopy (matrix_Tick (matrix_New [''P1'', ''P2'']) ''P1''))}\<rparr>"

definition matrix_demo2 :: msys where
  "matrix_demo2 = matrix_demo1\<lparr>clocks := (clocks matrix_demo1)(''P2'' :=
     matrix_Receive (clocks matrix_demo1 ''P2'')
       (matrix_DeepCopy (matrix_Tick (matrix_New [''P1'', ''P2'']) ''P1'')) ''P2'' ''P1'')\<rparr>"

theorem matrix_CanGC_safe_witness:
  "matrix_CanGC (clocks matrix_demo2 ''P2'') ''P1'' 1 \<and> 1 \<le> mget (clocks matrix_demo2 ''P1'') ''P1'' ''P1''"
proof -
  have i: "matrix_init matrix_demo0" by (simp add: matrix_init_def matrix_demo0_def)
  have "matrix_step matrix_demo0 matrix_demo1"
    using matrix_step.send [of "''P1''" matrix_demo0]
    by (simp add: matrix_demo0_def matrix_demo1_def matrix_room_def can_inc_def matrix_Send_def Let_def)
  moreover have "matrix_step matrix_demo1 matrix_demo2"
    unfolding matrix_demo2_def
    by (rule matrix_step.receive)
      (simp_all add: matrix_demo0_def matrix_demo1_def matrix_room_def can_inc_def)
  ultimately have r: "matrix_step\<^sup>*\<^sup>* matrix_demo0 matrix_demo2" by auto
  have g: "matrix_CanGC (clocks matrix_demo2 ''P2'') ''P1'' 1"
    and d: "''P1'' \<in> dom (map_of (clocks matrix_demo2 ''P2''))"
    unfolding matrix_demo2_def matrix_demo1_def matrix_demo0_def domIff by code_simp+
  show ?thesis using g matrix_CanGC_safe [OF i r g d] by blast
qed

text \<open>
  What \<^verbatim>\<open>MinKnowledge\<close> computes. It is a lower bound of the column over the rows that are
  present, and the greatest one except for the sentinel: a matrix without rows gives 0, and so
  does a column that is \<open>2^64 - 1\<close> in every row. \<^verbatim>\<open>CanGC\<close> therefore holds whenever every
  present row has reached \<open>upTo\<close>, away from the sentinel.
\<close>

theorem matrix_MinKnowledge_greatest_lower_bound:
  assumes "dom (map_of mc) \<noteq> {}" and "\<exists>k \<in> dom (map_of mc). mget mc k q \<noteq> - 1" and "upTo \<noteq> - 1"
  shows "(\<forall>k \<in> dom (map_of mc). matrix_MinKnowledge mc q \<le> mget mc k q)
    \<and> (matrix_CanGC mc q upTo \<longleftrightarrow> (\<forall>k \<in> dom (map_of mc). upTo \<le> mget mc k q))"
proof
  show lower: "\<forall>k \<in> dom (map_of mc). matrix_MinKnowledge mc q \<le> mget mc k q"
    using MinKnowledge_lower by blast
  show "matrix_CanGC mc q upTo \<longleftrightarrow> (\<forall>k \<in> dom (map_of mc). upTo \<le> mget mc k q)"
    unfolding matrix_CanGC_def
    using lower MinKnowledge_greatest [OF assms(1,3) _ assms(2)] by (meson order_trans)
qed

theorem matrix_MinKnowledge_greatest_lower_bound_witness:
  "matrix_CanGC [(''P1'', [(''P1'', 3)]), (''P2'', [(''P1'', 2)])] ''P1'' 2"
proof -
  let ?m = "[(''P1'', [(''P1'', 3)]), (''P2'', [(''P1'', 2)])] :: mclock"
  have "dom (map_of ?m) \<noteq> {}" and "\<exists>k \<in> dom (map_of ?m). mget ?m k ''P1'' \<noteq> - 1"
    and "(2 :: u64) \<noteq> - 1" and "\<forall>k \<in> dom (map_of ?m). 2 \<le> mget ?m k ''P1''"
    by (auto simp: gm_get_def)
  then show ?thesis using matrix_MinKnowledge_greatest_lower_bound by blast
qed

end
