(* ===== verification/Causal_Graph.thy ===== *)
theory Causal_Graph
  imports Go_Interfaces
begin

text \<open>
  \<^verbatim>\<open>internal/causality/graph.go\<close>: the graph of happened-before edges, its bounded
  breadth-first search and the ancestors of an event. The read-write
  mutex makes every method atomic. Maps used as sets are represented by the list of their keys.
\<close>

definition maxBFSDepth :: nat where
  "maxBFSDepth = 10000"

text \<open>\<^verbatim>\<open>EventType\<close> is a string type; its zero value is the empty string.\<close>

type_synonym causal_event_type = string

definition EventInternal :: causal_event_type where "EventInternal = ''internal''"
definition EventSend :: causal_event_type where "EventSend = ''send''"
definition EventReceive :: causal_event_type where "EventReceive = ''receive''"

record cevent =
  ce_ID :: string
  ce_ProcessID :: string
  ce_Type :: causal_event_type
  ce_LocalSeq :: u64
  ce_MessageID :: string

record CausalGraph =
  cg_events :: "(string, cevent) gomap"
  cg_edges :: "(string, (string, bool) gomap) gomap"

definition causality_NewCausalGraph :: CausalGraph where
  "causality_NewCausalGraph = \<lparr>cg_events = [], cg_edges = []\<rparr>"

definition causality_AddEvent :: "CausalGraph \<Rightarrow> cevent \<Rightarrow> CausalGraph" where
  "causality_AddEvent g e =
     (let g' = g\<lparr>cg_events := gm_set (cg_events g) (ce_ID e) e\<rparr>
      in if map_of (cg_edges g') (ce_ID e) = None
         then g'\<lparr>cg_edges := gm_set (cg_edges g') (ce_ID e) []\<rparr> else g')"

definition causality_AddEdge :: "CausalGraph \<Rightarrow> string \<Rightarrow> string \<Rightarrow> CausalGraph" where
  "causality_AddEdge g from to =
     (let es = (if map_of (cg_edges g) from = None then gm_set (cg_edges g) from [] else cg_edges g)
      in g\<lparr>cg_edges := gm_set es from (gm_set (gm_get [] es from) to True)\<rparr>)"

abbreviation succs :: "CausalGraph \<Rightarrow> string \<Rightarrow> string list" where
  "succs g x \<equiv> gm_keys (gm_get [] (cg_edges g) x)"

section \<open>Bounded breadth-first search\<close>

function hb_loop :: "CausalGraph \<Rightarrow> string \<Rightarrow> string list \<Rightarrow> string list \<Rightarrow> bool" where
  "hb_loop g b visited [] = False"
| "hb_loop g b visited (cur # queue) =
     (if cur = b then True
      else if cur \<in> set visited then hb_loop g b visited queue
      else let visited' = cur # visited
           in if length visited' \<ge> maxBFSDepth then False
              else hb_loop g b visited' (queue @ filter (\<lambda>n. n \<notin> set visited') (succs g cur)))"
  by pat_completeness auto
termination
  by (relation "measures [\<lambda>(g, b, visited, queue). maxBFSDepth - length visited,
        \<lambda>(g, b, visited, queue). length queue]") auto

definition causality_HappenedBefore :: "CausalGraph \<Rightarrow> string \<Rightarrow> string \<Rightarrow> bool" where
  "causality_HappenedBefore g aID bID = (if aID = bID then False else hb_loop g bID [] [aID])"

definition causality_Concurrent :: "CausalGraph \<Rightarrow> string \<Rightarrow> string \<Rightarrow> bool" where
  "causality_Concurrent g aID bID \<longleftrightarrow>
     \<not> causality_HappenedBefore g aID bID \<and> \<not> causality_HappenedBefore g bID aID"

section \<open>Ancestors\<close>

definition reverse_edges :: "CausalGraph \<Rightarrow> (string, string list) gomap" where
  "reverse_edges g =
     gm_fold (\<lambda>from tos reverse. fold (\<lambda>to reverse. gm_set reverse to (gm_get [] reverse to @ [from])) (gm_keys tos) reverse)
       (cg_edges g) []"

function history_loop :: "(string, cevent) gomap \<Rightarrow> (string, string list) gomap \<Rightarrow> string list \<Rightarrow>
    string list \<Rightarrow> cevent list \<Rightarrow> cevent list" where
  "history_loop evs reverse visited [] result = result"
| "history_loop evs reverse visited (cur # queue) result =
     (if cur \<in> set visited then history_loop evs reverse visited queue result
      else history_loop evs reverse (cur # visited) (queue @ gm_get [] reverse cur)
        (case map_of evs cur of None \<Rightarrow> result | Some e \<Rightarrow> result @ [e]))"
  by pat_completeness auto

termination
proof (relation "measures [\<lambda>(evs, reverse, visited, queue, result). card (dom (map_of reverse) - set visited),
        \<lambda>(evs, reverse, visited, queue, result). length queue]", goal_cases)
  case (3 evs reverse visited cur queue result)
  show ?case
  proof (cases "cur \<in> dom (map_of reverse)")
    case True
    with 3 have "card (dom (map_of reverse) - insert cur (set visited))
        < card (dom (map_of reverse) - set visited)"
      by (intro card_Diff_insert_less finite_dom_map_of)
    then show ?thesis by (simp del: Diff_insert0 card_Diff_insert)
  next
    case False
    then have "dom (map_of reverse) - insert cur (set visited) = dom (map_of reverse) - set visited" by auto
    with False show ?thesis by (simp add: gm_get_not_dom)
  qed
qed simp_all

definition causality_CausalHistory :: "CausalGraph \<Rightarrow> string \<Rightarrow> cevent list" where
  "causality_CausalHistory g x =
     (let reverse = reverse_edges g in history_loop (cg_events g) reverse [] (gm_get [] reverse x) [])"

definition causality_Events :: "CausalGraph \<Rightarrow> (string, cevent) gomap" where
  "causality_Events g = gm_copy (cg_events g)"

section \<open>The edge relation\<close>

definition edge_rel :: "CausalGraph \<Rightarrow> (string \<times> string) set" where
  "edge_rel g = {(x, y). y \<in> set (succs g x)}"

lemma edge_rel_iff: "(x, y) \<in> edge_rel g \<longleftrightarrow> y \<in> set (succs g x)"
  by (simp add: edge_rel_def)

lemma edge_rel_New [simp]: "edge_rel causality_NewCausalGraph = {}"
  by (simp add: edge_rel_def causality_NewCausalGraph_def)

lemma edge_rel_AddEvent [simp]: "edge_rel (causality_AddEvent g e) = edge_rel g"
  by (auto simp: edge_rel_def causality_AddEvent_def Let_def gm_get_def [where z = "[]"]
      split: if_splits option.splits)

lemma edge_rel_AddEdge [simp]: "edge_rel (causality_AddEdge g x y) = insert (x, y) (edge_rel g)"
  by (auto simp: edge_rel_def causality_AddEdge_def Let_def gm_get_def [where z = "[]"] domIff
      split: if_splits option.splits)

lemma finite_edge_rel [simp]: "finite (edge_rel g)"
proof (rule finite_subset)
  let ?V = "dom (map_of (cg_edges g))"
  show "edge_rel g \<subseteq> (SIGMA x : ?V. set (succs g x))"
    by (auto simp: edge_rel_def gm_get_def [where z = "[]"] split: option.splits)
  show "finite (SIGMA x : ?V. set (succs g x))"
    by (auto intro!: finite_SigmaI finite_dom_map_of simp del: set_gm_keys)
qed

lemma finite_reach [simp]: "finite ((edge_rel g)\<^sup>* `` {a})"
proof (rule finite_subset)
  show "(edge_rel g)\<^sup>* `` {a} \<subseteq> insert a (Range (edge_rel g))"
    by (auto elim: rtranclE)
qed (simp add: finite_Range)

section \<open>Search: soundness and completeness\<close>

lemma hb_loop_sound:
  "hb_loop g b visited queue \<Longrightarrow> \<exists>q \<in> set queue. (q, b) \<in> (edge_rel g)\<^sup>*"
proof (induction g b visited queue rule: hb_loop.induct)
  case (1 g b visited)
  then show ?case by simp
next
  case (2 g b visited cur queue)
  show ?case
  proof (cases "cur = b \<or> cur \<in> set visited")
    case True
    with 2 show ?thesis by (auto split: if_splits)
  next
    case False
    with 2 obtain q where q: "(q, b) \<in> (edge_rel g)\<^sup>*"
        "q \<in> set queue \<or> q \<in> set (succs g cur)"
      by (auto simp: Let_def split: if_splits)
    then show ?thesis
      by (auto simp: edge_rel_iff simp del: set_gm_keys intro: converse_rtrancl_into_rtrancl)
  qed
qed

lemma closed_reach: "E `` X \<subseteq> X \<Longrightarrow> x \<in> X \<Longrightarrow> (x, y) \<in> E\<^sup>* \<Longrightarrow> y \<in> X"
  by (metis Image_closed_trancl ImageI)

lemma hb_loop_complete:
  assumes "distinct visited" and "b \<notin> set visited"
    and "set visited \<union> set queue \<subseteq> R" and "finite R" and "card R < maxBFSDepth"
    and "edge_rel g `` R \<subseteq> R"
    and "edge_rel g `` set visited \<subseteq> set visited \<union> set queue"
    and "\<exists>q \<in> set visited \<union> set queue. (q, b) \<in> (edge_rel g)\<^sup>*"
  shows "hb_loop g b visited queue"
  using assms
proof (induction g b visited queue rule: hb_loop.induct)
  case (1 g b visited)
  then show ?case using closed_reach [of "edge_rel g" "set visited"] by auto
next
  case (2 g b visited cur queue)
  consider "cur = b" | "cur \<noteq> b" "cur \<in> set visited" | "cur \<noteq> b" "cur \<notin> set visited" by blast
  then show ?case
  proof cases
    case 1
    then show ?thesis by simp
  next
    case 2
    with "2.IH"(1) "2.prems" show ?thesis by (auto simp: insert_absorb)
  next
    case 3
    have "card (set (cur # visited)) \<le> card R"
      using "2.prems" by (intro card_mono) auto
    then have len: "length (cur # visited) < maxBFSDepth"
      using "2.prems"(1,5) 3 by (simp add: distinct_card)
    have R: "set (succs g cur) \<subseteq> R"
      using "2.prems"(3,6) by (fastforce simp: edge_rel_iff simp del: set_gm_keys)
    have "hb_loop g b (cur # visited)
        (queue @ filter (\<lambda>n. n \<notin> set (cur # visited)) (succs g cur))"
    proof (rule "2.IH"(2) [OF 3(1) 3(2) refl])
      show "\<not> maxBFSDepth \<le> length (cur # visited)" using len by simp
      show "distinct (cur # visited)" "b \<notin> set (cur # visited)"
        using 3 "2.prems" by auto
      show "set (cur # visited) \<union> set (queue @ filter (\<lambda>n. n \<notin> set (cur # visited)) (succs g cur)) \<subseteq> R"
        using R "2.prems"(3) by (auto simp del: set_gm_keys)
      show "edge_rel g `` set (cur # visited) \<subseteq> set (cur # visited) \<union>
          set (queue @ filter (\<lambda>n. n \<notin> set (cur # visited)) (succs g cur))"
        using "2.prems"(7) by (auto simp: edge_rel_iff simp del: set_gm_keys)
      show "\<exists>q \<in> set (cur # visited) \<union>
          set (queue @ filter (\<lambda>n. n \<notin> set (cur # visited)) (succs g cur)). (q, b) \<in> (edge_rel g)\<^sup>*"
        using "2.prems"(8) by auto
    qed (use "2.prems" in auto)
    with 3 len show ?thesis by (simp add: Let_def)
  qed
qed

section \<open>Ancestors: soundness and completeness\<close>

definition pred_rel :: "(string, string list) gomap \<Rightarrow> (string \<times> string) set" where
  "pred_rel reverse = {(x, y). x \<in> set (gm_get [] reverse y)}"

lemma fold_add_pred:
  "set (gm_get [] (fold (\<lambda>to r. gm_set r to (gm_get [] r to @ [x])) ts r) y) =
   set (gm_get [] r y) \<union> (if y \<in> set ts then {x} else {})"
  by (induction ts arbitrary: r) auto

lemma fold_reverse:
  "set (gm_get [] (fold (\<lambda>(x, tos). fold (\<lambda>to r. gm_set r to (gm_get [] r to @ [x])) (gm_keys tos)) xs r) y) =
   set (gm_get [] r y) \<union> {x. \<exists>tos. (x, tos) \<in> set xs \<and> y \<in> set (gm_keys tos)}"
proof (induction xs arbitrary: r)
  case Nil
  then show ?case by simp
next
  case (Cons p xs)
  then show ?case by (cases p) (auto simp: fold_add_pred simp del: set_gm_keys)
qed

lemma pred_rel_reverse: "pred_rel (reverse_edges g) = edge_rel g"
  by (auto simp: pred_rel_def reverse_edges_def gm_fold_def fold_reverse mem_gm_range edge_rel_iff
      gm_get_def [where z = "[]" and m = "cg_edges g"] simp del: set_gm_keys split: option.splits)

lemma history_loop_sound:
  "e \<in> set (history_loop evs reverse visited queue result) \<Longrightarrow>
   e \<in> set result \<or> (\<exists>x c. c \<in> set queue \<and> (x, c) \<in> (pred_rel reverse)\<^sup>* \<and> map_of evs x = Some e)"
proof (induction evs reverse visited queue result rule: history_loop.induct)
  case (1 evs reverse visited result)
  then show ?case by simp
next
  case (2 evs reverse visited cur queue result)
  show ?case
  proof (cases "cur \<in> set visited")
    case True
    with 2 show ?thesis by auto
  next
    case False
    with 2 consider "e \<in> set result" | "map_of evs cur = Some e"
      | x c where "c \<in> set queue \<or> (c, cur) \<in> pred_rel reverse" "(x, c) \<in> (pred_rel reverse)\<^sup>*"
        "map_of evs x = Some e"
      by (auto simp: pred_rel_def split: option.splits)
    then show ?thesis by cases (auto intro: rtrancl_into_rtrancl)
  qed
qed

lemma history_loop_complete:
  assumes "\<And>x y. y \<in> set visited \<Longrightarrow> (x, y) \<in> pred_rel reverse \<Longrightarrow> x \<in> set visited \<union> set queue"
    and "\<And>x e. x \<in> set visited \<Longrightarrow> map_of evs x = Some e \<Longrightarrow> e \<in> set result"
    and "c \<in> set visited \<union> set queue" and "(x, c) \<in> (pred_rel reverse)\<^sup>*" and "map_of evs x = Some e"
  shows "e \<in> set (history_loop evs reverse visited queue result)"
  using assms
proof (induction evs reverse visited queue result rule: history_loop.induct)
  case (1 evs reverse visited result)
  have "x \<in> set visited"
    using "1.prems"(4,3,1) by (induction rule: converse_rtrancl_induct) auto
  with "1.prems" show ?case by simp
next
  case (2 evs reverse visited cur queue result)
  show ?case
  proof (cases "cur \<in> set visited")
    case True
    have "e \<in> set (history_loop evs reverse visited queue result)"
      by (rule "2.IH"(1) [OF True]) (use True "2.prems" in auto)
    with True show ?thesis by simp
  next
    case False
    have "e \<in> set (history_loop evs reverse (cur # visited) (queue @ gm_get [] reverse cur)
        (case map_of evs cur of None \<Rightarrow> result | Some e \<Rightarrow> result @ [e]))"
      by (rule "2.IH"(2) [OF False])
        (use "2.prems" in \<open>auto simp: pred_rel_def split: option.splits\<close>)
    with False show ?thesis by simp
  qed
qed

lemma history_loop_distinct:
  assumes "\<And>x e. map_of evs x = Some e \<Longrightarrow> ce_ID e = x"
    and "distinct (map ce_ID result)" and "set (map ce_ID result) \<subseteq> set visited"
  shows "distinct (map ce_ID (history_loop evs reverse visited queue result))"
  using assms
proof (induction evs reverse visited queue result rule: history_loop.induct)
  case (1 evs reverse visited result)
  then show ?case by simp
next
  case (2 evs reverse visited cur queue result)
  show ?case
  proof (cases "cur \<in> set visited")
    case True
    with "2.IH"(1) "2.prems" show ?thesis by simp
  next
    case False
    have "distinct (map ce_ID (history_loop evs reverse (cur # visited) (queue @ gm_get [] reverse cur)
        (case map_of evs cur of None \<Rightarrow> result | Some e \<Rightarrow> result @ [e])))"
      by (rule "2.IH"(2) [OF False]) (use "2.prems" False in \<open>auto split: option.splits\<close>)
    with False show ?thesis by simp
  qed
qed

section \<open>Well-formed graphs\<close>

text \<open>Events are stored under their own identifiers.\<close>

definition graph_wf :: "CausalGraph \<Rightarrow> bool" where
  "graph_wf g \<longleftrightarrow> (\<forall>x e. map_of (cg_events g) x = Some e \<longrightarrow> ce_ID e = x)"

inductive graph_step :: "CausalGraph \<Rightarrow> CausalGraph \<Rightarrow> bool" where
  add_event: "graph_step g (causality_AddEvent g e)"
| add_edge: "graph_step g (causality_AddEdge g x y)"

interpretation graph_ops: transition_system "\<lambda>g. g = causality_NewCausalGraph" graph_step graph_wf
proof unfold_locales
  show "g = causality_NewCausalGraph \<Longrightarrow> graph_wf g" for g
    by (simp add: graph_wf_def causality_NewCausalGraph_def)
  show "graph_step g h \<Longrightarrow> graph_wf g \<Longrightarrow> graph_wf h" for g h
    by (induction rule: graph_step.induct)
      (auto simp: graph_wf_def causality_AddEvent_def causality_AddEdge_def Let_def split: if_splits)
qed

section \<open>Properties of the searches\<close>

text \<open>
  C14: \<^verbatim>\<open>HappenedBefore\<close> answers reachability. A positive answer always comes from a path of
  happened-before edges between two different events; and as long as fewer than
  \<^verbatim>\<open>maxBFSDepth\<close> nodes can be reached from \<open>a\<close>, the answer is exactly "a path exists",
  although the search is breadth-first with a visited set, skips queued duplicates and gives up
  at the cap. Cycles do not make it loop.
\<close>

theorem causality_HappenedBefore_correct:
  "(causality_HappenedBefore g a b \<longrightarrow> a \<noteq> b \<and> (a, b) \<in> (edge_rel g)\<^sup>+)
   \<and> (card ((edge_rel g)\<^sup>* `` {a}) < maxBFSDepth \<longrightarrow>
        (causality_HappenedBefore g a b \<longleftrightarrow> a \<noteq> b \<and> (a, b) \<in> (edge_rel g)\<^sup>+))"
proof -
  have sound: "causality_HappenedBefore g a b \<Longrightarrow> a \<noteq> b \<and> (a, b) \<in> (edge_rel g)\<^sup>+"
    using hb_loop_sound [of g b "[]" "[a]"]
    by (auto simp: causality_HappenedBefore_def rtrancl_eq_or_trancl split: if_splits)
  have "causality_HappenedBefore g a b"
    if small: "card ((edge_rel g)\<^sup>* `` {a}) < maxBFSDepth" and "a \<noteq> b" "(a, b) \<in> (edge_rel g)\<^sup>+"
  proof -
    have "hb_loop g b [] [a]"
      by (rule hb_loop_complete [where R = "(edge_rel g)\<^sup>* `` {a}"])
        (use that in \<open>auto intro: rtrancl_into_rtrancl trancl_into_rtrancl\<close>)
    with \<open>a \<noteq> b\<close> show ?thesis by (simp add: causality_HappenedBefore_def)
  qed
  with sound show ?thesis by blast
qed

theorem causality_HappenedBefore_correct_witness:
  "causality_HappenedBefore
     (causality_AddEdge (causality_AddEdge causality_NewCausalGraph ''a'' ''b'') ''b'' ''c'') ''a'' ''c''"
proof -
  let ?g = "causality_AddEdge (causality_AddEdge causality_NewCausalGraph ''a'' ''b'') ''b'' ''c''"
  have "(edge_rel ?g)\<^sup>* `` {''a''} \<subseteq> {''a'', ''b'', ''c''}"
    by (rule subsetI, erule ImageE, erule rtrancl_induct) auto
  then have "card ((edge_rel ?g)\<^sup>* `` {''a''}) \<le> card {''a'', ''b'', ''c''}"
    by (intro card_mono) auto
  then have "card ((edge_rel ?g)\<^sup>* `` {''a''}) < maxBFSDepth"
    by (simp add: maxBFSDepth_def)
  moreover have "(''a'', ''c'') \<in> (edge_rel ?g)\<^sup>+"
    by (rule trancl_trans [of _ "''b''"]) auto
  ultimately show ?thesis using causality_HappenedBefore_correct [of ?g "''a''" "''c''"] by simp
qed

text \<open>
  C39: \<^verbatim>\<open>CausalHistory\<close> returns exactly the registered events with a path to \<open>x\<close>, for every
  graph (cycles and edges between unregistered identifiers included), and no event twice when
  events are stored under their own identifiers.
\<close>

theorem causality_CausalHistory_ancestors:
  "set (causality_CausalHistory g x) =
     {e. \<exists>a. (a, x) \<in> (edge_rel g)\<^sup>+ \<and> map_of (cg_events g) a = Some e}
   \<and> (graph_wf g \<longrightarrow> distinct (map ce_ID (causality_CausalHistory g x)))"
proof (intro conjI set_eqI iffI impI)
  let ?q = "gm_get [] (reverse_edges g) x"
  have q: "set ?q = {c. (c, x) \<in> edge_rel g}"
    using pred_rel_reverse [of g] by (auto simp: pred_rel_def)
  fix e
  assume "e \<in> set (causality_CausalHistory g x)"
  then show "e \<in> {e. \<exists>a. (a, x) \<in> (edge_rel g)\<^sup>+ \<and> map_of (cg_events g) a = Some e}"
    using history_loop_sound [of e "cg_events g" "reverse_edges g" "[]" ?q "[]"] q
    by (auto simp: causality_CausalHistory_def Let_def pred_rel_reverse intro: rtrancl_into_trancl1)
next
  let ?q = "gm_get [] (reverse_edges g) x"
  have q: "set ?q = {c. (c, x) \<in> edge_rel g}"
    using pred_rel_reverse [of g] by (auto simp: pred_rel_def)
  fix e
  assume "e \<in> {e. \<exists>a. (a, x) \<in> (edge_rel g)\<^sup>+ \<and> map_of (cg_events g) a = Some e}"
  then obtain a c where "(a, c) \<in> (edge_rel g)\<^sup>*" "(c, x) \<in> edge_rel g" "map_of (cg_events g) a = Some e"
    by (auto dest: tranclD2)
  then show "e \<in> set (causality_CausalHistory g x)"
    using history_loop_complete [of "[]" "reverse_edges g" ?q "cg_events g" "[]" c a e] q
    by (auto simp: causality_CausalHistory_def Let_def pred_rel_reverse)
next
  assume "graph_wf g"
  then show "distinct (map ce_ID (causality_CausalHistory g x))"
    using history_loop_distinct [of "cg_events g" "[]" "[]"]
    by (simp add: causality_CausalHistory_def Let_def graph_wf_def)
qed

theorem causality_CausalHistory_ancestors_witness:
  "distinct (map ce_ID (causality_CausalHistory
     (causality_AddEdge causality_NewCausalGraph ''a'' ''b'') ''b''))"
proof -
  have "graph_step\<^sup>*\<^sup>* causality_NewCausalGraph (causality_AddEdge causality_NewCausalGraph ''a'' ''b'')"
    by (rule r_into_rtranclp) (rule graph_step.add_edge)
  then have "graph_wf (causality_AddEdge causality_NewCausalGraph ''a'' ''b'')"
    using graph_ops.inv_reachable by blast
  then show ?thesis using causality_CausalHistory_ancestors by blast
qed

end
