(* ===== verification/Topo_Sort.thy ===== *)
theory Topo_Sort
  imports Causal_Graph
begin

text \<open>
  \<^verbatim>\<open>TopologicalSort\<close> of \<^verbatim>\<open>internal/causality/graph.go\<close>: Kahn's algorithm on the registered
  events. Edges with an unregistered end are ignored. The degrees are Go \<^verbatim>\<open>int\<close>s; they stay
  between 0 and the number of events, so an unbounded \<^typ>\<open>int\<close> stands for them.
\<close>

section \<open>The algorithm\<close>

definition topo_registered :: "CausalGraph \<Rightarrow> string \<Rightarrow> bool" where
  "topo_registered g x \<longleftrightarrow> map_of (cg_events g) x \<noteq> None"

definition topo_count :: "CausalGraph \<Rightarrow> string list \<Rightarrow> (string, int) gomap \<Rightarrow> (string, int) gomap" where
  "topo_count g tos inDegree =
     fold (\<lambda>to d. if topo_registered g to then gm_set d to (gm_get 0 d to + 1) else d) tos inDegree"

definition topo_degrees :: "CausalGraph \<Rightarrow> (string, int) gomap" where
  "topo_degrees g =
     gm_fold (\<lambda>x tos d. if \<not> topo_registered g x then d else topo_count g (gm_keys tos) d)
       (cg_edges g) (gm_fold (\<lambda>x e d. gm_set d x 0) (cg_events g) [])"

definition topo_relax :: "CausalGraph \<Rightarrow> string \<Rightarrow> (string, int) gomap \<times> string list \<Rightarrow>
    (string, int) gomap \<times> string list" where
  "topo_relax g nxt = (\<lambda>(inDegree, queue).
     if \<not> topo_registered g nxt then (inDegree, queue)
     else let inDegree' = gm_set inDegree nxt (gm_get 0 inDegree nxt - 1)
          in (inDegree', if gm_get 0 inDegree' nxt = 0 then queue @ [nxt] else queue))"

lemma fold_topo_relax:
  assumes "distinct ts"
  shows "(\<forall>k. gm_get 0 (fst (fold (topo_relax g) ts (d, q))) k =
            gm_get 0 d k - (if k \<in> set ts \<and> topo_registered g k then 1 else 0))
    \<and> snd (fold (topo_relax g) ts (d, q)) =
        q @ filter (\<lambda>n. topo_registered g n \<and> gm_get 0 d n = 1) ts"
  using assms
proof (induction ts arbitrary: d q)
  case Nil
  then show ?case by simp
next
  case (Cons t ts)
  show ?case
  proof (cases "topo_registered g t")
    case True
    let ?d = "gm_set d t (gm_get 0 d t - 1)"
    have same: "filter (\<lambda>n. topo_registered g n \<and> gm_get 0 ?d n = 1) ts
        = filter (\<lambda>n. topo_registered g n \<and> gm_get 0 d n = 1) ts"
      using Cons.prems by (intro filter_cong) auto
    show ?thesis
      using Cons.IH [of ?d "if gm_get 0 ?d t = 0 then q @ [t] else q"] Cons.prems True same
      by (auto simp: topo_relax_def Let_def)
  next
    case False
    then show ?thesis using Cons by (auto simp: topo_relax_def)
  qed
qed

lemmas get_fold_relax = fold_topo_relax [THEN conjunct1, rule_format]
lemmas queue_fold_relax = fold_topo_relax [THEN conjunct2]

function topo_loop :: "CausalGraph \<Rightarrow> (string, int) gomap \<Rightarrow> string list \<Rightarrow> cevent list \<Rightarrow> cevent list" where
  "topo_loop g inDegree [] result = result"
| "topo_loop g inDegree (cur # queue) result =
     (let result' = (case map_of (cg_events g) cur of None \<Rightarrow> result | Some e \<Rightarrow> result @ [e]);
          s = fold (topo_relax g) (succs g cur) (inDegree, queue)
      in topo_loop g (fst s) (snd s) result')"
  by pat_completeness auto
termination
proof (relation "measure (\<lambda>(g, d, queue, result).
    card {k. topo_registered g k \<and> gm_get 0 d k > 0} + length queue)", goal_cases)
  case 1
  then show ?case by simp
next
  case (2 g d cur queue result result' s)
  let ?ts = "succs g cur"
  let ?new = "filter (\<lambda>n. topo_registered g n \<and> gm_get 0 d n = 1) ?ts"
  let ?A = "{k. topo_registered g k \<and> gm_get 0 d k > 0}"
  let ?B = "{k. topo_registered g k \<and> gm_get 0 (fst s) k > 0}"
  have fin: "finite ?A"
    by (rule finite_subset [of _ "dom (map_of (cg_events g))"])
      (auto simp: topo_registered_def finite_dom_map_of)
  have B: "?B \<subseteq> ?A - set ?new"
    using 2(2) by (auto simp: get_fold_relax simp del: set_gm_keys split: if_splits)
  have new: "set ?new \<subseteq> ?A" by auto
  have len: "length ?new = card (set ?new)" by (rule distinct_card [symmetric]) simp
  have "card ?B \<le> card (?A - set ?new)" using fin B by (intro card_mono) auto
  then have "card ?B + length ?new \<le> card (?A - set ?new) + card (set ?new)" using len by linarith
  also have "\<dots> = card ?A"
    using fin new by (simp add: card_Diff_subset card_mono del: set_filter)
  finally show ?case using 2(2) by (simp add: queue_fold_relax)
qed

definition causality_TopologicalSort :: "CausalGraph \<Rightarrow> cevent list" where
  "causality_TopologicalSort g =
     (let inDegree = topo_degrees g;
          queue = map fst (filter (\<lambda>(x, deg). deg = 0) (gm_range inDegree))
      in topo_loop g inDegree queue [])"

section \<open>The degrees\<close>

definition topo_preds :: "CausalGraph \<Rightarrow> string \<Rightarrow> string set" where
  "topo_preds g n = {m. topo_registered g m \<and> (m, n) \<in> edge_rel g}"

lemma finite_registered [simp]: "finite {m. topo_registered g m}"
  using finite_dom_map_of [of "cg_events g"] by (simp add: topo_registered_def dom_def)

lemma finite_preds [simp]: "finite (topo_preds g n)"
  by (rule finite_subset [OF _ finite_registered [of g]]) (auto simp: topo_preds_def)

lemma get_topo_count:
  "distinct tos \<Longrightarrow> gm_get 0 (topo_count g tos d) k =
     gm_get 0 d k + (if k \<in> set tos \<and> topo_registered g k then 1 else 0)"
  unfolding topo_count_def by (induction tos arbitrary: d) auto

lemma dom_topo_count:
  "dom (map_of d) = {k. topo_registered g k} \<Longrightarrow>
   dom (map_of (topo_count g tos d)) = {k. topo_registered g k}"
  unfolding topo_count_def by (induction tos arbitrary: d) (simp_all add: insert_absorb)

lemma topo_degrees_fold:
  assumes "distinct (map fst xs)" and "topo_registered g k"
  shows "gm_get 0 (fold (\<lambda>(x, tos) d. if \<not> topo_registered g x then d else topo_count g (gm_keys tos) d) xs d) k
    = gm_get 0 d k + int (card {x. topo_registered g x \<and> (\<exists>tos. (x, tos) \<in> set xs \<and> k \<in> set (gm_keys tos))})"
  using assms
proof (induction xs arbitrary: d)
  case Nil
  then show ?case by simp
next
  case (Cons p xs)
  obtain x tos where p: "p = (x, tos)" by (cases p)
  let ?S = "\<lambda>ys. {x. topo_registered g x \<and> (\<exists>tos. (x, tos) \<in> set ys \<and> k \<in> set (gm_keys tos))}"
  have fin: "finite (?S xs)" by (rule finite_subset [OF _ finite_registered [of g]]) auto
  have out: "x \<notin> ?S xs" using Cons.prems p by force
  have "?S (p # xs) = (if topo_registered g x \<and> k \<in> set (gm_keys tos) then insert x (?S xs) else ?S xs)"
    using p by auto
  then have "card (?S (p # xs)) =
      (if topo_registered g x \<and> k \<in> set (gm_keys tos) then Suc (card (?S xs)) else card (?S xs))"
    using fin out by simp
  then show ?case
    using Cons p by (auto simp: get_topo_count simp del: set_gm_keys)
qed

lemma init_degrees: "map_of (gm_fold (\<lambda>x e d. gm_set d x 0) evs []) k = map_option (\<lambda>_. 0 :: int) (map_of evs k)"
  by (subst gm_fold_pointwise [where look = map_of and g = "\<lambda>_ _ _. Some 0"]) (auto split: option.splits)

lemma get_topo_degrees:
  assumes "topo_registered g k"
  shows "gm_get 0 (topo_degrees g) k = int (card (topo_preds g k))"
proof -
  have "{x. topo_registered g x \<and> (\<exists>tos. (x, tos) \<in> set (gm_range (cg_edges g)) \<and> k \<in> set (gm_keys tos))}
      = topo_preds g k"
    by (auto simp: topo_preds_def edge_rel_iff mem_gm_range gm_get_def [where z = "[]"]
        simp del: set_gm_keys split: option.splits)
  then show ?thesis
    using topo_degrees_fold [OF distinct_gm_range assms, of "cg_edges g"]
    by (simp add: topo_degrees_def gm_fold_def [where m = "cg_edges g"] gm_get_def [of _ "gm_fold _ _ []"]
        init_degrees split: option.splits)
qed

lemma dom_topo_degrees: "dom (map_of (topo_degrees g)) = {k. topo_registered g k}"
proof -
  let ?f = "\<lambda>(x, tos) d. if \<not> topo_registered g x then d else topo_count g (gm_keys tos) d"
  have "dom (map_of d) = {k. topo_registered g k} \<Longrightarrow>
      dom (map_of (fold ?f xs d)) = {k. topo_registered g k}" for xs and d :: "(string, int) gomap"
    by (induction xs arbitrary: d) (simp_all add: dom_topo_count split_beta)
  moreover have "dom (map_of (gm_fold (\<lambda>x e d. gm_set d x (0 :: int)) (cg_events g) [])) = {k. topo_registered g k}"
    by (auto simp: init_degrees topo_registered_def)
  ultimately show ?thesis unfolding topo_degrees_def gm_fold_def [where m = "cg_edges g"] by blast
qed

section \<open>Correctness\<close>

text \<open>
  After the identifiers \<open>ids\<close> were emitted: every degree counts the predecessors not emitted
  yet, the emitted and queued identifiers are those with none left, nothing was queued twice,
  and every identifier was emitted after its predecessors.
\<close>

definition topo_ordered :: "CausalGraph \<Rightarrow> string list \<Rightarrow> bool" where
  "topo_ordered g ids \<longleftrightarrow> (\<forall>xs y ys. ids = xs @ y # ys \<longrightarrow> topo_preds g y \<subseteq> set xs)"

definition topo_inv :: "CausalGraph \<Rightarrow> (string, int) gomap \<Rightarrow> string list \<Rightarrow> string list \<Rightarrow> bool" where
  "topo_inv g d queue ids \<longleftrightarrow>
     (\<forall>n. topo_registered g n \<longrightarrow> gm_get 0 d n = int (card (topo_preds g n - set ids)))
     \<and> set ids \<union> set queue = {n. topo_registered g n \<and> topo_preds g n \<subseteq> set ids}
     \<and> distinct (ids @ queue) \<and> topo_ordered g ids"

lemma topo_ordered_snoc:
  assumes "topo_ordered g ids" "topo_preds g cur \<subseteq> set ids"
  shows "topo_ordered g (ids @ [cur])"
  unfolding topo_ordered_def
proof (intro allI impI)
  fix xs y ys
  assume eq: "ids @ [cur] = xs @ y # ys"
  show "topo_preds g y \<subseteq> set xs"
    using eq assms by (cases ys rule: rev_cases) (auto simp: topo_ordered_def)
qed

lemma mem_preds_succs: "cur \<in> topo_preds g n \<longleftrightarrow> topo_registered g cur \<and> n \<in> set (succs g cur)"
  by (simp add: topo_preds_def edge_rel_iff del: set_gm_keys)

lemma topo_inv_step:
  assumes inv: "topo_inv g d (cur # queue) ids"
  shows "topo_inv g (fst (fold (topo_relax g) (succs g cur) (d, queue)))
           (snd (fold (topo_relax g) (succs g cur) (d, queue))) (ids @ [cur])"
proof -
  let ?new = "filter (\<lambda>n. topo_registered g n \<and> gm_get 0 d n = 1) (succs g cur)"
  have deg: "gm_get 0 d n = int (card (topo_preds g n - set ids))" if "topo_registered g n" for n
    using inv that by (simp add: topo_inv_def)
  have cur: "topo_registered g cur" "topo_preds g cur \<subseteq> set ids" "cur \<notin> set ids"
    and dist: "distinct (ids @ queue)" "cur \<notin> set queue"
    and all: "set ids \<union> set (cur # queue) = {n. topo_registered g n \<and> topo_preds g n \<subseteq> set ids}"
    using inv by (auto simp: topo_inv_def)
  have new: "set ?new = {n. topo_registered g n \<and> topo_preds g n - set ids = {cur}}"
  proof (intro set_eqI iffI)
    fix n assume "n \<in> set ?new"
    then have "cur \<in> topo_preds g n - set ids" "card (topo_preds g n - set ids) = 1" "topo_registered g n"
      using cur deg [of n] by (auto simp: mem_preds_succs simp del: set_gm_keys)
    then show "n \<in> {n. topo_registered g n \<and> topo_preds g n - set ids = {cur}}"
      by (metis (mono_tags, lifting) card_1_singletonE mem_Collect_eq singletonD)
  next
    fix n assume "n \<in> {n. topo_registered g n \<and> topo_preds g n - set ids = {cur}}"
    moreover from this have "cur \<in> topo_preds g n" by blast
    ultimately show "n \<in> set ?new" using deg [of n] by (simp add: mem_preds_succs del: set_gm_keys)
  qed
  have fresh: "set ?new \<inter> (set ids \<union> set (cur # queue)) = {}" unfolding new all by auto
  have "gm_get 0 (fst (fold (topo_relax g) (succs g cur) (d, queue))) n
      = int (card (topo_preds g n - set (ids @ [cur])))" if n: "topo_registered g n" for n
  proof (cases "cur \<in> topo_preds g n")
    case True
    have "topo_preds g n - set (ids @ [cur]) = (topo_preds g n - set ids) - {cur}" by auto
    moreover have "card (topo_preds g n - set ids) \<ge> 1"
      using True cur(3) by (simp add: Suc_le_eq card_gt_0_iff) blast
    ultimately show ?thesis
      using True cur n deg [OF n] by (simp add: get_fold_relax mem_preds_succs of_nat_diff del: set_gm_keys)
  next
    case False
    then have "topo_preds g n - set (ids @ [cur]) = topo_preds g n - set ids" by auto
    then show ?thesis using False cur n deg [OF n]
      by (simp add: get_fold_relax mem_preds_succs del: set_gm_keys)
  qed
  moreover have "set (ids @ [cur]) \<union> set (queue @ ?new)
      = {n. topo_registered g n \<and> topo_preds g n \<subseteq> set (ids @ [cur])}"
    using all new by auto
  moreover have "distinct ((ids @ [cur]) @ queue @ ?new)"
    using dist cur fresh by (auto simp del: set_gm_keys)
  moreover have "topo_ordered g (ids @ [cur])"
    using inv cur by (auto simp: topo_inv_def intro: topo_ordered_snoc)
  ultimately show ?thesis by (simp add: topo_inv_def queue_fold_relax del: set_gm_keys)
qed

lemma topo_loop_inv:
  assumes "topo_inv g d queue ids"
  shows "\<exists>d' ids'. topo_inv g d' [] ids' \<and>
    topo_loop g d queue (map (\<lambda>x. the (map_of (cg_events g) x)) ids) = map (\<lambda>x. the (map_of (cg_events g) x)) ids'"
  using assms
proof (induction g d queue "map (\<lambda>x. the (map_of (cg_events g) x)) ids" arbitrary: ids rule: topo_loop.induct)
  case (1 g d)
  then show ?case by auto
next
  case (2 g d cur queue)
  have "topo_registered g cur" using "2.prems" by (auto simp: topo_inv_def)
  then obtain e where e: "map_of (cg_events g) cur = Some e" by (auto simp: topo_registered_def)
  show ?case
    using "2.hyps" [OF _ refl topo_inv_step [OF "2.prems"]] e by (simp add: Let_def)
qed

lemma topo_inv_init: "topo_inv g (topo_degrees g)
    (map fst (filter (\<lambda>(x, deg). deg = 0) (gm_range (topo_degrees g)))) []"
proof -
  let ?q = "map fst (filter (\<lambda>(x, deg). deg = 0) (gm_range (topo_degrees g)))"
  have "set ?q = {n. map_of (topo_degrees g) n = Some 0}"
    by (force simp: mem_gm_range)
  also have "\<dots> = {n. topo_registered g n \<and> topo_preds g n \<subseteq> {}}"
  proof (intro Collect_cong)
    fix n
    show "map_of (topo_degrees g) n = Some 0 \<longleftrightarrow> topo_registered g n \<and> topo_preds g n \<subseteq> {}"
    proof (cases "topo_registered g n")
      case True
      then obtain v where v: "map_of (topo_degrees g) n = Some v" using dom_topo_degrees [of g] by blast
      then have "v = int (card (topo_preds g n))" using get_topo_degrees [OF True] by (simp add: gm_get_Some)
      with True v show ?thesis by simp
    next
      case False
      then have "map_of (topo_degrees g) n = None" using dom_topo_degrees [of g] by blast
      with False show ?thesis by simp
    qed
  qed
  finally have "set ?q = {n. topo_registered g n \<and> topo_preds g n \<subseteq> {}}" .
  moreover have "distinct ?q" by (rule distinct_map_filter) simp
  ultimately show ?thesis by (simp add: topo_inv_def get_topo_degrees topo_ordered_def)
qed

definition topo_edges :: "CausalGraph \<Rightarrow> (string \<times> string) set" where
  "topo_edges g = {(x, y). topo_registered g x \<and> topo_registered g y \<and> (x, y) \<in> edge_rel g}"

lemma topo_complete_if_acyclic:
  assumes inv: "topo_inv g d [] ids" and acyc: "acyclic (topo_edges g)"
  shows "{n. topo_registered g n} \<subseteq> set ids"
proof (rule ccontr)
  let ?Q = "{n. topo_registered g n} - set ids"
  assume "\<not> {n. topo_registered g n} \<subseteq> set ids"
  then obtain n where n: "n \<in> ?Q" by blast
  have "finite (topo_edges g)"
    by (rule finite_subset [OF _ finite_edge_rel [of g]]) (auto simp: topo_edges_def)
  then have "wf (topo_edges g)" using acyc by (rule finite_acyclic_wf)
  then obtain z where z: "z \<in> ?Q" "\<And>y. (y, z) \<in> topo_edges g \<Longrightarrow> y \<notin> ?Q"
    using n by (rule wfE_min) blast
  then have "topo_preds g z \<subseteq> set ids" by (auto simp: topo_preds_def topo_edges_def)
  moreover have "set ids = {n. topo_registered g n \<and> topo_preds g n \<subseteq> set ids}"
    using inv by (simp add: topo_inv_def)
  ultimately show False using z(1) by blast
qed

lemma topo_ordered_trancl:
  assumes ord: "topo_ordered g ids" and "(x, y) \<in> (topo_edges g)\<^sup>+" and "ids = xs @ y # ys"
  shows "x \<in> set xs"
  using assms(2,3)
proof (induction arbitrary: xs ys rule: trancl_induct)
  case (base y)
  then have "topo_preds g y \<subseteq> set xs" using ord unfolding topo_ordered_def by blast
  with base show ?case by (auto simp: topo_edges_def topo_preds_def)
next
  case (step y z)
  then have "topo_preds g z \<subseteq> set xs" using ord unfolding topo_ordered_def by blast
  then have "y \<in> set xs" using step.hyps(2) by (auto simp: topo_edges_def topo_preds_def)
  then obtain us vs where xs: "xs = us @ y # vs" by (meson split_list)
  then have "x \<in> set us" using step.prems by (intro step.IH [of us "vs @ z # ys"]) simp
  with xs show ?case by simp
qed

lemma topo_acyclic_if_complete:
  assumes inv: "topo_inv g d [] ids" and all: "{n. topo_registered g n} \<subseteq> set ids"
  shows "acyclic (topo_edges g)"
proof (rule acyclicI, intro allI notI)
  fix x
  assume cyc: "(x, x) \<in> (topo_edges g)\<^sup>+"
  then have "topo_registered g x" by (auto simp: topo_edges_def dest: tranclD)
  then obtain xs ys where ids: "ids = xs @ x # ys" using all by (metis CollectI split_list subsetD)
  have "topo_ordered g ids" "distinct ids" using inv by (auto simp: topo_inv_def)
  with topo_ordered_trancl [OF _ cyc ids] ids show False by simp
qed

text \<open>
  C15: \<^verbatim>\<open>TopologicalSort\<close> ends on every graph and lists registered events, none twice, each
  one after all registered events it has an incoming edge from; and the list holds every
  registered event exactly when the registered part of the graph has no cycle.
\<close>

theorem causality_TopologicalSort_correct:
  assumes "graph_wf g"
  shows "let ids = map ce_ID (causality_TopologicalSort g)
    in distinct ids \<and> set ids \<subseteq> dom (map_of (cg_events g))
      \<and> (\<forall>xs y ys x. ids = xs @ y # ys \<and> x \<in> dom (map_of (cg_events g)) \<and> (x, y) \<in> edge_rel g \<longrightarrow> x \<in> set xs)
      \<and> (set ids = dom (map_of (cg_events g)) \<longleftrightarrow>
            acyclic (edge_rel g \<inter> dom (map_of (cg_events g)) \<times> dom (map_of (cg_events g))))"
proof -
  obtain d ids where inv: "topo_inv g d [] ids"
      and res: "causality_TopologicalSort g = map (\<lambda>x. the (map_of (cg_events g) x)) ids"
    using topo_loop_inv [OF topo_inv_init, of g] by (auto simp: causality_TopologicalSort_def Let_def)
  have reg: "{n. topo_registered g n} = dom (map_of (cg_events g))" by (auto simp: topo_registered_def)
  have sub: "set ids \<subseteq> dom (map_of (cg_events g))" using inv reg by (auto simp: topo_inv_def)
  then have "map ce_ID (causality_TopologicalSort g) = ids"
    using assms unfolding res graph_wf_def map_map
    by (intro map_idI) (metis comp_apply domD option.sel subsetD)
  moreover have "edge_rel g \<inter> dom (map_of (cg_events g)) \<times> dom (map_of (cg_events g)) = topo_edges g"
    by (auto simp: topo_edges_def topo_registered_def)
  moreover have "set ids = dom (map_of (cg_events g)) \<longleftrightarrow> acyclic (topo_edges g)"
    using topo_complete_if_acyclic [OF inv] topo_acyclic_if_complete [OF inv] sub reg by auto
  moreover have "x \<in> set xs" if "ids = xs @ y # ys" "x \<in> dom (map_of (cg_events g))" "(x, y) \<in> edge_rel g" for xs y ys x
  proof -
    have "topo_preds g y \<subseteq> set xs" using inv that(1) unfolding topo_inv_def topo_ordered_def by blast
    then show ?thesis using that(2,3) by (auto simp: topo_preds_def topo_registered_def)
  qed
  moreover have "distinct ids" using inv by (simp add: topo_inv_def)
  ultimately show ?thesis using sub by (auto simp: Let_def)
qed

definition topo_demo :: CausalGraph where
  "topo_demo = causality_AddEdge
     (causality_AddEvent
       (causality_AddEvent causality_NewCausalGraph
         \<lparr>ce_ID = ''b'', ce_ProcessID = ''P2'', ce_Type = EventReceive, ce_LocalSeq = 1, ce_MessageID = ''m''\<rparr>)
       \<lparr>ce_ID = ''a'', ce_ProcessID = ''P1'', ce_Type = EventSend, ce_LocalSeq = 1, ce_MessageID = ''m''\<rparr>)
     ''a'' ''b''"

theorem causality_TopologicalSort_correct_witness:
  "map ce_ID (causality_TopologicalSort topo_demo) = [''a'', ''b'']
   \<and> distinct (map ce_ID (causality_TopologicalSort topo_demo))"
proof
  show "map ce_ID (causality_TopologicalSort topo_demo) = [''a'', ''b'']" by code_simp
  have "graph_wf topo_demo"
    by (simp add: graph_wf_def topo_demo_def causality_AddEdge_def causality_AddEvent_def
        causality_NewCausalGraph_def)
  from causality_TopologicalSort_correct [OF this]
  show "distinct (map ce_ID (causality_TopologicalSort topo_demo))" by (simp add: Let_def)
qed

end
