(* ===== verification/Causal_Cut.thy ===== *)
theory Causal_Cut
  imports Causal_Graph Vector_Clock
begin

text \<open>
  \<^verbatim>\<open>internal/causality/cut.go\<close>: cuts of a recorded execution, their consistency, the
  enumeration of all consistent cuts, the c below a vector clock and the pairing of send and
  receive events. A Go \<^verbatim>\<open>int\<close> has 64 bits here (the platforms the build targets), so the
  conversion of a \<^verbatim>\<open>uint64\<close> is \<open>sint\<close>, except in \<^verbatim>\<open>uint64ToIntBounded\<close>, which clamps.
\<close>

section \<open>Data and helpers\<close>

record Cut =
  cut_Frontier :: "(string, int) gomap"

record CutMessage =
  cm_ID :: string
  cm_SendEventID :: string
  cm_RecvEventID :: string

definition maxInt :: int where
  "maxInt = 2 ^ 63 - 1"

definition uint64ToIntBounded :: "u64 \<Rightarrow> int" where
  "uint64ToIntBounded v = (if int (unat v) > maxInt then maxInt else int (unat v))"

definition findEvent :: "cevent list \<Rightarrow> string \<Rightarrow> cevent option" where
  "findEvent events x = List.find (\<lambda>e. ce_ID e = x) events"

definition groupByProcess :: "cevent list \<Rightarrow> (string, cevent list) gomap" where
  "groupByProcess events =
     fold (\<lambda>e result. gm_set result (ce_ProcessID e) (gm_get [] result (ce_ProcessID e) @ [e])) events []"

definition cut_keys :: "(string, cevent list) gomap \<Rightarrow> string list" where
  "cut_keys m = gm_keys m"

definition copyFrontier :: "(string, int) gomap \<Rightarrow> (string, int) gomap" where
  "copyFrontier f = gm_copy f"

section \<open>Operations\<close>

definition message_consistent :: "Cut \<Rightarrow> cevent list \<Rightarrow> CutMessage \<Rightarrow> bool" where
  "message_consistent c events msg =
     (case (findEvent events (cm_SendEventID msg), findEvent events (cm_RecvEventID msg)) of
        (Some sendEvent, Some recvEvent) \<Rightarrow>
          (case map_of (cut_Frontier c) (ce_ProcessID recvEvent) of
             None \<Rightarrow> True
           | Some recvCutline \<Rightarrow>
               let recvInCut = uint64ToIntBounded (ce_LocalSeq recvEvent) \<le> recvCutline;
                   sendInCut = (case map_of (cut_Frontier c) (ce_ProcessID sendEvent) of
                                  None \<Rightarrow> False
                                | Some sendCutline \<Rightarrow> uint64ToIntBounded (ce_LocalSeq sendEvent) \<le> sendCutline)
               in \<not> (recvInCut \<and> \<not> sendInCut))
      | _ \<Rightarrow> True)"

definition IsConsistent :: "Cut \<Rightarrow> cevent list \<Rightarrow> CutMessage list \<Rightarrow> bool" where
  "IsConsistent c events messages = list_all (message_consistent c events) messages"

text \<open>The frontier of \<open>p\<close> in round \<open>i\<close> of the loop; \<open>i - 1\<close> is in range there.\<close>

definition frontier_at :: "(string, cevent list) gomap \<Rightarrow> string \<Rightarrow> nat \<Rightarrow> int" where
  "frontier_at byProcess p i = (if i = 0 then - 1
     else uint64ToIntBounded (ce_LocalSeq (gm_get [] byProcess p ! (i - 1))))"

text \<open>
  The frontier map is shared by the recursive calls, which overwrite it, so it is threaded
  together with the result.
\<close>

primrec enumerateCuts :: "string list \<Rightarrow> (string, cevent list) gomap \<Rightarrow> cevent list \<Rightarrow> CutMessage list \<Rightarrow>
    (string, int) gomap \<times> Cut list \<Rightarrow> (string, int) gomap \<times> Cut list" where
  "enumerateCuts [] byProcess allEvents messages s =
     (let c = \<lparr>cut_Frontier = copyFrontier (fst s)\<rparr>
      in if IsConsistent c allEvents messages then (fst s, snd s @ [c]) else s)"
| "enumerateCuts (p # pids) byProcess allEvents messages s =
     fold (\<lambda>i s. enumerateCuts pids byProcess allEvents messages
             (gm_set (fst s) p (frontier_at byProcess p i), snd s))
       [0 ..< Suc (length (gm_get [] byProcess p))] s"

definition FindConsistentCuts :: "cevent list \<Rightarrow> CutMessage list \<Rightarrow> Cut list" where
  "FindConsistentCuts events messages =
     (let byProcess = groupByProcess events
      in snd (enumerateCuts (cut_keys byProcess) byProcess events messages ([], [])))"

definition cut_raise :: "vclock \<Rightarrow> cevent \<Rightarrow> (string, int) gomap \<Rightarrow> (string, int) gomap" where
  "cut_raise vc e frontier =
     (let seq = sint (ce_LocalSeq e); limit = sint (vget vc (ce_ProcessID e))
      in if seq \<le> limit
         then (if seq > gm_get 0 frontier (ce_ProcessID e)
               then gm_set frontier (ce_ProcessID e) seq else frontier)
         else frontier)"

definition CutBefore :: "vclock \<Rightarrow> cevent list \<Rightarrow> Cut" where
  "CutBefore vc events =
     (let frontier = fold (cut_raise vc) events []
      in \<lparr>cut_Frontier = fold (\<lambda>p f. if map_of f p = None then gm_set f p (- 1) else f)
                          (gm_keys (groupByProcess events)) frontier\<rparr>)"

definition FindMessages :: "cevent list \<Rightarrow> CutMessage list" where
  "FindMessages events =
     concat (map (\<lambda>e. if ce_Type e = EventSend \<and> ce_MessageID e \<noteq> ''''
        then map (\<lambda>recv. \<lparr>cm_ID = ce_MessageID e, cm_SendEventID = ce_ID e, cm_RecvEventID = ce_ID recv\<rparr>)
               (filter (\<lambda>recv. ce_Type recv = EventReceive \<and> ce_MessageID recv = ce_MessageID e) events)
        else []) events)"

section \<open>Lemmas\<close>

lemma groupByProcess_fold:
  "gm_get [] (fold (\<lambda>e r. gm_set r (ce_ProcessID e) (gm_get [] r (ce_ProcessID e) @ [e])) es r) p
     = gm_get [] r p @ filter (\<lambda>e. ce_ProcessID e = p) es
   \<and> dom (map_of (fold (\<lambda>e r. gm_set r (ce_ProcessID e) (gm_get [] r (ce_ProcessID e) @ [e])) es r))
     = dom (map_of r) \<union> ce_ProcessID ` set es"
  by (induction es arbitrary: r) auto

lemma get_groupByProcess [simp]: "gm_get [] (groupByProcess es) p = filter (\<lambda>e. ce_ProcessID e = p) es"
  using groupByProcess_fold [of es "[]" p] by (simp add: groupByProcess_def)

lemma dom_groupByProcess [simp]: "dom (map_of (groupByProcess es)) = ce_ProcessID ` set es"
  using groupByProcess_fold [of es "[]"] by (simp add: groupByProcess_def)

text \<open>Whether an event is in a cut, and consistency as the code documents it.\<close>

definition in_cut :: "Cut \<Rightarrow> cevent \<Rightarrow> bool" where
  "in_cut c e \<longleftrightarrow> (\<exists>v. map_of (cut_Frontier c) (ce_ProcessID e) = Some v
      \<and> uint64ToIntBounded (ce_LocalSeq e) \<le> v)"

lemma message_consistent_iff:
  "message_consistent c evs m \<longleftrightarrow> (\<forall>s r.
     findEvent evs (cm_SendEventID m) = Some s \<longrightarrow> findEvent evs (cm_RecvEventID m) = Some r \<longrightarrow>
     in_cut c r \<longrightarrow> in_cut c s)"
  unfolding message_consistent_def in_cut_def Let_def
  by (cases "findEvent evs (cm_SendEventID m)"; cases "findEvent evs (cm_RecvEventID m)")
    (auto split: option.splits)

lemma IsConsistent_iff:
  "IsConsistent c evs msgs \<longleftrightarrow> (\<forall>m \<in> set msgs. \<forall>s r.
     findEvent evs (cm_SendEventID m) = Some s \<longrightarrow> findEvent evs (cm_RecvEventID m) = Some r \<longrightarrow>
     in_cut c r \<longrightarrow> in_cut c s)"
  by (simp add: IsConsistent_def list_all_iff message_consistent_iff)

text \<open>On a cut with a frontier for every process, consistency in terms of the sequence numbers.\<close>

lemma find_mem: "List.find P xs = Some x \<Longrightarrow> x \<in> set xs"
  by (auto simp: find_Some_iff)

lemma IsConsistent_declarative:
  assumes "dom (map_of (cut_Frontier d)) = ce_ProcessID ` set evs"
  shows "IsConsistent d evs msgs \<longleftrightarrow> (\<forall>m snd_ev rcv_ev v w. m \<in> set msgs
      \<and> List.find (\<lambda>e. ce_ID e = cm_SendEventID m) evs = Some snd_ev
      \<and> List.find (\<lambda>e. ce_ID e = cm_RecvEventID m) evs = Some rcv_ev
      \<and> map_of (cut_Frontier d) (ce_ProcessID snd_ev) = Some v
      \<and> map_of (cut_Frontier d) (ce_ProcessID rcv_ev) = Some w
      \<and> uint64ToIntBounded (ce_LocalSeq rcv_ev) \<le> w \<longrightarrow>
      uint64ToIntBounded (ce_LocalSeq snd_ev) \<le> v)" (is "_ \<longleftrightarrow> ?R")
proof -
  have total: "\<exists>v. map_of (cut_Frontier d) (ce_ProcessID e) = Some v" if "List.find P evs = Some e" for P e
  proof -
    have "ce_ProcessID e \<in> dom (map_of (cut_Frontier d))" using assms find_mem [OF that] by simp
    then show ?thesis by blast
  qed
  show ?thesis
  proof
    show "IsConsistent d evs msgs \<Longrightarrow> ?R"
      unfolding IsConsistent_iff findEvent_def in_cut_def by fastforce
  next
    assume R: ?R
    show "IsConsistent d evs msgs"
      unfolding IsConsistent_iff findEvent_def in_cut_def using R total by metis
  qed
qed

lemma IsConsistent_cong:
  "map_of (cut_Frontier c) = map_of (cut_Frontier d) \<Longrightarrow> IsConsistent c evs msgs = IsConsistent d evs msgs"
  by (simp add: IsConsistent_iff in_cut_def)

section \<open>Enumeration\<close>

definition frontier_values :: "(string, cevent list) gomap \<Rightarrow> string \<Rightarrow> int set" where
  "frontier_values byProcess p =
     insert (- 1) ((\<lambda>e. uint64ToIntBounded (ce_LocalSeq e)) ` set (gm_get [] byProcess p))"

lemma frontier_values_index:
  "frontier_values byP p = frontier_at byP p ` {0 ..< Suc (length (gm_get [] byP p))}"
  (is "_ = ?f ` ?I")
proof (intro equalityI subsetI)
  fix v assume "v \<in> frontier_values byP p"
  then consider "v = - 1" | j where "j < length (gm_get [] byP p)"
      "v = uint64ToIntBounded (ce_LocalSeq (gm_get [] byP p ! j))"
    by (auto simp: frontier_values_def in_set_conv_nth)
  then show "v \<in> ?f ` ?I"
  proof cases
    case 1
    then show ?thesis by (intro image_eqI [of _ _ 0]) (auto simp: frontier_at_def)
  next
    case 2
    then show ?thesis by (intro image_eqI [of _ _ "Suc j"]) (auto simp: frontier_at_def)
  qed
qed (auto simp: frontier_values_def frontier_at_def)

text \<open>
  What the enumeration adds: the consistent ones among the maps that agree with the given
  frontier outside \<open>pids\<close> and take an admissible value on each of them.
\<close>

definition frontier_choices :: "string list \<Rightarrow> (string, cevent list) gomap \<Rightarrow> (string \<rightharpoonup> int) \<Rightarrow> (string \<rightharpoonup> int) set" where
  "frontier_choices pids byP f = {h. (\<forall>p. p \<notin> set pids \<longrightarrow> h p = f p) \<and>
      (\<forall>p \<in> set pids. \<exists>v \<in> frontier_values byP p. h p = Some v)}"

lemma frontier_choices_Cons:
  assumes "p \<notin> set pids"
  shows "frontier_choices (p # pids) byP f = (\<Union>v \<in> frontier_values byP p. frontier_choices pids byP (f(p \<mapsto> v)))"
proof (intro equalityI subsetI)
  fix h assume h: "h \<in> frontier_choices (p # pids) byP f"
  then obtain v where "v \<in> frontier_values byP p" "h p = Some v" by (auto simp: frontier_choices_def)
  with h show "h \<in> (\<Union>v \<in> frontier_values byP p. frontier_choices pids byP (f(p \<mapsto> v)))"
    by (auto simp: frontier_choices_def intro!: bexI [of _ v])
next
  fix h assume "h \<in> (\<Union>v \<in> frontier_values byP p. frontier_choices pids byP (f(p \<mapsto> v)))"
  with assms show "h \<in> frontier_choices (p # pids) byP f" by (auto simp: frontier_choices_def)
qed

definition cut_maps :: "Cut list \<Rightarrow> (string \<rightharpoonup> int) set" where
  "cut_maps cuts = (\<lambda>c. map_of (cut_Frontier c)) ` set cuts"

definition consistent_map :: "cevent list \<Rightarrow> CutMessage list \<Rightarrow> (string \<rightharpoonup> int) \<Rightarrow> bool" where
  "consistent_map evs msgs h \<longleftrightarrow> (\<forall>c. map_of (cut_Frontier c) = h \<longrightarrow> IsConsistent c evs msgs)"

lemma consistent_map_of [simp]:
  "consistent_map evs msgs (map_of (cut_Frontier c)) = IsConsistent c evs msgs"
  unfolding consistent_map_def using IsConsistent_cong by metis

lemma frontier_choices_cong:
  "(\<And>q. q \<notin> set pids \<Longrightarrow> f q = g q) \<Longrightarrow> frontier_choices pids byP f = frontier_choices pids byP g"
  by (auto simp: frontier_choices_def)

lemma enumerateCuts_spec:
  assumes "distinct pids"
  shows "cut_maps (snd (enumerateCuts pids byP evs msgs s)) = cut_maps (snd s) \<union>
      {h \<in> frontier_choices pids byP (map_of (fst s)). consistent_map evs msgs h}
    \<and> (\<forall>q. q \<notin> set pids \<longrightarrow> map_of (fst (enumerateCuts pids byP evs msgs s)) q = map_of (fst s) q)"
  using assms
proof (induction pids arbitrary: s)
  case Nil
  have "consistent_map evs msgs (map_of (fst s)) = IsConsistent \<lparr>cut_Frontier = copyFrontier (fst s)\<rparr> evs msgs"
    using consistent_map_of [of evs msgs "\<lparr>cut_Frontier = copyFrontier (fst s)\<rparr>"] by (simp add: copyFrontier_def)
  moreover have "frontier_choices [] byP f = {f}" for f by (auto simp: frontier_choices_def)
  ultimately show ?case by (auto simp: Let_def cut_maps_def copyFrontier_def)
next
  case (Cons p pids)
  let ?val = "frontier_at byP p"
  let ?body = "\<lambda>i s. enumerateCuts pids byP evs msgs (gm_set (fst s) p (?val i), snd s)"
  have p: "p \<notin> set pids" and "distinct pids" using Cons.prems by auto
  note IH = Cons.IH [OF \<open>distinct pids\<close>]
  define X where "X f v = frontier_choices pids byP (f(p \<mapsto> v))" for f v
  have loop: "cut_maps (snd (fold ?body is s)) = cut_maps (snd s) \<union>
        {h. (\<exists>i \<in> set is. h \<in> X (map_of (fst s)) (?val i)) \<and> consistent_map evs msgs h}
      \<and> (\<forall>q. q \<notin> set (p # pids) \<longrightarrow> map_of (fst (fold ?body is s)) q = map_of (fst s) q)" for "is"
  proof (induction "is" arbitrary: s)
    case Nil
    then show ?case by simp
  next
    case (Cons i "is")
    define t where "t = ?body i s"
    have step: "cut_maps (snd t) = cut_maps (snd s) \<union>
          {h \<in> X (map_of (fst s)) (?val i). consistent_map evs msgs h}"
      using IH [of "(gm_set (fst s) p (?val i), snd s)", THEN conjunct1]
      unfolding fst_conv snd_conv map_of_gm_set X_def t_def .
    have keep: "map_of (fst t) q = map_of (fst s) q" if "q \<notin> set (p # pids)" for q
      using IH [of "(gm_set (fst s) p (?val i), snd s)"] that by (simp add: t_def)
    have "X (map_of (fst t)) v = X (map_of (fst s)) v" for v
      unfolding X_def using keep by (intro frontier_choices_cong) simp
    then show ?case using Cons.IH [of t] step keep by (auto simp: t_def)
  qed
  have "frontier_choices (p # pids) byP (map_of (fst s)) =
      {h. \<exists>i \<in> set [0 ..< Suc (length (gm_get [] byP p))]. h \<in> X (map_of (fst s)) (?val i)}"
    unfolding frontier_choices_Cons [OF p] frontier_values_index X_def set_upt by blast
  then show ?case
    using loop [of "[0 ..< Suc (length (gm_get [] byP p))]"] by simp
qed

lemma mem_frontier_choices_empty:
  "h \<in> frontier_choices pids byP Map.empty \<longleftrightarrow>
     dom h = set pids \<and> (\<forall>p v. h p = Some v \<longrightarrow> v \<in> frontier_values byP p)" (is "?L \<longleftrightarrow> ?R")
proof
  assume ?L
  then have out: "\<And>p. p \<notin> set pids \<Longrightarrow> h p = None"
    and val: "\<And>p. p \<in> set pids \<Longrightarrow> \<exists>v \<in> frontier_values byP p. h p = Some v"
    by (auto simp: frontier_choices_def)
  have "dom h = set pids" using out val by (metis domI domIff equalityI subsetI)
  moreover have "v \<in> frontier_values byP p" if "h p = Some v" for p v
    using out [of p] val [of p] that by fastforce
  ultimately show ?R by blast
next
  assume R: ?R
  then have "h p = None" if "p \<notin> set pids" for p using that by blast
  moreover have "\<exists>v \<in> frontier_values byP p. h p = Some v" if "p \<in> set pids" for p
    using R that by (metis domD)
  ultimately show ?L by (simp add: frontier_choices_def)
qed

lemma mem_frontier_values: "v \<in> frontier_values (groupByProcess evs) p \<longleftrightarrow>
    v = - 1 \<or> (\<exists>e \<in> set evs. ce_ProcessID e = p \<and> v = uint64ToIntBounded (ce_LocalSeq e))"
  by (auto simp: frontier_values_def)

section \<open>Properties\<close>

text \<open>
  C16: \<^verbatim>\<open>FindConsistentCuts\<close> is sound and complete. A cut is returned (up to the order of its
  map) exactly when its frontier has an entry for each process of the events and no other, each
  entry is \<open>-1\<close> or the sequence number of an event of that process, and for every message whose
  send and receive events are among the events (the first ones with the message's two event ids),
  the send event lies within the frontier of its process whenever the receive event lies within
  the frontier of its own: no message is received inside the cut and sent outside it. The
  recursion shares and overwrites one frontier map; the copies in the result are not disturbed by
  it.
\<close>

theorem FindConsistentCuts_sound_complete:
  fixes d :: Cut
  shows "(\<exists>c \<in> set (FindConsistentCuts evs msgs). map_of (cut_Frontier c) = map_of (cut_Frontier d)) \<longleftrightarrow>
     dom (map_of (cut_Frontier d)) = ce_ProcessID ` set evs
     \<and> (\<forall>p v. map_of (cut_Frontier d) p = Some v \<longrightarrow>
          v = - 1 \<or> (\<exists>e \<in> set evs. ce_ProcessID e = p \<and> v = uint64ToIntBounded (ce_LocalSeq e)))
     \<and> (\<forall>m snd_ev rcv_ev v w. m \<in> set msgs
          \<and> List.find (\<lambda>e. ce_ID e = cm_SendEventID m) evs = Some snd_ev
          \<and> List.find (\<lambda>e. ce_ID e = cm_RecvEventID m) evs = Some rcv_ev
          \<and> map_of (cut_Frontier d) (ce_ProcessID snd_ev) = Some v
          \<and> map_of (cut_Frontier d) (ce_ProcessID rcv_ev) = Some w
          \<and> uint64ToIntBounded (ce_LocalSeq rcv_ev) \<le> w \<longrightarrow>
          uint64ToIntBounded (ce_LocalSeq snd_ev) \<le> v)"
proof -
  let ?h = "map_of (cut_Frontier d)"
  have "(\<exists>c \<in> set (FindConsistentCuts evs msgs). map_of (cut_Frontier c) = ?h)
      \<longleftrightarrow> ?h \<in> cut_maps (FindConsistentCuts evs msgs)"
    unfolding cut_maps_def image_iff by metis
  also have "\<dots> \<longleftrightarrow> ?h \<in> frontier_choices (cut_keys (groupByProcess evs)) (groupByProcess evs) Map.empty
      \<and> IsConsistent d evs msgs"
    using enumerateCuts_spec [of "cut_keys (groupByProcess evs)" "groupByProcess evs" evs msgs "([], [])"]
    by (simp add: FindConsistentCuts_def Let_def cut_keys_def cut_maps_def)
  also have "?h \<in> frontier_choices (cut_keys (groupByProcess evs)) (groupByProcess evs) Map.empty \<longleftrightarrow>
      dom ?h = ce_ProcessID ` set evs \<and> (\<forall>p v. ?h p = Some v \<longrightarrow>
          v = - 1 \<or> (\<exists>e \<in> set evs. ce_ProcessID e = p \<and> v = uint64ToIntBounded (ce_LocalSeq e)))"
    by (auto simp: mem_frontier_choices_empty cut_keys_def mem_frontier_values)
  finally show ?thesis using IsConsistent_declarative [of d evs msgs] by blast
qed

definition cut_demo_events :: "cevent list" where
  "cut_demo_events =
    [\<lparr>ce_ID = ''s'', ce_ProcessID = ''P'', ce_Type = EventSend, ce_LocalSeq = 1, ce_MessageID = ''m''\<rparr>,
     \<lparr>ce_ID = ''r'', ce_ProcessID = ''Q'', ce_Type = EventReceive, ce_LocalSeq = 1, ce_MessageID = ''m''\<rparr>]"

theorem FindConsistentCuts_sound_complete_witness:
  "(\<exists>c \<in> set (FindConsistentCuts cut_demo_events (FindMessages cut_demo_events)).
      map_of (cut_Frontier c) = map_of [(''P'', 1), (''Q'', - 1)])
   \<and> \<not> (\<exists>c \<in> set (FindConsistentCuts cut_demo_events (FindMessages cut_demo_events)).
      map_of (cut_Frontier c) = map_of [(''P'', - 1), (''Q'', 1)])"
proof -
  have msgs: "FindMessages cut_demo_events = [\<lparr>cm_ID = ''m'', cm_SendEventID = ''s'', cm_RecvEventID = ''r''\<rparr>]"
    by code_simp
  let ?d = "\<lambda>p q. \<lparr>cut_Frontier = [(''P'', p), (''Q'', q)]\<rparr>"
  note spec = FindConsistentCuts_sound_complete [of cut_demo_events "FindMessages cut_demo_events", unfolded msgs]
  have in_range: "uint64ToIntBounded 1 = 1" by code_simp
  have "\<exists>c \<in> set (FindConsistentCuts cut_demo_events (FindMessages cut_demo_events)).
      map_of (cut_Frontier c) = map_of (cut_Frontier (?d 1 (- 1)))"
    unfolding msgs spec by (auto simp: cut_demo_events_def in_range)
  moreover have "\<not> (\<exists>c \<in> set (FindConsistentCuts cut_demo_events (FindMessages cut_demo_events)).
      map_of (cut_Frontier c) = map_of (cut_Frontier (?d (- 1) 1)))"
    unfolding msgs spec by (simp add: cut_demo_events_def in_range)
  ultimately show ?thesis by simp
qed

text \<open>The cut that combines the frontiers of two cuts over the same processes.\<close>

definition cut_combine :: "(int \<Rightarrow> int \<Rightarrow> int) \<Rightarrow> Cut \<Rightarrow> Cut \<Rightarrow> Cut" where
  "cut_combine f a b =
     \<lparr>cut_Frontier = map (\<lambda>(p, v). (p, f v (gm_get 0 (cut_Frontier b) p))) (cut_Frontier a)\<rparr>"

lemma map_of_cut_combine: "map_of (cut_Frontier (cut_combine f a b)) p =
    map_option (\<lambda>v. f v (gm_get 0 (cut_Frontier b) p)) (map_of (cut_Frontier a) p)"
proof -
  have "map_of (map (\<lambda>(p, v). (p, g p v)) xs) p = map_option (g p) (map_of xs p)"
    for g :: "string \<Rightarrow> int \<Rightarrow> int" and xs by (induction xs) auto
  then show ?thesis by (simp add: cut_combine_def)
qed

lemma in_cut_combine:
  assumes "dom (map_of (cut_Frontier a)) = dom (map_of (cut_Frontier b))"
  shows "in_cut (cut_combine max a b) e \<longleftrightarrow> in_cut a e \<or> in_cut b e"
    and "in_cut (cut_combine min a b) e \<longleftrightarrow> in_cut a e \<and> in_cut b e"
proof -
  have "map_of (cut_Frontier a) (ce_ProcessID e) = None \<longleftrightarrow> map_of (cut_Frontier b) (ce_ProcessID e) = None"
    using assms by (metis domIff)
  then show "in_cut (cut_combine max a b) e \<longleftrightarrow> in_cut a e \<or> in_cut b e"
    and "in_cut (cut_combine min a b) e \<longleftrightarrow> in_cut a e \<and> in_cut b e"
    by (auto simp: in_cut_def map_of_cut_combine gm_get_Some le_max_iff_disj)
qed

text \<open>
  Consistent cuts form a lattice. For two consistent cuts over the same processes, the cut
  that takes the larger frontier of each process and the one that takes the smaller are both
  consistent.
\<close>

theorem consistent_cuts_lattice:
  assumes "IsConsistent a evs msgs" and "IsConsistent b evs msgs"
    and "dom (map_of (cut_Frontier a)) = dom (map_of (cut_Frontier b))"
  shows "IsConsistent (cut_combine max a b) evs msgs \<and> IsConsistent (cut_combine min a b) evs msgs"
  using assms(1,2) unfolding IsConsistent_iff in_cut_combine [OF assms(3)] by blast

theorem consistent_cuts_lattice_witness:
  "IsConsistent (cut_combine max \<lparr>cut_Frontier = [(''P'', 1), (''Q'', - 1)]\<rparr>
      \<lparr>cut_Frontier = [(''Q'', 1), (''P'', 1)]\<rparr>) cut_demo_events (FindMessages cut_demo_events)"
proof -
  have "IsConsistent \<lparr>cut_Frontier = [(''P'', 1), (''Q'', - 1)]\<rparr> cut_demo_events (FindMessages cut_demo_events)"
    "IsConsistent \<lparr>cut_Frontier = [(''Q'', 1), (''P'', 1)]\<rparr> cut_demo_events (FindMessages cut_demo_events)"
    by code_simp+
  then show ?thesis using consistent_cuts_lattice by (simp add: insert_commute)
qed

section \<open>The cut below a vector clock\<close>

text \<open>Sequence numbers that start at 1, as the processes number their events, and stay below \<open>2^63\<close>.\<close>

definition numbered :: "cevent list \<Rightarrow> bool" where
  "numbered evs \<longleftrightarrow> (\<forall>e \<in> set evs. 0 < sint (ce_LocalSeq e))"

lemma uint64ToIntBounded_pos: "0 < sint (v :: u64) \<Longrightarrow> uint64ToIntBounded v = sint v"
proof -
  assume pos: "0 < sint v"
  have lt: "sint v < 2 ^ 63" using sint_lt [of v] by simp
  moreover have "int (unat v) = sint v"
    using pos lt uint_sint [of v] by (simp add: take_bit_eq_mod)
  ultimately show ?thesis by (simp add: uint64ToIntBounded_def maxInt_def)
qed

lemma cut_raise_fold:
  assumes "numbered es" and "\<And>p v. map_of f p = Some v \<Longrightarrow> 0 < v \<and> v \<le> sint (vget vc p)"
  shows "(\<forall>p v. map_of (fold (cut_raise vc) es f) p = Some v \<longrightarrow> 0 < v \<and> v \<le> sint (vget vc p))
    \<and> (\<forall>p v. map_of f p = Some v \<longrightarrow> (\<exists>w \<ge> v. map_of (fold (cut_raise vc) es f) p = Some w))
    \<and> (\<forall>e \<in> set es. sint (ce_LocalSeq e) \<le> sint (vget vc (ce_ProcessID e)) \<longrightarrow>
         (\<exists>w \<ge> sint (ce_LocalSeq e). map_of (fold (cut_raise vc) es f) (ce_ProcessID e) = Some w))"
  using assms
proof (induction es arbitrary: f)
  case Nil
  then show ?case by auto
next
  case (Cons e es)
  let ?f = "cut_raise vc e f"
  have num: "numbered es" and e: "0 < sint (ce_LocalSeq e)" using Cons.prems(1) by (auto simp: numbered_def)
  have ok: "0 < v \<and> v \<le> sint (vget vc p)" if "map_of ?f p = Some v" for p v
    using that Cons.prems(2) e by (auto simp: cut_raise_def Let_def split: if_splits)
  have up: "\<exists>w \<ge> v. map_of ?f p = Some w" if "map_of f p = Some v" for p v
    using that by (auto simp: cut_raise_def Let_def gm_get_Some)
  have own: "\<exists>w \<ge> sint (ce_LocalSeq e). map_of ?f (ce_ProcessID e) = Some w"
    if "sint (ce_LocalSeq e) \<le> sint (vget vc (ce_ProcessID e))"
    using that e by (auto simp: cut_raise_def Let_def gm_get_def split: option.splits)
  note IH = Cons.IH [OF num ok]
  show ?case
  proof (intro conjI)
    show "\<forall>p v. map_of (fold (cut_raise vc) (e # es) f) p = Some v \<longrightarrow> 0 < v \<and> v \<le> sint (vget vc p)"
      using IH by simp
    show "\<forall>p v. map_of f p = Some v \<longrightarrow> (\<exists>w \<ge> v. map_of (fold (cut_raise vc) (e # es) f) p = Some w)"
      using IH up by simp (meson order_trans)
    show "\<forall>x \<in> set (e # es). sint (ce_LocalSeq x) \<le> sint (vget vc (ce_ProcessID x)) \<longrightarrow>
        (\<exists>w \<ge> sint (ce_LocalSeq x). map_of (fold (cut_raise vc) (e # es) f) (ce_ProcessID x) = Some w)"
      using IH own by simp (meson order_trans)
  qed
qed

lemma fill_missing:
  "map_of (fold (\<lambda>p f. if map_of f p = None then gm_set f p (- 1) else f) ps f) q =
     (case map_of f q of Some v \<Rightarrow> Some v | None \<Rightarrow> if q \<in> set ps then Some (- 1 :: int) else None)"
  by (induction ps arbitrary: f) (auto split: option.splits)

lemma in_CutBefore:
  assumes "numbered evs" and "e \<in> set evs"
  shows "in_cut (CutBefore vc evs) e \<longleftrightarrow> sint (ce_LocalSeq e) \<le> sint (vget vc (ce_ProcessID e))"
proof -
  let ?f = "fold (cut_raise vc) evs []"
  have pos: "0 < sint (ce_LocalSeq e)" using assms by (simp add: numbered_def)
  have "in_cut (CutBefore vc evs) e \<longleftrightarrow>
      (\<exists>v. map_of ?f (ce_ProcessID e) = Some v \<and> sint (ce_LocalSeq e) \<le> v)"
    using pos assms(2) by (auto simp: in_cut_def CutBefore_def Let_def fill_missing uint64ToIntBounded_pos split: option.splits)
  also have "\<dots> \<longleftrightarrow> sint (ce_LocalSeq e) \<le> sint (vget vc (ce_ProcessID e))"
    using cut_raise_fold [OF assms(1), of "[]" vc] assms(2) by (auto intro: order_trans)
  finally show ?thesis .
qed

lemma findEvent_Some: "findEvent evs x = Some e \<Longrightarrow> e \<in> set evs \<and> ce_ID e = x"
  by (auto simp: findEvent_def find_Some_iff)

lemma mem_FindMessages: "m \<in> set (FindMessages evs) \<longleftrightarrow> (\<exists>s \<in> set evs. \<exists>r \<in> set evs.
    ce_Type s = EventSend \<and> ce_Type r = EventReceive \<and> ce_MessageID s \<noteq> '''' \<and> ce_MessageID r = ce_MessageID s
    \<and> m = \<lparr>cm_ID = ce_MessageID s, cm_SendEventID = ce_ID s, cm_RecvEventID = ce_ID r\<rparr>)"
  by (auto simp: FindMessages_def split: if_splits)

text \<open>
  The cut below a vector clock. When events have unique identifiers and are numbered from
  1, \<^verbatim>\<open>CutBefore\<close> contains exactly the events whose number is at most the component of their
  process; and if the clock is causally closed (it covers the send of every message whose
  receive it covers) the cut is consistent for the messages \<^verbatim>\<open>FindMessages\<close> pairs up.
\<close>

theorem CutBefore_correct:
  assumes num: "numbered evs" and uniq: "distinct (map ce_ID evs)"
  shows "(\<forall>e \<in> set evs. in_cut (CutBefore vc evs) e \<longleftrightarrow> sint (ce_LocalSeq e) \<le> sint (vget vc (ce_ProcessID e)))
    \<and> ((\<forall>s \<in> set evs. \<forall>r \<in> set evs. ce_Type s = EventSend \<and> ce_Type r = EventReceive
          \<and> ce_MessageID s \<noteq> '''' \<and> ce_MessageID r = ce_MessageID s
          \<and> sint (ce_LocalSeq r) \<le> sint (vget vc (ce_ProcessID r))
          \<longrightarrow> sint (ce_LocalSeq s) \<le> sint (vget vc (ce_ProcessID s)))
       \<longrightarrow> IsConsistent (CutBefore vc evs) evs (FindMessages evs))"
proof (intro conjI ballI impI)
  show "in_cut (CutBefore vc evs) e \<longleftrightarrow> sint (ce_LocalSeq e) \<le> sint (vget vc (ce_ProcessID e))"
    if "e \<in> set evs" for e using in_CutBefore [OF num that] .
next
  assume closed: "\<forall>s \<in> set evs. \<forall>r \<in> set evs. ce_Type s = EventSend \<and> ce_Type r = EventReceive
      \<and> ce_MessageID s \<noteq> '''' \<and> ce_MessageID r = ce_MessageID s
      \<and> sint (ce_LocalSeq r) \<le> sint (vget vc (ce_ProcessID r))
      \<longrightarrow> sint (ce_LocalSeq s) \<le> sint (vget vc (ce_ProcessID s))"
  have "x = y" if "x \<in> set evs" "y \<in> set evs" "ce_ID x = ce_ID y" for x y
    using that uniq by (simp add: distinct_map inj_on_def)
  then have found: "x = y" if "findEvent evs (ce_ID y) = Some x" "y \<in> set evs" for x y
    using that findEvent_Some by blast
  show "IsConsistent (CutBefore vc evs) evs (FindMessages evs)"
    unfolding IsConsistent_iff
  proof (intro ballI allI impI)
    fix m s r
    assume "m \<in> set (FindMessages evs)" and s: "findEvent evs (cm_SendEventID m) = Some s"
      and r: "findEvent evs (cm_RecvEventID m) = Some r" and "in_cut (CutBefore vc evs) r"
    then obtain s' r' where p: "s' \<in> set evs" "r' \<in> set evs" "ce_Type s' = EventSend"
        "ce_Type r' = EventReceive" "ce_MessageID s' \<noteq> []" "ce_MessageID r' = ce_MessageID s'"
      and ids: "cm_SendEventID m = ce_ID s'" "cm_RecvEventID m = ce_ID r'"
      unfolding mem_FindMessages by auto
    have "s = s'" "r = r'" using found s r ids p(1,2) by metis+
    with \<open>in_cut (CutBefore vc evs) r\<close> have "sint (ce_LocalSeq r') \<le> sint (vget vc (ce_ProcessID r'))"
      using in_CutBefore [OF num p(2)] by simp
    with closed p have "sint (ce_LocalSeq s') \<le> sint (vget vc (ce_ProcessID s'))" by blast
    then show "in_cut (CutBefore vc evs) s" using in_CutBefore [OF num p(1)] \<open>s = s'\<close> by simp
  qed
qed

theorem CutBefore_correct_witness:
  "IsConsistent (CutBefore [(''P'', 1), (''Q'', 1)] cut_demo_events) cut_demo_events (FindMessages cut_demo_events)"
proof -
  have "numbered cut_demo_events" "distinct (map ce_ID cut_demo_events)"
    by (simp_all add: numbered_def cut_demo_events_def)
  from CutBefore_correct [OF this, of "[(''P'', 1), (''Q'', 1)]"] show ?thesis
    by (simp add: cut_demo_events_def EventSend_def EventReceive_def gm_get_def)
qed

end
