(* ===== verification/Event_Bus.thy ===== *)
theory Event_Bus
  imports Vector_Clock Matrix_Clock
begin

text \<open>
  \<^verbatim>\<open>internal/events\<close>: the event types and the publish/subscribe bus with its bounded publish
  buffer, per-subscriber channels and ring buffer of past events.

  A channel is the list of its buffered elements; subscriber channels live in a heap \<open>eb_chans\<close>
  keyed by their identity, since a subscriber keeps its channel after \<^verbatim>\<open>Unsubscribe\<close>. The
  loop goroutine is a step relation. Event data of type \<^verbatim>\<open>interface{}\<close> is a type variable;
  a nil clock map is the empty map; a \<^verbatim>\<open>time.Time\<close> is an \<^typ>\<open>int\<close>.
\<close>

section \<open>Event types\<close>

type_synonym EventType = string

definition EvtInternalEvent :: EventType where "EvtInternalEvent = ''internal_event''"
definition EvtSend :: EventType where "EvtSend = ''send''"
definition EvtReceive :: EventType where "EvtReceive = ''receive''"
definition EvtHeld :: EventType where "EvtHeld = ''message_held''"
definition EvtDelivered :: EventType where "EvtDelivered = ''message_delivered''"
definition EvtClockUpdate :: EventType where "EvtClockUpdate = ''clock_update''"
definition EvtSnapshotStart :: EventType where "EvtSnapshotStart = ''snapshot_start''"
definition EvtMarkerSent :: EventType where "EvtMarkerSent = ''marker_sent''"
definition EvtMarkerReceived :: EventType where "EvtMarkerReceived = ''marker_received''"
definition EvtLocalSnapshot :: EventType where "EvtLocalSnapshot = ''local_snapshot''"
definition EvtSnapshotComplete :: EventType where "EvtSnapshotComplete = ''snapshot_complete''"
definition EvtConflict :: EventType where "EvtConflict = ''conflict''"
definition EvtResolved :: EventType where "EvtResolved = ''resolved''"
definition EvtProcessSpawned :: EventType where "EvtProcessSpawned = ''process_spawned''"
definition EvtProcessKilled :: EventType where "EvtProcessKilled = ''process_killed''"
definition EvtScenarioStep :: EventType where "EvtScenarioStep = ''scenario_step''"

record 'd MessagePayload =
  mp_ID :: string
  mp_From :: string
  mp_To :: string
  mp_Data :: "'d option"
  mp_SentVC :: vclock
  mp_SentLC :: u64
  mp_IsMarker :: bool
  mp_SnapshotID :: string

record SnapshotPayload =
  sp_SnapshotID :: string
  sp_ProcessID :: string
  sp_Complete :: bool

record 'd ConflictPayload =
  cp_Key :: string
  cp_Siblings :: "'d option"

record 'd Event =
  ev_ID :: string
  ev_Type :: EventType
  ev_ProcessID :: string
  ev_Timestamp :: int
  ev_LocalSeq :: u64
  ev_GlobalSeq :: u64
  ev_LamportClock :: "u64 option"
  ev_VectorClock :: vclock
  ev_MatrixClock :: mclock
  ev_Message :: "'d MessagePayload option"
  ev_Snapshot :: "SnapshotPayload option"
  ev_Conflict :: "'d ConflictPayload option"
  ev_Narration :: string

text \<open>The zero value of the struct, with which a composite literal starts.\<close>

definition zero_Event :: "'d Event" where
  "zero_Event = \<lparr>ev_ID = '''', ev_Type = '''', ev_ProcessID = '''', ev_Timestamp = 0, ev_LocalSeq = 0,
     ev_GlobalSeq = 0, ev_LamportClock = None, ev_VectorClock = [], ev_MatrixClock = [], ev_Message = None,
     ev_Snapshot = None, ev_Conflict = None, ev_Narration = ''''\<rparr>"

section \<open>The bus\<close>

definition historySize :: nat where
  "historySize = 1000"

definition publishCap :: nat where
  "publishCap = 4096"

definition subscriberCap :: nat where
  "subscriberCap = 256"

record 'd EventBus =
  eb_publish :: "'d Event list"
  eb_subs :: "(nat, (EventType, bool) gomap) gomap"
  eb_chans :: "(nat, 'd Event list) gomap"
  eb_history :: "'d Event list"
  eb_histIdx :: nat
  eb_histLen :: nat
  eb_globalSeq :: u64
  eb_dropCount :: u64
  eb_dropLogged :: u64
  eb_done :: bool
  eb_running :: bool

definition events_NewEventBus :: "'d EventBus" where
  "events_NewEventBus = \<lparr>eb_publish = [], eb_subs = [], eb_chans = [],
     eb_history = replicate historySize zero_Event, eb_histIdx = 0, eb_histLen = 0,
     eb_globalSeq = 0, eb_dropCount = 0, eb_dropLogged = 0, eb_done = False, eb_running = True\<rparr>"

definition events_NextSeq :: "'d EventBus \<Rightarrow> u64 \<times> 'd EventBus" where
  "events_NextSeq b = (eb_globalSeq b + 1, b\<lparr>eb_globalSeq := eb_globalSeq b + 1\<rparr>)"

text \<open>The atomic counters are read and written in one step, so the compare-and-swap succeeds.\<close>

definition events_Publish :: "'d Event \<Rightarrow> 'd EventBus \<Rightarrow> 'd EventBus" where
  "events_Publish e b =
     (if length (eb_publish b) < publishCap then b\<lparr>eb_publish := eb_publish b @ [e]\<rparr>
      else let n = eb_dropCount b + 1; b' = b\<lparr>eb_dropCount := n\<rparr>
           in if n - eb_dropLogged b' \<ge> 100 then b'\<lparr>eb_dropLogged := n\<rparr> else b')"

definition events_DropCount :: "'d EventBus \<Rightarrow> u64" where
  "events_DropCount b = eb_dropCount b"

text \<open>\<open>ch\<close> is the identity of the channel that \<^verbatim>\<open>make\<close> returns.\<close>

definition events_Subscribe :: "nat \<Rightarrow> EventType list \<Rightarrow> 'd EventBus \<Rightarrow> 'd EventBus" where
  "events_Subscribe ch types b =
     (let typeSet = fold (\<lambda>t s. gm_set s t True) types []
      in b\<lparr>eb_chans := gm_set (eb_chans b) ch [], eb_subs := gm_set (eb_subs b) ch typeSet\<rparr>)"

definition events_Unsubscribe :: "nat \<Rightarrow> 'd EventBus \<Rightarrow> 'd EventBus" where
  "events_Unsubscribe ch b = b\<lparr>eb_subs := gm_del (eb_subs b) ch\<rparr>"

definition events_History :: "'d EventBus \<Rightarrow> 'd Event list" where
  "events_History b =
     (if eb_histLen b = 0 then []
      else if eb_histLen b < historySize then take (eb_histLen b) (eb_history b)
      else map (\<lambda>i. eb_history b ! ((eb_histIdx b + i) mod historySize)) [0 ..< historySize])"

definition events_Done :: "'d EventBus \<Rightarrow> bool" where
  "events_Done b = eb_done b"

definition events_Stop :: "'d EventBus \<Rightarrow> 'd EventBus" where
  "events_Stop b = b\<lparr>eb_done := True\<rparr>"

definition events_store :: "'d Event \<Rightarrow> 'd EventBus \<Rightarrow> 'd EventBus" where
  "events_store e b =
     (let b' = b\<lparr>eb_history := (eb_history b)[eb_histIdx b := e],
                 eb_histIdx := (eb_histIdx b + 1) mod historySize\<rparr>
      in if eb_histLen b' < historySize then b'\<lparr>eb_histLen := eb_histLen b' + 1\<rparr> else b')"

definition chan_try_send :: "nat \<Rightarrow> 'a \<Rightarrow> 'a list \<Rightarrow> 'a list" where
  "chan_try_send n x ch = (if length ch < n then ch @ [x] else ch)"

definition events_fanout :: "'d Event \<Rightarrow> 'd EventBus \<Rightarrow> 'd EventBus" where
  "events_fanout e b =
     b\<lparr>eb_chans := gm_fold (\<lambda>ch types chans.
         if gm_len types = 0 \<or> gm_get False types (ev_Type e)
         then gm_set chans ch (chan_try_send subscriberCap e (gm_get [] chans ch)) else chans)
       (eb_subs b) (eb_chans b)\<rparr>"

text \<open>
  One iteration of the loop. When the bus was stopped and events are pending, \<^verbatim>\<open>select\<close>
  may take either case. A subscriber may read its channel at any time.
\<close>

inductive events_loop :: "'d EventBus \<Rightarrow> 'd EventBus \<Rightarrow> bool" where
  quit: "eb_running b \<Longrightarrow> eb_done b \<Longrightarrow> events_loop b (b\<lparr>eb_running := False\<rparr>)"
| take: "eb_running b \<Longrightarrow> eb_publish b = e # q \<Longrightarrow>
    events_loop b (events_fanout e (events_store e (b\<lparr>eb_publish := q\<rparr>)))"

definition chan_receive :: "nat \<Rightarrow> 'd EventBus \<Rightarrow> 'd EventBus" where
  "chan_receive ch b = b\<lparr>eb_chans := gm_set (eb_chans b) ch (tl (gm_get [] (eb_chans b) ch))\<rparr>"

section \<open>The buffers\<close>

interpretation bus_queue: counted_queue eb_publish publishCap events_Publish eb_dropCount
  by unfold_locales (auto simp: events_Publish_def Let_def)

interpretation sub_queue: bounded_queue "\<lambda>ch. ch" subscriberCap "chan_try_send subscriberCap"
  by unfold_locales (auto simp: chan_try_send_def)

lemma chans_fanout:
  "map_of (eb_chans (events_fanout e b)) ch =
     (case map_of (eb_subs b) ch of None \<Rightarrow> map_of (eb_chans b) ch
      | Some types \<Rightarrow>
          if gm_len types = 0 \<or> gm_get False types (ev_Type e)
          then Some (chan_try_send subscriberCap e (gm_get [] (eb_chans b) ch)) else map_of (eb_chans b) ch)"
  unfolding events_fanout_def
  by (simp, subst gm_fold_pointwise [where look = map_of and g = "\<lambda>ch types r.
        if gm_len types = 0 \<or> gm_get False types (ev_Type e)
        then Some (chan_try_send subscriberCap e (case r of None \<Rightarrow> [] | Some x \<Rightarrow> x)) else r"])
    (auto simp: gm_get_def split: option.splits)

section \<open>The ring buffer\<close>

definition ring_wf :: "'d EventBus \<Rightarrow> bool" where
  "ring_wf b \<longleftrightarrow> length (eb_history b) = historySize \<and> eb_histIdx b < historySize
     \<and> eb_histLen b \<le> historySize \<and> (eb_histLen b < historySize \<longrightarrow> eb_histIdx b = eb_histLen b)"

definition last_n :: "nat \<Rightarrow> 'a list \<Rightarrow> 'a list" where
  "last_n n xs = drop (length xs - n) xs"

lemma last_n_snoc: "last_n (Suc n) (last_n (Suc n) xs @ [x]) = last_n (Suc n) (xs @ [x])"
proof (cases "length xs \<le> Suc n")
  case True
  then show ?thesis by (simp add: last_n_def)
next
  case False
  then have "Suc (length xs - Suc n) = length xs - n" by simp
  with False show ?thesis by (simp add: last_n_def flip: drop_Suc)
qed

lemma length_History: "ring_wf b \<Longrightarrow> length (events_History b) = eb_histLen b"
  by (auto simp: events_History_def ring_wf_def)

lemma ring_wf_store: "ring_wf b \<Longrightarrow> ring_wf (events_store e b)"
  by (auto simp: ring_wf_def events_store_def Let_def historySize_def)

lemma History_full:
  assumes "ring_wf b" and "eb_histLen b = historySize"
  shows "events_History b = drop (eb_histIdx b) (eb_history b) @ take (eb_histIdx b) (eb_history b)"
proof -
  have "events_History b = map (\<lambda>i. eb_history b ! ((eb_histIdx b + i) mod historySize)) [0 ..< historySize]"
    using assms by (simp add: events_History_def historySize_def)
  also have "\<dots> = rotate (eb_histIdx b) (eb_history b)"
    using assms by (intro nth_equalityI) (auto simp: ring_wf_def nth_rotate)
  finally show ?thesis using assms by (simp add: rotate_drop_take ring_wf_def)
qed

text \<open>\<^verbatim>\<open>store\<close> refines "append and keep the last \<open>historySize\<close>".\<close>

lemma History_store:
  assumes wf: "ring_wf b"
  shows "events_History (events_store e b) = last_n historySize (events_History b @ [e])"
proof (cases "eb_histLen b = historySize")
  case True
  let ?h = "eb_history b" and ?i = "eb_histIdx b"
  have len: "length ?h = historySize" and i: "?i < historySize" using wf by (auto simp: ring_wf_def)
  have wf': "ring_wf (events_store e b)" using wf by (rule ring_wf_store)
  have "last_n historySize (events_History b @ [e]) = drop (Suc ?i) ?h @ take ?i ?h @ [e]"
    using len i by (simp add: last_n_def History_full [OF wf True] drop_Suc tl_drop flip: drop_Suc)
  moreover have "events_History (events_store e b) = drop (Suc ?i) ?h @ take ?i ?h @ [e]"
  proof (cases "Suc ?i = historySize")
    case True': True
    then show ?thesis
      using True len i History_full [OF wf'] by (simp add: events_store_def Let_def upd_conv_take_nth_drop)
  next
    case False
    then show ?thesis
      using True len i History_full [OF wf']
      by (simp add: events_store_def Let_def upd_conv_take_nth_drop take_Suc_conv_app_nth)
  qed
  ultimately show ?thesis by simp
next
  case False
  then have lt: "eb_histLen b < historySize" and idx: "eb_histIdx b = eb_histLen b"
    using wf by (auto simp: ring_wf_def)
  have old: "events_History b = take (eb_histLen b) (eb_history b)"
    using lt by (simp add: events_History_def)
  have len: "length (eb_history b) = historySize" using wf by (simp add: ring_wf_def)
  have new: "take (Suc (eb_histLen b)) ((eb_history b)[eb_histLen b := e]) = events_History b @ [e]"
    using lt len old by (simp add: take_Suc_conv_app_nth)
  have "events_History (events_store e b) = events_History b @ [e]"
  proof (cases "Suc (eb_histLen b) = historySize")
    case True
    then show ?thesis
      using History_full [OF ring_wf_store [OF wf, of e]] new lt idx len
      by (simp add: events_store_def Let_def)
  next
    case False
    then show ?thesis using lt idx new by (simp add: events_store_def Let_def events_History_def)
  qed
  then show ?thesis using lt len old by (simp add: last_n_def)
qed

section \<open>The bus as a system\<close>

text \<open>
  The bus together with two ghost lists: the events accepted into the publish buffer and the
  events the loop has processed.
\<close>

record 'd bus_sys =
  bs_bus :: "'d EventBus"
  bs_accepted :: "'d Event list"
  bs_processed :: "'d Event list"

inductive bus_step :: "'d bus_sys \<Rightarrow> 'd bus_sys \<Rightarrow> bool" where
  publish: "bus_step s (s\<lparr>bs_bus := events_Publish e (bs_bus s),
      bs_accepted := (if length (eb_publish (bs_bus s)) < publishCap then bs_accepted s @ [e] else bs_accepted s)\<rparr>)"
| loop: "events_loop (bs_bus s) b \<Longrightarrow> bus_step s (s\<lparr>bs_bus := b,
      bs_processed := bs_processed s @ take (length (eb_publish (bs_bus s)) - length (eb_publish b)) (eb_publish (bs_bus s))\<rparr>)"
| next_seq: "bus_step s (s\<lparr>bs_bus := snd (events_NextSeq (bs_bus s))\<rparr>)"
| subscribe: "bus_step s (s\<lparr>bs_bus := events_Subscribe ch types (bs_bus s)\<rparr>)"
| unsubscribe: "bus_step s (s\<lparr>bs_bus := events_Unsubscribe ch (bs_bus s)\<rparr>)"
| stop: "bus_step s (s\<lparr>bs_bus := events_Stop (bs_bus s)\<rparr>)"
| receive: "bus_step s (s\<lparr>bs_bus := chan_receive ch (bs_bus s)\<rparr>)"

definition bus_init :: "'d bus_sys \<Rightarrow> bool" where
  "bus_init s \<longleftrightarrow> s = \<lparr>bs_bus = events_NewEventBus, bs_accepted = [], bs_processed = []\<rparr>"

definition chans_bounded :: "'d EventBus \<Rightarrow> bool" where
  "chans_bounded b \<longleftrightarrow> (\<forall>ch q. map_of (eb_chans b) ch = Some q \<longrightarrow> length q \<le> subscriberCap)"

definition bus_inv :: "'d bus_sys \<Rightarrow> bool" where
  "bus_inv s \<longleftrightarrow> bs_accepted s = bs_processed s @ eb_publish (bs_bus s)
     \<and> length (eb_publish (bs_bus s)) \<le> publishCap
     \<and> ring_wf (bs_bus s) \<and> events_History (bs_bus s) = last_n historySize (bs_processed s)
     \<and> chans_bounded (bs_bus s)"

lemma ring_other [simp]:
  "ring_wf (b\<lparr>eb_publish := q\<rparr>) = ring_wf b" "ring_wf (b\<lparr>eb_chans := c\<rparr>) = ring_wf b"
  "ring_wf (b\<lparr>eb_subs := u\<rparr>) = ring_wf b" "ring_wf (b\<lparr>eb_running := r\<rparr>) = ring_wf b"
  "ring_wf (b\<lparr>eb_done := r\<rparr>) = ring_wf b" "ring_wf (b\<lparr>eb_globalSeq := n\<rparr>) = ring_wf b"
  "events_History (b\<lparr>eb_publish := q\<rparr>) = events_History b" "events_History (b\<lparr>eb_chans := c\<rparr>) = events_History b"
  "events_History (b\<lparr>eb_subs := u\<rparr>) = events_History b" "events_History (b\<lparr>eb_running := r\<rparr>) = events_History b"
  "events_History (b\<lparr>eb_done := r\<rparr>) = events_History b" "events_History (b\<lparr>eb_globalSeq := n\<rparr>) = events_History b"
  by (simp_all add: ring_wf_def events_History_def)

lemma new_bus [simp]: "eb_publish events_NewEventBus = []" "events_DropCount events_NewEventBus = 0"
  by (simp_all add: events_NewEventBus_def events_DropCount_def)

lemma publish_other [simp]:
  "ring_wf (events_Publish e b) = ring_wf b" "events_History (events_Publish e b) = events_History b"
  "chans_bounded (events_Publish e b) = chans_bounded b"
  by (simp_all add: events_Publish_def ring_wf_def events_History_def chans_bounded_def Let_def)

lemma fanout_other [simp]:
  "ring_wf (events_fanout e b) = ring_wf b" "events_History (events_fanout e b) = events_History b"
  "eb_publish (events_fanout e b) = eb_publish b"
  by (simp_all add: events_fanout_def)

lemma store_other [simp]:
  "eb_publish (events_store e b) = eb_publish b" "eb_subs (events_store e b) = eb_subs b"
  "eb_chans (events_store e b) = eb_chans b"
  by (simp_all add: events_store_def Let_def)

lemma chans_bounded_get: "chans_bounded b \<Longrightarrow> length (gm_get [] (eb_chans b) ch) \<le> subscriberCap"
  by (auto simp: chans_bounded_def gm_get_def split: option.splits)

lemma chans_bounded_fanout:
  assumes "chans_bounded b"
  shows "chans_bounded (events_fanout e b)"
proof -
  have "length (chan_try_send subscriberCap e (gm_get [] (eb_chans b) ch)) \<le> subscriberCap" for ch
    using assms by (intro sub_queue.push_bounded chans_bounded_get)
  then show ?thesis
    using assms by (auto simp: chans_bounded_def chans_fanout split: option.splits if_splits)
qed

lemma last_n_history: "last_n historySize (last_n historySize xs @ [x]) = last_n historySize (xs @ [x])"
  using last_n_snoc [of "historySize - 1" xs x] by (simp add: historySize_def)

interpretation bus: transition_system bus_init bus_step bus_inv
proof unfold_locales
  show "bus_init s \<Longrightarrow> bus_inv s" for s
    by (simp add: bus_init_def bus_inv_def events_NewEventBus_def ring_wf_def events_History_def
        chans_bounded_def historySize_def last_n_def)
  show "bus_step s t \<Longrightarrow> bus_inv s \<Longrightarrow> bus_inv t" for s t
  proof (induction rule: bus_step.induct)
    case (publish s e)
    then show ?case
      using bus_queue.push_room [of "bs_bus s" e] bus_queue.push_full [of "bs_bus s" e]
      by (auto simp: bus_inv_def)
  next
    case (loop s b)
    from loop(1) show ?case
    proof cases
      case quit
      with loop(2) show ?thesis by (simp add: bus_inv_def chans_bounded_def)
    next
      case (take e q)
      have "chans_bounded b" unfolding take(1)
        by (rule chans_bounded_fanout) (use loop(2) in \<open>simp add: bus_inv_def chans_bounded_def\<close>)
      moreover have "events_History b = last_n historySize (bs_processed s @ [e])"
        using loop(2) by (simp add: take(1) History_store bus_inv_def last_n_history)
      moreover have "ring_wf b" using loop(2) by (simp add: take(1) ring_wf_store bus_inv_def)
      ultimately show ?thesis using loop(2) take by (simp add: bus_inv_def)
    qed
  next
    case (receive s ch)
    then have "length (tl (gm_get [] (eb_chans (bs_bus s)) ch)) \<le> subscriberCap"
      using chans_bounded_get [of "bs_bus s" ch] by (simp add: bus_inv_def)
    with receive show ?case by (simp add: bus_inv_def chan_receive_def chans_bounded_def)
  qed (simp_all add: bus_inv_def chans_bounded_def events_NextSeq_def
      events_Subscribe_def events_Unsubscribe_def events_Stop_def)
qed

section \<open>Properties\<close>

text \<open>
  C17: in every state of the bus that publishers, subscribers and the loop can reach, nothing
  accepted is lost or reordered: the accepted events are the processed ones followed by the
  publish buffer; \<^verbatim>\<open>History\<close> is the last 1000 processed events, oldest first, although it is
  kept in a ring; and no buffer exceeds its capacity.
\<close>

theorem bus_history_is_recent_past:
  assumes "bus_init s" and "bus_step\<^sup>*\<^sup>* s t"
  shows "bs_accepted t = bs_processed t @ eb_publish (bs_bus t)
    \<and> events_History (bs_bus t) = drop (length (bs_processed t) - historySize) (bs_processed t)
    \<and> length (eb_publish (bs_bus t)) \<le> publishCap
    \<and> (\<forall>ch q. map_of (eb_chans (bs_bus t)) ch = Some q \<longrightarrow> length q \<le> subscriberCap)"
  using bus.inv_reachable [OF assms] by (simp add: bus_inv_def last_n_def chans_bounded_def)

theorem bus_history_is_recent_past_witness:
  "\<exists>t :: nat bus_sys. bus_step\<^sup>*\<^sup>* \<lparr>bs_bus = events_NewEventBus, bs_accepted = [], bs_processed = []\<rparr> t
     \<and> events_History (bs_bus t) = [zero_Event\<lparr>ev_Type := EvtSend\<rparr>]"
proof -
  let ?s = "\<lparr>bs_bus = events_NewEventBus, bs_accepted = [], bs_processed = []\<rparr> :: nat bus_sys"
  let ?e = "zero_Event\<lparr>ev_Type := EvtSend\<rparr> :: nat Event"
  define s1 where "s1 = \<lparr>bs_bus = events_NewEventBus\<lparr>eb_publish := [?e]\<rparr>, bs_accepted = [?e], bs_processed = []\<rparr>"
  have b1: "bs_bus s1 = events_NewEventBus\<lparr>eb_publish := [?e]\<rparr>" "bs_processed s1 = []"
    by (simp_all add: s1_def)
  have s1: "bus_step ?s s1"
    using bus_step.publish [of ?s ?e] by (simp add: s1_def events_Publish_def publishCap_def)
  have "events_loop (bs_bus s1) (events_fanout ?e (events_store ?e ((bs_bus s1)\<lparr>eb_publish := []\<rparr>)))"
    by (rule events_loop.take) (simp_all add: b1 events_NewEventBus_def)
  from bus_step.loop [OF this] obtain t where t: "bus_step s1 t" "bs_processed t = [?e]"
    by (simp add: b1)
  have run: "bus_step\<^sup>*\<^sup>* ?s t" using s1 t(1) by (meson rtranclp.simps)
  then have "events_History (bs_bus t) = [?e]"
    using bus_history_is_recent_past [of ?s t] t(2) by (simp add: bus_init_def historySize_def)
  with run show ?thesis by blast
qed

text \<open>
  \<^verbatim>\<open>Publish\<close> never blocks: a burst of events fills the free places of the buffer in order
  and each event that does not fit is counted, so \<^verbatim>\<open>DropCount\<close> is the number dropped (modulo
  \<open>2^64\<close>).
\<close>

theorem bus_publish_burst:
  assumes "length (eb_publish b) \<le> publishCap"
  shows "eb_publish (fold events_Publish es b) = eb_publish b @ take (publishCap - length (eb_publish b)) es
    \<and> events_DropCount (fold events_Publish es b) =
        events_DropCount b + of_nat (length es - (publishCap - length (eb_publish b)))"
  using bus_queue.pushes_contents [OF assms] bus_queue.pushes_drops [OF assms] by (simp add: events_DropCount_def)

theorem bus_publish_burst_witness:
  "events_DropCount (fold events_Publish (replicate 4100 (zero_Event :: nat Event)) events_NewEventBus) = 4"
proof -
  have "length (eb_publish (events_NewEventBus :: nat EventBus)) \<le> publishCap" by simp
  from bus_publish_burst [OF this, of "replicate 4100 zero_Event"] show ?thesis
    by (simp add: publishCap_def)
qed

text \<open>
  C38: A subscriber receives exactly the events of the types it asked for (all types when it
  asked for none), in order, as long as its channel has room; an event that finds it full is
  skipped for this subscriber only and later ones are not delayed.
\<close>

theorem bus_fanout_delivers:
  assumes "map_of (eb_subs b) ch = Some types" and "length (gm_get [] (eb_chans b) ch) \<le> subscriberCap"
  shows "gm_get [] (eb_chans (fold events_fanout es b)) ch =
    gm_get [] (eb_chans b) ch @ take (subscriberCap - length (gm_get [] (eb_chans b) ch))
      (filter (\<lambda>e. gm_len types = 0 \<or> gm_get False types (ev_Type e)) es)"
proof -
  let ?m = "\<lambda>e. gm_len types = 0 \<or> gm_get False types (ev_Type e)"
  have "gm_get [] (eb_chans (fold events_fanout es b)) ch =
      fold (chan_try_send subscriberCap) (filter ?m es) (gm_get [] (eb_chans b) ch)"
    using assms(1)
  proof (induction es arbitrary: b)
    case (Cons e es)
    have "map_of (eb_subs (events_fanout e b)) ch = Some types"
      using Cons.prems by (simp add: events_fanout_def)
    moreover have "gm_get [] (eb_chans (events_fanout e b)) ch =
        (if ?m e then chan_try_send subscriberCap e (gm_get [] (eb_chans b) ch) else gm_get [] (eb_chans b) ch)"
      using Cons.prems by (simp add: gm_get_def [of _ "eb_chans (events_fanout e b)"] chans_fanout)
        (simp add: gm_get_def)
    ultimately show ?case using Cons.IH [of "events_fanout e b"] by simp
  qed simp
  then show ?thesis using sub_queue.pushes_contents [OF assms(2)] by simp
qed

theorem bus_fanout_delivers_witness:
  "gm_get [] (eb_chans (fold events_fanout [zero_Event\<lparr>ev_Type := EvtSend\<rparr>, zero_Event\<lparr>ev_Type := EvtHeld\<rparr>]
      (events_Subscribe 7 [EvtHeld] (events_NewEventBus :: nat EventBus)))) 7 = [zero_Event\<lparr>ev_Type := EvtHeld\<rparr>]"
proof -
  let ?b = "events_Subscribe 7 [EvtHeld] (events_NewEventBus :: nat EventBus)"
  have "map_of (eb_subs ?b) 7 = Some [(EvtHeld, True)]" "gm_get [] (eb_chans ?b) 7 = []"
    by (simp_all add: events_Subscribe_def events_NewEventBus_def gm_set_def gm_get_def)
  from bus_fanout_delivers [OF this(1), of "[zero_Event\<lparr>ev_Type := EvtSend\<rparr>, zero_Event\<lparr>ev_Type := EvtHeld\<rparr>]"] this(2)
  show ?thesis
    by (simp add: gm_len_conv_keys gm_get_def EvtSend_def EvtHeld_def subscriberCap_def)
qed

end
