(* ===== verification/Conflict_Store.thy ===== *)
theory Conflict_Store
  imports Event_Bus Version_Vectors
begin

text \<open>
  \<^verbatim>\<open>internal/conflict\<close> and \<^verbatim>\<open>internal/process/kvstore.go\<close>: the multi-version store with
  its write rule, the resolution strategies, anti-entropy, and the key-value facade. The mutex
  makes every method atomic. Versions are never changed after they are made, so the pointers
  the code shares are values here. \<^verbatim>\<open>time.Now()\<close> is an argument, one per call; an error is
  the left summand of the result.
\<close>

section \<open>Data\<close>

definition MaxKeys :: nat where "MaxKeys = 10000"

definition MaxSiblingsPerKey :: nat where "MaxSiblingsPerKey = 64"

record ValueVersion =
  vv_Value :: bytes
  vv_Clock :: vclock
  vv_Author :: string
  vv_Written :: int

record MVCCEntry =
  me_Key :: string
  me_Versions :: "ValueVersion list"

record 'd ConflictDetector =
  cd_store :: "(string, MVCCEntry) gomap"
  cd_bus :: "'d EventBus option"

datatype conflict_error = KeyRequired | AuthorRequired | StoreFull

definition conflict_New :: "'d EventBus option \<Rightarrow> 'd ConflictDetector" where
  "conflict_New b = \<lparr>cd_store = [], cd_bus = b\<rparr>"

section \<open>Write, Read\<close>

definition trimOldest :: "ValueVersion list \<Rightarrow> nat \<Rightarrow> ValueVersion list" where
  "trimOldest versions n = (if n = 0 \<or> length versions \<le> n then versions else drop n versions)"

definition write_visit :: "vclock \<Rightarrow> ValueVersion \<Rightarrow> ValueVersion list \<times> vclock \<times> bool \<Rightarrow>
    ValueVersion list \<times> vclock \<times> bool" where
  "write_visit ctxVC existing = (\<lambda>(survivors, mergeClock, hasConflict).
     case vector_Compare ctxVC (vv_Clock existing) of
       HappenedBefore \<Rightarrow> (survivors @ [existing], mergeClock, True)
     | HappenedAfter \<Rightarrow> (survivors, mergeClock, hasConflict)
     | Identical \<Rightarrow> (survivors, mergeClock, hasConflict)
     | Concurrent \<Rightarrow> (survivors @ [existing], vector_MergePassive mergeClock (vv_Clock existing), True))"

definition conflict_event :: "string \<Rightarrow> int \<Rightarrow> 'd Event" where
  "conflict_event key now = zero_Event\<lparr>ev_Type := EvtConflict, ev_Timestamp := now,
     ev_Conflict := Some \<lparr>cp_Key = key, cp_Siblings = None\<rparr>\<rparr>"

definition conflict_Write :: "int \<Rightarrow> int \<Rightarrow> string \<Rightarrow> bytes \<Rightarrow> vclock \<Rightarrow> string \<Rightarrow> 'd ConflictDetector \<Rightarrow>
    (conflict_error + ValueVersion \<times> bool) \<times> 'd ConflictDetector" where
  "conflict_Write now1 now2 key val ctxVC authorID d =
     (if key = '''' then (Inl KeyRequired, d)
      else if authorID = '''' then (Inl AuthorRequired, d)
      else case map_of (cd_store d) key of
        None \<Rightarrow>
          if gm_len (cd_store d) \<ge> MaxKeys then (Inl StoreFull, d)
          else let newVersion = \<lparr>vv_Value = val, vv_Clock = vector_Tick ctxVC authorID,
                                 vv_Author = authorID, vv_Written = now1\<rparr>
               in (Inr (newVersion, False),
                   d\<lparr>cd_store := gm_set (cd_store d) key \<lparr>me_Key = key, me_Versions = [newVersion]\<rparr>\<rparr>)
      | Some current \<Rightarrow>
          case fold (write_visit ctxVC) (me_Versions current) ([], vector_Copy ctxVC, False) of
            (survivors, mergeClock, hasConflict) \<Rightarrow>
              let newVersion = \<lparr>vv_Value = val, vv_Clock = vector_Tick mergeClock authorID,
                                vv_Author = authorID, vv_Written = now1\<rparr>;
                  survivors' = survivors @ [newVersion];
                  survivors'' = (if length survivors' > MaxSiblingsPerKey
                                 then trimOldest survivors' (length survivors' - MaxSiblingsPerKey)
                                 else survivors');
                  d' = d\<lparr>cd_store := gm_set (cd_store d) key (current\<lparr>me_Versions := survivors''\<rparr>)\<rparr>;
                  d'' = (if hasConflict
                         then d'\<lparr>cd_bus := map_option (events_Publish (conflict_event key now2)) (cd_bus d')\<rparr>
                         else d')
              in (Inr (newVersion, hasConflict), d''))"

definition conflict_Read :: "'d ConflictDetector \<Rightarrow> string \<Rightarrow> ValueVersion list" where
  "conflict_Read d key = (case map_of (cd_store d) key of None \<Rightarrow> [] | Some entry \<Rightarrow> me_Versions entry)"

section \<open>Resolution\<close>

datatype ConflictResolution = LastWriterWins | FirstWriterWins | KeepAll | ManualResolution | MergeFunc

definition conflict_Resolve :: "ValueVersion list \<Rightarrow> ConflictResolution \<Rightarrow> ValueVersion option" where
  "conflict_Resolve versions strategy =
     (case versions of
        [] \<Rightarrow> None
      | [v] \<Rightarrow> Some v
      | v # vs \<Rightarrow>
         (case strategy of
            LastWriterWins \<Rightarrow> Some (fold (\<lambda>x winner. if vv_Written x > vv_Written winner then x else winner) vs v)
          | FirstWriterWins \<Rightarrow> Some (fold (\<lambda>x winner. if vv_Written x < vv_Written winner then x else winner) vs v)
          | KeepAll \<Rightarrow> Some v
          | _ \<Rightarrow> Some (last versions)))"

text \<open>
  A merge function of the caller's; \<open>Inl ()\<close> is a panic.
\<close>

type_synonym resolver = "ValueVersion list \<Rightarrow> unit + ValueVersion option"

definition conflict_ResolveWithFunc :: "ValueVersion list \<Rightarrow> resolver \<Rightarrow> unit + ValueVersion option" where
  "conflict_ResolveWithFunc versions fn = (if versions = [] then Inr None else fn versions)"

definition conflict_RegisterResolver :: "string \<Rightarrow> resolver \<Rightarrow> (string, resolver) gomap \<Rightarrow> (string, resolver) gomap" where
  "conflict_RegisterResolver nm fn r = gm_set r nm fn"

definition conflict_GetResolver :: "string \<Rightarrow> (string, resolver) gomap \<Rightarrow> resolver option" where
  "conflict_GetResolver nm r = map_of r nm"

text \<open>The registry after the package's \<^verbatim>\<open>init\<close>; \<^verbatim>\<open>versions[0]\<close> panics on an empty slice.\<close>

definition conflict_init :: "(string, resolver) gomap" where
  "conflict_init =
     conflict_RegisterResolver ''keep_all'' (\<lambda>versions. case versions of [] \<Rightarrow> Inl () | v # vs \<Rightarrow> Inr (Some v))
      (conflict_RegisterResolver ''fww'' (\<lambda>versions. Inr (conflict_Resolve versions FirstWriterWins))
        (conflict_RegisterResolver ''lww'' (\<lambda>versions. Inr (conflict_Resolve versions LastWriterWins)) []))"

definition conflict_ResolveKey :: "string \<Rightarrow> ConflictResolution \<Rightarrow> 'd ConflictDetector \<Rightarrow>
    ValueVersion option \<times> 'd ConflictDetector" where
  "conflict_ResolveKey key strategy d =
     (case map_of (cd_store d) key of
        None \<Rightarrow> (None, d)
      | Some entry \<Rightarrow>
          if me_Versions entry = [] then (None, d)
          else case conflict_Resolve (me_Versions entry) strategy of
                 None \<Rightarrow> (None, d)
               | Some winner \<Rightarrow>
                   (Some winner, if strategy \<noteq> KeepAll
                      then d\<lparr>cd_store := gm_set (cd_store d) key (entry\<lparr>me_Versions := [winner]\<rparr>)\<rparr> else d))"

section \<open>Anti-entropy\<close>

record SyncResultItem =
  si_Key :: string
  si_Merged :: bool
  si_Conflict :: bool

definition copyVersions :: "ValueVersion list \<Rightarrow> ValueVersion list" where
  "copyVersions src = map (\<lambda>i. src ! i) [0 ..< length src]"

text \<open>The first inner loop: whether some local version is at least as new.\<close>

fun sync_absorbed :: "vclock \<Rightarrow> ValueVersion list \<Rightarrow> bool" where
  "sync_absorbed rc [] = False"
| "sync_absorbed rc (lv # lvs) =
     (case vector_Compare rc (vv_Clock lv) of
        HappenedBefore \<Rightarrow> True | Identical \<Rightarrow> True
      | HappenedAfter \<Rightarrow> sync_absorbed rc lvs | Concurrent \<Rightarrow> sync_absorbed rc lvs)"

text \<open>The second inner loop, with its two flags.\<close>

fun sync_scan :: "vclock \<Rightarrow> ValueVersion list \<Rightarrow> bool \<Rightarrow> bool \<times> bool" where
  "sync_scan rc [] allConcurrent = (True, allConcurrent)"
| "sync_scan rc (lv # lvs) allConcurrent =
     (let order = vector_Compare rc (vv_Clock lv)
      in if order = HappenedBefore \<or> order = Identical then (False, False)
         else sync_scan rc lvs (if order = HappenedAfter then False else allConcurrent))"

definition sync_version :: "ValueVersion \<Rightarrow> ValueVersion list \<times> bool \<times> bool \<Rightarrow> ValueVersion list \<times> bool \<times> bool" where
  "sync_version rv = (\<lambda>(versions, changed, hasConflict).
     if sync_absorbed (vv_Clock rv) versions then (versions, changed, hasConflict)
     else case sync_scan (vv_Clock rv) versions True of
       (dominatesAll, allConcurrent) \<Rightarrow>
         if dominatesAll then ([rv], True, hasConflict)
         else (versions @ [rv], True, if \<not> allConcurrent then True else hasConflict))"

definition sync_key :: "string \<Rightarrow> MVCCEntry option \<Rightarrow> (string, MVCCEntry) gomap \<times> SyncResultItem list \<Rightarrow>
    (string, MVCCEntry) gomap \<times> SyncResultItem list" where
  "sync_key key remote = (\<lambda>(store, result).
     case remote of
       None \<Rightarrow> (store, result)
     | Some remoteEntry \<Rightarrow>
         if me_Versions remoteEntry = [] then (store, result)
         else case map_of store key of
           None \<Rightarrow> (gm_set store key \<lparr>me_Key = key, me_Versions = copyVersions (me_Versions remoteEntry)\<rparr>,
                    result @ [\<lparr>si_Key = key, si_Merged = True, si_Conflict = False\<rparr>])
         | Some localEntry \<Rightarrow>
             (case fold sync_version (me_Versions remoteEntry) (me_Versions localEntry, False, False) of
                (versions, changed, hasConflict) \<Rightarrow>
                  (gm_set store key (localEntry\<lparr>me_Versions := versions\<rparr>),
                   if changed then result @ [\<lparr>si_Key = key, si_Merged = True, si_Conflict = hasConflict\<rparr>]
                   else result)))"

definition conflict_Sync :: "(string, MVCCEntry option) gomap \<Rightarrow> 'd ConflictDetector \<Rightarrow>
    SyncResultItem list \<times> 'd ConflictDetector" where
  "conflict_Sync remote d =
     (case gm_fold sync_key remote (cd_store d, []) of (store, result) \<Rightarrow> (result, d\<lparr>cd_store := store\<rparr>))"

section \<open>The key-value facade\<close>

record 'd CausalKV =
  kv_store :: "'d ConflictDetector"

definition NewCausalKV :: "'d EventBus option \<Rightarrow> 'd CausalKV" where
  "NewCausalKV b = \<lparr>kv_store = conflict_New b\<rparr>"

definition kv_Get :: "'d CausalKV \<Rightarrow> string \<Rightarrow> ValueVersion list" where
  "kv_Get kv key = conflict_Read (kv_store kv) key"

definition kv_Put :: "int \<Rightarrow> int \<Rightarrow> string \<Rightarrow> bytes \<Rightarrow> vclock \<Rightarrow> string \<Rightarrow> 'd CausalKV \<Rightarrow>
    (conflict_error + ValueVersion \<times> bool) \<times> 'd CausalKV" where
  "kv_Put now1 now2 key val ctxVC author kv =
     (case conflict_Write now1 now2 key val ctxVC author (kv_store kv) of (r, d) \<Rightarrow> (r, kv\<lparr>kv_store := d\<rparr>))"

definition kv_Resolve :: "string \<Rightarrow> ConflictResolution \<Rightarrow> 'd CausalKV \<Rightarrow> ValueVersion option \<times> 'd CausalKV" where
  "kv_Resolve key strategy kv =
     (case conflict_ResolveKey key strategy (kv_store kv) of (r, d) \<Rightarrow> (r, kv\<lparr>kv_store := d\<rparr>))"

definition kv_Merge :: "(string, MVCCEntry option) gomap \<Rightarrow> 'd CausalKV \<Rightarrow> string list \<times> 'd CausalKV" where
  "kv_Merge remote kv =
     (case conflict_Sync remote (kv_store kv) of
        (items, d) \<Rightarrow> (map si_Key (filter si_Merged items), kv\<lparr>kv_store := d\<rparr>))"

section \<open>The write rule\<close>

lemma Compare_superseded:
  "vector_Compare ctx c = HappenedAfter \<or> vector_Compare ctx c = Identical \<longleftrightarrow> vector_le c ctx"
  using vector_cmp.cmp_flip [of c ctx] by (auto simp: vector_le_def)

lemma write_visit_fold:
  "fold (write_visit ctx) vs (s, mc, h) =
     (s @ filter (\<lambda>v. \<not> vector_le (vv_Clock v) ctx) vs,
      fold (\<lambda>v m. vector_MergePassive m (vv_Clock v)) (filter (\<lambda>v. vector_Compare ctx (vv_Clock v) = Concurrent) vs) mc,
      h \<or> (\<exists>v \<in> set vs. \<not> vector_le (vv_Clock v) ctx))"
proof (induction vs arbitrary: s mc h)
  case (Cons v vs)
  show ?case
    using Cons Compare_superseded [of ctx "vv_Clock v"]
    by (cases "vector_Compare ctx (vv_Clock v)") (simp_all add: write_visit_def)
qed simp

text \<open>The clock of the new version: the context joined with every concurrent sibling, then ticked.\<close>

definition write_clock :: "vclock \<Rightarrow> ValueVersion list \<Rightarrow> vclock" where
  "write_clock ctx vs = fold (\<lambda>v m. vector_MergePassive m (vv_Clock v))
     (filter (\<lambda>v. vector_Compare ctx (vv_Clock v) = Concurrent) vs) (vector_Copy ctx)"

lemma vget_merge_fold:
  "vget (fold (\<lambda>v m. vector_MergePassive m (vv_Clock v)) ws mc) k = fold max (map (\<lambda>v. vget (vv_Clock v) k) ws) (vget mc k)"
  by (induction ws arbitrary: mc) (auto simp: max.commute)

lemma vget_write_clock:
  "vget (write_clock ctx vs) k = Max (insert (vget ctx k)
     {vget (vv_Clock v) k | v. v \<in> set vs \<and> vector_Compare ctx (vv_Clock v) = Concurrent})"
proof -
  let ?ws = "filter (\<lambda>v. vector_Compare ctx (vv_Clock v) = Concurrent) vs"
  have "vget (write_clock ctx vs) k = fold max (map (\<lambda>v. vget (vv_Clock v) k) ?ws) (vget ctx k)"
    by (simp add: write_clock_def vget_merge_fold)
  also have "\<dots> = Max (set (vget ctx k # map (\<lambda>v. vget (vv_Clock v) k) ?ws))"
    by (simp add: Max.set_eq_fold del: set_simps)
  also have "set (vget ctx k # map (\<lambda>v. vget (vv_Clock v) k) ?ws) = insert (vget ctx k)
     {vget (vv_Clock v) k | v. v \<in> set vs \<and> vector_Compare ctx (vv_Clock v) = Concurrent}"
    by auto
  finally show ?thesis .
qed

lemma write_clock_upper:
  "vget ctx k \<le> vget (write_clock ctx vs) k"
  "v \<in> set vs \<Longrightarrow> vector_Compare ctx (vv_Clock v) = Concurrent \<Longrightarrow> vget (vv_Clock v) k \<le> vget (write_clock ctx vs) k"
  unfolding vget_write_clock by (auto intro!: Max_ge)

lemma conflict_Write_existing:
  assumes "key \<noteq> ''''" "author \<noteq> ''''" "map_of (cd_store d) key = Some entry"
  shows "conflict_Write now1 now2 key val ctx author d =
    (let new = \<lparr>vv_Value = val, vv_Clock = vector_Tick (write_clock ctx (me_Versions entry)) author,
                vv_Author = author, vv_Written = now1\<rparr>;
         conflict = (\<exists>v \<in> set (me_Versions entry). \<not> vector_le (vv_Clock v) ctx);
         d' = d\<lparr>cd_store := gm_set (cd_store d) key (entry\<lparr>me_Versions :=
                last_n MaxSiblingsPerKey (filter (\<lambda>v. \<not> vector_le (vv_Clock v) ctx) (me_Versions entry) @ [new])\<rparr>)\<rparr>
     in (Inr (new, conflict),
         if conflict then d'\<lparr>cd_bus := map_option (events_Publish (conflict_event key now2)) (cd_bus d')\<rparr> else d'))"
  using assms
  by (simp add: conflict_Write_def write_visit_fold Let_def write_clock_def trimOldest_def last_n_def
      MaxSiblingsPerKey_def)

lemma Read_set [simp]:
  "conflict_Read (d\<lparr>cd_store := gm_set s k e, cd_bus := b\<rparr>) j =
     (if j = k then me_Versions e else conflict_Read (d\<lparr>cd_store := s\<rparr>) j)"
  "conflict_Read (d\<lparr>cd_store := gm_set s k e\<rparr>) j =
     (if j = k then me_Versions e else conflict_Read (d\<lparr>cd_store := s\<rparr>) j)"
  "conflict_Read (d\<lparr>cd_bus := b\<rparr>) j = conflict_Read d j"
  by (simp_all add: conflict_Read_def)

section \<open>Resolution lemmas\<close>

lemma lww_fold:
  "fold (\<lambda>x w. if vv_Written x > vv_Written w then x else w) vs v \<in> set (v # vs)
   \<and> (\<forall>x \<in> set (v # vs). vv_Written x \<le> vv_Written (fold (\<lambda>x w. if vv_Written x > vv_Written w then x else w) vs v))"
proof (induction vs arbitrary: v)
  case (Cons a vs)
  show ?case
    using Cons.IH [of "if vv_Written a > vv_Written v then a else v"] by (auto split: if_splits)
qed simp

lemma fww_fold:
  "fold (\<lambda>x w. if vv_Written x < vv_Written w then x else w) vs v \<in> set (v # vs)
   \<and> (\<forall>x \<in> set (v # vs). vv_Written (fold (\<lambda>x w. if vv_Written x < vv_Written w then x else w) vs v) \<le> vv_Written x)"
proof (induction vs arbitrary: v)
  case (Cons a vs)
  show ?case
    using Cons.IH [of "if vv_Written a < vv_Written v then a else v"] by (auto split: if_splits)
qed simp

lemma Resolve_cases:
  "conflict_Resolve (v # vs) strategy = Some (if vs = [] then v else case strategy of
       LastWriterWins \<Rightarrow> fold (\<lambda>x w. if vv_Written x > vv_Written w then x else w) vs v
     | FirstWriterWins \<Rightarrow> fold (\<lambda>x w. if vv_Written x < vv_Written w then x else w) vs v
     | KeepAll \<Rightarrow> v | _ \<Rightarrow> last vs)"
  by (cases vs; cases strategy) (simp_all add: conflict_Resolve_def)

lemma Resolve_mem:
  assumes "vs \<noteq> []"
  shows "\<exists>w \<in> set vs. conflict_Resolve vs strategy = Some w
    \<and> (strategy = LastWriterWins \<longrightarrow> (\<forall>x \<in> set vs. vv_Written x \<le> vv_Written w))
    \<and> (strategy = FirstWriterWins \<longrightarrow> (\<forall>x \<in> set vs. vv_Written w \<le> vv_Written x))"
proof -
  obtain v ws where vs: "vs = v # ws" using assms by (cases vs) auto
  show ?thesis
  proof (cases "ws = []")
    case True
    then show ?thesis by (simp add: vs Resolve_cases)
  next
    case False
    then show ?thesis
      using lww_fold [where vs = ws and v = v] fww_fold [where vs = ws and v = v] last_in_set [OF False]
      by (cases strategy) (simp_all add: vs Resolve_cases)
  qed
qed

section \<open>The store invariant\<close>

definition store_wf :: "'d ConflictDetector \<Rightarrow> bool" where
  "store_wf d \<longleftrightarrow> (\<forall>k e. map_of (cd_store d) k = Some e \<longrightarrow>
     k \<noteq> '''' \<and> me_Key e = k \<and> me_Versions e \<noteq> [] \<and> length (me_Versions e) \<le> MaxSiblingsPerKey)
     \<and> gm_len (cd_store d) \<le> MaxKeys"

inductive store_step :: "'d ConflictDetector \<Rightarrow> 'd ConflictDetector \<Rightarrow> bool" where
  put: "store_step d (snd (conflict_Write now1 now2 key val ctx author d))"
| resolve: "store_step d (snd (conflict_ResolveKey key strategy d))"

lemma store_wf_set:
  assumes "store_wf d" "k \<noteq> ''''" "me_Key e = k" "me_Versions e \<noteq> []" "length (me_Versions e) \<le> MaxSiblingsPerKey"
    "k \<in> dom (map_of (cd_store d)) \<or> gm_len (cd_store d) < MaxKeys"
  shows "store_wf (d\<lparr>cd_store := gm_set (cd_store d) k e\<rparr>)"
  using assms unfolding store_wf_def by (simp add: gm_len_set) (metis Suc_leI)

lemma store_wf_bus [simp]: "store_wf (d\<lparr>cd_bus := b\<rparr>) = store_wf d"
  by (simp add: store_wf_def)

lemma store_wf_Write:
  assumes "store_wf d"
  shows "store_wf (snd (conflict_Write now1 now2 key val ctx author d))"
proof (cases "key = '''' \<or> author = ''''")
  case True
  with assms show ?thesis by (auto simp: conflict_Write_def)
next
  case args: False
  show ?thesis
  proof (cases "map_of (cd_store d) key")
    case None
    with args assms show ?thesis
      by (auto simp: conflict_Write_def Let_def MaxSiblingsPerKey_def intro!: store_wf_set)
  next
    case (Some entry)
    have "me_Key entry = key" using Some assms by (simp add: store_wf_def)
    then have wf: "store_wf (d\<lparr>cd_store := gm_set (cd_store d) key (entry\<lparr>me_Versions :=
        last_n MaxSiblingsPerKey (vs @ [new])\<rparr>)\<rparr>)" for vs new
      using assms args Some by (intro store_wf_set) (auto simp: last_n_def MaxSiblingsPerKey_def)
    have "key \<noteq> ''''" "author \<noteq> ''''" using args by auto
    then show ?thesis using Some wf wf [of "[]"] by (simp add: conflict_Write_existing Let_def)
  qed
qed

interpretation store: transition_system "\<lambda>d. d = conflict_New b" store_step store_wf
proof unfold_locales
  show "d = conflict_New b \<Longrightarrow> store_wf d" for d
    by (simp add: store_wf_def conflict_New_def gm_len_def)
  show "store_step d e \<Longrightarrow> store_wf d \<Longrightarrow> store_wf e" for d e
  proof (induction rule: store_step.induct)
    case (resolve d key strategy)
    then show ?case
      by (auto simp: conflict_ResolveKey_def MaxSiblingsPerKey_def store_wf_def gm_len_set domIff
          split: option.splits)
  qed (rule store_wf_Write)
qed

section \<open>Properties\<close>

text \<open>
  C19: the write rule. A write to an existing key, in a context \<open>ctx\<close>, succeeds; it keeps
  exactly the versions that the context does not cover, in their order, adds the new one at
  the end and then keeps the newest 64; it reports a conflict exactly when some version was not
  covered; the new clock is the context joined with the clocks of the concurrent versions,
  with the author's component one higher; every other key is untouched.
\<close>

theorem conflict_Write_spec:
  assumes "key \<noteq> ''''" "author \<noteq> ''''" "map_of (cd_store d) key = Some entry"
  shows "\<exists>new d'. conflict_Write now1 now2 key val ctx author d =
      (Inr (new, \<exists>v \<in> set (me_Versions entry). \<not> (\<forall>k. vget (vv_Clock v) k \<le> vget ctx k)), d')
    \<and> vv_Value new = val \<and> vv_Author new = author \<and> vv_Written new = now1
    \<and> (\<forall>k. vget (vv_Clock new) k = Max (insert (vget ctx k)
         {vget (vv_Clock v) k | v. v \<in> set (me_Versions entry) \<and> vector_Compare ctx (vv_Clock v) = Concurrent})
         + (if k = author then 1 else 0))
    \<and> conflict_Read d' key = (let vs = filter (\<lambda>v. \<not> (\<forall>k. vget (vv_Clock v) k \<le> vget ctx k)) (me_Versions entry) @ [new]
        in drop (length vs - MaxSiblingsPerKey) vs)
    \<and> (\<forall>j. j \<noteq> key \<longrightarrow> conflict_Read d' j = conflict_Read d j)"
  unfolding conflict_Write_existing [OF assms] Let_def
  by (intro exI conjI refl)
    (auto simp: vget_write_clock last_n_def vector_le_iff conflict_Read_def [of d])

definition store_demo :: "nat ConflictDetector" where
  "store_demo = snd (conflict_Write 1 1 ''k'' [1] [] ''A'' (conflict_New None))"

theorem conflict_Write_spec_witness:
  "conflict_Read (snd (conflict_Write 2 2 ''k'' [2] [(''A'', 1)] ''B'' store_demo)) ''k'' =
     [\<lparr>vv_Value = [2], vv_Clock = [(''A'', 1), (''B'', 1)], vv_Author = ''B'', vv_Written = 2\<rparr>]
   \<and> conflict_Read (snd (conflict_Write 2 2 ''k'' [2] [(''A'', 1)] ''B'' store_demo)) ''j'' = conflict_Read store_demo ''j''"
proof
  show "conflict_Read (snd (conflict_Write 2 2 ''k'' [2] [(''A'', 1)] ''B'' store_demo)) ''k'' =
     [\<lparr>vv_Value = [2], vv_Clock = [(''A'', 1), (''B'', 1)], vv_Author = ''B'', vv_Written = 2\<rparr>]"
    by code_simp
  have "map_of (cd_store store_demo) ''k'' = Some \<lparr>me_Key = ''k'', me_Versions =
      [\<lparr>vv_Value = [1], vv_Clock = [(''A'', 1)], vv_Author = ''A'', vv_Written = 1\<rparr>]\<rparr>"
    by code_simp
  from conflict_Write_spec [OF _ _ this, of "''B''" 2 2 "[2]" "[(''A'', 1)]"]
  show "conflict_Read (snd (conflict_Write 2 2 ''k'' [2] [(''A'', 1)] ''B'' store_demo)) ''j'' = conflict_Read store_demo ''j''"
    by auto
qed

text \<open>
  A write that conflicts hides its sibling. When the stored version is concurrent with the
  writer's context, the write reports a conflict and keeps both versions, but the new version's
  clock covers the sibling's: the two siblings are causally ordered, although neither writer
  saw the other's value, and the next write in the context of the new version alone discards
  the sibling and reports no conflict.
\<close>

theorem conflict_Write_hides_sibling:
  assumes args: "key \<noteq> ''''" "author \<noteq> ''''" "author' \<noteq> ''''"
    and old: "map_of (cd_store d) key = Some \<lparr>me_Key = key, me_Versions = [old]\<rparr>"
    and conc: "vector_Compare ctx (vv_Clock old) = Concurrent"
    and room: "can_inc (max (vget ctx author) (vget (vv_Clock old) author))"
  shows "\<exists>new d'. conflict_Write now1 now2 key val ctx author d = (Inr (new, True), d')
    \<and> conflict_Read d' key = [old, new]
    \<and> vector_Compare (vv_Clock old) (vv_Clock new) = HappenedBefore
    \<and> (\<exists>new' d''. conflict_Write now3 now4 key val' (vv_Clock new) author' d' = (Inr (new', False), d'')
         \<and> conflict_Read d'' key = [new'])"
proof -
  let ?mc = "write_clock ctx [old]"
  define new where "new = \<lparr>vv_Value = val, vv_Clock = vector_Tick ?mc author, vv_Author = author, vv_Written = now1\<rparr>"
  have not_le: "\<not> vector_le (vv_Clock old) ctx" using conc Compare_superseded [of ctx "vv_Clock old"] by auto
  obtain d' where w: "conflict_Write now1 now2 key val ctx author d = (Inr (new, True), d')"
      and e: "map_of (cd_store d') key = Some \<lparr>me_Key = key, me_Versions = [old, new]\<rparr>"
    using conflict_Write_existing [OF args(1,2) old] not_le
    by (simp add: Let_def last_n_def MaxSiblingsPerKey_def new_def)
  have mc: "vget ?mc k = max (vget ctx k) (vget (vv_Clock old) k)" for k
    using conc by (simp add: write_clock_def)
  have "vget (vv_Clock old) k \<le> vget (vv_Clock new) k" for k
  proof (cases "k = author")
    case True
    then show ?thesis using le_plus_1_trans [OF room, of "vget (vv_Clock old) author"]
      by (simp add: new_def mc order_less_imp_le)
  qed (simp add: new_def mc)
  then have le: "vector_le (vv_Clock old) (vv_Clock new)" by (simp add: vector_le_iff)
  have "vget (vv_Clock old) author < vget (vv_Clock new) author"
    using le_plus_1_trans [OF room, of "vget (vv_Clock old) author"] by (simp add: new_def mc)
  with le have hb: "vector_Compare (vv_Clock old) (vv_Clock new) = HappenedBefore"
    by (auto simp: vector_cmp.cmp_before vector_le_iff)
  have "vector_le (vv_Clock new) (vv_Clock new)" by (simp add: vector_le_iff)
  with le have "\<exists>new' d''. conflict_Write now3 now4 key val' (vv_Clock new) author' d' = (Inr (new', False), d'')
      \<and> conflict_Read d'' key = [new']"
    using conflict_Write_existing [OF args(1,3) e]
    by (simp add: Let_def last_n_def MaxSiblingsPerKey_def)
  with w e hb show ?thesis by (auto simp: conflict_Read_def)
qed

theorem conflict_Write_hides_sibling_witness:
  "\<exists>new d'. conflict_Write 2 2 ''k'' [2] [(''B'', 1)] ''B'' store_demo = (Inr (new, True), d')
     \<and> length (conflict_Read d' ''k'') = 2"
proof -
  let ?old = "\<lparr>vv_Value = [1], vv_Clock = [(''A'', 1)], vv_Author = ''A'', vv_Written = 1\<rparr>"
  have "map_of (cd_store store_demo) ''k'' = Some \<lparr>me_Key = ''k'', me_Versions = [?old]\<rparr>" by code_simp
  moreover have "vector_Compare [(''B'', 1)] (vv_Clock ?old) = Concurrent" by code_simp
  moreover have "can_inc (max (vget [(''B'', 1)] ''B'') (vget (vv_Clock ?old) ''B''))" by code_simp
  ultimately show ?thesis
    using conflict_Write_hides_sibling [of "''k''" "''B''" "''C''" store_demo ?old "[(''B'', 1)]" 2 2 "[2]" 3 3 "[3]"]
    by fastforce
qed

text \<open>
  C20: starting from an empty store, any sequence of writes (failing ones included) and
  resolutions keeps at most \<^verbatim>\<open>MaxKeys\<close> keys, each with at least one and at most
  \<^verbatim>\<open>MaxSiblingsPerKey\<close> versions and stored under its own name.
\<close>

theorem conflict_store_bounded:
  assumes "store_step\<^sup>*\<^sup>* (conflict_New b) d"
  shows "gm_len (cd_store d) \<le> MaxKeys \<and> (\<forall>k e. map_of (cd_store d) k = Some e \<longrightarrow>
     k \<noteq> '''' \<and> me_Key e = k \<and> 1 \<le> length (me_Versions e) \<and> length (me_Versions e) \<le> MaxSiblingsPerKey)"
  using store.inv_reachable [OF refl assms] by (auto simp: store_wf_def Suc_le_eq)

theorem conflict_store_bounded_witness: "gm_len (cd_store store_demo) \<le> MaxKeys"
proof -
  have "store_step (conflict_New None) store_demo" unfolding store_demo_def by (rule store_step.put)
  then show ?thesis using conflict_store_bounded [OF r_into_rtranclp] by blast
qed

text \<open>
  Resolving a key. \<^verbatim>\<open>LastWriterWins\<close> picks a version with the latest time of writing and
  \<^verbatim>\<open>FirstWriterWins\<close> one with the earliest; every strategy picks a stored version, and all
  but \<^verbatim>\<open>KeepAll\<close> leave the winner as the only version of the key, without touching another.
\<close>

theorem conflict_Resolve_winner:
  assumes "map_of (cd_store d) key = Some entry" and "me_Versions entry \<noteq> []"
  shows "\<exists>w \<in> set (me_Versions entry). \<exists>d'. conflict_ResolveKey key strategy d = (Some w, d')
    \<and> (strategy = LastWriterWins \<longrightarrow> (\<forall>x \<in> set (me_Versions entry). vv_Written x \<le> vv_Written w))
    \<and> (strategy = FirstWriterWins \<longrightarrow> (\<forall>x \<in> set (me_Versions entry). vv_Written w \<le> vv_Written x))
    \<and> conflict_Read d' key = (if strategy = KeepAll then me_Versions entry else [w])
    \<and> (\<forall>j. j \<noteq> key \<longrightarrow> conflict_Read d' j = conflict_Read d j)"
proof -
  obtain w where "w \<in> set (me_Versions entry)" "conflict_Resolve (me_Versions entry) strategy = Some w"
      "strategy = LastWriterWins \<longrightarrow> (\<forall>x \<in> set (me_Versions entry). vv_Written x \<le> vv_Written w)"
      "strategy = FirstWriterWins \<longrightarrow> (\<forall>x \<in> set (me_Versions entry). vv_Written w \<le> vv_Written x)"
    using Resolve_mem [OF assms(2), of strategy] by blast
  with assms show ?thesis
    by (intro bexI [of _ w]) (simp_all add: conflict_ResolveKey_def conflict_Read_def)
qed

theorem conflict_Resolve_winner_witness:
  "\<exists>w d'. conflict_ResolveKey ''k'' LastWriterWins store_demo = (Some w, d') \<and> conflict_Read d' ''k'' = [w]"
proof -
  have "map_of (cd_store store_demo) ''k'' = Some \<lparr>me_Key = ''k'', me_Versions =
      [\<lparr>vv_Value = [1], vv_Clock = [(''A'', 1)], vv_Author = ''A'', vv_Written = 1\<rparr>]\<rparr>"
    by code_simp
  from conflict_Resolve_winner [OF this, of LastWriterWins] show ?thesis by auto
qed

section \<open>What anti-entropy does\<close>

lemma sync_absorbed_iff: "sync_absorbed rc vs \<longleftrightarrow> (\<exists>v \<in> set vs. vector_le rc (vv_Clock v))"
proof (induction vs)
  case (Cons v vs)
  then show ?case by (cases "vector_Compare rc (vv_Clock v)") (simp_all add: vector_le_def)
qed simp

lemma sync_scan_not_absorbed: "\<not> sync_absorbed rc vs \<Longrightarrow> fst (sync_scan rc vs ac)"
  by (induction vs arbitrary: ac) (auto simp: sync_absorbed_iff vector_le_def Let_def)

lemma sync_version_eq: "sync_version rv (vs, changed, hc) =
    (if \<exists>v \<in> set vs. vector_le (vv_Clock rv) (vv_Clock v) then (vs, changed, hc) else ([rv], True, hc))"
  using sync_scan_not_absorbed [of "vv_Clock rv" vs True]
  by (auto simp: sync_version_def sync_absorbed_iff split: prod.splits)

lemma sync_version_fold:
  "\<exists>vs' c. fold sync_version rvs (vs, changed, hc) = (vs', c, hc) \<and> (vs' = vs \<or> (\<exists>rv \<in> set rvs. vs' = [rv]))"
proof (induction rvs arbitrary: vs changed)
  case (Cons rv rvs)
  show ?case using Cons.IH [of vs changed] Cons.IH [of "[rv]" True] by (auto simp: sync_version_eq)
qed simp

lemma sync_key_no_conflict:
  assumes "\<forall>i \<in> set result. \<not> si_Conflict i"
  shows "\<forall>i \<in> set (snd (sync_key key r (store, result))). \<not> si_Conflict i"
proof (cases r)
  case (Some e)
  show ?thesis
  proof (cases "map_of store key")
    case None
    with Some assms show ?thesis by (simp add: sync_key_def)
  next
    case (Some le)
    obtain vs c where "fold sync_version (me_Versions e) (me_Versions le, False, False) = (vs, c, False)"
      using sync_version_fold by blast
    with Some \<open>r = Some e\<close> assms show ?thesis by (simp add: sync_key_def)
  qed
qed (use assms in \<open>simp add: sync_key_def\<close>)

lemma sync_fold_no_conflict:
  "\<forall>i \<in> set (snd s). \<not> si_Conflict i \<Longrightarrow>
   \<forall>i \<in> set (snd (fold (\<lambda>(k, r). sync_key k r) xs s)). \<not> si_Conflict i"
proof (induction xs arbitrary: s)
  case (Cons x xs)
  then show ?case using sync_key_no_conflict [of "snd s" "fst x" "snd x" "fst s"] by (cases x) simp
qed simp

text \<open>
  Anti-entropy loses concurrent siblings. No synchronisation ever reports a conflict; and
  when a remote version is concurrent with every local version of the key (the case the code
  comments as "keep both as siblings"), the local versions are all replaced by it.
\<close>

theorem conflict_Sync_replaces_concurrent:
  "(\<forall>i \<in> set (fst (conflict_Sync remote d)). \<not> si_Conflict i)
   \<and> (map_of (cd_store d) key = Some entry \<and> (\<forall>lv \<in> set (me_Versions entry). vector_Compare (vv_Clock rv) (vv_Clock lv) = Concurrent)
      \<longrightarrow> fst (conflict_Sync [(key, Some \<lparr>me_Key = key, me_Versions = [rv]\<rparr>)] d)
            = [\<lparr>si_Key = key, si_Merged = True, si_Conflict = False\<rparr>]
        \<and> conflict_Read (snd (conflict_Sync [(key, Some \<lparr>me_Key = key, me_Versions = [rv]\<rparr>)] d)) key = [rv])"
proof (intro conjI impI)
  show "\<forall>i \<in> set (fst (conflict_Sync remote d)). \<not> si_Conflict i"
    using sync_fold_no_conflict [of "(cd_store d, [])" "gm_range remote"]
    by (simp add: conflict_Sync_def gm_fold_def split: prod.splits)
next
  assume a: "map_of (cd_store d) key = Some entry
    \<and> (\<forall>lv \<in> set (me_Versions entry). vector_Compare (vv_Clock rv) (vv_Clock lv) = Concurrent)"
  then have "\<not> (\<exists>v \<in> set (me_Versions entry). vector_le (vv_Clock rv) (vv_Clock v))"
    by (auto simp: vector_le_def)
  then have "sync_key key (Some \<lparr>me_Key = key, me_Versions = [rv]\<rparr>) (cd_store d, []) =
      (gm_set (cd_store d) key (entry\<lparr>me_Versions := [rv]\<rparr>), [\<lparr>si_Key = key, si_Merged = True, si_Conflict = False\<rparr>])"
    using a by (simp add: sync_key_def sync_version_eq)
  then show "fst (conflict_Sync [(key, Some \<lparr>me_Key = key, me_Versions = [rv]\<rparr>)] d)
            = [\<lparr>si_Key = key, si_Merged = True, si_Conflict = False\<rparr>]"
    and "conflict_Read (snd (conflict_Sync [(key, Some \<lparr>me_Key = key, me_Versions = [rv]\<rparr>)] d)) key = [rv]"
    by (simp_all add: conflict_Sync_def gm_fold_def gm_range_def)
qed

theorem conflict_Sync_replaces_concurrent_witness:
  "conflict_Read (snd (conflict_Sync [(''k'', Some \<lparr>me_Key = ''k'', me_Versions =
       [\<lparr>vv_Value = [9], vv_Clock = [(''B'', 1)], vv_Author = ''B'', vv_Written = 5\<rparr>]\<rparr>)] store_demo)) ''k'' =
     [\<lparr>vv_Value = [9], vv_Clock = [(''B'', 1)], vv_Author = ''B'', vv_Written = 5\<rparr>]"
proof -
  let ?old = "\<lparr>vv_Value = [1], vv_Clock = [(''A'', 1)], vv_Author = ''A'', vv_Written = 1\<rparr>"
  have "map_of (cd_store store_demo) ''k'' = Some \<lparr>me_Key = ''k'', me_Versions = [?old]\<rparr>" by code_simp
  moreover have "vector_Compare [(''B'', 1)] [(''A'', 1)] = Concurrent" by code_simp
  ultimately show ?thesis
    using conflict_Sync_replaces_concurrent [of "[]" store_demo "''k''" "\<lparr>me_Key = ''k'', me_Versions = [?old]\<rparr>"
        "\<lparr>vv_Value = [9], vv_Clock = [(''B'', 1)], vv_Author = ''B'', vv_Written = 5\<rparr>"] by simp
qed

end
