(* ===== verification/Hold_Back.thy ===== *)
theory Hold_Back
  imports Vector_Clock Matrix_Clock
begin

text \<open>
  \<^verbatim>\<open>internal/process/holdback.go\<close> and the \<^verbatim>\<open>Message\<close> struct of \<^verbatim>\<open>process.go\<close>: the
  hold-back queue of causal (BSS) delivery. \<^verbatim>\<open>TryDeliver\<close> holds the queue's mutex per scan;
  only the process's own goroutine removes messages, so a call is one step.
\<close>

section \<open>Data\<close>

record 'd Message =
  msg_ID :: string
  msg_From :: pid
  msg_To :: pid
  msg_Data :: "'d option"
  msg_SentVC :: vclock
  msg_SentMatrix :: mclock
  msg_SentLC :: u64
  msg_SentAt :: int
  msg_IsMarker :: bool
  msg_SnapshotID :: string

record 'd HeldMessage =
  held_Msg :: "'d Message"
  held_SentVC :: vclock

type_synonym 'd HoldBackQueue = "'d HeldMessage list"

section \<open>Operations\<close>

definition hbq_Enqueue :: "'d Message \<Rightarrow> vclock \<Rightarrow> 'd HoldBackQueue \<Rightarrow> 'd HoldBackQueue" where
  "hbq_Enqueue m sentVC q = q @ [\<lparr>held_Msg = m, held_SentVC = sentVC\<rparr>]"

definition canDeliver :: "vclock \<Rightarrow> pid \<Rightarrow> vclock \<Rightarrow> bool" where
  "canDeliver msgVC sender localVC =
     (if vget msgVC sender \<noteq> vget localVC sender + 1 then False
      else list_all (\<lambda>(p, msgCount). if p = sender then True else \<not> msgCount > vget localVC p) (gm_range msgVC))"

text \<open>The clock update of one delivery: the loop over the message's clock, then the own tick.\<close>

definition hb_merge :: "pid \<Rightarrow> 'd HeldMessage \<Rightarrow> vclock \<Rightarrow> vclock" where
  "hb_merge selfPID held localVC =
     (let vc = gm_fold (\<lambda>k v vc. if k = msg_From (held_Msg held) then gm_set vc k v
                                 else if v > vget vc k then gm_set vc k v else vc)
                 (held_SentVC held) (vector_Copy localVC)
      in gm_set vc selfPID (vget vc selfPID + 1))"

text \<open>One scan: the index of the first deliverable message.\<close>

fun hb_scan :: "vclock \<Rightarrow> 'd HeldMessage list \<Rightarrow> nat option" where
  "hb_scan localVC [] = None"
| "hb_scan localVC (held # rest) =
     (if canDeliver (held_SentVC held) (msg_From (held_Msg held)) localVC then Some 0
      else map_option Suc (hb_scan localVC rest))"

definition swap_remove :: "nat \<Rightarrow> 'a list \<Rightarrow> 'a list" where
  "swap_remove i xs = butlast (xs[i := last xs])"

lemma hb_scan_Some: "hb_scan vc q = Some i \<Longrightarrow>
    i < length q \<and> canDeliver (held_SentVC (q ! i)) (msg_From (held_Msg (q ! i))) vc"
  by (induction q arbitrary: i) (auto split: if_splits)

lemma hb_scan_None: "hb_scan vc q = None \<longleftrightarrow>
    (\<forall>h \<in> set q. \<not> canDeliver (held_SentVC h) (msg_From (held_Msg h)) vc)"
  by (induction q) auto

function hbq_TryDeliver :: "vclock \<Rightarrow> pid \<Rightarrow> 'd Message list \<Rightarrow> 'd HoldBackQueue \<Rightarrow>
    'd Message list \<times> vclock \<times> 'd HoldBackQueue" where
  "hbq_TryDeliver localVC selfPID delivered pending =
     (case hb_scan localVC pending of
        None \<Rightarrow> (delivered, localVC, pending)
      | Some i \<Rightarrow> hbq_TryDeliver (hb_merge selfPID (pending ! i) localVC) selfPID
                   (delivered @ [held_Msg (pending ! i)]) (swap_remove i pending))"
  by pat_completeness auto
termination
  by (relation "measure (\<lambda>(localVC, selfPID, delivered, pending). length pending)")
    (auto simp: swap_remove_def dest: hb_scan_Some)

declare hbq_TryDeliver.simps [simp del]

definition hbq_Len :: "'d HoldBackQueue \<Rightarrow> nat" where
  "hbq_Len q = length q"

definition hbq_Snapshot :: "'d HoldBackQueue \<Rightarrow> 'd HeldMessage list" where
  "hbq_Snapshot q = map (\<lambda>h. h) q"

definition blockers_of :: "vclock \<Rightarrow> 'd HeldMessage \<Rightarrow> (pid, unit) gomap \<Rightarrow> (pid, unit) gomap" where
  "blockers_of localVC held blockers =
     (let sender = msg_From (held_Msg held); msgVC = held_SentVC held;
          b = (if vget msgVC sender > vget localVC sender + 1 then gm_set blockers sender () else blockers)
      in gm_fold (\<lambda>p msgCount b. if p = sender then b
           else if msgCount > vget localVC p then gm_set b p () else b) msgVC b)"

definition hbq_BlockedBy :: "vclock \<Rightarrow> 'd HoldBackQueue \<Rightarrow> pid list" where
  "hbq_BlockedBy localVC q = gm_keys (fold (blockers_of localVC) q [])"

section \<open>Lemmas\<close>

lemma canDeliver_iff: "canDeliver msgVC sender localVC \<longleftrightarrow>
    vget msgVC sender = vget localVC sender + 1 \<and> (\<forall>k. k \<noteq> sender \<longrightarrow> vget msgVC k \<le> vget localVC k)"
proof -
  have "list_all (\<lambda>(p, c). if p = sender then True else \<not> c > vget localVC p) (gm_range msgVC)
      \<longleftrightarrow> (\<forall>k c. map_of msgVC k = Some c \<longrightarrow> k \<noteq> sender \<longrightarrow> c \<le> vget localVC k)"
    by (auto simp: list_all_iff mem_gm_range not_less)
  also have "\<dots> \<longleftrightarrow> (\<forall>k. k \<noteq> sender \<longrightarrow> vget msgVC k \<le> vget localVC k)"
    by (auto simp: gm_get_def [of _ msgVC] split: option.splits)
  finally show ?thesis by (simp add: canDeliver_def)
qed

lemma vget_hb_merge:
  assumes "canDeliver (held_SentVC h) (msg_From (held_Msg h)) vc" and "can_inc (vget vc (msg_From (held_Msg h)))"
  shows "vget (hb_merge self h vc) k =
    (if k = msg_From (held_Msg h) then vget vc k + 1 else vget vc k) + (if k = self then 1 else 0)"
proof -
  let ?s = "msg_From (held_Msg h)"
  let ?f = "\<lambda>k v vc. if k = ?s then gm_set vc k v else if v > vget vc k then gm_set vc k v else vc"
  have loop: "vget (gm_fold ?f (held_SentVC h) vc') j = (case map_of (held_SentVC h) j of None \<Rightarrow> vget vc' j
      | Some v \<Rightarrow> if j = ?s then v else max (vget vc' j) v)" for vc' j
    by (rule gm_fold_pointwise [where g = "\<lambda>j v w. if j = ?s then v else max w v"]) (auto simp: max_def)
  have c1: "vget (held_SentVC h) ?s = vget vc ?s + 1"
    and c2: "\<And>j. j \<noteq> ?s \<Longrightarrow> vget (held_SentVC h) j \<le> vget vc j"
    using assms(1) by (auto simp: canDeliver_iff)
  have "vget vc ?s + 1 \<noteq> 0" using unat_inc [OF assms(2)] by auto
  then have "map_of (held_SentVC h) ?s = Some (vget vc ?s + 1)"
    using c1 by (auto simp: gm_get_def [of _ "held_SentVC h"] split: option.splits)
  moreover have "max (vget vc j) v = vget vc j" if "map_of (held_SentVC h) j = Some v" "j \<noteq> ?s" for j v
    using c2 [OF that(2)] that(1) by (simp add: gm_get_Some max_absorb1)
  ultimately have "vget (gm_fold ?f (held_SentVC h) (vector_Copy vc)) j =
      (if j = ?s then vget vc j + 1 else vget vc j)" for j
    using loop [of "vector_Copy vc" j] by (auto split: option.splits)
  then show ?thesis by (simp add: hb_merge_def Let_def)
qed

text \<open>A delivery from the queue moves the clock exactly as a direct receipt does.\<close>

lemma hb_merge_is_Receive:
  assumes "canDeliver (held_SentVC h) (msg_From (held_Msg h)) vc" and inc: "can_inc (vget vc (msg_From (held_Msg h)))"
  shows "vget (hb_merge self h vc) k = vget (vector_Receive vc (held_SentVC h) self) k"
proof -
  let ?s = "msg_From (held_Msg h)"
  have "max (vget vc j) (vget (held_SentVC h) j) = (if j = ?s then vget vc j + 1 else vget vc j)" for j
    using assms(1) can_inc_le [OF inc] by (auto simp: canDeliver_iff max_def)
  then show ?thesis by (simp add: vget_hb_merge [OF assms] vget_Receive)
qed

lemma mset_swap_remove: "i < length xs \<Longrightarrow> add_mset (xs ! i) (mset (swap_remove i xs)) = mset xs"
proof -
  assume i: "i < length xs"
  then have ne: "xs \<noteq> []" by auto
  obtain ys z where xs: "xs = ys @ [z]" using ne by (metis rev_exhaust)
  show ?thesis
  proof (cases "i = length ys")
    case True
    then show ?thesis by (simp add: swap_remove_def xs)
  next
    case False
    then have "i < length ys" using i xs by simp
    then show ?thesis
      by (simp add: swap_remove_def xs list_update_append nth_append mset_update butlast_append)
  qed
qed

section \<open>Delivery runs\<close>

text \<open>
  The deliveries a process makes, one after another: each message must satisfy the delivery
  condition in the clock reached so far. The result is the final clock, or \<open>None\<close> when some
  message was not deliverable.
\<close>

fun bss_run :: "pid \<Rightarrow> vclock \<Rightarrow> 'd HeldMessage list \<Rightarrow> vclock option" where
  "bss_run self vc [] = Some vc"
| "bss_run self vc (h # hs) =
     (if canDeliver (held_SentVC h) (msg_From (held_Msg h)) vc then bss_run self (hb_merge self h vc) hs else None)"

lemma TryDeliver_spec:
  "case hbq_TryDeliver vc self ds pending of (ds', vc', pending') \<Rightarrow>
     \<exists>hs. ds' = ds @ map held_Msg hs \<and> bss_run self vc hs = Some vc' \<and> mset pending = mset hs + mset pending'
       \<and> (\<forall>h \<in> set pending'. \<not> canDeliver (held_SentVC h) (msg_From (held_Msg h)) vc')"
proof (induction vc self ds pending rule: hbq_TryDeliver.induct)
  case (1 vc self ds pending)
  show ?case
  proof (cases "hb_scan vc pending")
    case None
    then have "hbq_TryDeliver vc self ds pending = (ds, vc, pending)"
      by (subst hbq_TryDeliver.simps) simp
    with None show ?thesis by (auto simp: hb_scan_None intro!: exI [of _ "[]"])
  next
    case (Some i)
    let ?h = "pending ! i"
    obtain ds' vc' q' where r: "hbq_TryDeliver (hb_merge self ?h vc) self (ds @ [held_Msg ?h]) (swap_remove i pending) = (ds', vc', q')"
      by (metis prod_cases3)
    from "1.IH" [OF Some] obtain hs where hs: "ds' = (ds @ [held_Msg ?h]) @ map held_Msg hs"
        "bss_run self (hb_merge self ?h vc) hs = Some vc'" "mset (swap_remove i pending) = mset hs + mset q'"
        "\<forall>h \<in> set q'. \<not> canDeliver (held_SentVC h) (msg_From (held_Msg h)) vc'"
      by (auto simp: r)
    have i: "i < length pending" "canDeliver (held_SentVC ?h) (msg_From (held_Msg ?h)) vc"
      using hb_scan_Some [OF Some] by auto
    have "ds' = ds @ map held_Msg (?h # hs)" "bss_run self vc (?h # hs) = Some vc'"
      "mset pending = mset (?h # hs) + mset q'"
      using hs i mset_swap_remove [OF i(1)] by auto
    moreover have "hbq_TryDeliver vc self ds pending = (ds', vc', q')"
      using Some r by (subst hbq_TryDeliver.simps) simp
    ultimately show ?thesis using hs(4) by (auto simp del: bss_run.simps intro!: exI [of _ "?h # hs"])
  qed
qed

text \<open>No counter wraps along the run.\<close>

definition run_room :: "vclock \<Rightarrow> nat \<Rightarrow> bool" where
  "run_room vc n \<longleftrightarrow> (\<forall>k. unat (vget vc k) + 2 * n < 2 ^ 64)"

lemma run_room_step:
  assumes room: "run_room vc (Suc n)" and ok: "canDeliver (held_SentVC h) (msg_From (held_Msg h)) vc"
  shows "run_room (hb_merge self h vc) n" "vget vc k \<le> vget (hb_merge self h vc) k"
    "can_inc (vget vc k)" "vget (hb_merge self h vc) (msg_From (held_Msg h)) \<ge> vget vc (msg_From (held_Msg h)) + 1"
proof -
  let ?s = "msg_From (held_Msg h)"
  have two: "unat (vget vc k) + 2 * Suc n < 2 ^ 64" for k using room by (simp add: run_room_def)
  have inc: "can_inc (vget vc k)" for k using two [of k] by (intro can_inc_unat) simp
  then show "can_inc (vget vc k)" .
  have inc2: "can_inc (vget vc k + 1)" for k
    using two [of k] by (intro can_inc_unat) (simp add: unat_inc [OF inc])
  note merge = vget_hb_merge [OF ok inc]
  have up: "unat (vget (hb_merge self h vc) k) = unat (vget vc k) + (if k = ?s then 1 else 0) + (if k = self then 1 else 0)" for k
    using merge [of self k] by (simp add: unat_inc inc inc2)
  show "run_room (hb_merge self h vc) n"
    unfolding run_room_def
  proof
    fix k
    show "unat (vget (hb_merge self h vc) k) + 2 * n < 2 ^ 64"
      using two [of k] unfolding up by (auto split: if_splits)
  qed
  show "vget vc k \<le> vget (hb_merge self h vc) k" by (simp add: word_le_nat_alt up)
  show "vget (hb_merge self h vc) ?s \<ge> vget vc ?s + 1" by (simp add: word_le_nat_alt up unat_inc [OF inc])
qed

lemma bss_run_later:
  assumes "bss_run self vc hs = Some vc'" and "run_room vc (length hs)" and "h \<in> set hs"
  shows "vget vc (msg_From (held_Msg h)) < vget (held_SentVC h) (msg_From (held_Msg h))"
  using assms
proof (induction hs arbitrary: vc)
  case (Cons a hs)
  have a: "canDeliver (held_SentVC a) (msg_From (held_Msg a)) vc" "bss_run self (hb_merge self a vc) hs = Some vc'"
    using Cons.prems(1) by (auto split: if_splits)
  note step = run_room_step [OF Cons.prems(2) [simplified] a(1)]
  show ?case
  proof (cases "h = a")
    case True
    then show ?thesis using a(1) can_inc_less [OF step(3)] by (simp add: canDeliver_iff)
  next
    case False
    then have "vget (hb_merge self a vc) (msg_From (held_Msg h)) < vget (held_SentVC h) (msg_From (held_Msg h))"
      using Cons.IH [OF a(2) step(1)] Cons.prems(3) by simp
    then show ?thesis using step(2) by (rule order_le_less_trans [rotated])
  qed
qed simp

lemma bss_run_order:
  assumes "bss_run self vc (h # hs) = Some vc'" and "run_room vc (Suc (length hs))" and "g \<in> set hs"
  shows "vget (held_SentVC h) (msg_From (held_Msg g)) < vget (held_SentVC g) (msg_From (held_Msg g))"
proof -
  let ?p = "msg_From (held_Msg g)"
  have h: "canDeliver (held_SentVC h) (msg_From (held_Msg h)) vc" "bss_run self (hb_merge self h vc) hs = Some vc'"
    using assms(1) by (auto split: if_splits)
  note step = run_room_step [OF assms(2) h(1)]
  have "vget (held_SentVC h) ?p \<le> vget (hb_merge self h vc) ?p"
  proof (cases "?p = msg_From (held_Msg h)")
    case True
    then show ?thesis using h(1) step(4) by (simp add: canDeliver_iff)
  next
    case False
    then have "vget (held_SentVC h) ?p \<le> vget vc ?p" using h(1) by (simp add: canDeliver_iff)
    then show ?thesis using step(2) order_trans by blast
  qed
  also have "\<dots> < vget (held_SentVC g) ?p"
    using bss_run_later [OF h(2) _ assms(3)] step(1) by simp
  finally show ?thesis .
qed

lemma run_room_mono: "run_room vc n \<Longrightarrow> m \<le> n \<Longrightarrow> run_room vc m"
proof -
  assume a: "run_room vc n" "m \<le> n"
  have "unat (vget vc k) + 2 * m \<le> unat (vget vc k) + 2 * n" for k using a(2) by simp
  moreover have "unat (vget vc k) + 2 * n < 2 ^ 64" for k using a(1) by (simp add: run_room_def)
  ultimately show ?thesis unfolding run_room_def by (meson order_le_less_trans)
qed

lemma run_room_cong: "(\<And>k. vget a k = vget b k) \<Longrightarrow> run_room a n \<Longrightarrow> run_room b n"
  by (simp add: run_room_def)

lemma run_room_inc: "run_room vc (Suc n) \<Longrightarrow> can_inc (vget vc k)"
proof -
  assume "run_room vc (Suc n)"
  then have "unat (vget vc k) + 2 * Suc n < 2 ^ 64" by (simp add: run_room_def)
  then show ?thesis by (intro can_inc_unat) simp
qed

lemma bss_run_cong:
  assumes "bss_run self a hs = Some a'" and "run_room a (length hs)" and "\<And>k. vget a k = vget b k"
  shows "\<exists>b'. bss_run self b hs = Some b' \<and> (\<forall>k. vget a' k = vget b' k)"
  using assms
proof (induction hs arbitrary: a b)
  case (Cons h hs)
  have h: "canDeliver (held_SentVC h) (msg_From (held_Msg h)) a" "bss_run self (hb_merge self h a) hs = Some a'"
    using Cons.prems(1) by (auto split: if_splits)
  have hb: "canDeliver (held_SentVC h) (msg_From (held_Msg h)) b"
    using h(1) Cons.prems(3) by (simp add: canDeliver_iff)
  have room: "run_room a (Suc (length hs))" using Cons.prems(2) by simp
  have inc: "can_inc (vget a k)" for k using run_room_inc [OF room] .
  have "vget (hb_merge self h a) k = vget (hb_merge self h b) k" for k
    using vget_hb_merge [OF h(1) inc] vget_hb_merge [OF hb] inc Cons.prems(3) by simp
  with Cons.IH [OF h(2) run_room_step(1) [OF room h(1)]] hb show ?case by simp
qed auto

lemma bss_run_sorted:
  assumes "bss_run self vc hs = Some vc'" and "run_room vc (length hs)"
  shows "sorted_wrt (\<lambda>h g. vget (held_SentVC h) (msg_From (held_Msg g)) < vget (held_SentVC g) (msg_From (held_Msg g))) hs"
  using assms
proof (induction hs arbitrary: vc)
  case (Cons h hs)
  then have room: "run_room vc (Suc (length hs))" by simp
  have h: "canDeliver (held_SentVC h) (msg_From (held_Msg h)) vc" "bss_run self (hb_merge self h vc) hs = Some vc'"
    using Cons.prems(1) by (auto split: if_splits)
  show ?case
    using Cons.IH [OF h(2) run_room_step(1) [OF room h(1)]] bss_run_order [OF Cons.prems(1) room] by simp
qed simp

lemma bss_run_le:
  assumes "bss_run self vc hs = Some vc'" and "run_room vc (length hs)"
  shows "vector_le vc vc' \<and> (\<forall>h \<in> set hs. vector_le (held_SentVC h) vc')"
  using assms
proof (induction hs arbitrary: vc)
  case Nil
  then show ?case by (simp add: vector_le_iff)
next
  case (Cons h hs)
  have h: "canDeliver (held_SentVC h) (msg_From (held_Msg h)) vc" "bss_run self (hb_merge self h vc) hs = Some vc'"
    using Cons.prems(1) by (auto split: if_splits)
  note step = run_room_step [OF Cons.prems(2) [simplified] h(1)]
  have IH: "vector_le (hb_merge self h vc) vc'" "\<forall>h \<in> set hs. vector_le (held_SentVC h) vc'"
    using Cons.IH [OF h(2) step(1)] by auto
  have "vget (held_SentVC h) k \<le> vget (hb_merge self h vc) k" for k
    using h(1) step(2) [where self = self and k = k] step(4) [where self = self]
    by (cases "k = msg_From (held_Msg h)") (auto simp: canDeliver_iff intro: order_trans)
  then have "vector_le (held_SentVC h) (hb_merge self h vc)" by (simp add: vector_le_iff)
  moreover have "vector_le vc (hb_merge self h vc)" using step(2) by (simp add: vector_le_iff)
  ultimately show ?case using IH vector_lc.le_trans by (metis set_ConsD)
qed

section \<open>Blockers\<close>

lemma dom_blockers_of: "dom (map_of (blockers_of vc h b)) = dom (map_of b)
    \<union> {k. k \<noteq> msg_From (held_Msg h) \<and> vget vc k < vget (held_SentVC h) k}
    \<union> (if vget (held_SentVC h) (msg_From (held_Msg h)) > vget vc (msg_From (held_Msg h)) + 1
        then {msg_From (held_Msg h)} else {})"
proof -
  let ?s = "msg_From (held_Msg h)"
  let ?f = "\<lambda>p c b. if p = ?s then b else if c > vget vc p then gm_set b p () else b"
  have loop: "map_of (gm_fold ?f (held_SentVC h) b') j = (case map_of (held_SentVC h) j of None \<Rightarrow> map_of b' j
      | Some c \<Rightarrow> if j \<noteq> ?s \<and> c > vget vc j then Some () else map_of b' j)" for b' j
    by (rule gm_fold_pointwise [where look = map_of and g = "\<lambda>j c w. if j \<noteq> ?s \<and> c > vget vc j then Some () else w"]) auto
  have "map_of (gm_fold ?f (held_SentVC h) b') j = (if j \<noteq> ?s \<and> vget (held_SentVC h) j > vget vc j then Some () else map_of b' j)" for b' j
    unfolding loop by (auto simp: gm_get_def [of _ "held_SentVC h"] split: option.splits)
  then show ?thesis by (auto simp: blockers_of_def Let_def split: if_splits)
qed

lemma mem_BlockedBy: "p \<in> set (hbq_BlockedBy vc q) \<longleftrightarrow> (\<exists>h \<in> set q.
    (p \<noteq> msg_From (held_Msg h) \<and> vget vc p < vget (held_SentVC h) p)
    \<or> (p = msg_From (held_Msg h) \<and> vget (held_SentVC h) p > vget vc p + 1))"
proof -
  have "dom (map_of (fold (blockers_of vc) q b)) = dom (map_of b) \<union> {p. \<exists>h \<in> set q.
      (p \<noteq> msg_From (held_Msg h) \<and> vget vc p < vget (held_SentVC h) p)
      \<or> (p = msg_From (held_Msg h) \<and> vget (held_SentVC h) p > vget vc p + 1)}" for b
    by (induction q arbitrary: b) (auto simp: dom_blockers_of)
  then show ?thesis by (simp add: hbq_BlockedBy_def)
qed

section \<open>Properties\<close>

text \<open>
  C13: \<^verbatim>\<open>TryDeliver\<close> returns (it terminates on every queue) with a sequence of deliveries, each
  allowed by the delivery condition in the clock reached so far; the final clock is the result
  of those deliveries; no message is lost or duplicated by the swap-with-last removal; and no
  message left in the queue could be delivered.
\<close>

theorem hbq_TryDeliver_exhaustive:
  "\<exists>hs vc' pending'. hbq_TryDeliver vc self [] pending = (map held_Msg hs, vc', pending')
     \<and> bss_run self vc hs = Some vc' \<and> mset pending = mset hs + mset pending'
     \<and> (\<forall>h \<in> set pending'. \<not> canDeliver (held_SentVC h) (msg_From (held_Msg h)) vc')"
  using TryDeliver_spec [where ds = "[]" and vc = vc and self = self and pending = pending] by (auto split: prod.splits)

definition hb_msg :: "string \<Rightarrow> pid \<Rightarrow> vclock \<Rightarrow> nat Message" where
  "hb_msg i p vc = \<lparr>msg_ID = i, msg_From = p, msg_To = ''P'', msg_Data = None, msg_SentVC = vc,
     msg_SentMatrix = [], msg_SentLC = 0, msg_SentAt = 0, msg_IsMarker = False, msg_SnapshotID = ''''\<rparr>"

definition hb_demo :: "nat HoldBackQueue" where
  "hb_demo = [\<lparr>held_Msg = hb_msg ''b'' ''R'' [(''Q'', 1), (''R'', 1)], held_SentVC = [(''Q'', 1), (''R'', 1)]\<rparr>,
              \<lparr>held_Msg = hb_msg ''a'' ''Q'' [(''Q'', 1)], held_SentVC = [(''Q'', 1)]\<rparr>]"

theorem hbq_TryDeliver_exhaustive_witness:
  "map msg_ID (fst (hbq_TryDeliver [] ''P'' [] hb_demo)) = [''a'', ''b'']
   \<and> (\<exists>hs vc' q. hbq_TryDeliver [] ''P'' [] hb_demo = (map held_Msg hs, vc', q) \<and> bss_run ''P'' [] hs = Some vc'
        \<and> (\<forall>h \<in> set q. \<not> canDeliver (held_SentVC h) (msg_From (held_Msg h)) vc'))"
proof
  show "map msg_ID (fst (hbq_TryDeliver [] ''P'' [] hb_demo)) = [''a'', ''b'']" by code_simp
  show "\<exists>hs vc' q. hbq_TryDeliver [] ''P'' [] hb_demo = (map held_Msg hs, vc', q) \<and> bss_run ''P'' [] hs = Some vc'
        \<and> (\<forall>h \<in> set q. \<not> canDeliver (held_SentVC h) (msg_From (held_Msg h)) vc')"
    using hbq_TryDeliver_exhaustive [of "[]" "''P''" hb_demo] by blast
qed

text \<open>
  C3: causal delivery. In any run of deliveries that respects the condition (those of
  \<^verbatim>\<open>TryDeliver\<close> are such runs) and does not overflow, a message delivered later was not known
  to the sender of a message delivered earlier: its own counter at its sender exceeds what the
  earlier message's clock says. So no message overtakes a message it causally depends on.
\<close>

theorem hbq_causal_order:
  assumes run: "bss_run self vc hs = Some vc'" and room: "run_room vc (length hs)" and "i < j" "j < length hs"
  shows "vget (held_SentVC (hs ! i)) (msg_From (held_Msg (hs ! j)))
       < vget (held_SentVC (hs ! j)) (msg_From (held_Msg (hs ! j)))"
  using bss_run_sorted [OF run room] assms(3,4) by (simp add: sorted_wrt_iff_nth_less)

theorem hbq_causal_order_witness:
  "bss_run ''P'' [] (rev hb_demo) \<noteq> None
   \<and> vget (held_SentVC (rev hb_demo ! 0)) ''R'' < vget (held_SentVC (rev hb_demo ! 1)) ''R''"
proof -
  have "bss_run ''P'' [] (rev hb_demo) \<noteq> None" by code_simp
  then obtain vc' where run: "bss_run ''P'' [] (rev hb_demo) = Some vc'" by blast
  have "run_room [] (length (rev hb_demo))" by (simp add: run_room_def hb_demo_def)
  from hbq_causal_order [OF run this, of 0 1] run show ?thesis by (simp add: hb_demo_def hb_msg_def)
qed

text \<open>
  \<^verbatim>\<open>BlockedBy\<close> names exactly the processes whose messages a held message waits for. If it
  names none and some message is still held undeliverable, then every held message is stale: its
  number is not above the number already received from its sender, so it can never be delivered.
\<close>

theorem hbq_BlockedBy_diagnosis:
  fixes q :: "'d HoldBackQueue"
  assumes "\<forall>h \<in> set q. can_inc (vget vc (msg_From (held_Msg h)))"
  shows "(p \<in> set (hbq_BlockedBy vc q) \<longleftrightarrow> (\<exists>h \<in> set q.
      (p \<noteq> msg_From (held_Msg h) \<and> vget vc p < vget (held_SentVC h) p)
      \<or> (p = msg_From (held_Msg h) \<and> vget (held_SentVC h) p > vget vc p + 1)))
   \<and> (hbq_BlockedBy vc q = [] \<and> (\<forall>h \<in> set q. \<not> canDeliver (held_SentVC h) (msg_From (held_Msg h)) vc) \<longrightarrow>
      (\<forall>h \<in> set q. vget (held_SentVC h) (msg_From (held_Msg h)) \<le> vget vc (msg_From (held_Msg h))))"
proof (intro conjI impI ballI)
  show "p \<in> set (hbq_BlockedBy vc q) \<longleftrightarrow> (\<exists>h \<in> set q.
      (p \<noteq> msg_From (held_Msg h) \<and> vget vc p < vget (held_SentVC h) p)
      \<or> (p = msg_From (held_Msg h) \<and> vget (held_SentVC h) p > vget vc p + 1))" by (rule mem_BlockedBy)
next
  fix h :: "'d HeldMessage"
  let ?s = "msg_From (held_Msg h)"
  assume none: "hbq_BlockedBy vc q = [] \<and> (\<forall>h \<in> set q. \<not> canDeliver (held_SentVC h) (msg_From (held_Msg h)) vc)"
    and h: "h \<in> set q"
  then have none': "\<And>k. k \<notin> set (hbq_BlockedBy vc q)" by simp
  have "vget (held_SentVC h) k \<le> vget vc k" if "k \<noteq> ?s" for k
    using none' [of k] h that unfolding mem_BlockedBy not_less [symmetric] by blast
  moreover have le: "vget (held_SentVC h) ?s \<le> vget vc ?s + 1"
    using none' [of ?s] h unfolding mem_BlockedBy not_less [symmetric] by blast
  ultimately have "vget (held_SentVC h) ?s \<noteq> vget vc ?s + 1" using none h by (auto simp: canDeliver_iff)
  with le have "unat (vget (held_SentVC h) ?s) < unat (vget vc ?s + 1)"
    by (metis order_less_le word_less_nat_alt)
  then show "vget (held_SentVC h) ?s \<le> vget vc ?s"
    using unat_inc [of "vget vc ?s"] assms h by (simp add: word_le_nat_alt)
qed

theorem hbq_BlockedBy_diagnosis_witness:
  "''Q'' \<in> set (hbq_BlockedBy [] hb_demo) \<and>
   (''Q'' \<in> set (hbq_BlockedBy [] [\<lparr>held_Msg = hb_msg ''c'' ''Q'' [(''Q'', 3)], held_SentVC = [(''Q'', 3)]\<rparr>]) \<longleftrightarrow> True)"
proof -
  have a: "\<forall>h \<in> set hb_demo. can_inc (vget [] (msg_From (held_Msg h)))" by (simp add: can_inc_def)
  have b: "\<forall>h \<in> set [\<lparr>held_Msg = hb_msg ''c'' ''Q'' [(''Q'', 3)], held_SentVC = [(''Q'', 3)]\<rparr>].
      can_inc (vget [] (msg_From (held_Msg h)))" by (simp add: can_inc_def)
  show ?thesis
    using hbq_BlockedBy_diagnosis [OF a, of "''Q''"] hbq_BlockedBy_diagnosis [OF b, of "''Q''"]
    by (simp add: hb_demo_def hb_msg_def gm_get_def)
qed

end
