(* ===== verification/Process_Model.thy ===== *)
theory Process_Model
  imports Lamport_Clock Hold_Back Event_Bus
begin

text \<open>
  \<^verbatim>\<open>internal/process/process.go\<close>: a simulated process with one of the three clocks, its
  inbound channel and its delivery modes. The process mutex makes each operation one step. The
  shared event bus is passed along and returned; the transport and the snapshot callback are
  parameters with a state of their own. \<open>now seq\<close> is the reading of \<^verbatim>\<open>time.Now()\<close> when the
  event with local number \<open>seq\<close> is created, \<open>sent\<close> the reading for a message.

  A nil clock is \<open>None\<close>. \<^verbatim>\<open>New\<close> creates the clock its configuration names, so the branches
  that would dereference a nil Lamport clock (a panic that \<^verbatim>\<open>handleMessage\<close> recovers from) are
  not reached (\<open>process_well_formed\<close>).
\<close>

section \<open>Data\<close>

type_synonym ClockType = string
type_synonym DeliveryMode = string
type_synonym ProcessStatus = string

definition ClockLamport :: ClockType where "ClockLamport = ''lamport''"
definition ClockVector :: ClockType where "ClockVector = ''vector''"
definition ClockMatrix :: ClockType where "ClockMatrix = ''matrix''"

definition ImmediateDelivery :: DeliveryMode where "ImmediateDelivery = ''immediate''"
definition CausalDelivery :: DeliveryMode where "CausalDelivery = ''causal''"
definition TotalOrderDelivery :: DeliveryMode where "TotalOrderDelivery = ''total_order''"

definition StatusRunning :: ProcessStatus where "StatusRunning = ''running''"
definition StatusSnapshotting :: ProcessStatus where "StatusSnapshotting = ''snapshotting''"
definition StatusDead :: ProcessStatus where "StatusDead = ''dead''"

record ProcessConfig =
  cfg_ID :: pid
  cfg_ClockType :: ClockType
  cfg_DeliveryMode :: DeliveryMode
  cfg_Peers :: "pid list"
  cfg_AllPIDs :: "pid list"

record ProcessState =
  ps_ID :: pid
  ps_ClockType :: ClockType
  ps_Delivery :: DeliveryMode
  ps_LamportClock :: u64
  ps_VectorClock :: vclock
  ps_MatrixClock :: mclock
  ps_Peers :: "pid list"
  ps_EventCount :: int
  ps_HeldMessages :: nat
  ps_Status :: ProcessStatus

definition GetVectorClock :: "ProcessState \<Rightarrow> vclock" where
  "GetVectorClock ps = ps_VectorClock ps"

definition inboundCap :: nat where
  "inboundCap = 256"

record 'd Process =
  p_cfg :: ProcessConfig
  p_lamportClock :: "lamport option"
  p_vectorClock :: "vclock option"
  p_matrixClock :: "mclock option"
  p_status :: ProcessStatus
  p_msgSeq :: u64
  p_localSeq :: u64
  p_inbound :: "'d Message list"
  p_hbq :: "'d HoldBackQueue"
  p_cancelled :: bool

text \<open>Reading a clock map that may be nil.\<close>

abbreviation p_vc :: "'d Process \<Rightarrow> vclock" where
  "p_vc p \<equiv> case_option [] (\<lambda>vc. vc) (p_vectorClock p)"

abbreviation p_mc :: "'d Process \<Rightarrow> mclock" where
  "p_mc p \<equiv> case_option [] (\<lambda>mc. mc) (p_matrixClock p)"

definition process_New :: "ProcessConfig \<Rightarrow> 'd Process" where
  "process_New cfg =
     (let p = \<lparr>p_cfg = cfg, p_lamportClock = None, p_vectorClock = None, p_matrixClock = None,
               p_status = StatusRunning, p_msgSeq = 0, p_localSeq = 0, p_inbound = [], p_hbq = [],
               p_cancelled = False\<rparr>
      in if cfg_ClockType cfg = ClockLamport then p\<lparr>p_lamportClock := Some (lamport_New (cfg_ID cfg))\<rparr>
         else if cfg_ClockType cfg = ClockVector then p\<lparr>p_vectorClock := Some (vector_New (cfg_AllPIDs cfg))\<rparr>
         else if cfg_ClockType cfg = ClockMatrix then p\<lparr>p_matrixClock := Some (matrix_New (cfg_AllPIDs cfg))\<rparr>
         else p)"

definition clampUint64ToInt :: "u64 \<Rightarrow> int" where
  "clampUint64ToInt v = (if int (unat v) > 2 ^ 63 - 1 then 2 ^ 63 - 1 else int (unat v))"

section \<open>Events\<close>

definition process_event :: "EventType \<Rightarrow> 'd MessagePayload option \<Rightarrow> (u64 \<Rightarrow> int) \<Rightarrow> u64 \<Rightarrow> 'd Process \<Rightarrow> 'd Event" where
  "process_event t msg now globalSeq p =
     (let seq = p_localSeq p + 1
      in \<lparr>ev_ID = cfg_ID (p_cfg p) @ ''-e'' @ dec (unat seq), ev_Type = t, ev_ProcessID = cfg_ID (p_cfg p),
          ev_Timestamp = now seq, ev_LocalSeq = seq, ev_GlobalSeq = globalSeq,
          ev_LamportClock = map_option lamport_Value (p_lamportClock p),
          ev_VectorClock = (case p_vectorClock p of None \<Rightarrow> [] | Some vc \<Rightarrow> vector_Copy vc),
          ev_MatrixClock = (case p_matrixClock p of None \<Rightarrow> [] | Some mc \<Rightarrow> matrix_DeepCopy mc),
          ev_Message = msg, ev_Snapshot = None, ev_Conflict = None, ev_Narration = ''''\<rparr>)"

definition emitEventLocked :: "EventType \<Rightarrow> 'd MessagePayload option \<Rightarrow> (u64 \<Rightarrow> int) \<Rightarrow>
    'd Process \<times> 'd EventBus \<Rightarrow> 'd Process \<times> 'd EventBus" where
  "emitEventLocked t msg now = (\<lambda>(p, bus).
     case events_NextSeq bus of (globalSeq, bus') \<Rightarrow>
       (p\<lparr>p_localSeq := p_localSeq p + 1\<rparr>, events_Publish (process_event t msg now globalSeq p) bus'))"

definition emitEvent :: "EventType \<Rightarrow> 'd MessagePayload option \<Rightarrow> (u64 \<Rightarrow> int) \<Rightarrow>
    'd Process \<times> 'd EventBus \<Rightarrow> 'd Process \<times> 'd EventBus" where
  "emitEvent = emitEventLocked"

section \<open>Clocks\<close>

definition tickClock :: "'d Process \<Rightarrow> 'd Process" where
  "tickClock p =
     (let ct = cfg_ClockType (p_cfg p); self = cfg_ID (p_cfg p)
      in if ct = ClockLamport then p\<lparr>p_lamportClock := map_option (\<lambda>c. fst (lamport_Tick c)) (p_lamportClock p)\<rparr>
         else if ct = ClockVector then p\<lparr>p_vectorClock := Some (vector_Tick (p_vc p) self)\<rparr>
         else if ct = ClockMatrix then p\<lparr>p_matrixClock := Some (matrix_Tick (p_mc p) self)\<rparr>
         else p)"

definition sendClock :: "'d Process \<Rightarrow> (u64 \<times> vclock \<times> mclock) \<times> 'd Process" where
  "sendClock p =
     (let ct = cfg_ClockType (p_cfg p); self = cfg_ID (p_cfg p)
      in if ct = ClockLamport then
           (case p_lamportClock p of
              None \<Rightarrow> ((0, [], []), p)
            | Some c \<Rightarrow> (case lamport_Send c of (c', lc) \<Rightarrow> ((lc, [], []), p\<lparr>p_lamportClock := Some c'\<rparr>)))
         else if ct = ClockVector then
           (case vector_Send (p_vc p) self of (vc, stamp) \<Rightarrow> ((0, stamp, []), p\<lparr>p_vectorClock := Some vc\<rparr>))
         else if ct = ClockMatrix then
           (case matrix_Send (p_mc p) self of (mc, stamp) \<Rightarrow> ((0, [], stamp), p\<lparr>p_matrixClock := Some mc\<rparr>))
         else ((0, [], []), p))"

definition receiveClock :: "'d Message \<Rightarrow> 'd Process \<Rightarrow> 'd Process" where
  "receiveClock msg p =
     (let ct = cfg_ClockType (p_cfg p); self = cfg_ID (p_cfg p)
      in if ct = ClockLamport then
           p\<lparr>p_lamportClock := map_option (\<lambda>c. fst (lamport_Receive c (msg_SentLC msg))) (p_lamportClock p)\<rparr>
         else if ct = ClockVector then p\<lparr>p_vectorClock := Some (vector_Receive (p_vc p) (msg_SentVC msg) self)\<rparr>
         else if ct = ClockMatrix then
           p\<lparr>p_matrixClock := Some (matrix_Receive (p_mc p) (msg_SentMatrix msg) self (msg_From msg))\<rparr>
         else p)"

section \<open>Operations\<close>

definition process_Start :: "(u64 \<Rightarrow> int) \<Rightarrow> 'd Process \<times> 'd EventBus \<Rightarrow> 'd Process \<times> 'd EventBus" where
  "process_Start now s = emitEvent EvtProcessSpawned None now s"

definition process_Stop :: "(u64 \<Rightarrow> int) \<Rightarrow> 'd Process \<times> 'd EventBus \<Rightarrow> 'd Process \<times> 'd EventBus" where
  "process_Stop now = (\<lambda>(p, bus).
     emitEvent EvtProcessKilled None now (p\<lparr>p_status := StatusDead, p_cancelled := True\<rparr>, bus))"

text \<open>
  The sender of a message waits while the inbound channel is full; when the process was
  cancelled \<^verbatim>\<open>select\<close> may also give the message up.
\<close>

inductive process_Deliver :: "'d Message \<Rightarrow> 'd Process \<Rightarrow> 'd Process \<Rightarrow> bool" where
  accept: "length (p_inbound p) < inboundCap \<Longrightarrow> process_Deliver m p (p\<lparr>p_inbound := p_inbound p @ [m]\<rparr>)"
| give_up: "p_cancelled p \<Longrightarrow> process_Deliver m p p"

definition process_InternalEvent :: "(u64 \<Rightarrow> int) \<Rightarrow> 'd Process \<times> 'd EventBus \<Rightarrow> 'd Process \<times> 'd EventBus" where
  "process_InternalEvent now = (\<lambda>(p, bus). emitEventLocked EvtInternalEvent None now (tickClock p, bus))"

text \<open>The part of \<^verbatim>\<open>Send\<close> under the mutex: the stamped message and the send event.\<close>

definition process_Stamp :: "(u64 \<Rightarrow> int) \<Rightarrow> int \<Rightarrow> pid \<Rightarrow> 'd option \<Rightarrow> 'd Process \<times> 'd EventBus \<Rightarrow>
    'd Message \<times> 'd Process \<times> 'd EventBus" where
  "process_Stamp now sent to data = (\<lambda>(p, bus).
     let p1 = p\<lparr>p_msgSeq := p_msgSeq p + 1\<rparr>;
         self = cfg_ID (p_cfg p);
         msgID = self @ ''-m'' @ dec (unat (p_msgSeq p1))
     in case sendClock p1 of ((lc, vc, mc), p2) \<Rightarrow>
       let msg = \<lparr>msg_ID = msgID, msg_From = self, msg_To = to, msg_Data = data, msg_SentVC = vc,
                  msg_SentMatrix = mc, msg_SentLC = lc, msg_SentAt = sent, msg_IsMarker = False,
                  msg_SnapshotID = ''''\<rparr>;
           payload = \<lparr>mp_ID = msgID, mp_From = self, mp_To = to, mp_Data = data, mp_SentVC = vc,
                      mp_SentLC = lc, mp_IsMarker = False, mp_SnapshotID = ''''\<rparr>
       in (msg, emitEventLocked EvtSend (Some payload) now (p2, bus)))"

definition process_Send :: "(pid \<Rightarrow> pid \<Rightarrow> 'd Message \<Rightarrow> 'x \<Rightarrow> ('e + unit) \<times> 'x) \<Rightarrow> (u64 \<Rightarrow> int) \<Rightarrow> int \<Rightarrow> pid \<Rightarrow> 'd option \<Rightarrow>
    'd Process \<times> 'd EventBus \<Rightarrow> 'x \<Rightarrow> ('e + unit) \<times> ('d Process \<times> 'd EventBus) \<times> 'x" where
  "process_Send xport now sent to data s x =
     (case process_Stamp now sent to data s of (msg, s') \<Rightarrow>
        case xport (cfg_ID (p_cfg (fst s))) to msg x of (r, x') \<Rightarrow> (r, s', x'))"

text \<open>The error of \<^verbatim>\<open>Broadcast\<close> wraps the transport's error with the peer it occurred for.\<close>

fun broadcast_loop :: "(pid \<Rightarrow> pid \<Rightarrow> 'd Message \<Rightarrow> 'x \<Rightarrow> ('e + unit) \<times> 'x) \<Rightarrow> (u64 \<Rightarrow> int) \<Rightarrow> int \<Rightarrow> 'd option \<Rightarrow> pid list \<Rightarrow>
    'd Process \<times> 'd EventBus \<Rightarrow> 'x \<Rightarrow> ((pid \<times> 'e) + unit) \<times> ('d Process \<times> 'd EventBus) \<times> 'x" where
  "broadcast_loop xport now sent data [] s x = (Inr (), s, x)"
| "broadcast_loop xport now sent data (peer # peers) s x =
     (case process_Send xport now sent peer data s x of
        (Inl err, s', x') \<Rightarrow> (Inl (peer, err), s', x')
      | (Inr u, s', x') \<Rightarrow> broadcast_loop xport now sent data peers s' x')"

definition process_Broadcast :: "(pid \<Rightarrow> pid \<Rightarrow> 'd Message \<Rightarrow> 'x \<Rightarrow> ('e + unit) \<times> 'x) \<Rightarrow> (u64 \<Rightarrow> int) \<Rightarrow> int \<Rightarrow> 'd option \<Rightarrow>
    'd Process \<times> 'd EventBus \<Rightarrow> 'x \<Rightarrow> ((pid \<times> 'e) + unit) \<times> ('d Process \<times> 'd EventBus) \<times> 'x" where
  "process_Broadcast xport now sent data s x =
     broadcast_loop xport now sent data (cfg_Peers (p_cfg (fst s))) s x"

definition snapshotLocked :: "'d Process \<Rightarrow> ProcessState" where
  "snapshotLocked p =
     \<lparr>ps_ID = cfg_ID (p_cfg p), ps_ClockType = cfg_ClockType (p_cfg p), ps_Delivery = cfg_DeliveryMode (p_cfg p),
      ps_LamportClock = (case p_lamportClock p of None \<Rightarrow> 0 | Some c \<Rightarrow> lamport_Value c),
      ps_VectorClock = (case p_vectorClock p of None \<Rightarrow> [] | Some vc \<Rightarrow> vector_Copy vc),
      ps_MatrixClock = (case p_matrixClock p of None \<Rightarrow> [] | Some mc \<Rightarrow> matrix_DeepCopy mc),
      ps_Peers = cfg_Peers (p_cfg p), ps_EventCount = clampUint64ToInt (p_localSeq p),
      ps_HeldMessages = hbq_Len (p_hbq p), ps_Status = p_status p\<rparr>"

definition process_Snapshot :: "'d Process \<Rightarrow> ProcessState" where
  "process_Snapshot p = snapshotLocked p"

definition process_ID :: "'d Process \<Rightarrow> pid" where
  "process_ID p = cfg_ID (p_cfg p)"

definition process_AddPeer :: "pid \<Rightarrow> 'd Process \<Rightarrow> 'd Process" where
  "process_AddPeer q p =
     (if q \<in> set (cfg_Peers (p_cfg p)) then p
      else p\<lparr>p_cfg := (p_cfg p)\<lparr>cfg_Peers := cfg_Peers (p_cfg p) @ [q]\<rparr>\<rparr>)"

definition SetDeliveryMode :: "DeliveryMode \<Rightarrow> 'd Process \<Rightarrow> 'd Process" where
  "SetDeliveryMode mode p = p\<lparr>p_cfg := (p_cfg p)\<lparr>cfg_DeliveryMode := mode\<rparr>\<rparr>"

section \<open>Delivery\<close>

definition receive_payload :: "'d Message \<Rightarrow> 'd MessagePayload" where
  "receive_payload msg = \<lparr>mp_ID = msg_ID msg, mp_From = msg_From msg, mp_To = msg_To msg, mp_Data = msg_Data msg,
     mp_SentVC = msg_SentVC msg, mp_SentLC = msg_SentLC msg, mp_IsMarker = False, mp_SnapshotID = ''''\<rparr>"

definition deliverImmediate :: "(u64 \<Rightarrow> int) \<Rightarrow> 'd Message \<Rightarrow> 'd Process \<times> 'd EventBus \<Rightarrow> 'd Process \<times> 'd EventBus" where
  "deliverImmediate now msg = (\<lambda>(p, bus).
     emitEventLocked EvtReceive (Some (receive_payload msg)) now (receiveClock msg p, bus))"

text \<open>\<^verbatim>\<open>deliverCausal\<close> decides on a copy of the clock and acts on the decision after it has released the lock
  and taken it again; \<open>deliverCausal_act\<close> is the second part.\<close>

definition deliverCausal_act :: "(u64 \<Rightarrow> int) \<Rightarrow> 'd Message \<Rightarrow> bool \<Rightarrow> 'd Process \<times> 'd EventBus \<Rightarrow> 'd Process \<times> 'd EventBus" where
  "deliverCausal_act now msg deliverable = (\<lambda>(p, bus).
     if deliverable then
       let p1 = p\<lparr>p_vectorClock := Some (vector_Receive (p_vc p) (msg_SentVC msg) (cfg_ID (p_cfg p)))\<rparr>;
           s = emitEventLocked EvtReceive (Some ((receive_payload msg)\<lparr>mp_SentLC := 0\<rparr>)) now (p1, bus)
       in case hbq_TryDeliver (vector_Copy (p_vc (fst s))) (cfg_ID (p_cfg p)) [] (p_hbq (fst s)) of
            (delivered, newVC, q) \<Rightarrow>
              fold (\<lambda>dm. emitEvent EvtDelivered (Some ((receive_payload dm)\<lparr>mp_SentVC := [], mp_SentLC := 0\<rparr>)) now)
                delivered ((fst s)\<lparr>p_vectorClock := Some newVC, p_hbq := q\<rparr>, snd s)
     else
       emitEvent EvtHeld (Some ((receive_payload msg)\<lparr>mp_Data := None, mp_SentLC := 0\<rparr>)) now
         (p\<lparr>p_hbq := hbq_Enqueue msg (msg_SentVC msg) (p_hbq p)\<rparr>, bus))"

definition deliverCausal :: "(u64 \<Rightarrow> int) \<Rightarrow> 'd Message \<Rightarrow> 'd Process \<times> 'd EventBus \<Rightarrow> 'd Process \<times> 'd EventBus" where
  "deliverCausal now msg = (\<lambda>(p, bus).
     let localVC = vector_Copy (p_vc p)
     in deliverCausal_act now msg (canDeliver (msg_SentVC msg) (msg_From msg) localVC) (p, bus))"

text \<open>
  \<open>onMarker\<close> is the callback, if one is set; it works on the bus and on a state \<open>'c\<close> of its owner.
\<close>

definition handleMessage :: "(pid \<Rightarrow> string \<Rightarrow> ProcessState \<Rightarrow> 'd EventBus \<times> 'c \<Rightarrow> 'd EventBus \<times> 'c) option \<Rightarrow> (u64 \<Rightarrow> int) \<Rightarrow> 'd Message \<Rightarrow>
    ('d Process \<times> 'd EventBus) \<times> 'c \<Rightarrow> ('d Process \<times> 'd EventBus) \<times> 'c" where
  "handleMessage onMarker now msg = (\<lambda>((p, bus), c).
     if msg_IsMarker msg then
       case (case onMarker of None \<Rightarrow> (bus, c)
             | Some f \<Rightarrow> f (msg_From msg) (msg_SnapshotID msg) (snapshotLocked p) (bus, c)) of (bus', c') \<Rightarrow>
       (emitEvent EvtMarkerReceived (Some \<lparr>mp_ID = msg_ID msg, mp_From = msg_From msg, mp_To = msg_To msg,
          mp_Data = None, mp_SentVC = [], mp_SentLC = 0, mp_IsMarker = True,
          mp_SnapshotID = msg_SnapshotID msg\<rparr>) now (p, bus'), c')
     else
       let mode = cfg_DeliveryMode (p_cfg p)
       in if mode = ImmediateDelivery then (deliverImmediate now msg (p, bus), c)
          else if mode = CausalDelivery then (deliverCausal now msg (p, bus), c)
          else if mode = TotalOrderDelivery then (deliverCausal now msg (p, bus), c)
          else (deliverImmediate now msg (p, bus), c))"

text \<open>
  One iteration of the process goroutine. Once the process is cancelled the loop may end
  instead of taking the next message; then no further step is taken.
\<close>

inductive process_run :: "(pid \<Rightarrow> string \<Rightarrow> ProcessState \<Rightarrow> 'd EventBus \<times> 'c \<Rightarrow> 'd EventBus \<times> 'c) option \<Rightarrow> (u64 \<Rightarrow> int) \<Rightarrow>
    ('d Process \<times> 'd EventBus) \<times> 'c \<Rightarrow> ('d Process \<times> 'd EventBus) \<times> 'c \<Rightarrow> bool" for onMarker now where
  run_take: "p_inbound p = m # ms \<Longrightarrow>
    process_run onMarker now ((p, bus), c) (handleMessage onMarker now m ((p\<lparr>p_inbound := ms\<rparr>, bus), c))"

section \<open>What the operations change\<close>

lemma fst_emit [simp]: "fst (emitEventLocked t m now s) = (fst s)\<lparr>p_localSeq := p_localSeq (fst s) + 1\<rparr>"
  by (simp add: emitEventLocked_def split: prod.splits)

lemma fst_emits:
  "fst (fold (\<lambda>x. emitEvent (t x) (m x) now) xs s) = (fst s)\<lparr>p_localSeq := p_localSeq (fst s) + of_nat (length xs)\<rparr>"
proof (induction xs arbitrary: s)
  case (Cons x xs)
  then show ?case by (simp add: emitEvent_def add_ac)
qed simp

definition held :: "'d Message \<Rightarrow> 'd HeldMessage" where
  "held m = \<lparr>held_Msg = m, held_SentVC = msg_SentVC m\<rparr>"

lemma held_simps [simp]: "held_Msg (held m) = m" "held_SentVC (held m) = msg_SentVC m"
  by (simp_all add: held_def)

text \<open>The messages that handling \<open>msg\<close> in causal mode hands to the application, in order.\<close>

definition causal_delivered :: "'d Message \<Rightarrow> bool \<Rightarrow> 'd Process \<Rightarrow> 'd Message list" where
  "causal_delivered msg deliverable p =
     (if deliverable
      then msg # fst (hbq_TryDeliver (vector_Copy (vector_Receive (p_vc p) (msg_SentVC msg) (cfg_ID (p_cfg p))))
                        (cfg_ID (p_cfg p)) [] (p_hbq p))
      else [])"

lemma canDeliver_Copy [simp]: "canDeliver m s (vector_Copy vc) = canDeliver m s vc"
  by (simp add: canDeliver_iff)

lemma deliverCausal_is_act:
  "deliverCausal now msg (p, bus) = deliverCausal_act now msg (canDeliver (msg_SentVC msg) (msg_From msg) (p_vc p)) (p, bus)"
  by (simp add: deliverCausal_def)

lemma act_held:
  "fst (deliverCausal_act now msg False (p, bus)) = p\<lparr>p_hbq := p_hbq p @ [held msg], p_localSeq := p_localSeq p + 1\<rparr>"
  by (simp add: deliverCausal_act_def emitEvent_def hbq_Enqueue_def held_def)

lemma act_delivered:
  assumes "hbq_TryDeliver (vector_Copy (vector_Receive (p_vc p) (msg_SentVC msg) (cfg_ID (p_cfg p)))) (cfg_ID (p_cfg p)) [] (p_hbq p)
      = (ds, vc', q)"
  shows "fst (deliverCausal_act now msg True (p, bus)) = p\<lparr>p_vectorClock := Some vc', p_hbq := q,
      p_localSeq := p_localSeq p + 1 + of_nat (length ds)\<rparr>"
  using assms by (simp add: deliverCausal_act_def Let_def fst_emits)

lemma deliverCausal_held:
  assumes "\<not> canDeliver (msg_SentVC msg) (msg_From msg) (p_vc p)"
  shows "fst (deliverCausal now msg (p, bus)) = p\<lparr>p_hbq := p_hbq p @ [held msg], p_localSeq := p_localSeq p + 1\<rparr>"
  using assms by (simp add: deliverCausal_is_act act_held)

lemma deliverCausal_delivered:
  assumes "canDeliver (msg_SentVC msg) (msg_From msg) (p_vc p)"
    and "hbq_TryDeliver (vector_Copy (vector_Receive (p_vc p) (msg_SentVC msg) (cfg_ID (p_cfg p)))) (cfg_ID (p_cfg p)) [] (p_hbq p)
      = (ds, vc', q)"
  shows "fst (deliverCausal now msg (p, bus)) = p\<lparr>p_vectorClock := Some vc', p_hbq := q,
      p_localSeq := p_localSeq p + 1 + of_nat (length ds)\<rparr>"
  using assms by (simp add: deliverCausal_is_act act_delivered)

lemma act_deliver_run:
  obtains hs vc' q where
    "bss_run (cfg_ID (p_cfg p)) (vector_Copy (vector_Receive (p_vc p) (msg_SentVC msg) (cfg_ID (p_cfg p)))) hs = Some vc'"
    "mset (p_hbq p) = mset hs + mset q" "causal_delivered msg True p = msg # map held_Msg hs"
    "\<And>now bus. fst (deliverCausal_act now msg True (p, bus)) = p\<lparr>p_vectorClock := Some vc', p_hbq := q,
       p_localSeq := p_localSeq p + 1 + of_nat (length hs)\<rparr>"
proof -
  let ?vc = "vector_Copy (vector_Receive (p_vc p) (msg_SentVC msg) (cfg_ID (p_cfg p)))"
  obtain ds vc' q where r: "hbq_TryDeliver ?vc (cfg_ID (p_cfg p)) [] (p_hbq p) = (ds, vc', q)"
    by (metis prod_cases3)
  with TryDeliver_spec [where vc = ?vc and self = "cfg_ID (p_cfg p)" and ds = "[]" and pending = "p_hbq p"]
  obtain hs where "ds = map held_Msg hs" "bss_run (cfg_ID (p_cfg p)) ?vc hs = Some vc'"
      "mset (p_hbq p) = mset hs + mset q"
    by auto
  with that [of hs vc' q] act_delivered [OF r] r show thesis by (simp add: causal_delivered_def)
qed

lemma deliverCausal_cases:
  obtains (hold) "\<not> canDeliver (msg_SentVC msg) (msg_From msg) (p_vc p)"
      "fst (deliverCausal now msg (p, bus)) = p\<lparr>p_hbq := p_hbq p @ [held msg], p_localSeq := p_localSeq p + 1\<rparr>"
  | (deliver) hs vc' q where "canDeliver (msg_SentVC msg) (msg_From msg) (p_vc p)"
      "bss_run (cfg_ID (p_cfg p)) (vector_Copy (vector_Receive (p_vc p) (msg_SentVC msg) (cfg_ID (p_cfg p)))) hs = Some vc'"
      "mset (p_hbq p) = mset hs + mset q"
      "fst (deliverCausal now msg (p, bus)) = p\<lparr>p_vectorClock := Some vc', p_hbq := q,
         p_localSeq := p_localSeq p + 1 + of_nat (length hs)\<rparr>"
proof (cases "canDeliver (msg_SentVC msg) (msg_From msg) (p_vc p)")
  case False
  then show ?thesis using hold deliverCausal_held [OF False] by simp
next
  case True
  show ?thesis
    by (rule act_deliver_run [of p msg]) (use True deliver in \<open>simp add: deliverCausal_is_act\<close>)
qed

lemma p_vc_set [simp]: "p_vc (p\<lparr>p_vectorClock := Some vc\<rparr>) = vc"
  by simp

section \<open>Causal delivery as a system\<close>

text \<open>
  A process in causal mode, with the log of the messages it delivered, the bag of the messages
  it was handed, and the message it has decided about but not yet acted on. Between the decision and
  the act other goroutines may cause internal events and sends. The side conditions say that no counter
  wraps and that a message comes from another process.
\<close>

record 'd causal_sys =
  cs_proc :: "'d Process \<times> 'd EventBus"
  cs_log :: "'d Message list"
  cs_handed :: "'d Message multiset"
  cs_pending :: "('d Message \<times> bool) option"

definition cs_vc :: "'d causal_sys \<Rightarrow> vclock" where
  "cs_vc s = p_vc (fst (cs_proc s))"

definition cs_waiting :: "'d causal_sys \<Rightarrow> 'd Message multiset" where
  "cs_waiting s = image_mset held_Msg (mset (p_hbq (fst (cs_proc s)))) + (case cs_pending s of None \<Rightarrow> {#} | Some (m, ok) \<Rightarrow> {#m#})"

inductive causal_step :: "'d causal_sys \<Rightarrow> 'd causal_sys \<Rightarrow> bool" where
  internal: "run_room (cs_vc s) 1 \<Longrightarrow> causal_step s (s\<lparr>cs_proc := process_InternalEvent now (cs_proc s)\<rparr>)"
| send: "run_room (cs_vc s) 1 \<Longrightarrow> causal_step s (s\<lparr>cs_proc := snd (process_Stamp now sent to data (cs_proc s))\<rparr>)"
| decide: "cs_pending s = None \<Longrightarrow> msg_From m \<noteq> cfg_ID (p_cfg (fst (cs_proc s))) \<Longrightarrow>
    causal_step s (s\<lparr>cs_pending := Some (m, canDeliver (msg_SentVC m) (msg_From m) (vector_Copy (cs_vc s))),
      cs_handed := add_mset m (cs_handed s)\<rparr>)"
| act: "cs_pending s = Some (m, ok) \<Longrightarrow> run_room (cs_vc s) (Suc (length (p_hbq (fst (cs_proc s))))) \<Longrightarrow>
    causal_step s (s\<lparr>cs_proc := deliverCausal_act now m ok (cs_proc s),
      cs_log := cs_log s @ causal_delivered m ok (fst (cs_proc s)), cs_pending := None\<rparr>)"

definition causal_init :: "'d causal_sys \<Rightarrow> bool" where
  "causal_init s \<longleftrightarrow> cs_log s = [] \<and> cs_handed s = {#} \<and> cs_pending s = None \<and>
     (\<exists>cfg bus. cfg_ClockType cfg = ClockVector \<and> cs_proc s = (process_New cfg, bus))"

text \<open>The later message was unknown to the sender of the earlier one.\<close>

definition not_overtaken :: "'d Message \<Rightarrow> 'd Message \<Rightarrow> bool" where
  "not_overtaken a b \<longleftrightarrow> vget (msg_SentVC a) (msg_From b) < vget (msg_SentVC b) (msg_From b)"

definition pending_ok :: "pid \<Rightarrow> vclock \<Rightarrow> ('d Message \<times> bool) option \<Rightarrow> bool" where
  "pending_ok self vc x \<longleftrightarrow> (case x of None \<Rightarrow> True
     | Some (m, ok) \<Rightarrow> msg_From m \<noteq> self \<and> (ok \<longrightarrow> canDeliver (msg_SentVC m) (msg_From m) vc))"

definition causal_inv :: "'d causal_sys \<Rightarrow> bool" where
  "causal_inv s \<longleftrightarrow>
     (let p = fst (cs_proc s)
      in (\<forall>h \<in> set (p_hbq p). h = held (held_Msg h))
         \<and> sorted_wrt not_overtaken (cs_log s)
         \<and> (\<forall>m \<in> set (cs_log s). vector_le (msg_SentVC m) (p_vc p))
         \<and> cs_handed s = mset (cs_log s) + cs_waiting s
         \<and> pending_ok (cfg_ID (p_cfg p)) (p_vc p) (cs_pending s)
         \<and> cfg_ClockType (p_cfg p) = ClockVector)"

lemma tick_clock_le: "run_room vc 1 \<Longrightarrow> vector_le vc (vector_Tick vc p)"
  using run_room_inc [of vc 0 p] by (simp add: vector_le_iff)

text \<open>A decision to deliver stays right while the clock of the process ticks.\<close>

lemma pending_ok_tick:
  assumes "pending_ok self vc x" "run_room vc 1"
  shows "pending_ok self (vector_Tick vc self) x"
proof -
  have "vget vc k \<le> vget (vector_Tick vc self) k" for k
    using tick_clock_le [OF assms(2), of self] by (simp only: vector_le_iff)
  note up = this
  have "canDeliver m s (vector_Tick vc self)" if can: "canDeliver m s vc" and "s \<noteq> self" for m s
    unfolding canDeliver_iff
  proof (intro conjI allI impI)
    show "vget m s = vget (vector_Tick vc self) s + 1" using that by (simp add: canDeliver_iff)
    show "vget m k \<le> vget (vector_Tick vc self) k" if "k \<noteq> s" for k
      using can that up [of k] order_trans unfolding canDeliver_iff by blast
  qed
  then show ?thesis using assms(1) by (auto simp: pending_ok_def split: option.splits)
qed

lemma InternalEvent_vector:
  "cfg_ClockType (p_cfg (fst s)) = ClockVector \<Longrightarrow> fst (process_InternalEvent now s) =
     (fst s)\<lparr>p_vectorClock := Some (vector_Tick (p_vc (fst s)) (cfg_ID (p_cfg (fst s)))), p_localSeq := p_localSeq (fst s) + 1\<rparr>"
  by (cases s) (simp add: process_InternalEvent_def tickClock_def Let_def ClockVector_def ClockLamport_def)

lemma Stamp_vector:
  assumes "cfg_ClockType (p_cfg (fst s)) = ClockVector"
  shows "fst (snd (process_Stamp now sent to data s)) =
     (fst s)\<lparr>p_msgSeq := p_msgSeq (fst s) + 1, p_vectorClock := Some (vector_Tick (p_vc (fst s)) (cfg_ID (p_cfg (fst s)))),
       p_localSeq := p_localSeq (fst s) + 1\<rparr>"
    and "vget (msg_SentVC (fst (process_Stamp now sent to data s))) k = vget (vector_Tick (p_vc (fst s)) (cfg_ID (p_cfg (fst s)))) k"
    and "msg_From (fst (process_Stamp now sent to data s)) = cfg_ID (p_cfg (fst s))"
    and "msg_To (fst (process_Stamp now sent to data s)) = to"
    and "\<not> msg_IsMarker (fst (process_Stamp now sent to data s))"
  using assms
  by (cases s; simp add: process_Stamp_def sendClock_def Let_def ClockVector_def ClockLamport_def vector_Send_def)+

lemma causal_inv_tick:
  assumes inv: "causal_inv s" and room: "run_room (cs_vc s) 1"
    and p: "p_vectorClock (fst ps) = Some (vector_Tick (cs_vc s) (cfg_ID (p_cfg (fst (cs_proc s)))))"
      "p_hbq (fst ps) = p_hbq (fst (cs_proc s))" "p_cfg (fst ps) = p_cfg (fst (cs_proc s))"
  shows "causal_inv (s\<lparr>cs_proc := ps\<rparr>)"
proof -
  have "vector_le (msg_SentVC m) (vector_Tick (cs_vc s) q)" if "m \<in> set (cs_log s)" for m q
    using inv that tick_clock_le [OF room] vector_lc.le_trans
    by (fastforce simp: causal_inv_def Let_def cs_vc_def)
  moreover have "pending_ok (cfg_ID (p_cfg (fst ps))) (p_vc (fst ps)) (cs_pending s)"
    using inv p pending_ok_tick [OF _ room, of _ "cs_pending s"] by (simp add: causal_inv_def Let_def cs_vc_def)
  ultimately show ?thesis using inv p by (simp add: causal_inv_def Let_def cs_waiting_def)
qed

text \<open>A message delivered at once and those it released are one run of deliveries.\<close>

lemma deliver_is_run:
  fixes m :: "'d Message"
  assumes "canDeliver (msg_SentVC m) (msg_From m) vc"
    and run: "bss_run self (vector_Copy (vector_Receive vc (msg_SentVC m) self)) hs = Some vc'"
    and room: "run_room vc (length (held m # hs))"
  shows "\<exists>w. bss_run self vc (held m # hs) = Some w \<and> (\<forall>k. vget w k = vget vc' k)"
proof -
  have ok: "canDeliver (held_SentVC (held m)) (msg_From (held_Msg (held m))) vc" using assms(1) by simp
  have room': "run_room vc (Suc (length hs))" using room by simp
  have eq: "vget (hb_merge self (held m) vc) k = vget (vector_Copy (vector_Receive vc (msg_SentVC m) self)) k" for k
    using hb_merge_is_Receive [OF ok run_room_inc [OF room']] by simp
  have "run_room (vector_Copy (vector_Receive vc (msg_SentVC m) self)) (length hs)"
    using run_room_step(1) [OF room' ok] by (rule run_room_cong [rotated]) (rule eq)
  from bss_run_cong [OF run this eq [symmetric]] ok show ?thesis by auto
qed

text \<open>A run of deliveries extends a log in causal order.\<close>

lemma log_extends:
  fixes hs :: "'d HeldMessage list"
  assumes run: "bss_run self vc hs = Some w" and room: "run_room vc (length hs)"
    and log: "sorted_wrt not_overtaken log" "\<forall>x \<in> set log. vector_le (msg_SentVC x) vc"
    and sent: "\<And>h. h \<in> set hs \<Longrightarrow> held_SentVC h = msg_SentVC (held_Msg h)" and w: "\<And>k. vget w k = vget vc' k"
  shows "sorted_wrt not_overtaken (log @ map held_Msg hs) \<and> (\<forall>x \<in> set (log @ map held_Msg hs). vector_le (msg_SentVC x) vc')"
proof -
  have "sorted_wrt not_overtaken (map held_Msg hs)"
    unfolding sorted_wrt_map
    by (rule sorted_wrt_mono_rel [OF _ bss_run_sorted [OF run room]]) (simp add: not_overtaken_def sent)
  moreover have "not_overtaken x (held_Msg h)" if "x \<in> set log" "h \<in> set hs" for x h
    using bss_run_later [OF run room that(2)] log(2) that sent
    by (auto simp: not_overtaken_def vector_le_iff intro: order_le_less_trans)
  moreover have "\<forall>h \<in> set hs. vector_le (msg_SentVC (held_Msg h)) vc'" "vector_le vc vc'"
    using bss_run_le [OF run room] sent w by (auto simp: vector_le_iff)
  moreover have "vector_le (msg_SentVC x) vc'" if "x \<in> set log" for x
    using log(2) that calculation(4) vector_lc.le_trans by blast
  ultimately show ?thesis
    using log(1) unfolding sorted_wrt_append set_map set_append by blast
qed

lemma causal_inv_act:
  assumes inv: "causal_inv s" and pend: "cs_pending s = Some (m, ok)"
    and room: "run_room (cs_vc s) (Suc (length (p_hbq (fst (cs_proc s)))))"
  shows "causal_inv (s\<lparr>cs_proc := deliverCausal_act now m ok (cs_proc s),
      cs_log := cs_log s @ causal_delivered m ok (fst (cs_proc s)), cs_pending := None\<rparr>)"
proof -
  obtain p bus where ps: "cs_proc s = (p, bus)" by (cases "cs_proc s")
  have hq: "\<And>h. h \<in> set (p_hbq p) \<Longrightarrow> h = held (held_Msg h)"
    and log: "sorted_wrt not_overtaken (cs_log s)" "\<forall>x \<in> set (cs_log s). vector_le (msg_SentVC x) (p_vc p)"
    and bag: "cs_handed s = add_mset m (mset (cs_log s) + image_mset held_Msg (mset (p_hbq p)))"
    and can: "ok \<Longrightarrow> canDeliver (msg_SentVC m) (msg_From m) (p_vc p)"
    and ct: "cfg_ClockType (p_cfg p) = ClockVector"
    using inv pend unfolding causal_inv_def Let_def ps fst_conv cs_waiting_def pending_ok_def by auto
  show ?thesis
  proof (cases ok)
    case False
    with log bag ct hq show ?thesis
      by (auto simp: causal_inv_def Let_def ps act_held causal_delivered_def cs_waiting_def pending_ok_def)
  next
    case True
    obtain hs vc' q where run0: "bss_run (cfg_ID (p_cfg p)) (vector_Copy (vector_Receive (p_vc p) (msg_SentVC m) (cfg_ID (p_cfg p)))) hs = Some vc'"
      and split: "mset (p_hbq p) = mset hs + mset q" and dl: "causal_delivered m True p = m # map held_Msg hs"
      and new: "\<And>now bus. fst (deliverCausal_act now m True (p, bus)) = p\<lparr>p_vectorClock := Some vc', p_hbq := q,
         p_localSeq := p_localSeq p + 1 + of_nat (length hs)\<rparr>"
      by (rule act_deliver_run [of p m]) (rule that; assumption)
    let ?hs = "held m # hs"
    have "length hs \<le> length (p_hbq p)" using arg_cong [OF split, of size] by simp
    then have rm: "run_room (p_vc p) (length ?hs)"
      using room run_room_mono by (auto simp: cs_vc_def ps)
    obtain w where run: "bss_run (cfg_ID (p_cfg p)) (p_vc p) ?hs = Some w" and w: "\<And>k. vget w k = vget vc' k"
      using deliver_is_run [OF can [OF True] run0 rm] by blast
    have sub: "set hs \<subseteq> set (p_hbq p)" "set q \<subseteq> set (p_hbq p)"
      using arg_cong [OF split, of set_mset] by auto
    have sent: "held_SentVC h = msg_SentVC (held_Msg h)" if "h \<in> set ?hs" for h
    proof (cases "h = held m")
      case False
      then have "h = held (held_Msg h)" using that sub hq by auto
      then show ?thesis using held_simps(2) [of "held_Msg h"] by simp
    qed simp
    have ext: "sorted_wrt not_overtaken (cs_log s @ map held_Msg ?hs)" "\<forall>x \<in> set (cs_log s @ map held_Msg ?hs). vector_le (msg_SentVC x) vc'"
      using log_extends [OF run rm log sent w] by blast+
    moreover have "cs_handed s = mset (cs_log s @ map held_Msg ?hs) + image_mset held_Msg (mset q)"
      using bag split by simp
    moreover have "\<forall>h \<in> set q. h = held (held_Msg h)" using hq sub by blast
    ultimately show ?thesis
      using ct dl new True
      by (simp add: causal_inv_def Let_def ps cs_waiting_def pending_ok_def del: sorted_wrt.simps)
  qed
qed

interpretation causal: transition_system causal_init causal_step causal_inv
proof unfold_locales
  show "causal_init s \<Longrightarrow> causal_inv s" for s :: "'a causal_sys"
    by (auto simp: causal_init_def causal_inv_def process_New_def Let_def ClockVector_def ClockLamport_def
        cs_waiting_def pending_ok_def)
  show "causal_step s t \<Longrightarrow> causal_inv s \<Longrightarrow> causal_inv t" for s t :: "'a causal_sys"
  proof (induction rule: causal_step.induct)
    case (internal s now)
    then have "cfg_ClockType (p_cfg (fst (cs_proc s))) = ClockVector" by (simp add: causal_inv_def Let_def)
    then show ?case using internal by (intro causal_inv_tick) (simp_all add: InternalEvent_vector cs_vc_def)
  next
    case (send s now sent to data)
    then have "cfg_ClockType (p_cfg (fst (cs_proc s))) = ClockVector" by (simp add: causal_inv_def Let_def)
    then show ?case using send by (intro causal_inv_tick) (simp_all add: Stamp_vector cs_vc_def)
  next
    case (decide s m)
    then show ?case by (simp add: causal_inv_def Let_def cs_waiting_def pending_ok_def cs_vc_def)
  next
    case (act s m ok now)
    then show ?case by (intro causal_inv_act)
  qed
qed

section \<open>Blocked senders\<close>

lemma hb_merge_other:
  assumes "canDeliver (held_SentVC h) (msg_From (held_Msg h)) vc" "k \<noteq> msg_From (held_Msg h)" "k \<noteq> self"
  shows "vget (hb_merge self h vc) k = vget vc k"
proof -
  let ?s = "msg_From (held_Msg h)"
  let ?f = "\<lambda>k v vc. if k = ?s then gm_set vc k v else if v > vget vc k then gm_set vc k v else vc"
  have "vget (gm_fold ?f (held_SentVC h) vc') k = (case map_of (held_SentVC h) k of None \<Rightarrow> vget vc' k
      | Some v \<Rightarrow> if k = ?s then v else max (vget vc' k) v)" for vc'
    by (rule gm_fold_pointwise [where g = "\<lambda>j v w. if j = ?s then v else max w v"]) (auto simp: max_def)
  moreover have "max (vget vc k) v = vget vc k" if "map_of (held_SentVC h) k = Some v" for v
    using assms(1,2) that gm_get_Some [OF that, of 0] by (auto simp: canDeliver_iff max_def)
  ultimately show ?thesis using assms(2,3) by (simp add: hb_merge_def Let_def split: option.splits)
qed

lemma bss_run_gap:
  assumes "bss_run self vc hs = Some vc'" and "q \<noteq> self" and "\<And>h. h \<in> set hs \<Longrightarrow> msg_From (held_Msg h) = q \<Longrightarrow>
    vget (held_SentVC h) q \<noteq> vget vc q + 1"
  shows "vget vc' q = vget vc q \<and> (\<forall>h \<in> set hs. msg_From (held_Msg h) \<noteq> q)"
  using assms
proof (induction hs arbitrary: vc)
  case (Cons h hs)
  have h: "canDeliver (held_SentVC h) (msg_From (held_Msg h)) vc" "bss_run self (hb_merge self h vc) hs = Some vc'"
    using Cons.prems(1) by (auto split: if_splits)
  then have "msg_From (held_Msg h) \<noteq> q" using Cons.prems(3) [of h] by (auto simp: canDeliver_iff)
  moreover from this have "vget (hb_merge self h vc) q = vget vc q"
    using hb_merge_other [OF h(1), of q self] Cons.prems(2) by auto
  ultimately show ?case using Cons.IH [OF h(2)] Cons.prems by auto
qed simp

text \<open>The messages handled in causal mode, one after another.\<close>

definition handle_all :: "(u64 \<Rightarrow> int) \<Rightarrow> 'd Message list \<Rightarrow> 'd Process \<times> 'd EventBus \<Rightarrow> 'd Process \<times> 'd EventBus" where
  "handle_all now ms s = fold (deliverCausal now) ms s"

definition gap_inv :: "pid \<Rightarrow> u64 \<Rightarrow> 'd Process \<Rightarrow> bool" where
  "gap_inv q n p \<longleftrightarrow> vget (p_vc p) q = n \<and> cfg_ID (p_cfg p) \<noteq> q
     \<and> (\<forall>h \<in> set (p_hbq p). h = held (held_Msg h))
     \<and> (\<forall>h \<in> set (p_hbq p). msg_From (held_Msg h) = q \<longrightarrow> vget (held_SentVC h) q \<noteq> n + 1)"

lemma gap_step:
  assumes inv: "gap_inv q n p" and m: "msg_From m = q \<Longrightarrow> vget (msg_SentVC m) q \<noteq> n + 1"
  shows "gap_inv q n (fst (deliverCausal now m (p, bus)))
    \<and> filter_mset (\<lambda>x. msg_From x = q) (image_mset held_Msg (mset (p_hbq (fst (deliverCausal now m (p, bus))))))
      = filter_mset (\<lambda>x. msg_From x = q) (image_mset held_Msg (mset (p_hbq p)) + {#m#})"
proof -
  show ?thesis
  proof (rule deliverCausal_cases [where p = p and msg = m and now = now and bus = bus], goal_cases)
    case 1
    then show ?case using inv m by (auto simp: gap_inv_def)
  next
    case (2 hs vc' r)
    let ?rc = "vector_Copy (vector_Receive (p_vc p) (msg_SentVC m) (cfg_ID (p_cfg p)))"
    have other: "msg_From m \<noteq> q" using 2(1) m inv by (auto simp: canDeliver_iff gap_inv_def)
    then have "vget (msg_SentVC m) q \<le> n" using 2(1) inv by (auto simp: canDeliver_iff gap_inv_def)
    then have rc: "vget ?rc q = n" using inv by (auto simp add: vget_Receive gap_inv_def max_absorb1)
    have sub: "set hs \<subseteq> set (p_hbq p)" "set r \<subseteq> set (p_hbq p)"
      using arg_cong [OF 2(3), of set_mset] by auto
    have "vget (held_SentVC h) q \<noteq> vget ?rc q + 1" if "h \<in> set hs" "msg_From (held_Msg h) = q" for h
      using inv [unfolded gap_inv_def, THEN conjunct2, THEN conjunct2, THEN conjunct2] sub(1) that
      unfolding rc by blast
    moreover have "q \<noteq> cfg_ID (p_cfg p)" using inv by (auto simp: gap_inv_def)
    ultimately have run: "vget vc' q = n" "\<forall>h \<in> set hs. msg_From (held_Msg h) \<noteq> q"
      using bss_run_gap [OF 2(2), of q] rc by auto
    have "gap_inv q n (fst (deliverCausal now m (p, bus)))"
      using inv run(1) sub 2(4) by (auto simp: gap_inv_def)
    moreover have "filter_mset (\<lambda>x. msg_From x = q) (image_mset held_Msg (mset hs)) = {#}"
      using run(2) by (auto simp: filter_mset_eq_conv)
    ultimately show ?thesis using 2(3,4) other by simp
  qed
qed

lemma gap_all:
  assumes "gap_inv q n (fst s)" and "\<And>m. m \<in> set ms \<Longrightarrow> msg_From m = q \<Longrightarrow> vget (msg_SentVC m) q \<noteq> n + 1"
  shows "gap_inv q n (fst (handle_all now ms s))
    \<and> filter_mset (\<lambda>x. msg_From x = q) (image_mset held_Msg (mset (p_hbq (fst (handle_all now ms s)))))
      = filter_mset (\<lambda>x. msg_From x = q) (image_mset held_Msg (mset (p_hbq (fst s))) + mset ms)"
  using assms
proof (induction ms arbitrary: s)
  case Nil
  then show ?case by (simp add: handle_all_def)
next
  case (Cons m ms)
  let ?t = "deliverCausal now m s"
  have st: "gap_inv q n (fst ?t)" "filter_mset (\<lambda>x. msg_From x = q) (image_mset held_Msg (mset (p_hbq (fst ?t))))
      = filter_mset (\<lambda>x. msg_From x = q) (image_mset held_Msg (mset (p_hbq (fst s))) + {#m#})"
    using gap_step [of q n "fst s" m now "snd s"] Cons.prems by auto
  show ?case using Cons.IH [OF st(1)] Cons.prems(2) st(2) by (auto simp: handle_all_def)
qed

section \<open>Every operation keeps the process well formed\<close>

text \<open>
  All a process can undergo, with the bus changing under the hands of other processes. What a
  callback does to its owner's state does not matter here, so that state is the unit.
\<close>

inductive proc_step :: "'d Process \<times> 'd EventBus \<Rightarrow> 'd Process \<times> 'd EventBus \<Rightarrow> bool" where
  start: "proc_step s (process_Start now s)"
| stop: "proc_step s (process_Stop now s)"
| deliver: "process_Deliver m p p' \<Longrightarrow> proc_step (p, bus) (p', bus)"
| internal: "proc_step s (process_InternalEvent now s)"
| send: "proc_step s (snd (process_Stamp now sent to data s))"
| handle: "process_run (onMarker :: (pid \<Rightarrow> string \<Rightarrow> ProcessState \<Rightarrow> 'd EventBus \<times> unit \<Rightarrow> 'd EventBus \<times> unit) option) now (s, c) (s', c') \<Longrightarrow> proc_step s s'"
| peer: "proc_step (p, bus) (process_AddPeer q p, bus)"
| mode: "proc_step (p, bus) (SetDeliveryMode m p, bus)"
| bus: "proc_step (p, bus) (p, bus')"

definition clock_kind :: "'d Process \<Rightarrow> bool" where
  "clock_kind p \<longleftrightarrow> (cfg_ClockType (p_cfg p) = ClockLamport \<longrightarrow> p_lamportClock p \<noteq> None)
     \<and> (cfg_ClockType (p_cfg p) = ClockVector \<longrightarrow> p_vectorClock p \<noteq> None)
     \<and> (cfg_ClockType (p_cfg p) = ClockMatrix \<longrightarrow> p_matrixClock p \<noteq> None)"

definition proc_wf :: "ProcessConfig \<Rightarrow> 'd Process \<times> 'd EventBus \<Rightarrow> bool" where
  "proc_wf cfg s \<longleftrightarrow> clock_kind (fst s) \<and> length (p_inbound (fst s)) \<le> inboundCap
     \<and> distinct (cfg_Peers (p_cfg (fst s)))
     \<and> cfg_ID (p_cfg (fst s)) = cfg_ID cfg \<and> cfg_ClockType (p_cfg (fst s)) = cfg_ClockType cfg"

lemmas clock_names = ClockLamport_def ClockVector_def ClockMatrix_def

lemma clock_kind_emit [simp]: "clock_kind (p\<lparr>p_localSeq := n\<rparr>) = clock_kind p"
  by (simp add: clock_kind_def)

lemma New_simps [simp]: "p_cfg (process_New cfg) = cfg" "p_inbound (process_New cfg) = []" "p_hbq (process_New cfg) = []"
  by (simp_all add: process_New_def Let_def)

lemma clock_kind_New: "clock_kind (process_New cfg)"
  unfolding clock_kind_def New_simps by (simp add: process_New_def Let_def clock_names)

lemma clock_kind_ops:
  "clock_kind p \<Longrightarrow> clock_kind (tickClock p)" "clock_kind p \<Longrightarrow> clock_kind (receiveClock m p)"
  "clock_kind p \<Longrightarrow> clock_kind (snd (sendClock p))"
  by (auto simp: clock_kind_def tickClock_def receiveClock_def sendClock_def Let_def clock_names
      split: prod.splits option.splits)

lemma clock_ops_other [simp]:
  "p_cfg (tickClock p) = p_cfg p" "p_inbound (tickClock p) = p_inbound p"
  "p_cfg (receiveClock m p) = p_cfg p" "p_inbound (receiveClock m p) = p_inbound p"
  "p_cfg (snd (sendClock p)) = p_cfg p" "p_inbound (snd (sendClock p)) = p_inbound p"
  by (auto simp: tickClock_def receiveClock_def sendClock_def Let_def split: prod.splits option.splits)

lemma fst_Stamp: "\<exists>n. fst (snd (process_Stamp now sent to data s)) =
    (snd (sendClock ((fst s)\<lparr>p_msgSeq := p_msgSeq (fst s) + 1\<rparr>)))\<lparr>p_localSeq := n\<rparr>"
  by (cases s) (auto simp: process_Stamp_def Let_def split: prod.splits)

lemma deliverCausal_shape: "\<exists>vc q n. fst (deliverCausal now m s) = (fst s)\<lparr>p_vectorClock := vc, p_hbq := q, p_localSeq := n\<rparr>
    \<and> (p_vectorClock (fst s) \<noteq> None \<longrightarrow> vc \<noteq> None)"
proof (cases s)
  case (Pair p bus)
  obtain ds vc' q where r: "hbq_TryDeliver (vector_Copy (vector_Receive (p_vc p) (msg_SentVC m) (cfg_ID (p_cfg p)))) (cfg_ID (p_cfg p)) [] (p_hbq p)
      = (ds, vc', q)" by (metis prod_cases3)
  show ?thesis
  proof (cases "canDeliver (msg_SentVC m) (msg_From m) (p_vc p)")
    case True
    show ?thesis using deliverCausal_delivered [OF True r, of now bus] Pair
      by (intro exI [of _ "Some vc'"] exI [of _ q] exI) simp
  next
    case False
    show ?thesis using deliverCausal_held [OF False, of now bus] Pair
      by (intro exI [of _ "p_vectorClock p"] exI [of _ "p_hbq p @ [held m]"] exI) simp
  qed
qed

lemma proc_wf_handle:
  assumes "proc_wf cfg s"
  shows "proc_wf cfg (fst (handleMessage onMarker now m (s, c)))"
proof -
  obtain p bus where s: "s = (p, bus)" by (cases s)
  have "proc_wf cfg (deliverCausal now m s)"
    using deliverCausal_shape [of now m s] assms by (auto simp: proc_wf_def clock_kind_def)
  moreover have "proc_wf cfg (deliverImmediate now m s)"
    using assms clock_kind_ops(2) [of p m] by (simp add: proc_wf_def deliverImmediate_def s)
  moreover have "proc_wf cfg (emitEvent t x now (p, bus'))" for t x bus'
    using assms s by (simp add: proc_wf_def emitEvent_def)
  ultimately show ?thesis by (simp add: handleMessage_def s Let_def split: prod.splits)
qed

interpretation proc: transition_system
  "\<lambda>s. distinct (cfg_Peers cfg) \<and> (\<exists>bus. s = (process_New cfg, bus))" proc_step "proc_wf cfg" for cfg
proof unfold_locales
  show "distinct (cfg_Peers cfg) \<and> (\<exists>bus. s = (process_New cfg, bus)) \<Longrightarrow> proc_wf cfg s" for s :: "'a Process \<times> 'a EventBus"
    using clock_kind_New [of cfg] by (auto simp: proc_wf_def)
  show "proc_step s t \<Longrightarrow> proc_wf cfg s \<Longrightarrow> proc_wf cfg t" for s t :: "'a Process \<times> 'a EventBus"
  proof (induction rule: proc_step.induct)
    case (start s now)
    then show ?case by (simp add: proc_wf_def process_Start_def emitEvent_def)
  next
    case (stop s now)
    then show ?case by (cases s) (simp add: proc_wf_def process_Stop_def emitEvent_def clock_kind_def)
  next
    case (deliver m p p' bus)
    then show ?case by (auto simp: proc_wf_def clock_kind_def elim!: process_Deliver.cases)
  next
    case (internal s now)
    then show ?case by (cases s) (simp add: proc_wf_def process_InternalEvent_def clock_kind_ops)
  next
    case (send s now sent to data)
    have "clock_kind ((fst s)\<lparr>p_msgSeq := p_msgSeq (fst s) + 1\<rparr>)"
      using send by (simp add: proc_wf_def clock_kind_def)
    then have "clock_kind (snd (sendClock ((fst s)\<lparr>p_msgSeq := p_msgSeq (fst s) + 1\<rparr>)))" by (rule clock_kind_ops)
    with send fst_Stamp [of now sent to data s] show ?case by (auto simp: proc_wf_def)
  next
    case (handle onMarker now s c s' c')
    from handle(1) obtain p m ms bus where s: "s = (p, bus)" "p_inbound p = m # ms"
        "s' = fst (handleMessage onMarker now m ((p\<lparr>p_inbound := ms\<rparr>, bus), c))"
      by (auto elim!: process_run.cases) (metis fst_conv)
    have "proc_wf cfg (p\<lparr>p_inbound := ms\<rparr>, bus)" using handle(2) s by (simp add: proc_wf_def clock_kind_def)
    then show ?case unfolding s(3) by (rule proc_wf_handle)
  next
    case (peer p bus q)
    then show ?case by (auto simp: proc_wf_def process_AddPeer_def clock_kind_def)
  next
    case (mode p bus m)
    then show ?case by (simp add: proc_wf_def SetDeliveryMode_def clock_kind_def)
  next
    case (bus p bus bus')
    then show ?case by (simp add: proc_wf_def)
  qed
qed

section \<open>Properties\<close>

text \<open>
  C4: causal delivery at the process level. In causal mode, whatever internal events and sends
  the process interleaves with the messages it handles (and as long as no counter wraps), no
  message is delivered after a message that causally depends on it, and every message handed
  to the process is either delivered, once, or waiting: in the hold-back queue, or under decision. The lock is
  released between the decision on a message and its delivery, and events may come in between.
\<close>

theorem process_causal_delivery:
  assumes "causal_init s" and "causal_step\<^sup>*\<^sup>* s t"
  shows "(\<forall>i j. i < j \<and> j < length (cs_log t) \<longrightarrow>
      vget (msg_SentVC (cs_log t ! i)) (msg_From (cs_log t ! j)) < vget (msg_SentVC (cs_log t ! j)) (msg_From (cs_log t ! j)))
    \<and> cs_handed t = mset (cs_log t) + cs_waiting t"
  using causal.inv_reachable [OF assms]
  by (simp add: causal_inv_def Let_def sorted_wrt_iff_nth_less not_overtaken_def)

definition vproc :: "pid \<Rightarrow> DeliveryMode \<Rightarrow> nat Process" where
  "vproc p mode = process_New \<lparr>cfg_ID = p, cfg_ClockType = ClockVector, cfg_DeliveryMode = mode,
     cfg_Peers = [], cfg_AllPIDs = [''P'', ''Q'', ''R'']\<rparr>"

theorem process_causal_delivery_witness:
  "\<exists>t. causal_step\<^sup>*\<^sup>* \<lparr>cs_proc = (vproc ''P'' CausalDelivery, events_NewEventBus), cs_log = [], cs_handed = {#}, cs_pending = None\<rparr> t
     \<and> cs_log t = [hb_msg ''a'' ''Q'' [(''Q'', 1)]] \<and> cs_handed t = mset (cs_log t) + cs_waiting t"
proof -
  let ?s = "\<lparr>cs_proc = (vproc ''P'' CausalDelivery, events_NewEventBus), cs_log = [], cs_handed = {#}, cs_pending = None\<rparr>"
  let ?m = "hb_msg ''a'' ''Q'' [(''Q'', 1)]"
  let ?s1 = "?s\<lparr>cs_pending := Some (?m, canDeliver (msg_SentVC ?m) (msg_From ?m) (vector_Copy (cs_vc ?s))), cs_handed := {#?m#}\<rparr>"
  let ?ok = "canDeliver (msg_SentVC ?m) (msg_From ?m) (vector_Copy (cs_vc ?s))"
  let ?t = "?s1\<lparr>cs_proc := deliverCausal_act (\<lambda>_. 0) ?m ?ok (cs_proc ?s1), cs_log := cs_log ?s1 @ causal_delivered ?m ?ok (fst (cs_proc ?s1)),
      cs_pending := None\<rparr>"
  have init: "causal_init ?s"
    by (auto simp: causal_init_def vproc_def intro!: exI [of _ "\<lparr>cfg_ID = ''P'', cfg_ClockType = ClockVector,
          cfg_DeliveryMode = CausalDelivery, cfg_Peers = [], cfg_AllPIDs = [''P'', ''Q'', ''R'']\<rparr>"])
  have "cs_vc ?s = vector_New [''P'', ''Q'', ''R'']" "p_hbq (fst (cs_proc ?s)) = []" "cfg_ID (p_cfg (fst (cs_proc ?s))) = ''P''"
    by (simp_all add: cs_vc_def vproc_def process_New_def Let_def ClockVector_def ClockLamport_def)
  then have "run_room (cs_vc ?s1) (Suc (length (p_hbq (fst (cs_proc ?s1)))))" "msg_From ?m \<noteq> cfg_ID (p_cfg (fst (cs_proc ?s)))"
    by (simp_all add: run_room_def cs_vc_def hb_msg_def)
  then have "causal_step ?s ?s1" "causal_step ?s1 ?t"
    using causal_step.decide [of ?s ?m] causal_step.act [of ?s1 ?m ?ok "\<lambda>_. 0"] by simp_all
  then have run: "causal_step\<^sup>*\<^sup>* ?s ?t" by (rule converse_rtranclp_into_rtranclp [OF _ r_into_rtranclp])
  moreover have "causal_delivered ?m ?ok (vproc ''P'' CausalDelivery) = [?m]" by code_simp
  ultimately show ?thesis using process_causal_delivery [OF init run] by (intro exI [of _ ?t]) simp
qed

text \<open>
  A gap in a sender's numbering blocks it for good. If the receiver is in causal mode and no
  message it is handed carries exactly the next number of sender \<open>q\<close> (as after an internal
  event, a receipt or a message to somebody else at \<open>q\<close>, each of which also advances the
  number), then none of the messages of \<open>q\<close> is ever delivered: each one stays in the hold-back
  queue, whatever the other processes send.
\<close>

theorem process_gap_blocks_sender:
  assumes "cfg_ID (p_cfg p) \<noteq> q" and "p_hbq p = []"
    and "\<forall>m \<in> set ms. msg_From m = q \<longrightarrow> vget (msg_SentVC m) q \<noteq> vget (p_vc p) q + 1"
  shows "filter_mset (\<lambda>m. msg_From m = q) (image_mset held_Msg (mset (p_hbq (fst (handle_all now ms (p, bus))))))
      = filter_mset (\<lambda>m. msg_From m = q) (mset ms)
    \<and> vget (p_vc (fst (handle_all now ms (p, bus)))) q = vget (p_vc p) q"
proof -
  have "gap_inv q (vget (p_vc p) q) (fst (p, bus))" using assms(1,2) by (simp add: gap_inv_def)
  from gap_all [OF this, of ms now] assms(2,3) show ?thesis by (simp add: gap_inv_def)
qed

text \<open>A process that has one internal event before its first message.\<close>

definition gap_demo :: "nat Message list" where
  "gap_demo =
     (let s = process_InternalEvent (\<lambda>_. 0) (vproc ''Q'' CausalDelivery, events_NewEventBus);
          (m1, s1) = process_Stamp (\<lambda>_. 0) 0 ''P'' None s;
          (m2, s2) = process_Stamp (\<lambda>_. 0) 0 ''P'' None s1
      in [m1, m2])"

theorem process_gap_blocks_sender_witness:
  "length gap_demo = 2 \<and>
   filter_mset (\<lambda>m. msg_From m = ''Q'')
     (image_mset held_Msg (mset (p_hbq (fst (handle_all (\<lambda>_. 0) gap_demo (vproc ''P'' CausalDelivery, events_NewEventBus))))))
   = filter_mset (\<lambda>m. msg_From m = ''Q'') (mset gap_demo)"
proof
  show "length gap_demo = 2" by code_simp
  have "cfg_ID (p_cfg (vproc ''P'' CausalDelivery)) \<noteq> ''Q''" "p_hbq (vproc ''P'' CausalDelivery) = []"
    "\<forall>m \<in> set gap_demo. msg_From m = ''Q'' \<longrightarrow> vget (msg_SentVC m) ''Q'' \<noteq> vget (p_vc (vproc ''P'' CausalDelivery)) ''Q'' + 1"
    by code_simp+
  from process_gap_blocks_sender [OF this]
  show "filter_mset (\<lambda>m. msg_From m = ''Q'')
     (image_mset held_Msg (mset (p_hbq (fst (handle_all (\<lambda>_. 0) gap_demo (vproc ''P'' CausalDelivery, events_NewEventBus))))))
   = filter_mset (\<lambda>m. msg_From m = ''Q'') (mset gap_demo)" by blast
qed

text \<open>
  Only vector stamps can be delivered in causal mode. A message that a Lamport or matrix
  process sends carries no vector stamp, and a receiver in causal (or total-order) mode
  holds it and moves none of its clocks.
\<close>

theorem process_causal_holds_unstamped:
  assumes "cfg_ClockType (p_cfg (fst s)) \<noteq> ClockVector"
    and "cfg_DeliveryMode (p_cfg p) = CausalDelivery \<or> cfg_DeliveryMode (p_cfg p) = TotalOrderDelivery"
    and "can_inc (vget (p_vc p) (cfg_ID (p_cfg (fst s))))"
  shows "let m = fst (process_Stamp now sent to data s);
             p' = fst (fst (handleMessage onMarker now' m ((p, bus), c)))
    in p_hbq p' = p_hbq p @ [\<lparr>held_Msg = m, held_SentVC = []\<rparr>] \<and> p_lamportClock p' = p_lamportClock p
       \<and> p_vectorClock p' = p_vectorClock p \<and> p_matrixClock p' = p_matrixClock p"
proof -
  define m where "m = fst (process_Stamp now sent to data s)"
  have m: "msg_SentVC m = []" "msg_From m = cfg_ID (p_cfg (fst s))" "\<not> msg_IsMarker m"
    using assms(1) by (auto simp: m_def process_Stamp_def sendClock_def Let_def split: prod.splits option.splits if_splits)
  have "vget (p_vc p) (msg_From m) + 1 \<noteq> 0" using unat_inc [OF assms(3)] m(2) by auto
  then have no: "\<not> canDeliver (msg_SentVC m) (msg_From m) (p_vc p)" by (auto simp: canDeliver_iff m(1))
  have mode: "cfg_DeliveryMode (p_cfg p) \<noteq> ImmediateDelivery"
    using assms(2) by (auto simp: ImmediateDelivery_def CausalDelivery_def TotalOrderDelivery_def)
  have "fst (fst (handleMessage onMarker now' m ((p, bus), c))) = fst (deliverCausal now' m (p, bus))"
    using assms(2) mode m(3) by (auto simp: handleMessage_def Let_def)
  then show ?thesis using deliverCausal_held [OF no] by (simp add: Let_def held_def m(1) flip: m_def)
qed

definition lproc :: "pid \<Rightarrow> DeliveryMode \<Rightarrow> nat Process" where
  "lproc p mode = process_New \<lparr>cfg_ID = p, cfg_ClockType = ClockLamport, cfg_DeliveryMode = mode,
     cfg_Peers = [], cfg_AllPIDs = []\<rparr>"

theorem process_causal_holds_unstamped_witness:
  "p_lamportClock (fst (fst (handleMessage (None :: (pid \<Rightarrow> string \<Rightarrow> ProcessState \<Rightarrow> nat EventBus \<times> unit \<Rightarrow> nat EventBus \<times> unit) option) (\<lambda>_. 0)
      (fst (process_Stamp (\<lambda>_. 0) 0 ''P'' None (lproc ''Q'' CausalDelivery, events_NewEventBus)))
      ((lproc ''P'' CausalDelivery, events_NewEventBus), ())))) = Some (lamport_New ''P'')"
proof -
  have "cfg_ClockType (p_cfg (fst (lproc ''Q'' CausalDelivery, events_NewEventBus :: nat EventBus))) \<noteq> ClockVector"
    "cfg_DeliveryMode (p_cfg (lproc ''P'' CausalDelivery)) = CausalDelivery \<or> cfg_DeliveryMode (p_cfg (lproc ''P'' CausalDelivery)) = TotalOrderDelivery"
    "can_inc (vget (p_vc (lproc ''P'' CausalDelivery)) (cfg_ID (p_cfg (fst (lproc ''Q'' CausalDelivery, events_NewEventBus :: nat EventBus)))))"
    by code_simp+
  from process_causal_holds_unstamped [OF this, of "\<lambda>_. 0" 0 "''P''" None None "\<lambda>_. 0" events_NewEventBus "()"]
  show ?thesis by (simp add: Let_def lproc_def process_New_def ClockLamport_def)
qed

text \<open>
  C34: every operation keeps a process well formed. Whatever starts, stops, deliveries, internal
  events, sends, handled messages, new peers and mode changes a process goes through, it has
  the clock of its configured kind, so no operation dereferences a nil clock; its identifier and
  kind never change; its peers stay distinct; and its inbound channel holds at most 256 messages.
\<close>

theorem process_well_formed:
  assumes "distinct (cfg_Peers cfg)" and "proc_step\<^sup>*\<^sup>* (process_New cfg, bus) (p, bus')"
  shows "(cfg_ClockType cfg = ClockLamport \<longrightarrow> p_lamportClock p \<noteq> None)
    \<and> (cfg_ClockType cfg = ClockVector \<longrightarrow> p_vectorClock p \<noteq> None)
    \<and> (cfg_ClockType cfg = ClockMatrix \<longrightarrow> p_matrixClock p \<noteq> None)
    \<and> cfg_ID (p_cfg p) = cfg_ID cfg \<and> distinct (cfg_Peers (p_cfg p)) \<and> length (p_inbound p) \<le> inboundCap"
  using proc.inv_reachable [of cfg "(process_New cfg, bus)" "(p, bus')"] assms
  by (auto simp: proc_wf_def clock_kind_def)

theorem process_well_formed_witness:
  "p_lamportClock (fst (process_InternalEvent (\<lambda>_. 0) (lproc ''P'' CausalDelivery, events_NewEventBus))) \<noteq> None"
proof -
  let ?cfg = "\<lparr>cfg_ID = ''P'', cfg_ClockType = ClockLamport, cfg_DeliveryMode = CausalDelivery, cfg_Peers = [], cfg_AllPIDs = []\<rparr>"
  have "proc_step\<^sup>*\<^sup>* (process_New ?cfg, events_NewEventBus :: nat EventBus)
      (process_InternalEvent (\<lambda>_. 0) (process_New ?cfg, events_NewEventBus))"
    by (rule r_into_rtranclp) (rule proc_step.internal)
  then show ?thesis
    using process_well_formed [of ?cfg events_NewEventBus "fst (process_InternalEvent (\<lambda>_. 0) (process_New ?cfg, events_NewEventBus :: nat EventBus))"
        "snd (process_InternalEvent (\<lambda>_. 0) (process_New ?cfg, events_NewEventBus :: nat EventBus))"]
    by (simp add: lproc_def)
qed

end
