(* ===== verification/Sim_Transport.thy ===== *)
theory Sim_Transport
  imports Hold_Back Event_Bus
begin

text \<open>
  \<^verbatim>\<open>internal/simulation/transport.go\<close>: directed FIFO channels between processes with fault
  injection. A delivery function is an element of \<open>'f\<close>; \<^verbatim>\<open>forward\<close> returns the one to call.
  A delayed send is a goroutine waiting in \<open>st_delayed\<close>; it may finish at any later time, in
  any order. \<^verbatim>\<open>Send\<close> releases the mutex between reading the fault state and acting on it. Here
  it is a function that runs without interference; \<^verbatim>\<open>Transport_Stages\<close> has the stages between its
  accesses to shared state, and the goroutines that are at one of them wait in \<open>st_sending\<close>.
  A \<^verbatim>\<open>time.Duration\<close> is an \<^typ>\<open>int\<close> of nanoseconds.
\<close>

definition ChannelBufferSize :: nat where
  "ChannelBufferSize = 1024"

type_synonym ChannelKey = "pid \<times> pid"

datatype transport_error = TransportClosed | NoChannel pid pid | ChannelFull

text \<open>Where a goroutine in \<^verbatim>\<open>Send\<close> is: called; with what it has read under the lock; about to clear the
  drop flag; about to empty the reorder slot and send the current message and then the buffered one;
  about to look for an active slot, with the delay it read; about to fill the slot; at the first and
  at the second \<^verbatim>\<open>select\<close> of \<^verbatim>\<open>sendToChannel\<close>, with the message to send afterwards.\<close>

record 'd send_call =
  call_key :: ChannelKey
  call_msg :: "'d Message"
  call_ch :: bool
  call_drop :: bool
  call_delay :: int
  call_groups :: "pid list list"
  call_reorderMsg :: "'d Message option"

datatype 'd send_pc =
    Called ChannelKey "'d Message"
  | HasRead "'d send_call"
  | AtDrop ChannelKey
  | AtSwap ChannelKey "'d Message" "'d Message"
  | AtCheck ChannelKey "'d Message" int
  | AtStore ChannelKey "'d Message"
  | AtPush ChannelKey "'d Message" "'d Message option"
  | AtSelect ChannelKey "'d Message" "'d Message option"

record ('d, 'f) SimTransport =
  st_channels :: "(ChannelKey, 'd Message list) gomap"
  st_delays :: "(ChannelKey, int) gomap"
  st_dropNext :: "(ChannelKey, bool) gomap"
  st_reorderBuf :: "(ChannelKey, 'd Message option) gomap"
  st_partitionGroups :: "pid list list"
  st_deliver :: "(pid, 'f) gomap"
  st_delayed :: "(ChannelKey \<times> 'd Message) list"
  st_sending :: "'d send_pc list"
  st_closed :: bool

section \<open>Operations\<close>

definition NewSimTransport :: "('d, 'f) SimTransport" where
  "NewSimTransport = \<lparr>st_channels = [], st_delays = [], st_dropNext = [], st_reorderBuf = [],
     st_partitionGroups = [], st_deliver = [], st_delayed = [], st_sending = [], st_closed = False\<rparr>"

definition RegisterProcess :: "pid \<Rightarrow> 'f \<Rightarrow> ('d, 'f) SimTransport \<Rightarrow> ('d, 'f) SimTransport" where
  "RegisterProcess p deliverFn t = t\<lparr>st_deliver := gm_set (st_deliver t) p deliverFn\<rparr>"

definition RegisterChannel :: "pid \<Rightarrow> pid \<Rightarrow> ('d, 'f) SimTransport \<Rightarrow> ('d, 'f) SimTransport" where
  "RegisterChannel from to t =
     (if map_of (st_channels t) (from, to) = None
      then t\<lparr>st_channels := gm_set (st_channels t) (from, to) []\<rparr> else t)"

definition inSameGroup :: "pid list list \<Rightarrow> pid \<Rightarrow> pid \<Rightarrow> bool" where
  "inSameGroup groups from to = list_ex (\<lambda>g. list_ex (\<lambda>p. p = from) g \<and> list_ex (\<lambda>p. p = to) g) groups"

definition sendToChannel :: "ChannelKey \<Rightarrow> 'd Message \<Rightarrow> ('d, 'f) SimTransport \<Rightarrow>
    (transport_error + unit) \<times> ('d, 'f) SimTransport" where
  "sendToChannel key m t =
     (if st_closed t then (Inl TransportClosed, t)
      else let ch = gm_get [] (st_channels t) key
           in if length ch < ChannelBufferSize
              then (Inr (), t\<lparr>st_channels := gm_set (st_channels t) key (ch @ [m])\<rparr>)
              else (Inl ChannelFull, t))"

text \<open>The branch that sends the current message first and then the buffered one.\<close>

definition send_swapped :: "ChannelKey \<Rightarrow> 'd Message \<Rightarrow> 'd Message \<Rightarrow> ('d, 'f) SimTransport \<Rightarrow>
    (transport_error + unit) \<times> ('d, 'f) SimTransport" where
  "send_swapped key m reorderMsg t =
     (let r = sendToChannel key m (t\<lparr>st_reorderBuf := gm_set (st_reorderBuf t) key None\<rparr>)
      in case fst r of Inl e \<Rightarrow> r | Inr u \<Rightarrow> sendToChannel key reorderMsg (snd r))"

definition transport_Send :: "pid \<Rightarrow> pid \<Rightarrow> 'd Message \<Rightarrow> ('d, 'f) SimTransport \<Rightarrow>
    (transport_error + unit) \<times> ('d, 'f) SimTransport" where
  "transport_Send from to m t =
     (let key = (from, to)
      in if st_closed t then (Inl TransportClosed, t)
         else if map_of (st_channels t) key = None then (Inl (NoChannel from to), t)
         else if st_partitionGroups t \<noteq> [] \<and> \<not> inSameGroup (st_partitionGroups t) from to then (Inr (), t)
         else if gm_get False (st_dropNext t) key
         then (Inr (), t\<lparr>st_dropNext := gm_set (st_dropNext t) key False\<rparr>)
         else case map_of (st_reorderBuf t) key of
           Some (Some reorderMsg) \<Rightarrow> send_swapped key m reorderMsg t
         | Some None \<Rightarrow> (Inr (), t\<lparr>st_reorderBuf := gm_set (st_reorderBuf t) key (Some m)\<rparr>)
         | None \<Rightarrow>
             if gm_get 0 (st_delays t) key > 0 then (Inr (), t\<lparr>st_delayed := st_delayed t @ [(key, m)]\<rparr>)
             else sendToChannel key m t)"

text \<open>A delayed send finishes: it waits for room, or gives up when the transport is closed.\<close>

inductive sendDelayed :: "('d, 'f) SimTransport \<Rightarrow> ('d, 'f) SimTransport \<Rightarrow> bool" where
  fire: "st_delayed t = xs @ (key, m) # ys \<Longrightarrow> length (gm_get [] (st_channels t) key) < ChannelBufferSize \<Longrightarrow>
    sendDelayed t (t\<lparr>st_delayed := xs @ ys, st_channels := gm_set (st_channels t) key (gm_get [] (st_channels t) key @ [m])\<rparr>)"
| abandon: "st_delayed t = xs @ (key, m) # ys \<Longrightarrow> st_closed t \<Longrightarrow> sendDelayed t (t\<lparr>st_delayed := xs @ ys\<rparr>)"

text \<open>One message taken off a channel, with the delivery function to call on it, if any.\<close>

definition transport_forward :: "ChannelKey \<Rightarrow> ('d, 'f) SimTransport \<Rightarrow>
    ('d Message \<times> 'f option \<times> ('d, 'f) SimTransport) option" where
  "transport_forward key t =
     (case gm_get [] (st_channels t) key of
        [] \<Rightarrow> None
      | m # ms \<Rightarrow> Some (m, map_of (st_deliver t) (snd key), t\<lparr>st_channels := gm_set (st_channels t) key ms\<rparr>))"

definition InjectDelay :: "pid \<Rightarrow> pid \<Rightarrow> int \<Rightarrow> ('d, 'f) SimTransport \<Rightarrow> ('d, 'f) SimTransport" where
  "InjectDelay from to d t = t\<lparr>st_delays := gm_set (st_delays t) (from, to) d\<rparr>"

definition InjectDrop :: "pid \<Rightarrow> pid \<Rightarrow> ('d, 'f) SimTransport \<Rightarrow> ('d, 'f) SimTransport" where
  "InjectDrop from to t = t\<lparr>st_dropNext := gm_set (st_dropNext t) (from, to) True\<rparr>"

definition InjectReorder :: "pid \<Rightarrow> pid \<Rightarrow> ('d, 'f) SimTransport \<Rightarrow> ('d, 'f) SimTransport" where
  "InjectReorder from to t = t\<lparr>st_reorderBuf := gm_set (st_reorderBuf t) (from, to) None\<rparr>"

definition SetPartition :: "pid list list \<Rightarrow> ('d, 'f) SimTransport \<Rightarrow> ('d, 'f) SimTransport" where
  "SetPartition groups t =
     (if groups = [] then t\<lparr>st_partitionGroups := []\<rparr>
      else t\<lparr>st_partitionGroups := map (\<lambda>g. map (\<lambda>p. p) g) groups\<rparr>)"

record FaultState =
  fs_Delays :: "(string, int) gomap"
  fs_Drops :: "string list"
  fs_Partition :: "pid list list"

text \<open>The arrow between the names is one character of three bytes.\<close>

definition channel_name :: "ChannelKey \<Rightarrow> string" where
  "channel_name k = fst k @ [CHR 0xE2, CHR 0x86, CHR 0x92] @ snd k"

definition GetFaults :: "('d, 'f) SimTransport \<Rightarrow> FaultState" where
  "GetFaults t =
     \<lparr>fs_Delays = gm_fold (\<lambda>k d delays. if d > 0 then gm_set delays (channel_name k) (d div 1000000) else delays)
                    (st_delays t) [],
      fs_Drops = map (\<lambda>(k, v). channel_name k) (filter (\<lambda>(k, v). v) (gm_range (st_dropNext t))),
      fs_Partition = (if st_partitionGroups t \<noteq> [] then map (\<lambda>g. map (\<lambda>p. p) g) (st_partitionGroups t) else [])\<rparr>"

definition ClearFaults :: "('d, 'f) SimTransport \<Rightarrow> ('d, 'f) SimTransport" where
  "ClearFaults t = t\<lparr>st_delays := [], st_dropNext := [], st_reorderBuf := [], st_partitionGroups := []\<rparr>"

definition transport_Close :: "('d, 'f) SimTransport \<Rightarrow> ('d, 'f) SimTransport" where
  "transport_Close t = t\<lparr>st_closed := True\<rparr>"

definition transport_Done :: "('d, 'f) SimTransport \<Rightarrow> bool" where
  "transport_Done t = st_closed t"

definition ChannelCount :: "('d, 'f) SimTransport \<Rightarrow> nat" where
  "ChannelCount t = gm_len (st_channels t)"

section \<open>Channels as bounded queues\<close>

text \<open>The transport without faults on one channel.\<close>

definition plain :: "ChannelKey \<Rightarrow> ('d, 'f) SimTransport \<Rightarrow> bool" where
  "plain key t \<longleftrightarrow> \<not> st_closed t \<and> map_of (st_channels t) key \<noteq> None
     \<and> (st_partitionGroups t = [] \<or> inSameGroup (st_partitionGroups t) (fst key) (snd key))
     \<and> \<not> gm_get False (st_dropNext t) key \<and> map_of (st_reorderBuf t) key = None
     \<and> \<not> gm_get 0 (st_delays t) key > 0"

abbreviation st_chan :: "ChannelKey \<Rightarrow> ('d, 'f) SimTransport \<Rightarrow> 'd Message list" where
  "st_chan key t \<equiv> gm_get [] (st_channels t) key"

definition chan_push :: "ChannelKey \<Rightarrow> 'd Message \<Rightarrow> ('d, 'f) SimTransport \<Rightarrow> ('d, 'f) SimTransport" where
  "chan_push key m t = snd (sendToChannel key m (t\<lparr>st_closed := False\<rparr>))"

interpretation channel_queue: bounded_queue "st_chan key" ChannelBufferSize "chan_push key" for key
  by unfold_locales (auto simp: chan_push_def sendToChannel_def Let_def)

lemma Send_plain: "plain (from, to) t \<Longrightarrow> transport_Send from to m t = sendToChannel (from, to) m t"
  by (auto simp: plain_def transport_Send_def Let_def)

lemma plain_send: "plain key t \<Longrightarrow> plain key (snd (sendToChannel k m t))"
  by (auto simp: plain_def sendToChannel_def Let_def)

lemma plain_push: "plain key t \<Longrightarrow> snd (sendToChannel key m t) = chan_push key m t"
  by (auto simp: plain_def chan_push_def sendToChannel_def Let_def)

section \<open>The branches of a send\<close>

lemma Send_cases:
  obtains (keep) "snd (transport_Send a b m t) = t"
  | (lost) d where "snd (transport_Send a b m t) = t\<lparr>st_dropNext := d\<rparr>"
  | (swap) r where "map_of (st_reorderBuf t) (a, b) = Some (Some r)"
      "transport_Send a b m t = send_swapped (a, b) m r t"
  | (buffer) "map_of (st_reorderBuf t) (a, b) = Some None"
      "snd (transport_Send a b m t) = t\<lparr>st_reorderBuf := gm_set (st_reorderBuf t) (a, b) (Some m)\<rparr>"
  | (late) "snd (transport_Send a b m t) = t\<lparr>st_delayed := st_delayed t @ [((a, b), m)]\<rparr>"
  | (straight) "transport_Send a b m t = sendToChannel (a, b) m t"
proof (cases "st_closed t \<or> map_of (st_channels t) (a, b) = None
    \<or> (st_partitionGroups t \<noteq> [] \<and> \<not> inSameGroup (st_partitionGroups t) a b)")
  case True
  then have "snd (transport_Send a b m t) = t" by (auto simp: transport_Send_def Let_def)
  then show ?thesis by (rule keep)
next
  case False
  show ?thesis
  proof (cases "gm_get False (st_dropNext t) (a, b)")
    case True
    with False have "snd (transport_Send a b m t) = t\<lparr>st_dropNext := gm_set (st_dropNext t) (a, b) False\<rparr>"
      by (auto simp: transport_Send_def Let_def)
    then show ?thesis by (rule lost)
  next
    case no_drop: False
    note open_ch = False no_drop
    show ?thesis
    proof (cases "map_of (st_reorderBuf t) (a, b)")
      case None
      show ?thesis
      proof (cases "gm_get 0 (st_delays t) (a, b) > 0")
        case True
        with None open_ch have "snd (transport_Send a b m t) = t\<lparr>st_delayed := st_delayed t @ [((a, b), m)]\<rparr>"
          by (auto simp: transport_Send_def Let_def)
        then show ?thesis by (rule late)
      next
        case False
        with None open_ch have "transport_Send a b m t = sendToChannel (a, b) m t"
          by (auto simp: transport_Send_def Let_def)
        then show ?thesis by (rule straight)
      qed
    next
      case (Some x)
      show ?thesis
      proof (cases x)
        case None
        with Some open_ch have "snd (transport_Send a b m t) = t\<lparr>st_reorderBuf := gm_set (st_reorderBuf t) (a, b) (Some m)\<rparr>"
          by (auto simp: transport_Send_def Let_def)
        with Some None show ?thesis by (intro buffer) simp_all
      next
        case (Some r)
        with \<open>map_of (st_reorderBuf t) (a, b) = Some x\<close> open_ch have "transport_Send a b m t = send_swapped (a, b) m r t"
          by (auto simp: transport_Send_def Let_def)
        with Some \<open>map_of (st_reorderBuf t) (a, b) = Some x\<close> show ?thesis by (intro swap) simp_all
      qed
    qed
  qed
qed

section \<open>A channel with an injected reordering\<close>

definition reordering :: "ChannelKey \<Rightarrow> ('d, 'f) SimTransport \<Rightarrow> bool" where
  "reordering key t \<longleftrightarrow> \<not> st_closed t \<and> map_of (st_channels t) key \<noteq> None
     \<and> (st_partitionGroups t = [] \<or> inSameGroup (st_partitionGroups t) (fst key) (snd key))
     \<and> \<not> gm_get False (st_dropNext t) key \<and> map_of (st_reorderBuf t) key = Some None"

abbreviation send_to :: "pid \<Rightarrow> pid \<Rightarrow> 'd Message \<Rightarrow> ('d, 'f) SimTransport \<Rightarrow> ('d, 'f) SimTransport" where
  "send_to a b m t \<equiv> snd (transport_Send a b m t)"

lemma reordering_pair:
  assumes "reordering (a, b) t" and "length (st_chan (a, b) t) + 2 \<le> ChannelBufferSize"
  shows "reordering (a, b) (send_to a b y (send_to a b x t))
    \<and> st_chan (a, b) (send_to a b y (send_to a b x t)) = st_chan (a, b) t @ [y, x]"
proof -
  have x: "send_to a b x t = t\<lparr>st_reorderBuf := gm_set (st_reorderBuf t) (a, b) (Some x)\<rparr>"
    using assms(1) by (auto simp: transport_Send_def Let_def reordering_def)
  let ?t = "t\<lparr>st_reorderBuf := gm_set (st_reorderBuf t) (a, b) (Some x)\<rparr>"
  have "transport_Send a b y ?t = send_swapped (a, b) y x ?t"
    using assms(1) by (auto simp: transport_Send_def Let_def reordering_def)
  then show ?thesis
    using assms unfolding x by (auto simp: send_swapped_def sendToChannel_def Let_def reordering_def)
qed

lemma reordering_pairs:
  assumes "reordering (a, b) t" and "length (st_chan (a, b) t) + 2 * length ps \<le> ChannelBufferSize"
  shows "reordering (a, b) (fold (send_to a b) (concat (map (\<lambda>(x, y). [x, y]) ps)) t)
    \<and> st_chan (a, b) (fold (send_to a b) (concat (map (\<lambda>(x, y). [x, y]) ps)) t)
      = st_chan (a, b) t @ concat (map (\<lambda>(x, y). [y, x]) ps)"
  using assms
proof (induction ps arbitrary: t)
  case (Cons p ps)
  obtain x y where p: "p = (x, y)" by (cases p)
  let ?t = "send_to a b y (send_to a b x t)"
  have step: "reordering (a, b) ?t" "st_chan (a, b) ?t = st_chan (a, b) t @ [y, x]"
    using reordering_pair [OF Cons.prems(1), of y x] Cons.prems(2) by auto
  show ?case using Cons.IH [OF step(1)] Cons.prems(2) step(2) p by simp
qed simp

section \<open>Properties\<close>

text \<open>
  Sends and forwards of any channels in any order. The sends that were accepted and the messages
  that were forwarded are recorded for one channel.
\<close>

datatype 'd net_op = OpSend pid pid "'d Message" | OpForward ChannelKey

fun net_run :: "ChannelKey \<Rightarrow> 'd net_op \<Rightarrow> 'd Message list \<times> 'd Message list \<times> ('d, 'f) SimTransport \<Rightarrow>
    'd Message list \<times> 'd Message list \<times> ('d, 'f) SimTransport" where
  "net_run key (OpSend from to m) (accepted, forwarded, t) =
     (case transport_Send from to m t of
        (Inl e, t') \<Rightarrow> (accepted, forwarded, t')
      | (Inr u, t') \<Rightarrow> (if (from, to) = key then accepted @ [m] else accepted, forwarded, t'))"
| "net_run key (OpForward k) (accepted, forwarded, t) =
     (case transport_forward k t of
        None \<Rightarrow> (accepted, forwarded, t)
      | Some (m, deliverFn, t') \<Rightarrow> (accepted, if k = key then forwarded @ [m] else forwarded, t'))"

lemma Send_other:
  assumes "(a, b) \<noteq> key"
  shows "st_chan key (snd (transport_Send a b m t)) = st_chan key t"
    and "plain key t \<Longrightarrow> plain key (snd (transport_Send a b m t))"
proof -
  have neq: "key \<noteq> (a, b)" using assms by simp
  note defs = send_swapped_def sendToChannel_def Let_def
  show "st_chan key (snd (transport_Send a b m t)) = st_chan key t"
    by (rule Send_cases [of a b m t]) (use neq in \<open>auto simp: defs split: sum.splits if_splits\<close>)
  assume p: "plain key t"
  show "plain key (snd (transport_Send a b m t))"
    unfolding transport_Send_def
    by (use p neq in \<open>auto simp: defs plain_def split: sum.splits if_splits option.splits\<close>)
qed

lemma Send_plain_here:
  assumes "plain (a, b) t"
  shows "transport_Send a b m t = (if length (st_chan (a, b) t) < ChannelBufferSize
         then (Inr (), t\<lparr>st_channels := gm_set (st_channels t) (a, b) (st_chan (a, b) t @ [m])\<rparr>)
         else (Inl ChannelFull, t))"
  using assms by (simp add: Send_plain sendToChannel_def Let_def plain_def)

lemma plain_gm_set: "plain key t \<Longrightarrow> plain key (t\<lparr>st_channels := gm_set (st_channels t) k ms\<rparr>)"
  by (auto simp: plain_def)

lemma net_run_fifo:
  assumes "plain key t" and "length (st_chan key t) \<le> ChannelBufferSize"
    and "net_run key op (accepted, forwarded, t) = (accepted', forwarded', t')"
    and "forwarded @ st_chan key t = before @ accepted"
  shows "plain key t' \<and> length (st_chan key t') \<le> ChannelBufferSize \<and> forwarded' @ st_chan key t' = before @ accepted'"
proof (cases op)
  case (OpSend a b m)
  show ?thesis
  proof (cases "(a, b) = key")
    case True
    then show ?thesis
      using assms OpSend Send_plain_here [of a b t m]
      by (cases "length (st_chan key t) < ChannelBufferSize") (auto simp: plain_gm_set simp flip: append_assoc)
  next
    case False
    have "t' = snd (transport_Send a b m t)" "accepted' = accepted" "forwarded' = forwarded"
      using assms(3) OpSend False by (auto split: prod.splits sum.splits)
    then show ?thesis using Send_other [OF False, where m = m and t = t] assms by simp
  qed
next
  case (OpForward k)
  then show ?thesis
    using assms
    by (cases "st_chan k t") (auto simp: transport_forward_def plain_gm_set split: if_splits)
qed

lemma net_runs_fifo:
  assumes "plain key t" and "length (st_chan key t) \<le> ChannelBufferSize"
    and "forwarded @ st_chan key t = before @ accepted"
    and "fold (net_run key) ops (accepted, forwarded, t) = (accepted', forwarded', t')"
  shows "plain key t' \<and> length (st_chan key t') \<le> ChannelBufferSize \<and> forwarded' @ st_chan key t' = before @ accepted'"
  using assms
proof (induction ops arbitrary: accepted forwarded t)
  case (Cons op ops)
  obtain acc fwd u where u: "net_run key op (accepted, forwarded, t) = (acc, fwd, u)"
    using prod_cases3 by blast
  note step = net_run_fifo [OF Cons.prems(1,2) u Cons.prems(3)]
  show ?case using Cons.IH [of u fwd acc] step Cons.prems(4) u by simp
qed simp

text \<open>
  C18: an open channel without faults is a FIFO queue of 1024 places. Whatever sends and
  forwards of this and of other channels follow one another, the messages forwarded from the
  channel, followed by those still in it, are those it held at first followed by the accepted
  ones, in the order of their sends: nothing is lost, duplicated or overtaken. A send is accepted
  exactly when there is room, and otherwise reports a full channel and changes nothing; a
  non-empty channel can always be forwarded from, to the delivery function of its receiver; a
  send across a partition is silently lost.
\<close>

theorem transport_fifo:
  assumes "plain (a, b) t" and "length (gm_get [] (st_channels t) (a, b)) \<le> ChannelBufferSize"
    and "fold (net_run (a, b)) ops ([], [], t) = (accepted, forwarded, t')"
  shows "forwarded @ gm_get [] (st_channels t') (a, b) = gm_get [] (st_channels t) (a, b) @ accepted
    \<and> length (gm_get [] (st_channels t') (a, b)) \<le> ChannelBufferSize
    \<and> (transport_Send a b m t' = (if length (gm_get [] (st_channels t') (a, b)) < ChannelBufferSize
         then (Inr (), t'\<lparr>st_channels := gm_set (st_channels t') (a, b) (gm_get [] (st_channels t') (a, b) @ [m])\<rparr>)
         else (Inl ChannelFull, t')))
    \<and> (gm_get [] (st_channels t') (a, b) \<noteq> [] \<longrightarrow>
         (\<exists>u. transport_forward (a, b) t' =
           Some ((gm_get [] (st_channels t) (a, b) @ accepted) ! length forwarded, map_of (st_deliver t') b, u)))
    \<and> (groups \<noteq> [] \<and> \<not> inSameGroup groups a b \<longrightarrow>
         transport_Send a b m (SetPartition groups t') = (Inr (), SetPartition groups t'))"
proof (intro conjI impI)
  let ?c = "gm_get [] (st_channels t') (a, b)"
  note runs = net_runs_fifo [OF assms(1,2) _ assms(3), of "st_chan (a, b) t"]
  show eq: "forwarded @ ?c = st_chan (a, b) t @ accepted" and "length ?c \<le> ChannelBufferSize"
    using runs by simp_all
  have plain: "plain (a, b) t'" using runs by simp
  then show "transport_Send a b m t' = (if length ?c < ChannelBufferSize
         then (Inr (), t'\<lparr>st_channels := gm_set (st_channels t') (a, b) (?c @ [m])\<rparr>)
         else (Inl ChannelFull, t'))"
    by (rule Send_plain_here)
  show "\<exists>u. transport_forward (a, b) t' =
      Some ((st_chan (a, b) t @ accepted) ! length forwarded, map_of (st_deliver t') b, u)" if "?c \<noteq> []"
    unfolding eq [symmetric] using that by (cases ?c) (simp_all add: transport_forward_def nth_append)
  assume "groups \<noteq> [] \<and> \<not> inSameGroup groups a b"
  then show "transport_Send a b m (SetPartition groups t') = (Inr (), SetPartition groups t')"
    using plain by (simp add: transport_Send_def Let_def plain_def SetPartition_def)
qed

definition net_demo :: "(nat, unit) SimTransport" where
  "net_demo = RegisterChannel ''P'' ''Q'' NewSimTransport"

lemma plain_demo: "plain (''P'', ''Q'') net_demo" "st_chan (''P'', ''Q'') net_demo = []"
  by (simp_all add: plain_def net_demo_def RegisterChannel_def NewSimTransport_def)

definition net_demo_ops :: "nat net_op list" where
  "net_demo_ops = [OpSend ''P'' ''Q'' (hb_msg ''a'' ''P'' []), OpForward (''Q'', ''P''),
     OpSend ''P'' ''Q'' (hb_msg ''b'' ''P'' []), OpForward (''P'', ''Q''), OpSend ''Q'' ''P'' (hb_msg ''c'' ''Q'' [])]"

theorem transport_fifo_witness:
  "map msg_ID (fst (snd (fold (net_run (''P'', ''Q'')) net_demo_ops ([], [], net_demo)))
      @ gm_get [] (st_channels (snd (snd (fold (net_run (''P'', ''Q'')) net_demo_ops ([], [], net_demo))))) (''P'', ''Q''))
   = [''a'', ''b'']"
proof -
  obtain acc fwd t' where run: "fold (net_run (''P'', ''Q'')) net_demo_ops ([], [], net_demo) = (acc, fwd, t')"
    using prod_cases3 by blast
  have "map msg_ID (fst (fold (net_run (''P'', ''Q'')) net_demo_ops ([], [], net_demo))) = [''a'', ''b'']"
    by code_simp
  then show ?thesis
    using transport_fifo [OF plain_demo(1) _ run] run by (simp add: plain_demo(2))
qed

text \<open>
  An injected reordering never ends. \<^verbatim>\<open>InjectReorder\<close> is documented to swap the next two
  messages, but the channel's slot stays active: every later pair of messages is swapped too,
  and a message without a successor stays in the slot although its send reported success.
\<close>

theorem transport_reorder_persists:
  assumes "plain (a, b) t" and "length (gm_get [] (st_channels t) (a, b)) + 2 * length ps \<le> ChannelBufferSize"
  shows "let t' = fold (\<lambda>m t. snd (transport_Send a b m t)) (concat (map (\<lambda>(x, y). [x, y]) ps)) (InjectReorder a b t)
    in gm_get [] (st_channels t') (a, b) = gm_get [] (st_channels t) (a, b) @ concat (map (\<lambda>(x, y). [y, x]) ps)
       \<and> transport_Send a b z t' = (Inr (), t'\<lparr>st_reorderBuf := gm_set (st_reorderBuf t') (a, b) (Some z)\<rparr>)"
proof -
  have "reordering (a, b) (InjectReorder a b t)"
    using assms(1) by (simp add: plain_def reordering_def InjectReorder_def)
  moreover have "st_chan (a, b) (InjectReorder a b t) = st_chan (a, b) t" by (simp add: InjectReorder_def)
  ultimately have "reordering (a, b) (fold (send_to a b) (concat (map (\<lambda>(x, y). [x, y]) ps)) (InjectReorder a b t))
    \<and> st_chan (a, b) (fold (send_to a b) (concat (map (\<lambda>(x, y). [x, y]) ps)) (InjectReorder a b t))
      = st_chan (a, b) t @ concat (map (\<lambda>(x, y). [y, x]) ps)"
    using reordering_pairs [of a b "InjectReorder a b t" ps] assms(2) by simp
  moreover have "transport_Send a b z u = (Inr (), u\<lparr>st_reorderBuf := gm_set (st_reorderBuf u) (a, b) (Some z)\<rparr>)"
    if "reordering (a, b) u" for u :: "('a, 'b) SimTransport"
    using that by (auto simp: transport_Send_def Let_def reordering_def)
  ultimately show ?thesis by (simp add: Let_def)
qed

theorem transport_reorder_persists_witness:
  "map msg_ID (gm_get [] (st_channels (fold (\<lambda>m t. snd (transport_Send ''P'' ''Q'' m t))
      [hb_msg ''1'' ''P'' [], hb_msg ''2'' ''P'' [], hb_msg ''3'' ''P'' [], hb_msg ''4'' ''P'' []]
      (InjectReorder ''P'' ''Q'' net_demo))) (''P'', ''Q'')) = [''2'', ''1'', ''4'', ''3'']"
  using transport_reorder_persists [OF plain_demo(1), of "[(hb_msg ''1'' ''P'' [], hb_msg ''2'' ''P'' []), (hb_msg ''3'' ''P'' [], hb_msg ''4'' ''P'' [])]"]
  by (simp add: plain_demo(2) ChannelBufferSize_def Let_def hb_msg_def)

end
