(* ===== verification/Transport_Stages.thy ===== *)
theory Transport_Stages
  imports Sim_Transport
begin

text \<open>
  \<^verbatim>\<open>SimTransport.Send\<close> at the granularity of its locks. \<^verbatim>\<open>Send\<close> reads the fault state under the read
  lock, releases it, and acts on what it has read in further critical sections; several goroutines may be
  in \<^verbatim>\<open>Send\<close> for the same channel. Each stage is one access to shared state. Shown: a send that is not
  interfered with is the function \<^const>\<open>transport_Send\<close>; no message is invented or duplicated unless two sends
  take the same buffered message out of the reorder slot; and that two sends can do so.
\<close>

section \<open>The stages\<close>

text \<open>One stage: the next place, or the result of \<^verbatim>\<open>Send\<close>. In the last \<^verbatim>\<open>select\<close> Go picks any ready
  case; \<open>pick_closed\<close> is its choice when the channel has room and the transport has been closed.\<close>

fun send_stage :: "bool \<Rightarrow> 'd send_pc \<Rightarrow> ('d, 'f) SimTransport \<Rightarrow>
    ('d send_pc + (transport_error + unit)) \<times> ('d, 'f) SimTransport" where
  "send_stage pick_closed (Called key m) t =
     (Inl (HasRead \<lparr>call_key = key, call_msg = m, call_ch = (map_of (st_channels t) key \<noteq> None),
        call_drop = gm_get False (st_dropNext t) key, call_delay = gm_get 0 (st_delays t) key,
        call_groups = st_partitionGroups t, call_reorderMsg = gm_get None (st_reorderBuf t) key\<rparr>), t)"
| "send_stage pick_closed (HasRead c) t =
     (let key = call_key c; m = call_msg c
      in if st_closed t then (Inr (Inl TransportClosed), t)
         else if \<not> call_ch c then (Inr (Inl (NoChannel (fst key) (snd key))), t)
         else if call_groups c \<noteq> [] \<and> \<not> inSameGroup (call_groups c) (fst key) (snd key) then (Inr (Inr ()), t)
         else if call_drop c then (Inl (AtDrop key), t)
         else case call_reorderMsg c of
           Some reorderMsg \<Rightarrow> (Inl (AtSwap key m reorderMsg), t)
         | None \<Rightarrow> (Inl (AtCheck key m (call_delay c)), t))"
| "send_stage pick_closed (AtDrop key) t = (Inr (Inr ()), t\<lparr>st_dropNext := gm_set (st_dropNext t) key False\<rparr>)"
| "send_stage pick_closed (AtSwap key m reorderMsg) t =
     (Inl (AtPush key m (Some reorderMsg)), t\<lparr>st_reorderBuf := gm_set (st_reorderBuf t) key None\<rparr>)"
| "send_stage pick_closed (AtCheck key m delay) t =
     (if map_of (st_reorderBuf t) key \<noteq> None then (Inl (AtStore key m), t)
      else if delay > 0 then (Inr (Inr ()), t\<lparr>st_delayed := st_delayed t @ [(key, m)]\<rparr>)
      else (Inl (AtPush key m None), t))"
| "send_stage pick_closed (AtStore key m) t =
     (Inr (Inr ()), t\<lparr>st_reorderBuf := gm_set (st_reorderBuf t) key (Some m)\<rparr>)"
| "send_stage pick_closed (AtPush key m after) t =
     (if st_closed t then (Inr (Inl TransportClosed), t) else (Inl (AtSelect key m after), t))"
| "send_stage pick_closed (AtSelect key m after) t =
     (let ch = gm_get [] (st_channels t) key
      in if length ch < ChannelBufferSize \<and> \<not> (st_closed t \<and> pick_closed)
         then ((case after of None \<Rightarrow> Inr (Inr ()) | Some reorderMsg \<Rightarrow> Inl (AtPush key reorderMsg None)),
               t\<lparr>st_channels := gm_set (st_channels t) key (ch @ [m])\<rparr>)
         else if st_closed t then (Inr (Inl TransportClosed), t)
         else (Inr (Inl ChannelFull), t))"

text \<open>A goroutine enters \<^verbatim>\<open>Send\<close>, and one of those in it takes a step.\<close>

definition call_Send :: "pid \<Rightarrow> pid \<Rightarrow> 'd Message \<Rightarrow> ('d, 'f) SimTransport \<Rightarrow> ('d, 'f) SimTransport" where
  "call_Send from to m t = t\<lparr>st_sending := st_sending t @ [Called (from, to) m]\<rparr>"

inductive sendStage :: "('d, 'f) SimTransport \<Rightarrow> ('d, 'f) SimTransport \<Rightarrow> bool" where
  stage: "st_sending t = xs @ pc # ys \<Longrightarrow> send_stage pick_closed pc t = (r, t') \<Longrightarrow>
    sendStage t (t'\<lparr>st_sending := xs @ (case r of Inl pc' \<Rightarrow> [pc'] | Inr _ \<Rightarrow> []) @ ys\<rparr>)"

subsection \<open>A send without interference\<close>

fun pc_rank :: "'d send_pc \<Rightarrow> nat" where
  "pc_rank (Called key m) = 8"
| "pc_rank (HasRead c) = 7"
| "pc_rank (AtDrop key) = 1"
| "pc_rank (AtSwap key m r) = 6"
| "pc_rank (AtCheck key m d) = 6"
| "pc_rank (AtStore key m) = 1"
| "pc_rank (AtPush key m after) = (if after = None then 3 else 5)"
| "pc_rank (AtSelect key m after) = (if after = None then 2 else 4)"

lemma stage_rank: "send_stage b pc t = (Inl pc', t') \<Longrightarrow> pc_rank pc' < pc_rank pc"
  by (cases pc) (auto simp: Let_def split: if_splits option.splits)

function run_send :: "'d send_pc \<Rightarrow> ('d, 'f) SimTransport \<Rightarrow> (transport_error + unit) \<times> ('d, 'f) SimTransport" where
  "run_send pc t = (case send_stage False pc t of (Inl pc', t') \<Rightarrow> run_send pc' t' | (Inr r, t') \<Rightarrow> (r, t'))"
  by pat_completeness auto
termination
  by (relation "measure (\<lambda>(pc, t). pc_rank pc)") (auto dest: stage_rank [OF sym])

declare run_send.simps [simp del]

lemma run_push: "run_send (AtPush key m None) t = sendToChannel key m t"
  by (simp add: run_send.simps [of "AtPush key m None"] run_send.simps [of "AtSelect key m None"] sendToChannel_def Let_def)

lemma run_swap: "run_send (AtSwap key m r) t = send_swapped key m r t"
  by (simp add: run_send.simps [of "AtSwap key m r"] run_send.simps [of "AtPush key m (Some r)"]
      run_send.simps [of "AtSelect key m (Some r)"] run_push send_swapped_def sendToChannel_def Let_def)

lemma run_check:
  "run_send (AtCheck key m d) t =
     (if map_of (st_reorderBuf t) key \<noteq> None then (Inr (), t\<lparr>st_reorderBuf := gm_set (st_reorderBuf t) key (Some m)\<rparr>)
      else if d > 0 then (Inr (), t\<lparr>st_delayed := st_delayed t @ [(key, m)]\<rparr>)
      else sendToChannel key m t)"
  by (simp add: run_send.simps [of "AtCheck key m d"] run_send.simps [of "AtStore key m"] run_push)

lemma run_call: "run_send (Called (from, to) m) t = transport_Send from to m t"
  by (auto simp: run_send.simps [of "Called (from, to) m"] run_send.simps [of "HasRead _"] run_send.simps [of "AtDrop _"]
      run_swap run_check transport_Send_def Let_def gm_get_def split: option.splits)

lemma stage_sending:
  "send_stage b pc (t\<lparr>st_sending := l\<rparr>) = (fst (send_stage b pc t), (snd (send_stage b pc t))\<lparr>st_sending := l\<rparr>)"
  by (cases pc) (auto simp: Let_def split: option.splits)

lemma stage_keeps_sending: "st_sending (snd (send_stage b pc t)) = st_sending t"
  by (cases pc) (auto simp: Let_def split: option.splits)

text \<open>In the relation: the last goroutine that entered runs to its end.\<close>

lemma run_send_steps:
  "sendStage\<^sup>*\<^sup>* (t\<lparr>st_sending := xs @ [pc]\<rparr>) ((snd (run_send pc t))\<lparr>st_sending := xs\<rparr>)"
proof (induction pc t rule: run_send.induct)
  case (1 pc t)
  obtain r t' where r: "send_stage False pc t = (r, t')" by (cases "send_stage False pc t")
  have step: "sendStage (t\<lparr>st_sending := xs @ [pc]\<rparr>) (t'\<lparr>st_sending := xs @ (case r of Inl pc' \<Rightarrow> [pc'] | Inr _ \<Rightarrow> []) @ []\<rparr>)"
    using sendStage.stage [of "t\<lparr>st_sending := xs @ [pc]\<rparr>" xs pc "[]" False r "t'\<lparr>st_sending := xs @ [pc]\<rparr>"] r
    by (simp add: stage_sending)
  show ?case
  proof (cases r)
    case (Inl pc')
    with 1 [OF r [symmetric], of pc'] step r show ?thesis
      by (simp add: run_send.simps [of pc] converse_rtranclp_into_rtranclp)
  next
    case (Inr x)
    with step r show ?thesis by (simp add: run_send.simps [of pc])
  qed
qed

section \<open>No message is invented or duplicated\<close>

text \<open>The channel of a goroutine in \<^verbatim>\<open>Send\<close>, the messages it is going to pass on, and the buffered
  message it has read and not yet taken out of the slot.\<close>

fun pc_key :: "'d send_pc \<Rightarrow> ChannelKey" where
  "pc_key (Called key m) = key"
| "pc_key (HasRead c) = call_key c"
| "pc_key (AtDrop key) = key"
| "pc_key (AtSwap key m r) = key"
| "pc_key (AtCheck key m d) = key"
| "pc_key (AtStore key m) = key"
| "pc_key (AtPush key m after) = key"
| "pc_key (AtSelect key m after) = key"

fun pc_msgs :: "'d send_pc \<Rightarrow> 'd Message multiset" where
  "pc_msgs (Called key m) = {#m#}"
| "pc_msgs (HasRead c) = {#call_msg c#}"
| "pc_msgs (AtDrop key) = {#}"
| "pc_msgs (AtSwap key m r) = {#m#}"
| "pc_msgs (AtCheck key m d) = {#m#}"
| "pc_msgs (AtStore key m) = {#m#}"
| "pc_msgs (AtPush key m after) = add_mset m (mset_set (set_option after))"
| "pc_msgs (AtSelect key m after) = add_mset m (mset_set (set_option after))"

fun pc_claim :: "'d send_pc \<Rightarrow> 'd Message option" where
  "pc_claim (HasRead c) = call_reorderMsg c"
| "pc_claim (AtSwap key m r) = Some r"
| "pc_claim pc = None"

definition opt_mset :: "'a option \<Rightarrow> 'a multiset" where
  "opt_mset x = (case x of None \<Rightarrow> {#} | Some y \<Rightarrow> {#y#})"

lemma opt_mset_simps [simp]: "opt_mset None = {#}" "opt_mset (Some y) = {#y#}" "mset_set (set_option x) = opt_mset x"
  by (auto simp: opt_mset_def split: option.splits)

text \<open>What is under way on a channel: in its buffer, in delayed sends, with goroutines in \<^verbatim>\<open>Send\<close>; and its slot.\<close>

definition carried :: "ChannelKey \<Rightarrow> 'd send_pc list \<Rightarrow> 'd Message multiset" where
  "carried key pcs = \<Sum>\<^sub># (image_mset pc_msgs (mset (filter (\<lambda>pc. pc_key pc = key) pcs)))"

lemma carried_simps [simp]:
  "carried key [] = {#}"
  "carried key (pc # pcs) = (if pc_key pc = key then pc_msgs pc else {#}) + carried key pcs"
  "carried key (xs @ ys) = carried key xs + carried key ys"
  by (simp_all add: carried_def)

definition in_transit :: "ChannelKey \<Rightarrow> ('d, 'f) SimTransport \<Rightarrow> 'd Message multiset" where
  "in_transit key t = mset (st_chan key t) + image_mset snd (filter_mset (\<lambda>x. fst x = key) (mset (st_delayed t)))
     + carried key (st_sending t)"

definition slot :: "ChannelKey \<Rightarrow> ('d, 'f) SimTransport \<Rightarrow> 'd Message multiset" where
  "slot key t = opt_mset (gm_get None (st_reorderBuf t) key)"

text \<open>The transport with two ghost bags for one channel, everything that was sent on it and everything
  that was forwarded from it, and a note whether a send emptied the slot while another one had read a
  buffered message of the same channel.\<close>

record ('d, 'f) net_sys =
  ns_net :: "('d, 'f) SimTransport"
  ns_tried :: "'d Message multiset"
  ns_forwarded :: "'d Message list"
  ns_raced :: bool

definition swaps_race :: "ChannelKey \<Rightarrow> 'd send_pc \<Rightarrow> 'd send_pc list \<Rightarrow> bool" where
  "swaps_race key pc others \<longleftrightarrow> (case pc of AtSwap k m r \<Rightarrow> k = key | _ \<Rightarrow> False)
     \<and> list_ex (\<lambda>pc'. pc_key pc' = key \<and> pc_claim pc' \<noteq> None) others"

inductive net_step :: "ChannelKey \<Rightarrow> ('d, 'f) net_sys \<Rightarrow> ('d, 'f) net_sys \<Rightarrow> bool" for key where
  call: "net_step key s (s\<lparr>ns_net := call_Send from to m (ns_net s),
      ns_tried := (if (from, to) = key then add_mset m (ns_tried s) else ns_tried s)\<rparr>)"
| stage: "st_sending (ns_net s) = xs @ pc # ys \<Longrightarrow> send_stage pick_closed pc (ns_net s) = (r, t) \<Longrightarrow>
    net_step key s (s\<lparr>ns_net := t\<lparr>st_sending := xs @ (case r of Inl pc' \<Rightarrow> [pc'] | Inr _ \<Rightarrow> []) @ ys\<rparr>,
      ns_raced := ns_raced s \<or> swaps_race key pc (xs @ ys)\<rparr>)"
| forward: "transport_forward k (ns_net s) = Some (m, f, t) \<Longrightarrow>
    net_step key s (s\<lparr>ns_net := t, ns_forwarded := (if k = key then ns_forwarded s @ [m] else ns_forwarded s)\<rparr>)"
| delayed: "sendDelayed (ns_net s) t \<Longrightarrow> net_step key s (s\<lparr>ns_net := t\<rparr>)"
| reg_process: "net_step key s (s\<lparr>ns_net := RegisterProcess p fn (ns_net s)\<rparr>)"
| reg_channel: "net_step key s (s\<lparr>ns_net := RegisterChannel from to (ns_net s)\<rparr>)"
| delay: "net_step key s (s\<lparr>ns_net := InjectDelay from to d (ns_net s)\<rparr>)"
| drop: "net_step key s (s\<lparr>ns_net := InjectDrop from to (ns_net s)\<rparr>)"
| reorder: "net_step key s (s\<lparr>ns_net := InjectReorder from to (ns_net s)\<rparr>)"
| partition: "net_step key s (s\<lparr>ns_net := SetPartition groups (ns_net s)\<rparr>)"
| clear: "net_step key s (s\<lparr>ns_net := ClearFaults (ns_net s)\<rparr>)"
| close: "net_step key s (s\<lparr>ns_net := transport_Close (ns_net s)\<rparr>)"

definition net_init :: "('d, 'f) net_sys" where
  "net_init = \<lparr>ns_net = NewSimTransport, ns_tried = {#}, ns_forwarded = [], ns_raced = False\<rparr>"

definition claims :: "ChannelKey \<Rightarrow> ('d, 'f) SimTransport \<Rightarrow> 'd Message option set" where
  "claims key t = pc_claim ` {pc \<in> set (st_sending t). pc_key pc = key}"

definition chans_fit :: "('d, 'f) SimTransport \<Rightarrow> bool" where
  "chans_fit t \<longleftrightarrow> (\<forall>k. length (st_chan k t) \<le> ChannelBufferSize)"

definition accounted :: "ChannelKey \<Rightarrow> 'd Message list \<Rightarrow> 'd Message multiset \<Rightarrow> ('d, 'f) SimTransport \<Rightarrow> bool" where
  "accounted key fwd tried t \<longleftrightarrow> mset fwd + in_transit key t + slot key t \<subseteq># tried
     \<and> (\<forall>c \<in> claims key t. mset fwd + in_transit key t + opt_mset c \<subseteq># tried)"

definition net_inv :: "ChannelKey \<Rightarrow> ('d, 'f) net_sys \<Rightarrow> bool" where
  "net_inv key s \<longleftrightarrow> (\<not> ns_raced s \<longrightarrow> accounted key (ns_forwarded s) (ns_tried s) (ns_net s)) \<and> chans_fit (ns_net s)"

lemma accounted_mono:
  assumes old: "accounted key fwd tried t"
    and V: "mset fwd' + in_transit key t' \<subseteq># mset fwd + in_transit key t"
    and S: "mset fwd' + in_transit key t' + slot key t' \<subseteq># mset fwd + in_transit key t + slot key t"
    and C: "claims key t' \<subseteq> insert None (insert (gm_get None (st_reorderBuf t) key) (claims key t))"
  shows "accounted key fwd' tried t'"
proof -
  have slot: "mset fwd + in_transit key t + slot key t \<subseteq># tried" using old by (simp add: accounted_def)
  then have "mset fwd + in_transit key t \<subseteq># tried" by (meson mset_subset_eq_add_left subset_mset.order_trans)
  moreover have "mset fwd + in_transit key t + opt_mset c \<subseteq># tried" if "c \<in> claims key t" for c
    using old that by (simp add: accounted_def)
  ultimately have "mset fwd + in_transit key t + opt_mset c \<subseteq># tried" if "c \<in> claims key t'" for c
    using C that slot by (auto simp: slot_def)
  moreover have "mset fwd' + in_transit key t' + X \<subseteq># mset fwd + in_transit key t + X" for X
    using V by (rule subset_mset.add_right_mono)
  ultimately show ?thesis
    using S slot unfolding accounted_def by (blast intro: subset_mset.order_trans)
qed

text \<open>Changes that leave the messages of the channel where they are, or lose some.\<close>

lemma accounted_keep:
  assumes "accounted key fwd tried t" "st_sending t' = st_sending t" "st_channels t' = st_channels t"
    "st_delayed t' = st_delayed t" "slot key t' \<subseteq># slot key t"
  shows "accounted key fwd tried t'"
proof -
  have "in_transit key t' = in_transit key t" "claims key t' = claims key t"
    using assms by (simp_all add: in_transit_def claims_def)
  then show ?thesis using assms(1,5) by (intro accounted_mono [OF assms(1)]) auto
qed

lemma stage_claim:
  "send_stage b pc t = (Inl pc', t') \<Longrightarrow> pc_key pc' = pc_key pc
     \<and> pc_claim pc' \<in> {None, gm_get None (st_reorderBuf t) (pc_key pc), pc_claim pc}"
  by (cases pc) (auto simp: Let_def split: if_splits option.splits)

lemma claims_stage:
  assumes "st_sending t = xs @ pc # ys" "send_stage b pc t = (r, t')"
  shows "claims key (t'\<lparr>st_sending := xs @ (case r of Inl pc' \<Rightarrow> [pc'] | Inr _ \<Rightarrow> []) @ ys\<rparr>)
    \<subseteq> insert None (insert (gm_get None (st_reorderBuf t) key) (claims key t))"
proof
  fix c assume "c \<in> claims key (t'\<lparr>st_sending := xs @ (case r of Inl pc' \<Rightarrow> [pc'] | Inr _ \<Rightarrow> []) @ ys\<rparr>)"
  then obtain x where x: "c = pc_claim x" "pc_key x = key" "x \<in> set xs \<union> set ys \<or> r = Inl x"
    by (auto simp: claims_def split: sum.splits)
  from x(3) show "c \<in> insert None (insert (gm_get None (st_reorderBuf t) key) (claims key t))"
  proof
    assume "x \<in> set xs \<union> set ys"
    then have "c \<in> claims key t" using x(1,2) by (auto simp: claims_def assms(1))
    then show ?thesis by simp
  next
    assume "r = Inl x"
    with stage_claim [of b pc t x t'] assms(2) x(1,2)
    have "pc_key pc = key" "c \<in> {None, gm_get None (st_reorderBuf t) key, pc_claim pc}" by auto
    moreover from this(1) have "pc_claim pc \<in> claims key t" by (auto simp: claims_def assms(1))
    ultimately show ?thesis by auto
  qed
qed

lemma stage_other:
  assumes "send_stage b pc t = (r, t')" "pc_key pc \<noteq> key"
  shows "st_chan key t' = st_chan key t" "slot key t' = slot key t"
    "filter_mset (\<lambda>x. fst x = key) (mset (st_delayed t')) = filter_mset (\<lambda>x. fst x = key) (mset (st_delayed t))"
    "carried key (case r of Inl pc' \<Rightarrow> [pc'] | Inr _ \<Rightarrow> []) = {#}"
  using assms by (cases pc; auto simp: slot_def Let_def split: if_splits option.splits)+

text \<open>Any stage but the one that empties the slot moves messages without adding any.\<close>

lemma stage_own:
  fixes t :: "('d, 'f) SimTransport"
  assumes "send_stage b pc t = (r, t')" "pc_key pc = key" "\<And>m q. pc \<noteq> AtSwap key m q"
  shows "mset (st_chan key t') + image_mset snd (filter_mset (\<lambda>x. fst x = key) (mset (st_delayed t')))
      + carried key (case r of Inl pc' \<Rightarrow> [pc'] | Inr _ \<Rightarrow> [])
    \<subseteq># mset (st_chan key t) + image_mset snd (filter_mset (\<lambda>x. fst x = key) (mset (st_delayed t))) + pc_msgs pc"
    (is "?A \<subseteq># ?B")
    and "mset (st_chan key t') + image_mset snd (filter_mset (\<lambda>x. fst x = key) (mset (st_delayed t')))
      + carried key (case r of Inl pc' \<Rightarrow> [pc'] | Inr _ \<Rightarrow> []) + slot key t'
    \<subseteq># mset (st_chan key t) + image_mset snd (filter_mset (\<lambda>x. fst x = key) (mset (st_delayed t))) + pc_msgs pc + slot key t"
    (is "?C \<subseteq># ?D")
proof -
  have "?A \<subseteq># ?B \<and> ?C \<subseteq># ?D"
  proof (cases pc)
    case (AtSelect k m after)
    with assms(1,2) show ?thesis by (cases after) (auto simp: slot_def Let_def split: if_splits)
  qed (use assms in \<open>auto simp: slot_def Let_def split: if_splits option.splits\<close>)
  then show "?A \<subseteq># ?B" "?C \<subseteq># ?D" by auto
qed

lemma accounted_stage:
  assumes acc: "accounted key fwd tried t" and st: "st_sending t = xs @ pc # ys" and r: "send_stage b pc t = (r, t')"
    and calm: "\<not> swaps_race key pc (xs @ ys)"
  shows "accounted key fwd tried (t'\<lparr>st_sending := xs @ (case r of Inl pc' \<Rightarrow> [pc'] | Inr _ \<Rightarrow> []) @ ys\<rparr>)"
proof -
  let ?t = "t'\<lparr>st_sending := xs @ (case r of Inl pc' \<Rightarrow> [pc'] | Inr _ \<Rightarrow> []) @ ys\<rparr>"
  have slot [simp]: "slot key ?t = slot key t'" by (simp add: slot_def)
  let ?now = "\<lambda>u. mset (st_chan key u) + image_mset snd (filter_mset (\<lambda>x. fst x = key) (mset (st_delayed u)))"
  let ?rest = "carried key (case r of Inl pc' \<Rightarrow> [pc'] | Inr _ \<Rightarrow> [])" and ?others = "carried key xs + carried key ys"
  have old: "in_transit key t = ?now t + (if pc_key pc = key then pc_msgs pc else {#}) + ?others"
    and new: "in_transit key ?t = ?now t' + ?rest + ?others"
    by (simp_all add: in_transit_def st add_ac)
  show ?thesis
  proof (cases "\<exists>m q. pc = AtSwap key m q")
    case False
    have "?now t' + ?rest \<subseteq># ?now t + (if pc_key pc = key then pc_msgs pc else {#})
      \<and> ?now t' + ?rest + slot key t' \<subseteq># ?now t + (if pc_key pc = key then pc_msgs pc else {#}) + slot key t"
    proof (cases "pc_key pc = key")
      case True
      with stage_own [OF r True] False show ?thesis by simp
    qed (simp add: stage_other [OF r])
    then have "in_transit key ?t \<subseteq># in_transit key t" "in_transit key ?t + slot key ?t \<subseteq># in_transit key t + slot key t"
      unfolding old new slot by (auto dest: subset_mset.add_right_mono [of _ _ ?others] simp: add_ac)
    then show ?thesis
      using claims_stage [OF st r, of key]
      by (intro accounted_mono [OF acc]) (auto simp: add.assoc)
  next
    case True
    then obtain m q where pc: "pc = AtSwap key m q" by blast
    have eq: "in_transit key ?t = in_transit key t + {#q#}" "slot key ?t = {#}"
      using r unfolding old new by (auto simp: pc slot_def)
    have "mset fwd + in_transit key t + opt_mset (Some q) \<subseteq># tried"
      using acc unfolding accounted_def claims_def by (auto simp: st pc)
    moreover have "opt_mset c = {#}" if "c \<in> claims key ?t" for c
    proof -
      obtain e where "r = Inl e" "pc_claim e = None" using r by (auto simp: pc)
      with that calm show ?thesis by (auto simp: claims_def swaps_race_def pc list_ex_iff)
    qed
    ultimately show ?thesis unfolding accounted_def eq by (simp add: add.assoc)
  qed
qed

lemma fit_stage: "chans_fit t \<Longrightarrow> send_stage b pc t = (r, t') \<Longrightarrow> chans_fit (t'\<lparr>st_sending := l\<rparr>)"
  by (cases pc) (auto simp: chans_fit_def Let_def split: if_splits option.splits)

lemma fit_other [simp]:
  "chans_fit (t\<lparr>st_reorderBuf := r\<rparr>) = chans_fit t" "chans_fit (t\<lparr>st_dropNext := d\<rparr>) = chans_fit t"
  "chans_fit (t\<lparr>st_delayed := l\<rparr>) = chans_fit t" "chans_fit (t\<lparr>st_delays := x\<rparr>) = chans_fit t"
  "chans_fit (t\<lparr>st_partitionGroups := g\<rparr>) = chans_fit t" "chans_fit (t\<lparr>st_deliver := f\<rparr>) = chans_fit t"
  "chans_fit (t\<lparr>st_closed := c\<rparr>) = chans_fit t" "chans_fit (t\<lparr>st_sending := p\<rparr>) = chans_fit t"
  by (simp_all add: chans_fit_def)

lemma accounted_call:
  assumes "accounted key fwd tried t"
  shows "accounted key fwd (if (from, to) = key then add_mset m tried else tried) (call_Send from to m t)"
proof -
  let ?new = "if (from, to) = key then {#m#} else {#}" and ?t = "call_Send from to m t"
  have V: "mset fwd + in_transit key ?t + X = (mset fwd + in_transit key t + X) + ?new" "slot key ?t = slot key t" for X
    by (simp_all add: in_transit_def call_Send_def slot_def)
  have T: "(if (from, to) = key then add_mset m tried else tried) = tried + ?new" by simp
  have "claims key ?t \<subseteq> insert None (claims key t)"
    by (auto simp: claims_def call_Send_def)
  moreover have "mset fwd + in_transit key t + opt_mset None \<subseteq># tried"
    using assms unfolding accounted_def by (simp, meson mset_subset_eq_add_left subset_mset.order_trans)
  ultimately have "mset fwd + in_transit key t + opt_mset c \<subseteq># tried" if "c \<in> claims key ?t" for c
    using assms that unfolding accounted_def by blast
  then show ?thesis
    using assms unfolding accounted_def T V by (simp add: subset_mset.add_right_mono del: opt_mset_simps)
qed

lemma accounted_forward:
  assumes "accounted key fwd tried t" "transport_forward k t = Some (m, f, t')"
  shows "accounted key (if k = key then fwd @ [m] else fwd) tried t'"
proof -
  obtain ms where q: "st_chan k t = m # ms" "t' = t\<lparr>st_channels := gm_set (st_channels t) k ms\<rparr>"
    using assms(2) by (auto simp: transport_forward_def split: list.splits)
  then have "mset (if k = key then fwd @ [m] else fwd) + in_transit key t' = mset fwd + in_transit key t"
    "claims key t' = claims key t" "slot key t' = slot key t"
    by (auto simp: in_transit_def claims_def slot_def)
  then show ?thesis by (intro accounted_mono [OF assms(1)]) auto
qed

lemma accounted_delayed:
  assumes "accounted key fwd tried t" "sendDelayed t t'"
  shows "accounted key fwd tried t'"
proof -
  have "in_transit key t' \<subseteq># in_transit key t" "claims key t' = claims key t" "slot key t' = slot key t"
    using assms(2) by (auto simp: in_transit_def claims_def slot_def elim!: sendDelayed.cases)
  then show ?thesis by (intro accounted_mono [OF assms(1)]) auto
qed

interpretation net: transition_system "\<lambda>s. s = net_init" "net_step key" "net_inv key" for key
proof unfold_locales
  show "s = net_init \<Longrightarrow> net_inv key s" for s :: "('a, 'b) net_sys"
    by (simp add: net_inv_def net_init_def accounted_def in_transit_def slot_def claims_def chans_fit_def NewSimTransport_def)
  show "net_step key s t \<Longrightarrow> net_inv key s \<Longrightarrow> net_inv key t" for s t :: "('a, 'b) net_sys"
  proof (induction rule: net_step.induct)
    case (call s a b m)
    then have "chans_fit (call_Send a b m (ns_net s))" by (simp add: net_inv_def call_Send_def)
    with call accounted_call [of key "ns_forwarded s" "ns_tried s" "ns_net s" a b m] show ?case by (simp add: net_inv_def)
  next
    case (stage s xs pc ys b r t)
    then show ?case
      using accounted_stage [OF _ stage(1,2)] fit_stage [OF _ stage(2)] by (simp add: net_inv_def)
  next
    case (forward k s m f t)
    then obtain ms where q: "st_chan k (ns_net s) = m # ms" "t = (ns_net s)\<lparr>st_channels := gm_set (st_channels (ns_net s)) k ms\<rparr>"
      by (auto simp: transport_forward_def split: list.splits)
    have "length (st_chan k (ns_net s)) \<le> ChannelBufferSize" using forward(2) unfolding net_inv_def chans_fit_def by blast
    with forward(2) have "chans_fit t" using q by (auto simp: net_inv_def chans_fit_def)
    with forward accounted_forward [OF _ forward(1), of key "ns_forwarded s" "ns_tried s"] show ?case by (simp add: net_inv_def)
  next
    case (delayed s t)
    then have "chans_fit t" by (auto simp: net_inv_def chans_fit_def elim!: sendDelayed.cases split: if_splits)
    with delayed accounted_delayed [OF _ delayed(1), of key "ns_forwarded s" "ns_tried s"] show ?case by (simp add: net_inv_def)
  next
    case (reg_channel s a b)
    have "st_chan k (RegisterChannel a b (ns_net s)) = st_chan k (ns_net s)" for k
      by (auto simp: RegisterChannel_def gm_get_def [of _ "st_channels _"])
    then have "in_transit key (RegisterChannel a b (ns_net s)) = in_transit key (ns_net s)"
      "chans_fit (RegisterChannel a b (ns_net s)) = chans_fit (ns_net s)"
      "claims key (RegisterChannel a b (ns_net s)) = claims key (ns_net s)" "slot key (RegisterChannel a b (ns_net s)) = slot key (ns_net s)"
      by (simp_all add: in_transit_def chans_fit_def) (simp_all add: RegisterChannel_def claims_def slot_def)
    with reg_channel show ?case by (simp add: net_inv_def accounted_def)
  qed (auto simp: net_inv_def RegisterProcess_def InjectDelay_def InjectDrop_def SetPartition_def transport_Close_def
      InjectReorder_def ClearFaults_def slot_def elim!: accounted_keep)
qed

section \<open>Runs\<close>

text \<open>A run of the transport given as a list of operations; \<open>Move i\<close> lets the goroutine at position
  \<open>i\<close> take a step.\<close>

datatype net_op = Register pid pid | Reorder pid pid | DropNext pid pid | Call pid pid "nat Message" | Move nat | Deliver_one ChannelKey

definition move :: "ChannelKey \<Rightarrow> nat \<Rightarrow> (nat, unit) net_sys \<Rightarrow> (nat, unit) net_sys" where
  "move key i s =
     (let t = ns_net s; pcs = st_sending t
      in if i < length pcs then
           (case send_stage False (pcs ! i) t of (r, t') \<Rightarrow>
              s\<lparr>ns_net := t'\<lparr>st_sending := take i pcs @ (case r of Inl pc' \<Rightarrow> [pc'] | Inr _ \<Rightarrow> []) @ drop (Suc i) pcs\<rparr>,
                ns_raced := ns_raced s \<or> swaps_race key (pcs ! i) (take i pcs @ drop (Suc i) pcs)\<rparr>)
         else s)"

fun net_exec :: "ChannelKey \<Rightarrow> net_op \<Rightarrow> (nat, unit) net_sys \<Rightarrow> (nat, unit) net_sys" where
  "net_exec key (Register p q) s = s\<lparr>ns_net := RegisterChannel p q (ns_net s)\<rparr>"
| "net_exec key (Reorder p q) s = s\<lparr>ns_net := InjectReorder p q (ns_net s)\<rparr>"
| "net_exec key (DropNext p q) s = s\<lparr>ns_net := InjectDrop p q (ns_net s)\<rparr>"
| "net_exec key (Call p q m) s = s\<lparr>ns_net := call_Send p q m (ns_net s),
     ns_tried := (if (p, q) = key then add_mset m (ns_tried s) else ns_tried s)\<rparr>"
| "net_exec key (Move i) s = move key i s"
| "net_exec key (Deliver_one k) s =
     (case transport_forward k (ns_net s) of None \<Rightarrow> s
      | Some (m, f, t) \<Rightarrow> s\<lparr>ns_net := t, ns_forwarded := (if k = key then ns_forwarded s @ [m] else ns_forwarded s)\<rparr>)"

definition net_run :: "ChannelKey \<Rightarrow> net_op list \<Rightarrow> (nat, unit) net_sys" where
  "net_run key ops = fold (net_exec key) ops net_init"

lemma net_exec_steps: "(net_step key)\<^sup>*\<^sup>* s (net_exec key op s)"
proof (cases op)
  case (Move i)
  show ?thesis
  proof (cases "i < length (st_sending (ns_net s))")
    case True
    let ?pcs = "st_sending (ns_net s)"
    obtain r t' where r: "send_stage False (?pcs ! i) (ns_net s) = (r, t')" by (cases "send_stage False (?pcs ! i) (ns_net s)")
    have "net_step key s (net_exec key op s)"
      using net_step.stage [OF id_take_nth_drop [OF True] r, of key] Move r True by (simp add: move_def Let_def)
    then show ?thesis by (rule r_into_rtranclp)
  qed (simp add: Move move_def Let_def)
next
  case (Deliver_one k)
  show ?thesis
  proof (cases "transport_forward k (ns_net s)")
    case (Some x)
    then obtain m f t where "transport_forward k (ns_net s) = Some (m, f, t)" by (cases x) auto
    with net_step.forward [OF this, of key] Deliver_one show ?thesis by auto
  qed (simp add: Deliver_one)
next
  case (Call p q m)
  then show ?thesis using net_step.call [of key s p q m] by (simp add: r_into_rtranclp)
qed (auto intro: net_step.intros)

lemma net_run_reachable: "(net_step key)\<^sup>*\<^sup>* net_init (net_run key ops)"
proof -
  have "(net_step key)\<^sup>*\<^sup>* s (fold (net_exec key) ops s)" for s
    by (induction ops arbitrary: s) (auto intro: rtranclp_trans net_exec_steps)
  then show ?thesis by (simp add: net_run_def)
qed

section \<open>Properties\<close>

text \<open>
  The stages of \<^verbatim>\<open>Send\<close>, run without interference by other goroutines, are the function
  \<^verbatim>\<open>transport_Send\<close> that the rest of the model uses: same result, same state; and the goroutines in
  \<^verbatim>\<open>Send\<close> can always run in this way, so a call of \<^verbatim>\<open>Send\<close> never blocks.
\<close>

theorem transport_Send_stages:
  "run_send (Called (from, to) m) t = transport_Send from to m t
   \<and> sendStage\<^sup>*\<^sup>* (call_Send from to m t) ((snd (transport_Send from to m t))\<lparr>st_sending := st_sending t\<rparr>)"
proof -
  have "sendStage\<^sup>*\<^sup>* (t\<lparr>st_sending := st_sending t @ [Called (from, to) m]\<rparr>)
      ((snd (run_send (Called (from, to) m) t))\<lparr>st_sending := st_sending t\<rparr>)" by (rule run_send_steps)
  then show ?thesis by (simp add: run_call call_Send_def)
qed

text \<open>
  C12: the transport neither invents nor duplicates messages. Whatever is sent by any number of
  goroutines, delayed, dropped, reordered, partitioned, cleared or closed, in any interleaving of the
  stages of the sends: unless a send empties the reorder slot of the channel while another one
  has read a buffered message of it, the messages forwarded from the channel together with those
  in its buffer, in delayed and unfinished sends and in the reorder slot are among those that were
  sent on it, counted with multiplicity. No buffer ever exceeds its capacity.
\<close>

theorem transport_no_duplication:
  assumes "(net_step key)\<^sup>*\<^sup>* net_init s"
  shows "(\<not> ns_raced s \<longrightarrow> mset (ns_forwarded s) + in_transit key (ns_net s) + slot key (ns_net s) \<subseteq># ns_tried s)
    \<and> (\<forall>k. length (gm_get [] (st_channels (ns_net s)) k) \<le> ChannelBufferSize)"
  using net.inv_reachable [OF refl assms] by (simp add: net_inv_def accounted_def chans_fit_def)

definition swap_ops :: "net_op list" where
  "swap_ops = [Register ''P'' ''Q'', Reorder ''P'' ''Q'', Call ''P'' ''Q'' (hb_msg ''1'' ''P'' []), Move 0, Move 0, Move 0, Move 0,
     Call ''P'' ''Q'' (hb_msg ''2'' ''P'' []), Move 0, Move 0, Move 0, Move 0, Move 0, Move 0, Move 0, Deliver_one (''P'', ''Q'')]"

theorem transport_no_duplication_witness:
  "map msg_ID (ns_forwarded (net_run (''P'', ''Q'') swap_ops)) = [''2'']
   \<and> mset (ns_forwarded (net_run (''P'', ''Q'') swap_ops)) + in_transit (''P'', ''Q'') (ns_net (net_run (''P'', ''Q'') swap_ops))
       + slot (''P'', ''Q'') (ns_net (net_run (''P'', ''Q'') swap_ops)) \<subseteq># ns_tried (net_run (''P'', ''Q'') swap_ops)"
proof -
  have "map msg_ID (ns_forwarded (net_run (''P'', ''Q'') swap_ops)) = [''2'']"
    "\<not> ns_raced (net_run (''P'', ''Q'') swap_ops)" by code_simp+
  with transport_no_duplication [OF net_run_reachable] show ?thesis by blast
qed

text \<open>
  Two sends can take the same buffered message. After an injected reordering one message waits in the
  slot; two goroutines enter \<^verbatim>\<open>Send\<close> and both read it under the read lock before either of them
  empties the slot, and both send it after their own: the first message is delivered twice.
\<close>

definition duplicate_ops :: "net_op list" where
  "duplicate_ops = [Register ''P'' ''Q'', Reorder ''P'' ''Q'', Call ''P'' ''Q'' (hb_msg ''1'' ''P'' []), Move 0, Move 0, Move 0, Move 0,
     Call ''P'' ''Q'' (hb_msg ''2'' ''P'' []), Call ''P'' ''Q'' (hb_msg ''3'' ''P'' []), Move 0, Move 1,
     Move 0, Move 0, Move 0, Move 0, Move 0, Move 0, Move 0, Move 0, Move 0, Move 0, Move 0, Move 0,
     Deliver_one (''P'', ''Q''), Deliver_one (''P'', ''Q''), Deliver_one (''P'', ''Q''), Deliver_one (''P'', ''Q'')]"

theorem transport_duplicates_buffered_message:
  "(net_step (''P'', ''Q''))\<^sup>*\<^sup>* net_init (net_run (''P'', ''Q'') duplicate_ops)
   \<and> map msg_ID (ns_forwarded (net_run (''P'', ''Q'') duplicate_ops)) = [''2'', ''1'', ''3'', ''1'']"
proof
  show "map msg_ID (ns_forwarded (net_run (''P'', ''Q'') duplicate_ops)) = [''2'', ''1'', ''3'', ''1'']" by code_simp
qed (rule net_run_reachable)

text \<open>
  One injected drop can lose several messages: the flag is read under one lock and cleared under
  another, so two sends that both read it are both dropped, although \<^verbatim>\<open>InjectDrop\<close> announces the next
  message only.
\<close>

definition double_drop_ops :: "net_op list" where
  "double_drop_ops = [Register ''P'' ''Q'', DropNext ''P'' ''Q'', Call ''P'' ''Q'' (hb_msg ''1'' ''P'' []), Call ''P'' ''Q'' (hb_msg ''2'' ''P'' []),
     Move 0, Move 1, Move 0, Move 0, Move 0, Move 0]"

theorem transport_drops_twice:
  "(net_step (''P'', ''Q''))\<^sup>*\<^sup>* net_init (net_run (''P'', ''Q'') double_drop_ops)
   \<and> st_sending (ns_net (net_run (''P'', ''Q'') double_drop_ops)) = []
   \<and> in_transit (''P'', ''Q'') (ns_net (net_run (''P'', ''Q'') double_drop_ops)) = {#}
   \<and> size (ns_tried (net_run (''P'', ''Q'') double_drop_ops)) = 2"
proof -
  let ?n = "ns_net (net_run (''P'', ''Q'') double_drop_ops)"
  have e: "st_sending ?n = []" "gm_get [] (st_channels ?n) (''P'', ''Q'') = []" "st_delayed ?n = []" by code_simp+
  then have "in_transit (''P'', ''Q'') ?n = {#}" by (simp add: in_transit_def)
  moreover have "ns_tried (net_run (''P'', ''Q'') double_drop_ops) = {#hb_msg ''1'' ''P'' [], hb_msg ''2'' ''P'' []#}" by code_simp
  ultimately show ?thesis using net_run_reachable e(1) by simp
qed

end
