(* ===== verification/Snapshot_Coord.thy ===== *)
theory Snapshot_Coord
  imports Vector_Clock
begin

text \<open>
  \<^verbatim>\<open>internal/snapshot/chandy_lamport.go\<close>: the coordinator of Chandy-Lamport snapshots. The
  local state of a process, an \<^verbatim>\<open>interface{}\<close>, is an element of \<open>'s\<close> (\<open>None\<close> for nil). The
  callbacks work on the world \<open>'w\<close> outside the coordinator (transport and bus), which
  every operation passes along. The locks make each operation one step.
\<close>

section \<open>Data\<close>

datatype SnapshotRole = NotParticipating | Initiator | Participant | Done

record 'd SnapMessage =
  sm_ID :: string
  sm_From :: pid
  sm_To :: pid
  sm_Data :: "'d option"
  sm_IsMarker :: bool
  sm_SnapshotID :: string
  sm_SenderVC :: vclock

record 'd ChannelState =
  chs_From :: pid
  chs_Messages :: "'d SnapMessage list"
  chs_Finalized :: bool

record ('d, 's) LocalSnapshot =
  ls_ProcessID :: pid
  ls_LocalState :: "'s option"
  ls_RecordedChans :: "(pid, 'd ChannelState) gomap"
  ls_Finalized :: bool
  ls_SnapshotID :: string
  ls_SnapshotTime :: int

record ('d, 's) GlobalSnapshot =
  gs_SnapshotID :: string
  gs_InitiatorID :: pid
  gs_StartTime :: int
  gs_LocalStates :: "(pid, ('d, 's) LocalSnapshot) gomap"
  gs_Complete :: bool

record ('d, 's) procSnapState =
  pss_role :: SnapshotRole
  pss_localState :: "'s option"
  pss_recordedChans :: "(pid, 'd ChannelState) gomap"

record ('d, 's) processSnapshot =
  psn_peers :: "pid list"
  psn_perSnap :: "(string, ('d, 's) procSnapState) gomap"

record ('d, 's) SnapshotCoordinator =
  sc_snapshots :: "(string, ('d, 's) GlobalSnapshot) gomap"
  sc_procStates :: "(pid, ('d, 's) processSnapshot) gomap"

text \<open>The callbacks; the coordinator checks only \<open>onComplete\<close> for nil.\<close>

record ('d, 's, 'w) snap_callbacks =
  onSendMarker :: "pid \<Rightarrow> pid \<Rightarrow> string \<Rightarrow> 'w \<Rightarrow> 'w"
  onCaptureState :: "pid \<Rightarrow> 'w \<Rightarrow> 's option"
  onComplete :: "(string \<Rightarrow> ('d, 's) GlobalSnapshot \<Rightarrow> 'w \<Rightarrow> 'w) option"

section \<open>Global snapshots\<close>

definition gs_Done :: "('d, 's) GlobalSnapshot \<Rightarrow> bool" where
  "gs_Done gs = gs_Complete gs"

definition gs_IsComplete :: "pid list \<Rightarrow> ('d, 's) GlobalSnapshot \<Rightarrow> bool" where
  "gs_IsComplete expectedProcesses gs =
     list_all (\<lambda>p. case map_of (gs_LocalStates gs) p of None \<Rightarrow> False | Some ls \<Rightarrow> ls_Finalized ls) expectedProcesses"

definition copyChannelStates :: "(pid, 'd ChannelState) gomap \<Rightarrow> (pid, 'd ChannelState) gomap" where
  "copyChannelStates m =
     gm_fold (\<lambda>k v result. gm_set result k \<lparr>chs_From = chs_From v, chs_Messages = chs_Messages v, chs_Finalized = chs_Finalized v\<rparr>) m []"

section \<open>Operations of the coordinator\<close>

definition NewCoordinator :: "('d, 's) SnapshotCoordinator" where
  "NewCoordinator = \<lparr>sc_snapshots = [], sc_procStates = []\<rparr>"

definition getProcessState :: "pid \<Rightarrow> ('d, 's) SnapshotCoordinator \<Rightarrow> ('d, 's) processSnapshot option" where
  "getProcessState p c = map_of (sc_procStates c) p"

definition snap_RegisterProcess :: "pid \<Rightarrow> pid list \<Rightarrow> ('d, 's) SnapshotCoordinator \<Rightarrow> ('d, 's) SnapshotCoordinator" where
  "snap_RegisterProcess p peers c =
     (let states = gm_set (sc_procStates c) p \<lparr>psn_peers = peers, psn_perSnap = []\<rparr>
      in c\<lparr>sc_procStates := gm_fold (\<lambda>q ps r.
             if q = p then r
             else if p \<in> set (psn_peers ps) then r
             else gm_set r q (ps\<lparr>psn_peers := psn_peers ps @ [p]\<rparr>)) states states\<rparr>)"

definition DeregisterProcess :: "pid \<Rightarrow> ('d, 's) SnapshotCoordinator \<Rightarrow> ('d, 's) SnapshotCoordinator" where
  "DeregisterProcess p c =
     (let states = gm_del (sc_procStates c) p
      in c\<lparr>sc_procStates := gm_fold (\<lambda>q ps r. gm_set r q (ps\<lparr>psn_peers := filter (\<lambda>x. x \<noteq> p) (psn_peers ps)\<rparr>)) states states\<rparr>)"

definition open_channel :: "pid \<Rightarrow> 'd ChannelState" where
  "open_channel p = \<lparr>chs_From = p, chs_Messages = [], chs_Finalized = False\<rparr>"

definition closed_channel :: "pid \<Rightarrow> 'd ChannelState" where
  "closed_channel p = \<lparr>chs_From = p, chs_Messages = [], chs_Finalized = True\<rparr>"

definition put_state :: "pid \<Rightarrow> ('d, 's) processSnapshot \<Rightarrow> ('d, 's) SnapshotCoordinator \<Rightarrow> ('d, 's) SnapshotCoordinator" where
  "put_state p ps c = c\<lparr>sc_procStates := gm_set (sc_procStates c) p ps\<rparr>"

text \<open>
  \<^verbatim>\<open>InitiateSnapshot\<close> in the three stages its locks separate: the entry for the snapshot is
  created; the initiator's state is captured; then, under the process's snapshot lock, recording
  starts and the markers are sent. The result is the error case \<open>None\<close> (process not registered)
  or the snapshot's identifier.
\<close>

definition snap_create :: "nat \<Rightarrow> int \<Rightarrow> pid \<Rightarrow> ('d, 's) SnapshotCoordinator \<Rightarrow> string \<times> ('d, 's) SnapshotCoordinator" where
  "snap_create nano now initiatorID c =
     (let snapshotID = ''snap-'' @ dec nano;
          gs = \<lparr>gs_SnapshotID = snapshotID, gs_InitiatorID = initiatorID, gs_StartTime = now,
                gs_LocalStates = [], gs_Complete = False\<rparr>
      in (snapshotID, c\<lparr>sc_snapshots := gm_set (sc_snapshots c) snapshotID gs\<rparr>))"

definition snap_begin :: "('d, 's, 'w) snap_callbacks \<Rightarrow> string \<Rightarrow> pid \<Rightarrow> 's option \<Rightarrow> ('d, 's) processSnapshot \<Rightarrow>
    ('d, 's) SnapshotCoordinator \<times> 'w \<Rightarrow> ('d, 's) SnapshotCoordinator \<times> 'w" where
  "snap_begin cb snapshotID initiatorID localState ps = (\<lambda>(c, w).
     let state = \<lparr>pss_role = Initiator, pss_localState = localState,
                  pss_recordedChans = fold (\<lambda>peer r. gm_set r peer (open_channel peer)) (psn_peers ps) []\<rparr>;
         ps' = ps\<lparr>psn_perSnap := gm_set (psn_perSnap ps) snapshotID state\<rparr>
     in (put_state initiatorID ps' c,
         fold (\<lambda>peer w. onSendMarker cb initiatorID peer snapshotID w) (psn_peers ps) w))"

definition InitiateSnapshot :: "('d, 's, 'w) snap_callbacks \<Rightarrow> nat \<Rightarrow> int \<Rightarrow> pid \<Rightarrow> ('d, 's) SnapshotCoordinator \<times> 'w \<Rightarrow>
    string option \<times> ('d, 's) SnapshotCoordinator \<times> 'w" where
  "InitiateSnapshot cb nano now initiatorID = (\<lambda>(c, w).
     case snap_create nano now initiatorID c of (snapshotID, c1) \<Rightarrow>
       case getProcessState initiatorID c1 of
         None \<Rightarrow> (None, c1, w)
       | Some ps \<Rightarrow>
           let localState = onCaptureState cb initiatorID w
           in (Some snapshotID, snap_begin cb snapshotID initiatorID localState ps (c1, w)))"

lemmas initiate_defs = InitiateSnapshot_def snap_create_def snap_begin_def

definition all_finalized :: "pid list \<Rightarrow> (pid, 'd ChannelState) gomap \<Rightarrow> bool" where
  "all_finalized peers chans =
     list_all (\<lambda>peer. case map_of chans peer of None \<Rightarrow> False | Some cs \<Rightarrow> chs_Finalized cs) peers"

definition checkFinalized :: "('d, 's, 'w) snap_callbacks \<Rightarrow> int \<Rightarrow> string \<Rightarrow> pid \<Rightarrow> ('d, 's) SnapshotCoordinator \<times> 'w \<Rightarrow>
    ('d, 's) SnapshotCoordinator \<times> 'w" where
  "checkFinalized cb now snapshotID p = (\<lambda>(c, w).
     case getProcessState p c of
       None \<Rightarrow> (c, w)
     | Some ps \<Rightarrow>
        (case map_of (psn_perSnap ps) snapshotID of
           None \<Rightarrow> (c, w)
         | Some state \<Rightarrow>
             if pss_role state \<noteq> Done \<and> \<not> all_finalized (psn_peers ps) (pss_recordedChans state) then (c, w)
             else
               let state' = state\<lparr>pss_role := Done\<rparr>;
                   c1 = put_state p (ps\<lparr>psn_perSnap := gm_set (psn_perSnap ps) snapshotID state'\<rparr>) c;
                   ls = \<lparr>ls_ProcessID = p, ls_LocalState = pss_localState state',
                         ls_RecordedChans = copyChannelStates (pss_recordedChans state'), ls_Finalized = True,
                         ls_SnapshotID = snapshotID, ls_SnapshotTime = now\<rparr>
               in case map_of (sc_snapshots c1) snapshotID of
                    None \<Rightarrow> (c1, w)
                  | Some gs \<Rightarrow>
                      let gs1 = gs\<lparr>gs_LocalStates := gm_set (gs_LocalStates gs) p ls\<rparr>
                      in if gs_IsComplete (gm_keys (sc_procStates c1)) gs1
                         then let gs2 = gs1\<lparr>gs_Complete := True\<rparr>
                              in (c1\<lparr>sc_snapshots := gm_set (sc_snapshots c1) snapshotID gs2\<rparr>,
                                  case onComplete cb of None \<Rightarrow> w | Some f \<Rightarrow> f snapshotID gs2 w)
                         else (c1\<lparr>sc_snapshots := gm_set (sc_snapshots c1) snapshotID gs1\<rparr>, w)))"

text \<open>
  The three branches of \<^verbatim>\<open>OnMarkerReceived\<close> on the process's own state for the snapshot.
\<close>

definition first_marker :: "pid \<Rightarrow> 's option \<Rightarrow> pid list \<Rightarrow> ('d, 's) procSnapState \<Rightarrow> ('d, 's) procSnapState" where
  "first_marker from captured peers state =
     state\<lparr>pss_role := Participant, pss_localState := captured,
       pss_recordedChans := fold (\<lambda>peer r. if peer \<noteq> from \<and> map_of r peer = None then gm_set r peer (open_channel peer) else r)
         peers (gm_set (pss_recordedChans state) from (closed_channel from))\<rparr>"

definition next_marker :: "pid \<Rightarrow> pid list \<Rightarrow> ('d, 's) procSnapState \<Rightarrow> ('d, 's) procSnapState" where
  "next_marker from peers state =
     (let chans = (case map_of (pss_recordedChans state) from of
                     Some cs \<Rightarrow> gm_set (pss_recordedChans state) from (cs\<lparr>chs_Finalized := True\<rparr>)
                   | None \<Rightarrow> gm_set (pss_recordedChans state) from (closed_channel from));
          state' = state\<lparr>pss_recordedChans := chans\<rparr>
      in if all_finalized peers chans then state'\<lparr>pss_role := Done\<rparr> else state')"

definition OnMarkerReceived :: "('d, 's, 'w) snap_callbacks \<Rightarrow> int \<Rightarrow> pid \<Rightarrow> pid \<Rightarrow> string \<Rightarrow> 's option \<Rightarrow>
    ('d, 's) SnapshotCoordinator \<times> 'w \<Rightarrow> ('d, 's) SnapshotCoordinator \<times> 'w" where
  "OnMarkerReceived cb now p from snapshotID capturedState = (\<lambda>(c, w).
     case getProcessState p c of
       None \<Rightarrow> (c, w)
     | Some ps \<Rightarrow>
         let state = (case map_of (psn_perSnap ps) snapshotID of
                        Some st \<Rightarrow> st
                      | None \<Rightarrow> \<lparr>pss_role = NotParticipating, pss_localState = None, pss_recordedChans = []\<rparr>);
             store = (\<lambda>st. put_state p (ps\<lparr>psn_perSnap := gm_set (psn_perSnap ps) snapshotID st\<rparr>) c)
         in case pss_role state of
              NotParticipating \<Rightarrow>
                checkFinalized cb now snapshotID p
                  (store (first_marker from capturedState (psn_peers ps) state),
                   fold (\<lambda>peer w. onSendMarker cb p peer snapshotID w) (psn_peers ps) w)
            | Done \<Rightarrow> (store state, w)
            | _ \<Rightarrow> checkFinalized cb now snapshotID p (store (next_marker from (psn_peers ps) state), w))"

definition RecordMessage :: "string \<Rightarrow> pid \<Rightarrow> pid \<Rightarrow> 'd SnapMessage \<Rightarrow> ('d, 's) SnapshotCoordinator \<Rightarrow> ('d, 's) SnapshotCoordinator" where
  "RecordMessage snapshotID p from m c =
     (case getProcessState p c of
        None \<Rightarrow> c
      | Some ps \<Rightarrow>
         (case map_of (psn_perSnap ps) snapshotID of
            None \<Rightarrow> c
          | Some state \<Rightarrow>
             (case map_of (pss_recordedChans state) from of
                None \<Rightarrow> c
              | Some cs \<Rightarrow>
                  if chs_Finalized cs then c
                  else put_state p (ps\<lparr>psn_perSnap := gm_set (psn_perSnap ps) snapshotID
                         (state\<lparr>pss_recordedChans := gm_set (pss_recordedChans state) from
                            (cs\<lparr>chs_Messages := chs_Messages cs @ [m]\<rparr>)\<rparr>)\<rparr>) c)))"

definition snap_GetSnapshot :: "string \<Rightarrow> ('d, 's) SnapshotCoordinator \<Rightarrow> ('d, 's) GlobalSnapshot option" where
  "snap_GetSnapshot snapshotID c = map_of (sc_snapshots c) snapshotID"

definition GetActiveSnapshotIDs :: "pid \<Rightarrow> ('d, 's) SnapshotCoordinator \<Rightarrow> string list" where
  "GetActiveSnapshotIDs p c =
     (case getProcessState p c of
        None \<Rightarrow> []
      | Some ps \<Rightarrow> map fst (filter (\<lambda>(sid, state). pss_role state \<noteq> NotParticipating \<and> pss_role state \<noteq> Done)
                     (gm_range (psn_perSnap ps))))"

section \<open>The serialisable view\<close>

record 'd ChannelDTO =
  cd_From :: pid
  cd_Messages :: "'d SnapMessage list"
  cd_Finalized :: bool

record ('d, 's) LocalSnapshotDTO =
  ld_ProcessID :: pid
  ld_LocalState :: "'s option"
  ld_RecordedChans :: "(pid, 'd ChannelDTO) gomap"
  ld_Finalized :: bool
  ld_SnapshotID :: string
  ld_SnapshotTime :: int

record ('d, 's) SnapshotDTO =
  sd_SnapshotID :: string
  sd_InitiatorID :: pid
  sd_StartTime :: int
  sd_Complete :: bool
  sd_LocalStates :: "(pid, ('d, 's) LocalSnapshotDTO) gomap"

definition ls_toDTO :: "('d, 's) LocalSnapshot \<Rightarrow> ('d, 's) LocalSnapshotDTO" where
  "ls_toDTO ls =
     (let chans = gm_fold (\<lambda>k v r. gm_set r k \<lparr>cd_From = chs_From v, cd_Messages = chs_Messages v, cd_Finalized = chs_Finalized v\<rparr>)
                    (ls_RecordedChans ls) []
      in \<lparr>ld_ProcessID = ls_ProcessID ls, ld_LocalState = ls_LocalState ls, ld_RecordedChans = chans,
          ld_Finalized = ls_Finalized ls, ld_SnapshotID = ls_SnapshotID ls, ld_SnapshotTime = ls_SnapshotTime ls\<rparr>)"

definition gs_ToDTO :: "('d, 's) GlobalSnapshot \<Rightarrow> ('d, 's) SnapshotDTO" where
  "gs_ToDTO gs =
     \<lparr>sd_SnapshotID = gs_SnapshotID gs, sd_InitiatorID = gs_InitiatorID gs, sd_StartTime = gs_StartTime gs,
      sd_Complete = gs_Complete gs,
      sd_LocalStates = gm_fold (\<lambda>p ls r. gm_set r p (ls_toDTO ls)) (gs_LocalStates gs) []\<rparr>"

section \<open>Runs of the coordinator\<close>

datatype ('d, 's) snap_op =
    MarkerOp pid pid string "'s option" int  \<comment> \<open>a marker from the second process handled by the first\<close>
  | RecordOp string pid pid "'d SnapMessage"

fun snap_step :: "('d, 's, 'w) snap_callbacks \<Rightarrow> ('d, 's) snap_op \<Rightarrow> ('d, 's) SnapshotCoordinator \<times> 'w \<Rightarrow>
    ('d, 's) SnapshotCoordinator \<times> 'w" where
  "snap_step cb (MarkerOp p from sid cap now) s = OnMarkerReceived cb now p from sid cap s"
| "snap_step cb (RecordOp sid p from m) s = (RecordMessage sid p from m (fst s), snd s)"

definition snap_run :: "('d, 's, 'w) snap_callbacks \<Rightarrow> ('d, 's) snap_op list \<Rightarrow> ('d, 's) SnapshotCoordinator \<times> 'w \<Rightarrow>
    ('d, 's) SnapshotCoordinator \<times> 'w" where
  "snap_run cb ops s = fold (snap_step cb) ops s"

text \<open>\<open>marks q p sid op\<close>: the step handles at \<open>p\<close> the marker of \<open>q\<close> for the snapshot.\<close>

fun marks :: "pid \<Rightarrow> pid \<Rightarrow> string \<Rightarrow> ('d, 's) snap_op \<Rightarrow> bool" where
  "marks q p sid (MarkerOp p' from sid' cap now) \<longleftrightarrow> p' = p \<and> from = q \<and> sid' = sid"
| "marks q p sid (RecordOp sid' p' from m) \<longleftrightarrow> False"

fun marked :: "pid \<Rightarrow> string \<Rightarrow> ('d, 's) snap_op \<Rightarrow> bool" where
  "marked p sid (MarkerOp p' from sid' cap now) \<longleftrightarrow> p' = p \<and> sid' = sid"
| "marked p sid (RecordOp sid' p' from m) \<longleftrightarrow> False"

text \<open>The messages offered for recording on the channel from \<open>q\<close> to \<open>p\<close>.\<close>

fun offered :: "pid \<Rightarrow> pid \<Rightarrow> string \<Rightarrow> ('d, 's) snap_op list \<Rightarrow> 'd SnapMessage list" where
  "offered q p sid [] = []"
| "offered q p sid (RecordOp sid' p' from m # ops) =
     (if p' = p \<and> from = q \<and> sid' = sid then m # offered q p sid ops else offered q p sid ops)"
| "offered q p sid (MarkerOp p' from sid' cap now # ops) = offered q p sid ops"

lemma marks_marked: "marks q p sid op \<Longrightarrow> marked p sid op"
  by (cases op) auto

lemma snap_run_Nil [simp]: "snap_run cb [] s = s"
  and snap_run_Cons [simp]: "snap_run cb (op # ops) s = snap_run cb ops (snap_step cb op s)"
  and snap_run_append: "snap_run cb (xs @ ys) s = snap_run cb ys (snap_run cb xs s)"
  by (simp_all add: snap_run_def)

section \<open>What a step changes\<close>

definition peers_of :: "pid \<Rightarrow> ('d, 's) SnapshotCoordinator \<Rightarrow> pid list option" where
  "peers_of p c = map_option psn_peers (getProcessState p c)"

definition pstate :: "string \<Rightarrow> pid \<Rightarrow> ('d, 's) SnapshotCoordinator \<Rightarrow> ('d, 's) procSnapState option" where
  "pstate sid p c = (case getProcessState p c of None \<Rightarrow> None | Some ps \<Rightarrow> map_of (psn_perSnap ps) sid)"

lemma getProcessState_put [simp]:
  "getProcessState q (put_state p ps c) = (if q = p then Some ps else getProcessState q c)"
  by (simp add: getProcessState_def put_state_def)

lemma sc_snapshots_put [simp]: "sc_snapshots (put_state p ps c) = sc_snapshots c"
  by (simp add: put_state_def)

lemma getProcessState_snapshots [simp]: "getProcessState q (c\<lparr>sc_snapshots := x\<rparr>) = getProcessState q c"
  by (simp add: getProcessState_def)

text \<open>What \<^verbatim>\<open>checkFinalized\<close> does to the state of the process and to the global snapshot.\<close>

definition settle :: "pid list \<Rightarrow> ('d, 's) procSnapState \<Rightarrow> ('d, 's) procSnapState" where
  "settle peers st =
     (if pss_role st \<noteq> Done \<and> \<not> all_finalized peers (pss_recordedChans st) then st else st\<lparr>pss_role := Done\<rparr>)"

definition reported :: "int \<Rightarrow> string \<Rightarrow> pid \<Rightarrow> ('d, 's) procSnapState \<Rightarrow> ('d, 's) LocalSnapshot" where
  "reported now sid p st = \<lparr>ls_ProcessID = p, ls_LocalState = pss_localState st,
     ls_RecordedChans = copyChannelStates (pss_recordedChans st), ls_Finalized = True,
     ls_SnapshotID = sid, ls_SnapshotTime = now\<rparr>"

definition gs_report :: "pid list \<Rightarrow> ('d, 's) LocalSnapshot \<Rightarrow> ('d, 's) GlobalSnapshot \<Rightarrow> ('d, 's) GlobalSnapshot" where
  "gs_report procs ls gs =
     (let gs1 = gs\<lparr>gs_LocalStates := gm_set (gs_LocalStates gs) (ls_ProcessID ls) ls\<rparr>
      in if gs_IsComplete procs gs1 then gs1\<lparr>gs_Complete := True\<rparr> else gs1)"

lemma gs_IsComplete_cong:
  "set xs = set ys \<Longrightarrow> gs_IsComplete xs gs = gs_IsComplete ys gs"
  by (simp add: gs_IsComplete_def list_all_iff)

lemma gs_report_cong: "set xs = set ys \<Longrightarrow> gs_report xs ls gs = gs_report ys ls gs"
  by (simp add: gs_report_def Let_def cong: gs_IsComplete_cong)

lemma set_registered: "set (gm_keys (sc_procStates c)) = {p. getProcessState p c \<noteq> None}"
  by (auto simp: getProcessState_def)

lemma checkFinalized_effect:
  assumes ps: "getProcessState p c = Some ps" and st: "map_of (psn_perSnap ps) sid = Some st"
    and c': "c' = fst (checkFinalized cb now sid p (c, w))"
  shows "getProcessState q c' = (if q = p \<and> pss_role (settle (psn_peers ps) st) = Done
        then Some (ps\<lparr>psn_perSnap := gm_set (psn_perSnap ps) sid (settle (psn_peers ps) st)\<rparr>) else getProcessState q c)"
    and "snap_GetSnapshot s c' = (if s = sid \<and> pss_role (settle (psn_peers ps) st) = Done
        then map_option (gs_report (gm_keys (sc_procStates c)) (reported now sid p st)) (snap_GetSnapshot s c)
        else snap_GetSnapshot s c)"
proof -
  define st' where "st' = st\<lparr>pss_role := Done\<rparr>"
  define c1 where "c1 = put_state p (ps\<lparr>psn_perSnap := gm_set (psn_perSnap ps) sid st'\<rparr>) c"
  have keys: "set (gm_keys (sc_procStates c1)) = set (gm_keys (sc_procStates c))"
    using ps by (auto simp: set_registered c1_def simp del: set_gm_keys)
  have rep: "reported now sid p st' = reported now sid p st" by (simp add: reported_def st'_def)
  show "getProcessState q c' = (if q = p \<and> pss_role (settle (psn_peers ps) st) = Done
        then Some (ps\<lparr>psn_perSnap := gm_set (psn_perSnap ps) sid (settle (psn_peers ps) st)\<rparr>) else getProcessState q c)"
    using ps st unfolding c' checkFinalized_def settle_def
    by (auto simp: Let_def split: option.splits if_splits)
  have "sc_snapshots c' = (if pss_role (settle (psn_peers ps) st) = Done
     then (case map_of (sc_snapshots c) sid of None \<Rightarrow> sc_snapshots c
        | Some gs \<Rightarrow> gm_set (sc_snapshots c) sid (gs_report (gm_keys (sc_procStates c1)) (reported now sid p st') gs))
     else sc_snapshots c)"
    using ps st unfolding c' checkFinalized_def settle_def c1_def st'_def
    by (auto simp: Let_def gs_report_def reported_def split: option.splits if_splits)
  then show "snap_GetSnapshot s c' = (if s = sid \<and> pss_role (settle (psn_peers ps) st) = Done
        then map_option (gs_report (gm_keys (sc_procStates c)) (reported now sid p st)) (snap_GetSnapshot s c)
        else snap_GetSnapshot s c)"
    by (auto simp: snap_GetSnapshot_def rep gs_report_cong [OF keys] split: option.splits)
qed

text \<open>The state a process keeps for one snapshot, as a machine of its own.\<close>

definition fresh_state :: "('d, 's) procSnapState" where
  "fresh_state = \<lparr>pss_role = NotParticipating, pss_localState = None, pss_recordedChans = []\<rparr>"

definition local_marker :: "pid \<Rightarrow> 's option \<Rightarrow> pid list \<Rightarrow> ('d, 's) procSnapState \<Rightarrow> ('d, 's) procSnapState" where
  "local_marker from cap peers st =
     (case pss_role st of
        NotParticipating \<Rightarrow> settle peers (first_marker from cap peers st)
      | Done \<Rightarrow> st
      | _ \<Rightarrow> settle peers (next_marker from peers st))"

definition local_record :: "pid \<Rightarrow> 'd SnapMessage \<Rightarrow> ('d, 's) procSnapState \<Rightarrow> ('d, 's) procSnapState" where
  "local_record from m st =
     (case map_of (pss_recordedChans st) from of
        None \<Rightarrow> st
      | Some cs \<Rightarrow> if chs_Finalized cs then st
          else st\<lparr>pss_recordedChans := gm_set (pss_recordedChans st) from (cs\<lparr>chs_Messages := chs_Messages cs @ [m]\<rparr>)\<rparr>)"

fun local_step :: "pid \<Rightarrow> string \<Rightarrow> pid list \<Rightarrow> ('d, 's) snap_op \<Rightarrow> ('d, 's) procSnapState option \<Rightarrow>
    ('d, 's) procSnapState option" where
  "local_step p sid peers (MarkerOp p' from sid' cap now) st =
     (if p' = p \<and> sid' = sid then Some (local_marker from cap peers (case_option fresh_state (\<lambda>s. s) st)) else st)"
| "local_step p sid peers (RecordOp sid' p' from m) st =
     (if p' = p \<and> sid' = sid then map_option (local_record from m) st else st)"

lemma settle_role: "pss_role (settle peers st) \<noteq> Done \<Longrightarrow> settle peers st = st"
  by (auto simp: settle_def split: if_splits)

lemma marker_effect:
  assumes ps: "getProcessState p c = Some ps"
    and c': "c' = fst (OnMarkerReceived cb now p from sid cap (c, w))"
    and st': "st' = local_marker from cap (psn_peers ps) (case_option fresh_state (\<lambda>s. s) (map_of (psn_perSnap ps) sid))"
  shows "pstate s q c' = (if q = p \<and> s = sid then Some st' else pstate s q c)"
    and "peers_of q c' = peers_of q c"
    and "snap_GetSnapshot s c' = (if s = sid \<and> pss_role st' = Done
          \<and> (\<forall>st. pstate sid p c = Some st \<longrightarrow> pss_role st \<noteq> Done)
        then map_option (gs_report (gm_keys (sc_procStates c)) (reported now sid p st')) (snap_GetSnapshot s c)
        else snap_GetSnapshot s c)"
proof -
  define st where "st = case_option fresh_state (\<lambda>s. s) (map_of (psn_perSnap ps) sid)"
  define put where "put = (\<lambda>x. put_state p (ps\<lparr>psn_perSnap := gm_set (psn_perSnap ps) sid x\<rparr>) c)"
  define w' where "w' = fold (\<lambda>peer w. onSendMarker cb p peer sid w) (psn_peers ps) w"
  have op: "c' = (case pss_role st of
       NotParticipating \<Rightarrow> fst (checkFinalized cb now sid p (put (first_marker from cap (psn_peers ps) st), w'))
     | Done \<Rightarrow> put st
     | _ \<Rightarrow> fst (checkFinalized cb now sid p (put (next_marker from (psn_peers ps) st), w)))"
    using ps unfolding c' OnMarkerReceived_def st_def put_def w'_def fresh_state_def
    by (simp add: Let_def split: SnapshotRole.splits option.splits)
  have prev: "(\<forall>x. pstate sid p c = Some x \<longrightarrow> pss_role x \<noteq> Done) \<longleftrightarrow> pss_role st \<noteq> Done"
    using ps by (simp add: pstate_def st_def fresh_state_def split: option.splits)
  have get: "getProcessState p (put x) = Some (ps\<lparr>psn_perSnap := gm_set (psn_perSnap ps) sid x\<rparr>)"
      "map_of (psn_perSnap (ps\<lparr>psn_perSnap := gm_set (psn_perSnap ps) sid x\<rparr>)) sid = Some x"
      "snap_GetSnapshot s (put x) = snap_GetSnapshot s c"
      "set (gm_keys (sc_procStates (put x))) = set (gm_keys (sc_procStates c))" for x s
    using ps by (auto simp: put_def snap_GetSnapshot_def set_registered simp del: set_gm_keys)
  have procs: "gs_report (gm_keys (sc_procStates (put x))) = gs_report (gm_keys (sc_procStates c))" for x
    by (intro ext gs_report_cong get(4))
  have settled: "pstate s q (fst (checkFinalized cb now sid p (put x, v))) =
       (if q = p \<and> s = sid then Some (settle (psn_peers ps) x) else pstate s q c)"
      "peers_of q (fst (checkFinalized cb now sid p (put x, v))) = peers_of q c"
      "snap_GetSnapshot s (fst (checkFinalized cb now sid p (put x, v))) =
       (if s = sid \<and> pss_role (settle (psn_peers ps) x) = Done
        then map_option (gs_report (gm_keys (sc_procStates c)) (reported now sid p x)) (snap_GetSnapshot s c)
        else snap_GetSnapshot s c)" for x v s q
    using ps settle_role [of "psn_peers ps" x]
    by (auto simp: pstate_def peers_of_def checkFinalized_effect [OF get(1,2) refl] get(3) procs)
      (auto simp: put_def)
  have rep: "reported now sid p (settle l x) = reported now sid p x" for l x
    by (simp add: reported_def settle_def)
  show "pstate s q c' = (if q = p \<and> s = sid then Some st' else pstate s q c)"
    using ps unfolding op st' st_def [symmetric] local_marker_def
    by (cases "pss_role st") (auto simp: settled, auto simp: put_def pstate_def)
  show "peers_of q c' = peers_of q c"
    using ps unfolding op by (cases "pss_role st") (auto simp: settled, auto simp: put_def peers_of_def)
  show "snap_GetSnapshot s c' = (if s = sid \<and> pss_role st' = Done
          \<and> (\<forall>st. pstate sid p c = Some st \<longrightarrow> pss_role st \<noteq> Done)
        then map_option (gs_report (gm_keys (sc_procStates c)) (reported now sid p st')) (snap_GetSnapshot s c)
        else snap_GetSnapshot s c)"
    unfolding prev unfolding op st' st_def [symmetric] local_marker_def
    by (cases "pss_role st") (simp_all add: settled get rep)
qed

lemma marker_unregistered: "getProcessState p c = None \<Longrightarrow> fst (OnMarkerReceived cb now p from sid cap (c, w)) = c"
  by (simp add: OnMarkerReceived_def)

lemma record_effect:
  "pstate s q (RecordMessage sid p from m c) =
     (if q = p \<and> s = sid then map_option (local_record from m) (pstate s q c) else pstate s q c)"
  "peers_of q (RecordMessage sid p from m c) = peers_of q c"
  "snap_GetSnapshot s (RecordMessage sid p from m c) = snap_GetSnapshot s c"
  by (auto simp: RecordMessage_def pstate_def peers_of_def local_record_def snap_GetSnapshot_def split: option.splits)

lemma pstate_step:
  assumes "peers_of p c = Some peers"
  shows "pstate sid p (fst (snap_step cb op (c, w))) = local_step p sid peers op (pstate sid p c)"
proof (cases op)
  case (MarkerOp q f s cap now)
  show ?thesis
  proof (cases "getProcessState q c")
    case None
    with MarkerOp assms show ?thesis by (auto simp: marker_unregistered peers_of_def)
  next
    case (Some ps)
    then show ?thesis using MarkerOp assms
      by (auto simp: marker_effect(1) [OF Some refl refl]) (auto simp: pstate_def peers_of_def)
  qed
next
  case (RecordOp s q f m)
  then show ?thesis by (simp add: record_effect)
qed

lemma peers_step: "peers_of p (fst (snap_step cb op (c, w))) = peers_of p c"
proof (cases op)
  case (MarkerOp q f s cap now)
  then show ?thesis
    by (cases "getProcessState q c") (simp_all add: marker_unregistered marker_effect(2) [OF _ refl refl])
qed (simp add: record_effect)

lemma pstate_run:
  assumes "peers_of p (fst s) = Some peers"
  shows "pstate sid p (fst (snap_run cb ops s)) = fold (local_step p sid peers) ops (pstate sid p (fst s))"
    and "peers_of q (fst (snap_run cb ops s)) = peers_of q (fst s)"
proof -
  have "pstate sid p (fst (snap_run cb ops s)) = fold (local_step p sid peers) ops (pstate sid p (fst s))
      \<and> peers_of q (fst (snap_run cb ops s)) = peers_of q (fst s)"
    using assms
  proof (induction ops arbitrary: s)
    case (Cons op ops)
    then show ?case
      using pstate_step [of p "fst s" peers sid cb op "snd s"] peers_step [of _ cb op "fst s" "snd s"] by simp
  qed simp
  then show "pstate sid p (fst (snap_run cb ops s)) = fold (local_step p sid peers) ops (pstate sid p (fst s))"
    and "peers_of q (fst (snap_run cb ops s)) = peers_of q (fst s)" by auto
qed

section \<open>What a process records\<close>

fun chan_step :: "pid \<Rightarrow> string \<Rightarrow> pid \<Rightarrow> ('d, 's) snap_op \<Rightarrow> 'd ChannelState \<Rightarrow> 'd ChannelState" where
  "chan_step p sid q (MarkerOp p' from sid' cap now) cs =
     (if p' = p \<and> from = q \<and> sid' = sid then cs\<lparr>chs_Finalized := True\<rparr> else cs)"
| "chan_step p sid q (RecordOp sid' p' from m) cs =
     (if p' = p \<and> from = q \<and> sid' = sid \<and> \<not> chs_Finalized cs then cs\<lparr>chs_Messages := chs_Messages cs @ [m]\<rparr> else cs)"

lemma chan_run:
  "fold (chan_step p sid q) ops cs =
     cs\<lparr>chs_Messages := (if chs_Finalized cs then chs_Messages cs
            else chs_Messages cs @ offered q p sid (takeWhile (\<lambda>op. \<not> marks q p sid op) ops)),
        chs_Finalized := chs_Finalized cs \<or> list_ex (marks q p sid) ops\<rparr>"
proof (induction ops arbitrary: cs)
  case (Cons op ops)
  then show ?case by (cases op) (auto simp: Cons.IH)
qed simp

abbreviation chan_of :: "('d, 's) procSnapState \<Rightarrow> pid \<Rightarrow> 'd ChannelState option" where
  "chan_of st \<equiv> map_of (pss_recordedChans st)"

definition rec_inv :: "pid list \<Rightarrow> ('d, 's) procSnapState \<Rightarrow> bool" where
  "rec_inv peers st \<longleftrightarrow> pss_role st \<noteq> NotParticipating
     \<and> (\<forall>q\<in>set peers. chan_of st q \<noteq> None)
     \<and> (\<forall>q cs. chan_of st q = Some cs \<longrightarrow> q \<in> set peers \<or> chs_Finalized cs)
     \<and> (pss_role st = Done \<longrightarrow> all_finalized peers (pss_recordedChans st))"

lemma all_finalized_iff:
  "all_finalized peers chans \<longleftrightarrow> (\<forall>q\<in>set peers. \<exists>cs. map_of chans q = Some cs \<and> chs_Finalized cs)"
  by (auto simp: all_finalized_def list_all_iff split: option.splits)

lemma settle_simps [simp]: "pss_recordedChans (settle l st) = pss_recordedChans st"
    "pss_localState (settle l st) = pss_localState st"
  and settle_Done: "pss_role (settle l st) = Done \<longleftrightarrow> pss_role st = Done \<or> all_finalized l (pss_recordedChans st)"
  by (auto simp: settle_def)

lemma rec_inv_settle:
  assumes "pss_role st \<noteq> NotParticipating" "\<forall>q\<in>set peers. chan_of st q \<noteq> None"
    "\<forall>q cs. chan_of st q = Some cs \<longrightarrow> q \<in> set peers \<or> chs_Finalized cs"
    "pss_role st = Done \<Longrightarrow> all_finalized peers (pss_recordedChans st)"
  shows "rec_inv peers (settle peers st)"
  using assms by (auto simp: rec_inv_def settle_def)

lemma next_marker_simps [simp]:
  "pss_localState (next_marker f peers st) = pss_localState st"
  "chan_of (next_marker f peers st) q = (if q = f then Some (case chan_of st f of
      Some cs \<Rightarrow> cs\<lparr>chs_Finalized := True\<rparr> | None \<Rightarrow> closed_channel f) else chan_of st q)"
  "pss_role (next_marker f peers st) =
     (if all_finalized peers (pss_recordedChans (next_marker f peers st)) then Done else pss_role st)"
  by (auto simp: next_marker_def Let_def split: option.splits)

lemma local_marker_rec:
  assumes inv: "rec_inv peers st" and st': "st' = local_marker f cap peers st"
  shows "rec_inv peers st'" and "pss_localState st' = pss_localState st"
    and "\<forall>q\<in>set peers. chan_of st' q =
      map_option (\<lambda>cs. if q = f then cs\<lparr>chs_Finalized := True\<rparr> else cs) (chan_of st q)"
    and "pss_role st' = Done \<longleftrightarrow> all_finalized peers (pss_recordedChans st')"
    and "pss_role st = Done \<Longrightarrow> st' = st"
proof -
  have np: "pss_role st \<noteq> NotParticipating" using inv by (simp add: rec_inv_def)
  show same: "pss_role st = Done \<Longrightarrow> st' = st" by (simp add: st' local_marker_def)
  have main: "rec_inv peers st' \<and> pss_localState st' = pss_localState st
    \<and> (\<forall>q\<in>set peers. chan_of st' q = map_option (\<lambda>cs. if q = f then cs\<lparr>chs_Finalized := True\<rparr> else cs) (chan_of st q))
    \<and> (pss_role st' = Done \<longleftrightarrow> all_finalized peers (pss_recordedChans st'))"
  proof (cases "pss_role st = Done")
    case True
    have "map_option (\<lambda>cs. if q = f then cs\<lparr>chs_Finalized := True\<rparr> else cs) (chan_of st q) = chan_of st q"
      if "q \<in> set peers" for q
      using inv True that by (cases "chan_of st q") (auto simp: rec_inv_def all_finalized_iff)
    with inv True same [OF True] show ?thesis by (auto simp: rec_inv_def)
  next
    case False
    with np have eq: "st' = settle peers (next_marker f peers st)"
      by (cases "pss_role st") (auto simp: st' local_marker_def)
    have "rec_inv peers st'"
      unfolding eq using inv False
      by (intro rec_inv_settle) (auto simp: rec_inv_def closed_channel_def split: option.splits if_splits)
    moreover have "\<forall>q\<in>set peers. chan_of st' q = map_option (\<lambda>cs. if q = f then cs\<lparr>chs_Finalized := True\<rparr> else cs) (chan_of st q)"
      using inv by (auto simp: eq rec_inv_def split: option.splits)
    moreover have "pss_role st' = Done \<longleftrightarrow> all_finalized peers (pss_recordedChans st')"
      using False by (auto simp: eq settle_Done)
    ultimately show ?thesis by (simp add: eq)
  qed
  then show "rec_inv peers st'" and "pss_localState st' = pss_localState st"
    and "\<forall>q\<in>set peers. chan_of st' q =
      map_option (\<lambda>cs. if q = f then cs\<lparr>chs_Finalized := True\<rparr> else cs) (chan_of st q)"
    and "pss_role st' = Done \<longleftrightarrow> all_finalized peers (pss_recordedChans st')" by auto
qed

lemma local_record_rec:
  assumes inv: "rec_inv peers st" and st': "st' = local_record f m st"
  shows "rec_inv peers st'" and "pss_localState st' = pss_localState st"
    and "chan_of st' q =
      map_option (\<lambda>cs. if q = f \<and> \<not> chs_Finalized cs then cs\<lparr>chs_Messages := chs_Messages cs @ [m]\<rparr> else cs) (chan_of st q)"
    and "pss_role st' = pss_role st" and "pss_role st = Done \<Longrightarrow> st' = st"
proof -
  have keep: "all_finalized peers (pss_recordedChans st) \<Longrightarrow> st' = st"
  proof -
    assume "all_finalized peers (pss_recordedChans st)"
    then have "chs_Finalized cs" if "chan_of st f = Some cs" for cs
      using inv that by (fastforce simp: rec_inv_def all_finalized_iff)
    then show "st' = st" by (auto simp: st' local_record_def split: option.splits)
  qed
  show same: "pss_role st = Done \<Longrightarrow> st' = st" using inv keep by (simp add: rec_inv_def)
  show "pss_localState st' = pss_localState st" and role: "pss_role st' = pss_role st"
    by (auto simp: st' local_record_def split: option.splits)
  show chan: "chan_of st' q =
      map_option (\<lambda>cs. if q = f \<and> \<not> chs_Finalized cs then cs\<lparr>chs_Messages := chs_Messages cs @ [m]\<rparr> else cs) (chan_of st q)" for q
    by (cases "chan_of st q") (auto simp: st' local_record_def split: option.splits)
  show "rec_inv peers st'"
  proof (cases "pss_role st = Done")
    case True
    with inv same show ?thesis by simp
  next
    case False
    with inv show ?thesis by (fastforce simp: rec_inv_def role chan split: if_splits)
  qed
qed

lemma local_step_rec:
  assumes "rec_inv peers st"
  obtains st' where "local_step p sid peers op (Some st) = Some st'" "rec_inv peers st'"
    "pss_localState st' = pss_localState st"
    "\<forall>q\<in>set peers. chan_of st' q = map_option (chan_step p sid q op) (chan_of st q)"
    "pss_role st' = Done \<longleftrightarrow> pss_role st = Done \<or> marked p sid op \<and> all_finalized peers (pss_recordedChans st')"
    "pss_role st = Done \<Longrightarrow> st' = st"
proof (cases "\<exists>q from cap now m. op = MarkerOp p from sid cap now \<or> op = RecordOp sid p from m")
  case False
  then have same: "local_step p sid peers op (Some st) = Some st" "\<not> marked p sid op"
      "chan_step p sid q op cs = cs" for q cs
    by (cases op; auto)+
  have "map_option (chan_step p sid q op) x = x" for q x by (cases x) (simp_all add: same)
  with same show ?thesis using assms by (intro that) auto
next
  case True
  then consider (mark) f cap now where "op = MarkerOp p f sid cap now" | (rec) f m where "op = RecordOp sid p f m" by blast
  then show ?thesis
  proof cases
    case mark
    note L = local_marker_rec [OF assms refl, of f cap]
    have "chan_step p sid q op = (\<lambda>cs. if q = f then cs\<lparr>chs_Finalized := True\<rparr> else cs)" for q
      by (auto simp: mark)
    with L mark show ?thesis by (intro that [of "local_marker f cap peers st"]) (auto simp: rec_inv_def)
  next
    case rec
    note L = local_record_rec [OF assms refl, of f m]
    have "chan_step p sid q op = (\<lambda>cs. if q = f \<and> \<not> chs_Finalized cs
        then cs\<lparr>chs_Messages := chs_Messages cs @ [m]\<rparr> else cs)" for q
      by (auto simp: rec)
    with L rec show ?thesis by (intro that [of "local_record f m st"]) auto
  qed
qed

lemma finalized_chan_step [simp]: "chs_Finalized (chan_step p sid q op cs) \<longleftrightarrow> chs_Finalized cs \<or> marks q p sid op"
  by (cases op) auto

lemma local_run_rec:
  assumes "rec_inv peers st"
  obtains st' where "fold (local_step p sid peers) ops (Some st) = Some st'" "rec_inv peers st'"
    "pss_localState st' = pss_localState st"
    "\<forall>q\<in>set peers. chan_of st' q = map_option (fold (chan_step p sid q) ops) (chan_of st q)"
    "pss_role st' = Done \<longleftrightarrow> pss_role st = Done \<or> list_ex (marked p sid) ops \<and> all_finalized peers (pss_recordedChans st')"
proof -
  have "\<exists>st'. fold (local_step p sid peers) ops (Some st) = Some st' \<and> rec_inv peers st'
    \<and> pss_localState st' = pss_localState st
    \<and> (\<forall>q\<in>set peers. chan_of st' q = map_option (fold (chan_step p sid q) ops) (chan_of st q))
    \<and> (pss_role st' = Done \<longleftrightarrow> pss_role st = Done \<or> list_ex (marked p sid) ops \<and> all_finalized peers (pss_recordedChans st'))"
  proof (induction ops rule: rev_induct)
    case Nil
    with assms show ?case by (auto simp: option.map_ident)
  next
    case (snoc op ops)
    then obtain s1 where s1: "fold (local_step p sid peers) ops (Some st) = Some s1" "rec_inv peers s1"
      "pss_localState s1 = pss_localState st"
      "\<forall>q\<in>set peers. chan_of s1 q = map_option (fold (chan_step p sid q) ops) (chan_of st q)"
      "pss_role s1 = Done \<longleftrightarrow> pss_role st = Done \<or> list_ex (marked p sid) ops \<and> all_finalized peers (pss_recordedChans s1)"
      by blast
    obtain s2 where s2: "local_step p sid peers op (Some s1) = Some s2" "rec_inv peers s2"
      "pss_localState s2 = pss_localState s1"
      "\<forall>q\<in>set peers. chan_of s2 q = map_option (chan_step p sid q op) (chan_of s1 q)"
      "pss_role s2 = Done \<longleftrightarrow> pss_role s1 = Done \<or> marked p sid op \<and> all_finalized peers (pss_recordedChans s2)"
      using local_step_rec [OF s1(2)] by metis
    have up: "all_finalized peers (pss_recordedChans s1) \<Longrightarrow> all_finalized peers (pss_recordedChans s2)"
      using s2(4) by (auto simp: all_finalized_iff)
    have down: "all_finalized peers (pss_recordedChans s2) \<Longrightarrow> \<not> marked p sid op \<Longrightarrow> all_finalized peers (pss_recordedChans s1)"
      using s2(4) marks_marked [of _ p sid op] by (fastforce simp: all_finalized_iff)
    have chans: "\<forall>q\<in>set peers. chan_of s2 q = map_option (fold (chan_step p sid q) (ops @ [op])) (chan_of st q)"
      using s1(4) s2(4) by (simp add: option.map_comp comp_def)
    have role: "pss_role s2 = Done \<longleftrightarrow>
        pss_role st = Done \<or> list_ex (marked p sid) (ops @ [op]) \<and> all_finalized peers (pss_recordedChans s2)"
      using s1(5) s2(5) up down by auto
    have "fold (local_step p sid peers) (ops @ [op]) (Some st) = Some s2" "pss_localState s2 = pss_localState st"
      using s1 s2 by simp_all
    with s2(2) chans role show ?case by blast
  qed
  then show ?thesis using that by blast
qed

text \<open>A state that starts to record: the initiator's, or a participant's after its first marker.\<close>

definition start_state :: "SnapshotRole \<Rightarrow> 's option \<Rightarrow> pid list \<Rightarrow> ('d, 's) procSnapState" where
  "start_state role cap peers = \<lparr>pss_role = role, pss_localState = cap,
     pss_recordedChans = fold (\<lambda>peer r. gm_set r peer (open_channel peer)) peers []\<rparr>"

lemma open_channels: "map_of (fold (\<lambda>peer r. gm_set r peer (open_channel peer)) peers r) q =
    (if q \<in> set peers then Some (open_channel q) else map_of r q)"
  by (induction peers arbitrary: r) auto

lemma first_channels: "map_of (fold (\<lambda>peer r. if peer \<noteq> f \<and> map_of r peer = None then gm_set r peer (open_channel peer) else r) peers r) q =
    (if q \<in> set peers \<and> q \<noteq> f \<and> map_of r q = None then Some (open_channel q) else map_of r q)"
  by (induction peers arbitrary: r) auto

lemma rec_inv_start: "rec_inv peers (start_state Initiator cap peers)"
  by (auto simp: rec_inv_def start_state_def open_channels split: if_splits)

lemma first_marker_fresh:
  assumes "st' = settle peers (first_marker f cap peers fresh_state)"
  shows "rec_inv peers st'" "pss_localState st' = cap"
    "chan_of st' q = (if q = f then Some (closed_channel f) else if q \<in> set peers then Some (open_channel q) else None)"
    "pss_role st' = Done \<longleftrightarrow> all_finalized peers (pss_recordedChans st')"
proof -
  show chan: "chan_of st' q = (if q = f then Some (closed_channel f) else if q \<in> set peers then Some (open_channel q) else None)" for q
    by (auto simp: assms first_marker_def first_channels fresh_state_def)
  show "pss_localState st' = cap" "pss_role st' = Done \<longleftrightarrow> all_finalized peers (pss_recordedChans st')"
    by (simp_all add: assms first_marker_def settle_Done)
  show "rec_inv peers st'" unfolding assms
    by (rule rec_inv_settle)
      (use chan in \<open>auto simp: assms first_marker_def closed_channel_def split: if_splits\<close>)
qed

lemma local_run_none: "\<not> list_ex (marked p sid) ops \<Longrightarrow> fold (local_step p sid peers) ops None = None"
proof (induction ops)
  case (Cons op ops)
  then show ?case by (cases op) auto
qed simp

section \<open>The global snapshot follows the processes\<close>

definition agrees :: "('d, 's) LocalSnapshot \<Rightarrow> ('d, 's) procSnapState \<Rightarrow> bool" where
  "agrees ls st \<longleftrightarrow> ls_Finalized ls \<and> ls_LocalState ls = pss_localState st \<and> map_of (ls_RecordedChans ls) = chan_of st"

definition local_ok :: "('d, 's) LocalSnapshot option \<Rightarrow> ('d, 's) procSnapState option \<Rightarrow> bool" where
  "local_ok x y \<longleftrightarrow> (case x of
       None \<Rightarrow> (\<forall>st. y = Some st \<longrightarrow> pss_role st \<noteq> Done)
     | Some ls \<Rightarrow> (\<exists>st. y = Some st \<and> pss_role st = Done \<and> agrees ls st))"

definition snap_inv :: "string \<Rightarrow> ('d, 's) SnapshotCoordinator \<Rightarrow> bool" where
  "snap_inv sid c \<longleftrightarrow>
     (\<forall>p peers st. peers_of p c = Some peers \<longrightarrow> pstate sid p c = Some st \<longrightarrow> rec_inv peers st)
     \<and> (\<exists>gs. snap_GetSnapshot sid c = Some gs
        \<and> (\<forall>p. local_ok (map_of (gs_LocalStates gs) p) (pstate sid p c))
        \<and> (gs_Complete gs \<longleftrightarrow> (\<forall>p. peers_of p c \<noteq> None \<longrightarrow> map_of (gs_LocalStates gs) p \<noteq> None)))"

lemma map_of_copyChannelStates: "map_of (copyChannelStates m) = map_of m"
proof
  fix k
  show "map_of (copyChannelStates m) k = map_of m k"
    unfolding copyChannelStates_def
    by (subst gm_fold_pointwise [where look = map_of and g = "\<lambda>_ v _. Some v"]) (auto split: option.splits)
qed

lemma agrees_reported: "agrees (reported now sid p st) st"
  by (simp add: agrees_def reported_def map_of_copyChannelStates)

lemma gs_report_ok:
  assumes ok: "\<forall>q. local_ok (map_of (gs_LocalStates gs) q) (pstate sid q c)"
    and comp: "gs_Complete gs \<longleftrightarrow> (\<forall>q. peers_of q c \<noteq> None \<longrightarrow> map_of (gs_LocalStates gs) q \<noteq> None)"
    and gs': "gs' = gs_report (gm_keys (sc_procStates c)) (reported now sid p st) gs"
  shows "map_of (gs_LocalStates gs') q = (if q = p then Some (reported now sid p st) else map_of (gs_LocalStates gs) q)"
    and "gs_Complete gs' \<longleftrightarrow> (\<forall>q. peers_of q c \<noteq> None \<longrightarrow> map_of (gs_LocalStates gs') q \<noteq> None)"
proof -
  define gs1 where "gs1 = gs\<lparr>gs_LocalStates := gm_set (gs_LocalStates gs) p (reported now sid p st)\<rparr>"
  have gs'_eq: "gs' = (if gs_IsComplete (gm_keys (sc_procStates c)) gs1 then gs1\<lparr>gs_Complete := True\<rparr> else gs1)"
    by (simp add: gs' gs_report_def gs1_def Let_def reported_def)
  show ls: "map_of (gs_LocalStates gs') q = (if q = p then Some (reported now sid p st) else map_of (gs_LocalStates gs) q)" for q
    by (simp add: gs'_eq gs1_def)
  have fin: "ls_Finalized ls" if "map_of (gs_LocalStates gs1) q = Some ls" "peers_of q c \<noteq> None" for q ls
    using that ok [rule_format, of q] by (auto simp: gs1_def reported_def local_ok_def agrees_def split: if_splits)
  have reg: "set (gm_keys (sc_procStates c)) = {q. peers_of q c \<noteq> None}"
    by (auto simp: set_registered peers_of_def simp del: set_gm_keys)
  have "gs_IsComplete (gm_keys (sc_procStates c)) gs1 \<longleftrightarrow> (\<forall>q. peers_of q c \<noteq> None \<longrightarrow> map_of (gs_LocalStates gs1) q \<noteq> None)"
    using fin unfolding gs_IsComplete_def list_all_iff reg by (auto split: option.splits)
  then show "gs_Complete gs' \<longleftrightarrow> (\<forall>q. peers_of q c \<noteq> None \<longrightarrow> map_of (gs_LocalStates gs') q \<noteq> None)"
    using comp by (auto simp: gs'_eq gs1_def)
qed

lemma snap_inv_marker:
  assumes inv: "snap_inv sid c" and ps: "getProcessState p c = Some ps"
  shows "snap_inv sid (fst (OnMarkerReceived cb now p f sid cap (c, w)))"
proof -
  define c' where "c' = fst (OnMarkerReceived cb now p f sid cap (c, w))"
  define st where "st = case_option fresh_state (\<lambda>s. s) (map_of (psn_perSnap ps) sid)"
  define st' where "st' = local_marker f cap (psn_peers ps) st"
  note eff = marker_effect [OF ps c'_def st'_def [unfolded st_def]]
  have peers: "peers_of p c = Some (psn_peers ps)" using ps by (simp add: peers_of_def)
  have pst: "pstate sid p c = map_of (psn_perSnap ps) sid" using ps by (simp add: pstate_def)
  obtain gs where gs: "snap_GetSnapshot sid c = Some gs"
    and ok: "\<forall>q. local_ok (map_of (gs_LocalStates gs) q) (pstate sid q c)"
    and comp: "gs_Complete gs \<longleftrightarrow> (\<forall>q. peers_of q c \<noteq> None \<longrightarrow> map_of (gs_LocalStates gs) q \<noteq> None)"
    and rec: "\<And>q peers st. peers_of q c = Some peers \<Longrightarrow> pstate sid q c = Some st \<Longrightarrow> rec_inv peers st"
    using inv by (auto simp: snap_inv_def)
  have inv': "rec_inv (psn_peers ps) st'"
  proof (cases "map_of (psn_perSnap ps) sid")
    case None
    then show ?thesis using first_marker_fresh(1) [OF refl]
      by (simp add: st'_def st_def local_marker_def fresh_state_def)
  next
    case (Some s)
    then show ?thesis using rec [OF peers] pst local_marker_rec(1) [OF _ refl] by (auto simp: st'_def st_def)
  qed
  have rec': "rec_inv peers s" if "peers_of q c' = Some peers" "pstate sid q c' = Some s" for q peers s
    using that inv' rec peers by (auto simp: eff split: if_splits)
  show ?thesis
  proof (cases "pss_role st' = Done \<and> (\<forall>s. pstate sid p c = Some s \<longrightarrow> pss_role s \<noteq> Done)")
    case True
    define gs' where "gs' = gs_report (gm_keys (sc_procStates c)) (reported now sid p st') gs"
    note rep = gs_report_ok [OF ok comp gs'_def]
    have "snap_GetSnapshot sid c' = Some gs'" using True gs by (simp add: eff gs'_def)
    moreover have "\<forall>q. local_ok (map_of (gs_LocalStates gs') q) (pstate sid q c')"
      using ok True by (simp add: eff rep(1)) (simp add: local_ok_def agrees_reported)
    moreover have "gs_Complete gs' \<longleftrightarrow> (\<forall>q. peers_of q c' \<noteq> None \<longrightarrow> map_of (gs_LocalStates gs') q \<noteq> None)"
      using rep(2) by (simp add: eff)
    ultimately show ?thesis using rec' by (auto simp: snap_inv_def c'_def [symmetric])
  next
    case False
    then have "snap_GetSnapshot sid c' = Some gs" using gs by (auto simp: eff)
    moreover have "local_ok (map_of (gs_LocalStates gs) q) (pstate sid q c')" for q
    proof (cases "q = p")
      case True
      have "pstate sid p c = Some st'" if "pss_role st' = Done"
        using False that pst by (auto simp: st'_def st_def local_marker_def)
      moreover have "pss_role s \<noteq> Done" if "pss_role st' \<noteq> Done" "pstate sid p c = Some s" for s
        using that pst by (auto simp: st'_def st_def local_marker_def)
      ultimately show ?thesis using ok [rule_format, of q] True
        by (cases "pss_role st' = Done") (auto simp: eff local_ok_def split: option.splits)
    qed (use ok in \<open>simp add: eff\<close>)
    ultimately show ?thesis using rec' comp unfolding snap_inv_def c'_def [symmetric] by (simp add: eff(2))
  qed
qed

lemma role_local_record [simp]: "pss_role (local_record f m st) = pss_role st"
  by (auto simp: local_record_def split: option.splits)

lemma snap_inv_step:
  assumes inv: "snap_inv sid c"
  shows "snap_inv sid (fst (snap_step cb op (c, w)))"
proof (cases op)
  case (MarkerOp p f s cap now)
  show ?thesis
  proof (cases "getProcessState p c")
    case None
    with inv MarkerOp show ?thesis by (simp add: marker_unregistered)
  next
    case (Some ps)
    show ?thesis
    proof (cases "s = sid")
      case True
      with inv MarkerOp snap_inv_marker [OF inv Some] show ?thesis by simp
    next
      case False
      with inv MarkerOp show ?thesis by (simp add: snap_inv_def marker_effect [OF Some refl refl])
    qed
  qed
next
  case (RecordOp s p f m)
  define c' where "c' = RecordMessage s p f m c"
  note eff = record_effect(1) [of _ _ s p f m c, folded c'_def] record_effect(2,3) [of _ s p f m c, folded c'_def]
  obtain gs where gs: "snap_GetSnapshot sid c = Some gs"
    and ok: "\<forall>q. local_ok (map_of (gs_LocalStates gs) q) (pstate sid q c)"
    and comp: "gs_Complete gs \<longleftrightarrow> (\<forall>q. peers_of q c \<noteq> None \<longrightarrow> map_of (gs_LocalStates gs) q \<noteq> None)"
    and rec: "\<And>q peers st. peers_of q c = Some peers \<Longrightarrow> pstate sid q c = Some st \<Longrightarrow> rec_inv peers st"
    using inv by (auto simp: snap_inv_def)
  have "local_ok (map_of (gs_LocalStates gs) q) (pstate sid q c')" for q
  proof (cases "q = p \<and> sid = s")
    case True
    have "local_record f m st = st" if st: "pstate sid q c = Some st" "pss_role st = Done" for st
    proof -
      obtain peers where "peers_of q c = Some peers"
        using st(1) by (cases "getProcessState q c") (simp_all add: pstate_def peers_of_def)
      with st rec local_record_rec(5) [OF _ refl] show ?thesis by blast
    qed
    then show ?thesis using ok [rule_format, of q] True
      by (auto simp: eff local_ok_def split: option.splits)
  qed (use ok in \<open>auto simp: eff\<close>)
  moreover have "rec_inv peers st" if "peers_of q c' = Some peers" "pstate sid q c' = Some st" for q peers st
    using that by (auto simp: eff split: if_splits intro: local_record_rec(1) [OF _ refl] rec)
  moreover have "snap_GetSnapshot sid c' = Some gs" "\<And>q. peers_of q c' = peers_of q c" by (simp_all add: eff gs)
  ultimately have "snap_inv sid c'" unfolding snap_inv_def using comp by auto
  then show ?thesis using RecordOp by (simp add: c'_def)
qed

interpretation snap: transition_system "snap_inv sid \<circ> fst"
    "\<lambda>s t. \<exists>op. t = snap_step cb op s" "snap_inv sid \<circ> fst" for sid cb
  by unfold_locales (auto intro: snap_inv_step)

lemma run_steps: "(\<lambda>s t. \<exists>op. t = snap_step cb op s)\<^sup>*\<^sup>* s (snap_run cb ops s)"
proof (induction ops arbitrary: s)
  case (Cons op ops)
  have "(\<lambda>s t. \<exists>op. t = snap_step cb op s) s (snap_step cb op s)" by blast
  from converse_rtranclp_into_rtranclp [OF this Cons] show ?case by simp
qed simp

lemma snap_inv_run: "snap_inv sid (fst s) \<Longrightarrow> snap_inv sid (fst (snap_run cb ops s))"
  using snap.inv_reachable [OF _ run_steps] by (simp add: comp_def)

lemma Initiate_effect:
  assumes "InitiateSnapshot cb nano now i (c, w) = (Some sid, c1, w1)"
  shows "sid = ''snap-'' @ dec nano" "peers_of q c1 = peers_of q c"
    "peers_of i c = Some peers \<Longrightarrow> pstate s q c1 =
       (if q = i \<and> s = sid then Some (start_state Initiator (onCaptureState cb i w) peers) else pstate s q c)"
    "snap_GetSnapshot sid c1 = Some \<lparr>gs_SnapshotID = sid, gs_InitiatorID = i, gs_StartTime = now,
       gs_LocalStates = [], gs_Complete = False\<rparr>"
    "peers_of i c \<noteq> None"
proof -
  obtain ps where ps: "getProcessState i c = Some ps"
    using assms by (auto simp: initiate_defs Let_def split: option.splits)
  show sid: "sid = ''snap-'' @ dec nano"
    using assms by (auto simp: initiate_defs Let_def split: option.splits)
  have c1: "c1 = put_state i (ps\<lparr>psn_perSnap := gm_set (psn_perSnap ps) sid (start_state Initiator (onCaptureState cb i w) (psn_peers ps))\<rparr>)
      (c\<lparr>sc_snapshots := gm_set (sc_snapshots c) sid \<lparr>gs_SnapshotID = sid, gs_InitiatorID = i, gs_StartTime = now,
       gs_LocalStates = [], gs_Complete = False\<rparr>\<rparr>)"
    using assms ps unfolding sid by (auto simp: initiate_defs Let_def start_state_def)
  show "peers_of q c1 = peers_of q c" "peers_of i c \<noteq> None" using ps by (simp_all add: c1 peers_of_def)
  show "snap_GetSnapshot sid c1 = Some \<lparr>gs_SnapshotID = sid, gs_InitiatorID = i, gs_StartTime = now,
       gs_LocalStates = [], gs_Complete = False\<rparr>"
    by (simp add: c1 snap_GetSnapshot_def)
  show "peers_of i c = Some peers \<Longrightarrow> pstate s q c1 =
       (if q = i \<and> s = sid then Some (start_state Initiator (onCaptureState cb i w) peers) else pstate s q c)"
    using ps by (auto simp: c1 pstate_def peers_of_def)
qed

lemma snap_inv_Initiate:
  assumes init: "InitiateSnapshot cb nano now i (c, w) = (Some sid, c1, w1)"
    and fresh: "\<And>p. pstate sid p c = None"
  shows "snap_inv sid c1"
proof -
  obtain peers where peers: "peers_of i c = Some peers" using Initiate_effect(5) [OF init] by auto
  note eff = Initiate_effect(2,4) [OF init] Initiate_effect(3) [OF init peers]
  show ?thesis unfolding snap_inv_def
    using peers rec_inv_start
    by (auto simp: eff fresh local_ok_def) (auto simp: start_state_def)
qed

section \<open>Properties\<close>

text \<open>The state of a process after a run, and when it is done.\<close>

lemma initiator_run:
  assumes init: "InitiateSnapshot cb nano now i (c, w) = (Some sid, c1, w1)" and peers: "peers_of i c = Some peers"
  obtains st where "pstate sid i (fst (snap_run cb ops (c1, w1))) = Some st"
    "pss_localState st = onCaptureState cb i w"
    "\<forall>q\<in>set peers. chan_of st q = Some \<lparr>chs_From = q,
       chs_Messages = offered q i sid (takeWhile (\<lambda>op. \<not> marks q i sid op) ops), chs_Finalized = list_ex (marks q i sid) ops\<rparr>"
    "pss_role st = Done \<longleftrightarrow> list_ex (marked i sid) ops \<and> (\<forall>q\<in>set peers. list_ex (marks q i sid) ops)"
proof -
  define st0 :: "('a, 'b) procSnapState" where "st0 = start_state Initiator (onCaptureState cb i w) peers"
  have inv: "rec_inv peers st0" by (simp add: st0_def rec_inv_start)
  obtain st where st: "fold (local_step i sid peers) ops (Some st0) = Some st"
    "pss_localState st = pss_localState st0"
    "\<forall>q\<in>set peers. chan_of st q = map_option (fold (chan_step i sid q) ops) (chan_of st0 q)"
    "pss_role st = Done \<longleftrightarrow> pss_role st0 = Done \<or> list_ex (marked i sid) ops \<and> all_finalized peers (pss_recordedChans st)"
    using local_run_rec [OF inv] by metis
  have p1: "peers_of i (fst (c1, w1)) = Some peers" using Initiate_effect(2) [OF init] peers by simp
  have "pstate sid i (fst (snap_run cb ops (c1, w1))) = Some st"
    using pstate_run(1) [OF p1] st(1) Initiate_effect(3) [OF init peers] by (simp add: st0_def)
  moreover have chan: "\<forall>q\<in>set peers. chan_of st q = Some \<lparr>chs_From = q,
       chs_Messages = offered q i sid (takeWhile (\<lambda>op. \<not> marks q i sid op) ops), chs_Finalized = list_ex (marks q i sid) ops\<rparr>"
    using st(3) by (simp add: st0_def start_state_def open_channels chan_run) (simp add: open_channel_def)
  ultimately show ?thesis
    using st(2,4) that by (auto simp: st0_def start_state_def all_finalized_iff)
qed

lemma participant_run:
  assumes peers: "peers_of p (fst s) = Some peers" and none: "pstate sid p (fst s) = None"
    and pre: "\<not> list_ex (marked p sid) pre"
  obtains st where "pstate sid p (fst (snap_run cb (pre @ MarkerOp p f sid cap now # post) s)) = Some st"
    "pss_localState st = cap"
    "\<forall>q\<in>set peers. chan_of st q = Some (if q = f then closed_channel f else \<lparr>chs_From = q,
       chs_Messages = offered q p sid (takeWhile (\<lambda>op. \<not> marks q p sid op) post), chs_Finalized = list_ex (marks q p sid) post\<rparr>)"
    "pss_role st = Done \<longleftrightarrow> (\<forall>q\<in>set peers. q = f \<or> list_ex (marks q p sid) post)"
proof -
  define st0 :: "('a, 'b) procSnapState" where "st0 = settle peers (first_marker f cap peers fresh_state)"
  note F = first_marker_fresh [OF st0_def]
  obtain st where st: "fold (local_step p sid peers) post (Some st0) = Some st" "rec_inv peers st"
    "pss_localState st = pss_localState st0"
    "\<forall>q\<in>set peers. chan_of st q = map_option (fold (chan_step p sid q) post) (chan_of st0 q)"
    "pss_role st = Done \<longleftrightarrow> pss_role st0 = Done \<or> list_ex (marked p sid) post \<and> all_finalized peers (pss_recordedChans st)"
    using local_run_rec [OF F(1)] by metis
  have run: "pstate sid p (fst (snap_run cb (pre @ MarkerOp p f sid cap now # post) s)) = Some st"
    using pstate_run(1) [OF peers] none st(1)
    by (simp add: local_run_none [OF pre] local_marker_def st0_def) (simp add: fresh_state_def)
  have chan: "\<forall>q\<in>set peers. chan_of st q = Some (if q = f then closed_channel f else \<lparr>chs_From = q,
       chs_Messages = offered q p sid (takeWhile (\<lambda>op. \<not> marks q p sid op) post), chs_Finalized = list_ex (marks q p sid) post\<rparr>)"
    using st(4) by (simp add: F chan_run) (simp add: closed_channel_def open_channel_def)
  have fin: "all_finalized peers (pss_recordedChans st) \<longleftrightarrow> (\<forall>q\<in>set peers. q = f \<or> list_ex (marks q p sid) post)"
    using chan by (auto simp: all_finalized_iff closed_channel_def)
  have "pss_role st0 = Done \<longleftrightarrow> set peers \<subseteq> {f}"
    by (auto simp: F all_finalized_iff closed_channel_def open_channel_def split: if_splits)
  moreover have "list_ex (marked p sid) post" if "q \<in> set peers" "list_ex (marks q p sid) post" for q
    using that by (auto simp: list_ex_iff intro: marks_marked)
  ultimately have "pss_role st = Done \<longleftrightarrow> (\<forall>q\<in>set peers. q = f \<or> list_ex (marks q p sid) post)"
    unfolding st(5) fin by blast
  with run chan st(3) F(2) show ?thesis by (intro that) simp_all
qed

text \<open>A process is done for a snapshot exactly when it handled a marker and the markers of all its peers.\<close>

lemma done_iff:
  assumes init: "InitiateSnapshot cb nano now i (c, w) = (Some sid, c1, w1)"
    and fresh: "\<And>p. pstate sid p c = None" and peers: "peers_of p c = Some peers"
  shows "(\<exists>st. pstate sid p (fst (snap_run cb ops (c1, w1))) = Some st \<and> pss_role st = Done) \<longleftrightarrow>
    list_ex (marked p sid) ops \<and> (\<forall>q\<in>set peers. list_ex (marks q p sid) ops)"
proof (cases "p = i")
  case True
  from initiator_run [OF init peers [unfolded True], where ops = ops] True show ?thesis by (metis option.inject)
next
  case False
  obtain ip where "peers_of i c = Some ip" using Initiate_effect(5) [OF init] by auto
  note eff = Initiate_effect(3) [OF init this]
  have p1: "peers_of p (fst (c1, w1)) = Some peers" using peers Initiate_effect(2) [OF init] by simp
  have none: "pstate sid p (fst (c1, w1)) = None" using False fresh eff by simp
  show ?thesis
  proof (cases "list_ex (marked p sid) ops")
    case no: False
    then show ?thesis using pstate_run(1) [OF p1, of sid cb ops] none by (simp add: local_run_none)
  next
    case True
    then have "\<exists>x\<in>set ops. marked p sid x" by (simp add: list_ex_iff)
    from split_list_first_prop [OF this] obtain pre op post where
      split: "ops = pre @ op # post" "marked p sid op" "\<forall>x\<in>set pre. \<not> marked p sid x"
      by blast
    then obtain f cap tm where op: "op = MarkerOp p f sid cap tm" by (cases op) auto
    have pre: "\<not> list_ex (marked p sid) pre" using split(3) by (simp add: list_ex_iff)
    then have quiet: "\<not> list_ex (marks q p sid) pre" for q by (auto simp: list_ex_iff dest: marks_marked)
    show ?thesis
    proof (rule participant_run [OF p1 none pre, where cb = cb and f = f and cap = cap and now = tm and post = post])
      fix st
      assume "pstate sid p (fst (snap_run cb (pre @ MarkerOp p f sid cap tm # post) (c1, w1))) = Some st"
        and "pss_role st = Done \<longleftrightarrow> (\<forall>q\<in>set peers. q = f \<or> list_ex (marks q p sid) post)"
      then show ?thesis by (auto simp: split op quiet)
    qed
  qed
qed

text \<open>What the global snapshot holds after any sequence of operations.\<close>

lemma snap_completion:
  fixes ops
  assumes "InitiateSnapshot cb nano now i (c, w) = (Some sid, c1, w1)" "\<forall>p. pstate sid p c = None"
  defines "c2 \<equiv> fst (snap_run cb ops (c1, w1))"
  obtains gs where "snap_GetSnapshot sid c2 = Some gs"
    "gs_Complete gs \<longleftrightarrow> (\<forall>p peers. peers_of p c = Some peers \<longrightarrow>
       list_ex (marked p sid) ops \<and> (\<forall>q\<in>set peers. list_ex (marks q p sid) ops))"
    "\<And>p. gs_Complete gs \<Longrightarrow> peers_of p c \<noteq> None \<Longrightarrow>
       \<exists>ls st. map_of (gs_LocalStates gs) p = Some ls \<and> pstate sid p c2 = Some st \<and> agrees ls st"
proof -
  have fresh: "pstate sid p c = None" for p using assms(2) by simp
  have "snap_inv sid c2"
    using snap_inv_run [of sid "(c1, w1)"] snap_inv_Initiate [OF assms(1) fresh] by (simp add: c2_def)
  then obtain gs where gs: "snap_GetSnapshot sid c2 = Some gs"
    and ok: "\<And>p. local_ok (map_of (gs_LocalStates gs) p) (pstate sid p c2)"
    and comp: "gs_Complete gs \<longleftrightarrow> (\<forall>p. peers_of p c2 \<noteq> None \<longrightarrow> map_of (gs_LocalStates gs) p \<noteq> None)"
    by (auto simp: snap_inv_def)
  have peers: "peers_of p c2 = peers_of p c" for p
    using pstate_run(2) [of i "(c1, w1)" _ p cb ops] Initiate_effect(2,5) [OF assms(1)] by (auto simp: c2_def)
  have rep: "map_of (gs_LocalStates gs) p \<noteq> None \<longleftrightarrow> (\<exists>st. pstate sid p c2 = Some st \<and> pss_role st = Done)"
    if "peers_of p c \<noteq> None" for p
    using ok [of p] that by (auto simp: local_ok_def peers split: option.splits)
  have "gs_Complete gs \<longleftrightarrow> (\<forall>p peers. peers_of p c = Some peers \<longrightarrow>
         list_ex (marked p sid) ops \<and> (\<forall>q\<in>set peers. list_ex (marks q p sid) ops))"
  proof -
    have "map_of (gs_LocalStates gs) p \<noteq> None \<longleftrightarrow>
        list_ex (marked p sid) ops \<and> (\<forall>q\<in>set peers. list_ex (marks q p sid) ops)"
      if "peers_of p c = Some peers" for p peers
      using rep [of p] done_iff [OF assms(1) fresh that, of ops] that by (simp add: c2_def)
    then show ?thesis unfolding comp peers not_None_eq [of "peers_of _ c"] by blast
  qed
  moreover have "\<exists>ls st. map_of (gs_LocalStates gs) p = Some ls \<and> pstate sid p c2 = Some st \<and> agrees ls st"
    if "gs_Complete gs" "peers_of p c \<noteq> None" for p
    using ok [of p] that unfolding comp peers by (auto simp: local_ok_def split: option.splits)
  ultimately show ?thesis using gs that by blast
qed

text \<open>
  C5: When a snapshot completes. Let a registered process initiate a snapshot whose identifier is
  fresh, and let any sequence of markers and recorded messages, of this and other snapshots,
  follow. The global snapshot is marked complete exactly when every registered process has handled
  a marker of the snapshot and the marker of each of its peers; it then holds, for every registered
  process, the state and the channels that process recorded. The first condition is not implied by the
  second for a process without peers, the initiator included: although it has recorded its state and
  has no incoming channel, the snapshot does not complete before it has handled a marker.
\<close>

theorem snapshot_completes_iff:
  assumes "InitiateSnapshot cb nano now i (c, w) = (Some sid, c1, w1)"
    and "\<forall>p. pstate sid p c = None"
  shows "\<exists>gs. snap_GetSnapshot sid (fst (snap_run cb ops (c1, w1))) = Some gs
    \<and> (gs_Complete gs \<longleftrightarrow> (\<forall>p peers. peers_of p c = Some peers \<longrightarrow>
         list_ex (marked p sid) ops \<and> (\<forall>q\<in>set peers. list_ex (marks q p sid) ops)))
    \<and> (gs_Complete gs \<longrightarrow> (\<forall>p. peers_of p c \<noteq> None \<longrightarrow>
         (\<exists>ls st. map_of (gs_LocalStates gs) p = Some ls \<and> pstate sid p (fst (snap_run cb ops (c1, w1))) = Some st \<and> agrees ls st)))"
  using snap_completion [OF assms, of ops] by metis

text \<open>
  A snapshot of a single process never completes. The process has no peers, so nobody sends it a marker, and
  only the handling of a marker makes the coordinator look whether the snapshot is complete. The description of
  the algorithm has it complete at once: all processes have recorded their states, and all channels, none, are
  recorded.
\<close>

theorem snapshot_alone_never_completes:
  assumes "InitiateSnapshot cb nano now i (c, w) = (Some sid, c1, w1)" and "\<forall>p. pstate sid p c = None"
    and "peers_of i c = Some []" and "\<not> list_ex (marked i sid) ops"
  shows "\<exists>gs. snap_GetSnapshot sid (fst (snap_run cb ops (c1, w1))) = Some gs \<and> \<not> gs_Complete gs"
  using snap_completion [OF assms(1,2), of ops] assms(3,4) by metis

text \<open>Two processes and a run in which each gets the other's marker, with a message in transit.\<close>

definition demo_cb :: "(nat, nat, unit) snap_callbacks" where
  "demo_cb = \<lparr>onSendMarker = (\<lambda>f t sid w. w), onCaptureState = (\<lambda>p w. Some 7), onComplete = None\<rparr>"

definition demo_coord :: "(nat, nat) SnapshotCoordinator" where
  "demo_coord = snap_RegisterProcess ''B'' [''A''] (snap_RegisterProcess ''A'' [] NewCoordinator)"

definition demo_start :: "string option \<times> (nat, nat) SnapshotCoordinator \<times> unit" where
  "demo_start = InitiateSnapshot demo_cb 1 0 ''A'' (demo_coord, ())"

definition demo_msg :: "nat SnapMessage" where
  "demo_msg = \<lparr>sm_ID = ''B-m1'', sm_From = ''B'', sm_To = ''A'', sm_Data = Some 1, sm_IsMarker = False,
     sm_SnapshotID = '''', sm_SenderVC = [(''B'', 1)]\<rparr>"

definition demo_ops :: "(nat, nat) snap_op list" where
  "demo_ops = [RecordOp ''snap-1'' ''A'' ''B'' demo_msg, MarkerOp ''B'' ''A'' ''snap-1'' (Some 9) 1,
     MarkerOp ''A'' ''B'' ''snap-1'' (Some 8) 2, RecordOp ''snap-1'' ''A'' ''B'' demo_msg]"

lemma demo_start_eq:
  "InitiateSnapshot demo_cb 1 0 ''A'' (demo_coord, ()) = (Some ''snap-1'', fst (snd demo_start), ())"
  by code_simp

lemma demo_coord_eq:
  "demo_coord = \<lparr>sc_snapshots = [], sc_procStates = [(''A'', \<lparr>psn_peers = [''B''], psn_perSnap = []\<rparr>),
      (''B'', \<lparr>psn_peers = [''A''], psn_perSnap = []\<rparr>)]\<rparr>"
  by code_simp

lemma demo_fresh: "\<forall>p. pstate sid p demo_coord = None"
  by (simp add: demo_coord_eq pstate_def getProcessState_def)

lemma demo_peers: "peers_of p demo_coord = (if p = ''A'' then Some [''B''] else if p = ''B'' then Some [''A''] else None)"
  by (simp add: demo_coord_eq peers_of_def getProcessState_def)

theorem snapshot_completes_iff_witness:
  "\<exists>gs. snap_GetSnapshot ''snap-1'' (fst (snap_run demo_cb demo_ops (fst (snd demo_start), ()))) = Some gs
    \<and> gs_Complete gs \<and> (\<exists>ls st. map_of (gs_LocalStates gs) ''A'' = Some ls
        \<and> pstate ''snap-1'' ''A'' (fst (snap_run demo_cb demo_ops (fst (snd demo_start), ()))) = Some st \<and> agrees ls st)"
proof -
  have "list_ex (marked ''A'' ''snap-1'') demo_ops" "list_ex (marked ''B'' ''snap-1'') demo_ops"
    "list_ex (marks ''B'' ''A'' ''snap-1'') demo_ops" "list_ex (marks ''A'' ''B'' ''snap-1'') demo_ops"
    by code_simp+
  then have all: "\<forall>p peers. peers_of p demo_coord = Some peers \<longrightarrow>
      list_ex (marked p ''snap-1'') demo_ops \<and> (\<forall>q\<in>set peers. list_ex (marks q p ''snap-1'') demo_ops)"
    by (auto simp: demo_peers)
  from snapshot_completes_iff [OF demo_start_eq demo_fresh, of demo_ops] all
  show ?thesis by (metis demo_peers option.simps(3))
qed

text \<open>
  C6: What is recorded. A process that is not yet part of a snapshot and handles its first
  marker, from \<open>f\<close>, after steps without a marker for it, keeps the state captured at that moment
  and the channel from \<open>f\<close> empty and closed. For every other peer \<open>q\<close> it keeps exactly the
  messages from \<open>q\<close> offered for recording after the first marker and before the marker of \<open>q\<close>, in
  order, and the channel is closed iff that marker was handled. The initiator does the same
  for every peer from the moment it initiates.
\<close>

theorem snapshot_channel_recording:
  assumes "peers_of p (fst s) = Some peers" and "pstate sid p (fst s) = None"
    and "\<not> list_ex (marked p sid) pre"
    and "InitiateSnapshot cb nano now i (c, w) = (Some sid', c1, w1)" and "peers_of i c = Some ipeers"
  shows "(\<exists>st. pstate sid p (fst (snap_run cb (pre @ MarkerOp p f sid cap t # post) s)) = Some st
      \<and> pss_localState st = cap
      \<and> (\<forall>q\<in>set peers. map_of (pss_recordedChans st) q = Some (if q = f then closed_channel f else
           \<lparr>chs_From = q, chs_Messages = offered q p sid (takeWhile (\<lambda>op. \<not> marks q p sid op) post),
            chs_Finalized = list_ex (marks q p sid) post\<rparr>)))
    \<and> (\<exists>st. pstate sid' i (fst (snap_run cb ops (c1, w1))) = Some st
      \<and> pss_localState st = onCaptureState cb i w
      \<and> (\<forall>q\<in>set ipeers. map_of (pss_recordedChans st) q = Some
           \<lparr>chs_From = q, chs_Messages = offered q i sid' (takeWhile (\<lambda>op. \<not> marks q i sid' op) ops),
            chs_Finalized = list_ex (marks q i sid') ops\<rparr>))"
proof (rule conjI)
  show "\<exists>st. pstate sid p (fst (snap_run cb (pre @ MarkerOp p f sid cap t # post) s)) = Some st
      \<and> pss_localState st = cap
      \<and> (\<forall>q\<in>set peers. chan_of st q = Some (if q = f then closed_channel f else
           \<lparr>chs_From = q, chs_Messages = offered q p sid (takeWhile (\<lambda>op. \<not> marks q p sid op) post),
            chs_Finalized = list_ex (marks q p sid) post\<rparr>))"
    by (rule participant_run [OF assms(1-3), where cb = cb and f = f and cap = cap and now = t and post = post]) blast
  show "\<exists>st. pstate sid' i (fst (snap_run cb ops (c1, w1))) = Some st
      \<and> pss_localState st = onCaptureState cb i w
      \<and> (\<forall>q\<in>set ipeers. chan_of st q = Some
           \<lparr>chs_From = q, chs_Messages = offered q i sid' (takeWhile (\<lambda>op. \<not> marks q i sid' op) ops),
            chs_Finalized = list_ex (marks q i sid') ops\<rparr>)"
    by (rule initiator_run [OF assms(4,5), where ops = ops]) blast
qed

theorem snapshot_channel_recording_witness:
  "(\<exists>st. pstate ''snap-1'' ''B'' (fst (snap_run demo_cb ([] @ MarkerOp ''B'' ''A'' ''snap-1'' (Some 9) 1 # [])
        (fst (snd demo_start), ()))) = Some st \<and> pss_localState st = Some 9)
    \<and> (\<exists>st. pstate ''snap-1'' ''A'' (fst (snap_run demo_cb demo_ops (fst (snd demo_start), ()))) = Some st
      \<and> map_of (pss_recordedChans st) ''B'' = Some \<lparr>chs_From = ''B'', chs_Messages = [demo_msg], chs_Finalized = True\<rparr>)"
proof -
  have *: "peers_of ''B'' (fst (fst (snd demo_start), ())) = Some [''A'']"
    "pstate ''snap-1'' ''B'' (fst (fst (snd demo_start), ())) = None"
    "\<not> list_ex (marked ''B'' ''snap-1'') ([] :: (nat, nat) snap_op list)"
    "peers_of ''A'' demo_coord = Some [''B'']"
    by code_simp+
  have "offered ''B'' ''A'' ''snap-1'' (takeWhile (\<lambda>op. \<not> marks ''B'' ''A'' ''snap-1'' op) demo_ops) = [demo_msg]"
    "list_ex (marks ''B'' ''A'' ''snap-1'') demo_ops"
    by code_simp+
  with snapshot_channel_recording [OF *(1,2,3) demo_start_eq *(4), of "''A''" "Some 9" 1 "[]" demo_ops]
  show ?thesis by auto
qed

lemma GetSnapshot_unmarked:
  assumes "\<forall>p. \<not> list_ex (marked p sid) ops"
  shows "snap_GetSnapshot sid (fst (snap_run cb ops s)) = snap_GetSnapshot sid (fst s)"
  using assms
proof (induction ops arbitrary: s)
  case (Cons op ops)
  obtain c w where s: "s = (c, w)" by (cases s)
  have "snap_GetSnapshot sid (fst (snap_step cb op (c, w))) = snap_GetSnapshot sid c"
  proof (cases op)
    case (MarkerOp p f s' cap now)
    then have "s' \<noteq> sid" using Cons.prems by auto
    with MarkerOp show ?thesis
      by (cases "getProcessState p c") (simp_all add: marker_unregistered marker_effect(3) [OF _ refl refl])
  qed (simp add: record_effect)
  with Cons s show ?case by simp
qed simp

text \<open>
  A snapshot does not complete when the process it waits for is removed. \<^verbatim>\<open>DeregisterProcess\<close>
  only edits the registered processes: the global snapshot stays as it was, and so it does
  through every later step that is not a marker of this snapshot. So when the removed process
  was the last one missing, and no further marker is under way, the snapshot stays incomplete for
  ever (the witness: the two remaining processes have closed every channel and nobody is left to
  send a marker).
\<close>

theorem snapshot_deregister_stuck:
  assumes "snap_GetSnapshot sid c = Some gs" and "\<not> gs_Complete gs"
    and "\<forall>q. \<not> list_ex (marked q sid) ops"
  shows "snap_GetSnapshot sid (fst (snap_run cb ops (DeregisterProcess p c, w))) = Some gs
    \<and> \<not> gs_Done gs"
proof -
  have "snap_GetSnapshot sid (DeregisterProcess p c) = snap_GetSnapshot sid c"
    by (simp add: DeregisterProcess_def snap_GetSnapshot_def Let_def)
  then show ?thesis using assms by (simp add: gs_Done_def GetSnapshot_unmarked)
qed

definition demo_three :: "(nat, nat) SnapshotCoordinator" where
  "demo_three =
     fst (snap_run demo_cb [MarkerOp ''B'' ''A'' ''snap-1'' (Some 9) 1, MarkerOp ''A'' ''B'' ''snap-1'' (Some 8) 2]
       (fst (snd (InitiateSnapshot demo_cb 1 0 ''A''
          (snap_RegisterProcess ''C'' [''A'', ''B''] demo_coord, ()))), ()))"

definition all_closed :: "string \<Rightarrow> ('d, 's) SnapshotCoordinator \<Rightarrow> bool" where
  "all_closed sid c = list_all (\<lambda>(p, ps). case map_of (psn_perSnap ps) sid of
       None \<Rightarrow> False | Some st \<Rightarrow> all_finalized (psn_peers ps) (pss_recordedChans st)) (gm_range (sc_procStates c))"

theorem snapshot_deregister_stuck_witness:
  "gm_keys (sc_procStates (DeregisterProcess ''C'' demo_three)) = [''A'', ''B'']
    \<and> all_closed ''snap-1'' (DeregisterProcess ''C'' demo_three)
    \<and> (\<exists>gs. snap_GetSnapshot ''snap-1'' (fst (snap_run demo_cb [] (DeregisterProcess ''C'' demo_three, ()))) = Some gs
        \<and> \<not> gs_Done gs)"
proof -
  have *: "snap_GetSnapshot ''snap-1'' demo_three = Some \<lparr>gs_SnapshotID = ''snap-1'', gs_InitiatorID = ''A'',
      gs_StartTime = 0, gs_LocalStates = [], gs_Complete = False\<rparr>"
    "gm_keys (sc_procStates (DeregisterProcess ''C'' demo_three)) = [''A'', ''B'']"
    "all_closed ''snap-1'' (DeregisterProcess ''C'' demo_three)"
    by code_simp+
  from snapshot_deregister_stuck [OF *(1), of "[]" demo_cb "''C''" "()"] *(2,3) show ?thesis by simp
qed

end
