(* ===== verification/Snapshot_Verify.thy ===== *)
theory Snapshot_Verify
  imports Snapshot_Coord Process_Model
begin

text \<open>
  \<^verbatim>\<open>internal/snapshot/verifier.go\<close>: the consistency check of a global snapshot. The dynamic
  values the verifier distinguishes in a local state are the constructors of \<open>snap_state\<close>. The
  vector clock of a \<^verbatim>\<open>ProcessState\<close> is nil exactly when the process has no vector clock, and then
  it is the empty list here; a clock that exists has its owner's key. For \<^verbatim>\<open>SenderVC\<close> nil and
  empty make no difference, as no counter is below 0.
\<close>

section \<open>Helpers\<close>

definition joinStrings :: "string list \<Rightarrow> string \<Rightarrow> string" where
  "joinStrings ss sep = snd (fold (\<lambda>s (i, out). (i + 1, (if i > 0 then out @ sep else out) @ s)) ss (0 :: nat, ''''))"

text \<open>
  The loop of \<^verbatim>\<open>itoa\<close>: \<open>i\<close> is the index into the buffer of 20 bytes; an index below 0 would panic
  (\<open>None\<close>).
\<close>

function itoa_loop :: "nat \<Rightarrow> char list \<Rightarrow> u64 \<Rightarrow> string option" where
  "itoa_loop i buf v =
     (if v = 0 then Some (drop i buf)
      else if i = 0 then None
      else itoa_loop (i - 1) (buf[i - 1 := char_of (unat (48 + v mod 10))]) (v div 10))"
  by auto
termination
  by (relation "measure (\<lambda>(i, buf, v). i)") auto

declare itoa_loop.simps [simp del]

definition itoa :: "u64 \<Rightarrow> string option" where
  "itoa v = (if v = 0 then Some ''0'' else itoa_loop 20 (replicate 20 (char_of (0 :: nat))) v)"

lemma unat_mod_10: "unat (48 + v mod 10 :: u64) = 48 + unat v mod 10"
proof -
  have "unat v mod 10 < 10" by simp
  then show ?thesis by (simp add: unat_word_ariths unat_mod_distrib)
qed

lemma itoa_loop_dec:
  "unat v < 10 ^ i \<Longrightarrow> i \<le> length buf \<Longrightarrow>
   itoa_loop i buf v = Some ((if v = 0 then '''' else dec (unat v)) @ drop i buf)"
proof (induction i buf v rule: itoa_loop.induct)
  case (1 i buf v)
  show ?case
  proof (cases "v = 0")
    case True
    then show ?thesis by (simp add: itoa_loop.simps)
  next
    case False
    then have "0 < unat v" by (simp add: unat_gt_0)
    with "1.prems" have i: "i \<noteq> 0" by (cases i) auto
    have div: "unat (v div 10) = unat v div 10" by (simp add: unat_div_distrib)
    have "unat (v div 10) < 10 ^ (i - 1)"
      unfolding div using "1.prems"(1) i by (cases i) (auto simp: less_mult_imp_div_less mult.commute)
    then have IH: "itoa_loop (i - 1) (buf[i - 1 := char_of (unat (48 + v mod 10))]) (v div 10) =
        Some ((if v div 10 = 0 then '''' else dec (unat v div 10)) @
          drop (i - 1) (buf[i - 1 := char_of (unat (48 + v mod 10))]))"
      using "1.IH" [OF False i] "1.prems"(2) by (simp add: div)
    have drop: "drop (i - 1) (buf[i - 1 := x]) = x # drop i buf" for x
      using i "1.prems"(2) by (cases i) (simp_all add: Cons_nth_drop_Suc [symmetric])
    have zero: "v div 10 = 0 \<longleftrightarrow> unat v < 10"
      using div by (metis div_eq_0_iff unat_eq_0 zero_neq_numeral)
    have "digit (unat v mod 10) = char_of (unat (48 + v mod 10))"
      by (simp add: digit_def unat_mod_10)
    then have "itoa_loop i buf v = Some ((if unat v < 10 then '''' else dec (unat v div 10)) @ digit (unat v mod 10) # drop i buf)"
      using IH [unfolded drop zero] False i by (subst itoa_loop.simps) simp
    with False show ?thesis by (simp add: dec.simps [of "unat v"])
  qed
qed

lemma itoa_dec [simp]: "itoa v = Some (dec (unat v))"
proof (cases "v = 0")
  case True
  then show ?thesis by (simp add: itoa_def dec.simps digit_def) code_simp
next
  case False
  have "unat v < 10 ^ 20" using unsigned_less [of v, where 'a = nat] by simp
  with itoa_loop_dec [of v 20 "replicate 20 (char_of 0)"] False show ?thesis by (simp add: itoa_def)
qed

section \<open>The check\<close>

record VerificationResult =
  vr_Consistent :: bool
  vr_Evidence :: "string list"

datatype snap_state =
    StateValue ProcessState  \<comment> \<open>has \<^verbatim>\<open>GetVectorClock\<close>\<close>
  | StateMap "(string, vclock option) gomap"  \<comment> \<open>a map; \<open>None\<close>: a value of another type than a clock\<close>
  | StateOther

fun vectorClockFromState :: "snap_state option \<Rightarrow> vclock option" where
  "vectorClockFromState None = None"
| "vectorClockFromState (Some (StateValue ps)) = (if GetVectorClock ps = [] then None else Some (GetVectorClock ps))"
| "vectorClockFromState (Some (StateMap m)) =
     (case map_of m ''vectorClock'' of Some (Some vc) \<Rightarrow> Some vc | _ \<Rightarrow> None)"
| "vectorClockFromState (Some StateOther) = None"

definition arrow :: string where
  "arrow = [CHR 0xE2, CHR 0x86, CHR 0x92]"

definition check_mark :: string where
  "check_mark = [CHR 0xE2, CHR 0x9C, CHR 0x93]"

definition vr_fail :: "string \<Rightarrow> VerificationResult \<Rightarrow> VerificationResult" where
  "vr_fail e r = \<lparr>vr_Consistent = False, vr_Evidence = vr_Evidence r @ [e]\<rparr>"

definition vr_note :: "string \<Rightarrow> VerificationResult \<Rightarrow> VerificationResult" where
  "vr_note e r = r\<lparr>vr_Evidence := vr_Evidence r @ [e]\<rparr>"

text \<open>The body of the innermost loop; \<open>None\<close> is the panic of \<^verbatim>\<open>itoa\<close>.\<close>

definition verify_msg :: "('d, snap_state) GlobalSnapshot \<Rightarrow> pid \<Rightarrow> pid \<Rightarrow> 'd SnapMessage \<Rightarrow>
    VerificationResult \<Rightarrow> VerificationResult option" where
  "verify_msg gs p fromPID msg r =
     (let good = Some (vr_note (check_mark @ '' msg '' @ sm_ID msg @ '' in channel '' @ fromPID @ arrow @ p @
                   '': pre-cut at '' @ fromPID @ '', post-cut at '' @ p) r);
          missing = Some (vr_fail (''sender '' @ fromPID @ '' has no local snapshot (msg '' @ sm_ID msg @ '' in channel)'') r)
      in case map_of (gs_LocalStates gs) fromPID of
           None \<Rightarrow> missing
         | Some senderLS \<Rightarrow>
             if ls_LocalState senderLS = None then missing
             else if sm_SenderVC msg = [] then good
             else case vectorClockFromState (ls_LocalState senderLS) of
               None \<Rightarrow> good
             | Some senderState \<Rightarrow>
                 let got = gm_get 0 senderState fromPID; want = gm_get 0 (sm_SenderVC msg) fromPID
                 in if got < want then
                      (case (itoa got, itoa want) of
                         (Some g, Some t) \<Rightarrow> Some (vr_fail (''msg '' @ sm_ID msg @ '' in channel '' @ fromPID @ arrow @ p @
                            '': sender counter '' @ g @ '' < message sender-counter '' @ t) r)
                       | _ \<Rightarrow> None)
                    else good)"

definition Verify :: "('d, snap_state) GlobalSnapshot \<Rightarrow> VerificationResult option" where
  "Verify gs =
     (let incomplete = map fst (filter (\<lambda>(p, ls). \<not> ls_Finalized ls) (gm_range (gs_LocalStates gs)))
      in if length incomplete > 0
         then Some \<lparr>vr_Consistent = True, vr_Evidence = [''snapshot not yet complete; awaiting: '' @ joinStrings incomplete '','']\<rparr>
         else gm_fold (\<lambda>p ls. gm_fold (\<lambda>fromPID cs. fold (\<lambda>msg r. Option.bind r (verify_msg gs p fromPID msg)) (chs_Messages cs))
                (ls_RecordedChans ls)) (gs_LocalStates gs) (Some \<lparr>vr_Consistent = True, vr_Evidence = []\<rparr>))"

section \<open>What the check accepts\<close>

text \<open>The condition on one recorded message, as a specification.\<close>

definition sent_before_cut :: "('d, snap_state) GlobalSnapshot \<Rightarrow> pid \<Rightarrow> 'd SnapMessage \<Rightarrow> bool" where
  "sent_before_cut gs q m \<longleftrightarrow> (\<exists>ls st. map_of (gs_LocalStates gs) q = Some ls \<and> ls_LocalState ls = Some st
     \<and> (\<forall>vc. vectorClockFromState (Some st) = Some vc \<longrightarrow> gm_get 0 (sm_SenderVC m) q \<le> gm_get 0 vc q))"

lemma vr_simps [simp]: "vr_Consistent (vr_fail e r) = False" "vr_Consistent (vr_note e r) = vr_Consistent r"
    "length (vr_Evidence (vr_fail e r)) = Suc (length (vr_Evidence r))"
    "length (vr_Evidence (vr_note e r)) = Suc (length (vr_Evidence r))"
  by (simp_all add: vr_fail_def vr_note_def)

lemma verify_msg_spec:
  "\<exists>r'. verify_msg gs p q m r = Some r' \<and> (vr_Consistent r' \<longleftrightarrow> vr_Consistent r \<and> sent_before_cut gs q m)
    \<and> length (vr_Evidence r') = Suc (length (vr_Evidence r))"
proof (cases "\<exists>ls st. map_of (gs_LocalStates gs) q = Some ls \<and> ls_LocalState ls = Some st")
  case False
  then have "\<not> sent_before_cut gs q m" by (auto simp: sent_before_cut_def)
  with False show ?thesis by (cases "map_of (gs_LocalStates gs) q") (auto simp: verify_msg_def Let_def)
next
  case True
  then obtain ls st where ls: "map_of (gs_LocalStates gs) q = Some ls" "ls_LocalState ls = Some st" by blast
  show ?thesis
  proof (cases "sm_SenderVC m = [] \<or> vectorClockFromState (Some st) = None")
    case True
    then have "sent_before_cut gs q m" using ls by (auto simp: sent_before_cut_def)
    with True ls show ?thesis by (auto simp: verify_msg_def Let_def)
  next
    case False
    then obtain vc where vc: "vectorClockFromState (Some st) = Some vc" by auto
    have "sent_before_cut gs q m \<longleftrightarrow> \<not> gm_get 0 vc q < gm_get 0 (sm_SenderVC m) q"
      using ls vc by (auto simp: sent_before_cut_def not_less)
    with False ls vc show ?thesis by (simp add: verify_msg_def Let_def)
  qed
qed

text \<open>A loop whose body adds one condition and some evidence.\<close>

lemma verify_loop:
  assumes "\<And>x r. x \<in> set xs \<Longrightarrow> \<exists>r'. f x (Some r) = Some r' \<and> (vr_Consistent r' \<longleftrightarrow> vr_Consistent r \<and> P x)
      \<and> length (vr_Evidence r') = length (vr_Evidence r) + n x"
  shows "\<exists>r'. fold f xs (Some r) = Some r' \<and> (vr_Consistent r' \<longleftrightarrow> vr_Consistent r \<and> (\<forall>x\<in>set xs. P x))
      \<and> length (vr_Evidence r') = length (vr_Evidence r) + sum_list (map n xs)"
  using assms
proof (induction xs arbitrary: r)
  case (Cons x xs)
  obtain r1 where r1: "f x (Some r) = Some r1" "vr_Consistent r1 \<longleftrightarrow> vr_Consistent r \<and> P x"
      "length (vr_Evidence r1) = length (vr_Evidence r) + n x"
    using Cons.prems [of x r] by auto
  obtain r2 where "fold f xs (Some r1) = Some r2" "vr_Consistent r2 \<longleftrightarrow> vr_Consistent r1 \<and> (\<forall>x\<in>set xs. P x)"
      "length (vr_Evidence r2) = length (vr_Evidence r1) + sum_list (map n xs)"
    using Cons.IH [of r1] Cons.prems by auto
  then show ?case using r1 by (intro exI [of _ r2]) auto
qed simp

definition chan_count :: "('d, 's) LocalSnapshot \<Rightarrow> nat" where
  "chan_count ls = sum_list (map (\<lambda>(q, cs). length (chs_Messages cs)) (gm_range (ls_RecordedChans ls)))"

lemma Verify_complete:
  fixes gs :: "('a, snap_state) GlobalSnapshot"
  assumes "\<And>p ls. map_of (gs_LocalStates gs) p = Some ls \<Longrightarrow> ls_Finalized ls"
  shows "\<exists>r. Verify gs = Some r
    \<and> (vr_Consistent r \<longleftrightarrow> (\<forall>p ls q cs m. map_of (gs_LocalStates gs) p = Some ls \<longrightarrow> map_of (ls_RecordedChans ls) q = Some cs \<longrightarrow>
         m \<in> set (chs_Messages cs) \<longrightarrow> sent_before_cut gs q m))
    \<and> length (vr_Evidence r) = sum_list (map (\<lambda>(p, ls). chan_count ls) (gm_range (gs_LocalStates gs)))"
proof -
  define msgs where "msgs = (\<lambda>p q (cs :: 'a ChannelState). fold (\<lambda>msg r. Option.bind r (verify_msg gs p q msg)) (chs_Messages cs))"
  define chans where "chans = (\<lambda>p (ls :: ('a, snap_state) LocalSnapshot). gm_fold (msgs p) (ls_RecordedChans ls))"
  have inner: "\<exists>r'. msgs p q cs (Some r) = Some r' \<and> (vr_Consistent r' \<longleftrightarrow> vr_Consistent r \<and> (\<forall>m\<in>set (chs_Messages cs). sent_before_cut gs q m))
      \<and> length (vr_Evidence r') = length (vr_Evidence r) + length (chs_Messages cs)" for p q and cs :: "'a ChannelState" and r
    using verify_loop [of "chs_Messages cs" "\<lambda>m r. Option.bind r (verify_msg gs p q m)" "sent_before_cut gs q" "\<lambda>_. 1" r]
      verify_msg_spec [of gs p q] by (simp add: msgs_def sum_list_triv)
  have middle: "\<exists>r'. chans p ls (Some r) = Some r'
      \<and> (vr_Consistent r' \<longleftrightarrow> vr_Consistent r \<and> (\<forall>(q, cs)\<in>set (gm_range (ls_RecordedChans ls)). \<forall>m\<in>set (chs_Messages cs). sent_before_cut gs q m))
      \<and> length (vr_Evidence r') = length (vr_Evidence r) + chan_count ls" for p and ls :: "('a, snap_state) LocalSnapshot" and r
    unfolding chans_def gm_fold_def chan_count_def
    by (rule verify_loop) (use inner in \<open>auto simp: split_beta\<close>)
  have outer: "\<exists>r'. gm_fold chans (gs_LocalStates gs) (Some \<lparr>vr_Consistent = True, vr_Evidence = []\<rparr>) = Some r'
      \<and> (vr_Consistent r' \<longleftrightarrow> vr_Consistent \<lparr>vr_Consistent = True, vr_Evidence = []\<rparr> \<and> (\<forall>(p, ls)\<in>set (gm_range (gs_LocalStates gs)).
           \<forall>(q, cs)\<in>set (gm_range (ls_RecordedChans ls)). \<forall>m\<in>set (chs_Messages cs). sent_before_cut gs q m))
      \<and> length (vr_Evidence r') = length (vr_Evidence \<lparr>vr_Consistent = True, vr_Evidence = []\<rparr>)
           + sum_list (map (\<lambda>(p, ls). chan_count ls) (gm_range (gs_LocalStates gs)))"
    unfolding gm_fold_def
    by (rule verify_loop) (use middle in \<open>auto simp: split_beta\<close>)
  have "filter (\<lambda>(p, ls). \<not> ls_Finalized ls) (gm_range (gs_LocalStates gs)) = []"
    using assms by (auto simp: filter_empty_conv mem_gm_range)
  then have "Verify gs = gm_fold chans (gs_LocalStates gs) (Some \<lparr>vr_Consistent = True, vr_Evidence = []\<rparr>)"
    by (simp add: Verify_def chans_def msgs_def Let_def)
  moreover have "(\<forall>(p, ls)\<in>set (gm_range (gs_LocalStates gs)).
           \<forall>(q, cs)\<in>set (gm_range (ls_RecordedChans ls)). \<forall>m\<in>set (chs_Messages cs). sent_before_cut gs q m)
    \<longleftrightarrow> (\<forall>p ls q cs m. map_of (gs_LocalStates gs) p = Some ls \<longrightarrow> map_of (ls_RecordedChans ls) q = Some cs \<longrightarrow>
         m \<in> set (chs_Messages cs) \<longrightarrow> sent_before_cut gs q m)"
    by (simp add: Ball_def split_paired_All mem_gm_range)
  ultimately show ?thesis using outer by simp
qed

section \<open>Properties\<close>

text \<open>
  C30: \<^verbatim>\<open>Verify\<close> decides the cut condition. It never panics (the 20-byte buffer of \<^verbatim>\<open>itoa\<close> is large
  enough for every 64-bit value). When some process reported a local snapshot that is not
  finalized, the result is consistent, with one line that lists exactly those processes. Otherwise
  it is consistent exactly when every message recorded on a channel from \<open>q\<close> was sent before the
  cut: \<open>q\<close> reported a state, and where that state has a vector clock its own entry has reached the
  counter the message carries. Every recorded message gets one line of evidence. The comment in
  the code calls every snapshot in which not all processes have reported consistent; here such a
  snapshot falls under the first case only if an unfinalized state is stored, and otherwise a
  message of a process that has not reported makes it inconsistent.
\<close>

theorem snapshot_Verify_correct:
  fixes gs :: "('a, snap_state) GlobalSnapshot"
  shows "\<exists>r. Verify gs = Some r \<and>
    (if \<exists>p ls. map_of (gs_LocalStates gs) p = Some ls \<and> \<not> ls_Finalized ls
     then vr_Consistent r \<and> (\<exists>ps. set ps = {p. \<exists>ls. map_of (gs_LocalStates gs) p = Some ls \<and> \<not> ls_Finalized ls} \<and> distinct ps
            \<and> vr_Evidence r = [''snapshot not yet complete; awaiting: '' @ joinStrings ps '',''])
     else (vr_Consistent r \<longleftrightarrow> (\<forall>p ls q cs m. map_of (gs_LocalStates gs) p = Some ls \<longrightarrow> map_of (ls_RecordedChans ls) q = Some cs \<longrightarrow>
             m \<in> set (chs_Messages cs) \<longrightarrow> sent_before_cut gs q m))
       \<and> length (vr_Evidence r) = sum_list (map (\<lambda>(p, ls). chan_count ls) (gm_range (gs_LocalStates gs))))"
proof (cases "\<exists>p ls. map_of (gs_LocalStates gs) p = Some ls \<and> \<not> ls_Finalized ls")
  case True
  define ps where "ps = map fst (filter (\<lambda>(p, ls). \<not> ls_Finalized ls) (gm_range (gs_LocalStates gs)))"
  have set: "set ps = {p. \<exists>ls. map_of (gs_LocalStates gs) p = Some ls \<and> \<not> ls_Finalized ls}"
    by (force simp: ps_def simp flip: mem_gm_range)
  moreover have "distinct ps" by (simp add: ps_def distinct_map_filter)
  moreover have "ps \<noteq> []" using set True by auto
  then have "Verify gs = Some \<lparr>vr_Consistent = True, vr_Evidence = [''snapshot not yet complete; awaiting: '' @ joinStrings ps '','']\<rparr>"
    by (auto simp: Verify_def ps_def [symmetric] Let_def)
  ultimately show ?thesis using True by auto
next
  case False
  then show ?thesis using Verify_complete [of gs] by (simp only: if_False) blast
qed

definition demo_state :: "u64 \<Rightarrow> snap_state" where
  "demo_state n = StateMap [(''vectorClock'', Some [(''B'', n)])]"

definition demo_gs :: "bool \<Rightarrow> u64 \<Rightarrow> (nat, snap_state) GlobalSnapshot" where
  "demo_gs fin n = \<lparr>gs_SnapshotID = ''s'', gs_InitiatorID = ''A'', gs_StartTime = 0,
     gs_LocalStates = [
       (''A'', \<lparr>ls_ProcessID = ''A'', ls_LocalState = Some (demo_state 0),
          ls_RecordedChans = [(''B'', \<lparr>chs_From = ''B'', chs_Messages = [demo_msg], chs_Finalized = True\<rparr>)],
          ls_Finalized = True, ls_SnapshotID = ''s'', ls_SnapshotTime = 0\<rparr>),
       (''B'', \<lparr>ls_ProcessID = ''B'', ls_LocalState = Some (demo_state n), ls_RecordedChans = [],
          ls_Finalized = fin, ls_SnapshotID = ''s'', ls_SnapshotTime = 0\<rparr>)],
     gs_Complete = True\<rparr>"

theorem snapshot_Verify_correct_witness:
  "(\<exists>r. Verify (demo_gs True 1) = Some r \<and> length (vr_Evidence r) = 1)
    \<and> map_option vr_Consistent (Verify (demo_gs True 1)) = Some True
    \<and> map_option vr_Consistent (Verify (demo_gs True 0)) = Some False
    \<and> Verify (demo_gs False 0) = Some \<lparr>vr_Consistent = True, vr_Evidence = [''snapshot not yet complete; awaiting: B'']\<rparr>"
proof -
  have "list_all (\<lambda>(p, ls). ls_Finalized ls) (gs_LocalStates (demo_gs True 1))" by code_simp
  then have "\<not> (\<exists>p ls. map_of (gs_LocalStates (demo_gs True 1)) p = Some ls \<and> \<not> ls_Finalized ls)"
    by (auto simp: list_all_iff dest!: map_of_SomeD)
  moreover have "sum_list (map (\<lambda>(p, ls). chan_count ls) (gm_range (gs_LocalStates (demo_gs True 1)))) = 1" by code_simp
  ultimately have "\<exists>r. Verify (demo_gs True 1) = Some r \<and> length (vr_Evidence r) = 1"
    using snapshot_Verify_correct [of "demo_gs True 1"] by (simp only: if_False) metis
  moreover have "map_option vr_Consistent (Verify (demo_gs True 1)) = Some True" by code_simp
  moreover have "map_option vr_Consistent (Verify (demo_gs True 0)) = Some False" by code_simp
  moreover have "Verify (demo_gs False 0) = Some \<lparr>vr_Consistent = True, vr_Evidence = [''snapshot not yet complete; awaiting: B'']\<rparr>"
    by code_simp
  ultimately show ?thesis by blast
qed

text \<open>
  A snapshot in progress can be reported inconsistent. The coordinator stores only finalized
  local snapshots, so \<^verbatim>\<open>Verify\<close> never takes a snapshot of the coordinator for incomplete: as soon as
  some process has reported with a message recorded from a process that has not reported yet, the
  result is inconsistent, although the snapshot is merely not ready.
\<close>

theorem snapshot_Verify_in_progress:
  fixes c :: "('d, snap_state) SnapshotCoordinator"
  assumes "InitiateSnapshot cb nano now i (c, w) = (Some sid, c1, w1)" and "\<forall>p. pstate sid p c = None"
    and "snap_GetSnapshot sid (fst (snap_run cb ops (c1, w1))) = Some gs"
    and "map_of (gs_LocalStates gs) p = Some ls" and "map_of (ls_RecordedChans ls) q = Some cs"
    and "m \<in> set (chs_Messages cs)" and "map_of (gs_LocalStates gs) q = None" and "peers_of q c \<noteq> None"
  shows "\<not> gs_Done gs \<and> (\<exists>r. Verify gs = Some r \<and> \<not> vr_Consistent r)"
proof -
  define c2 where "c2 = fst (snap_run cb ops (c1, w1))"
  have "snap_inv sid c2"
    using snap_inv_run [of sid "(c1, w1)"] snap_inv_Initiate [OF assms(1)] assms(2) by (simp add: c2_def)
  then have ok: "\<And>p. local_ok (map_of (gs_LocalStates gs) p) (pstate sid p c2)"
    and comp: "gs_Complete gs \<longleftrightarrow> (\<forall>p. peers_of p c2 \<noteq> None \<longrightarrow> map_of (gs_LocalStates gs) p \<noteq> None)"
    using assms(3) by (auto simp: snap_inv_def c2_def)
  have "peers_of q c2 = peers_of q c"
    using pstate_run(2) [of i "(c1, w1)" _ q cb ops] Initiate_effect(2,5) [OF assms(1)] by (auto simp: c2_def)
  then have not_done: "\<not> gs_Done gs" using assms(7,8) unfolding gs_Done_def comp by metis
  have fin: "ls_Finalized l" if "map_of (gs_LocalStates gs) a = Some l" for a l
    using ok [of a] that by (auto simp: local_ok_def agrees_def)
  have "\<not> sent_before_cut gs q m" using assms(7) by (simp add: sent_before_cut_def)
  moreover have "\<exists>r. Verify gs = Some r \<and> (vr_Consistent r \<longleftrightarrow> (\<forall>p ls q cs m. map_of (gs_LocalStates gs) p = Some ls \<longrightarrow>
      map_of (ls_RecordedChans ls) q = Some cs \<longrightarrow> m \<in> set (chs_Messages cs) \<longrightarrow> sent_before_cut gs q m))"
    using Verify_complete [of gs] fin by blast
  ultimately have "\<exists>r. Verify gs = Some r \<and> \<not> vr_Consistent r"
    using assms(4-6) by metis
  with not_done show ?thesis by blast
qed

text \<open>
  Three processes. A initiates; C answers with its marker but still waits for B's; A, which has the
  markers of both, has recorded a message from C.
\<close>

definition demo3_cb :: "(nat, snap_state, unit) snap_callbacks" where
  "demo3_cb = \<lparr>onSendMarker = (\<lambda>f t sid w. w), onCaptureState = (\<lambda>p w. Some (demo_state 1)), onComplete = None\<rparr>"

definition demo3 :: "(nat, snap_state) SnapshotCoordinator" where
  "demo3 = snap_RegisterProcess ''C'' [''A'', ''B''] (snap_RegisterProcess ''B'' [''A''] (snap_RegisterProcess ''A'' [] NewCoordinator))"

definition demo3_start :: "string option \<times> (nat, snap_state) SnapshotCoordinator \<times> unit" where
  "demo3_start = InitiateSnapshot demo3_cb 1 0 ''A'' (demo3, ())"

definition demo3_ops :: "(nat, snap_state) snap_op list" where
  "demo3_ops = [MarkerOp ''B'' ''A'' ''snap-1'' (Some (demo_state 1)) 1, MarkerOp ''C'' ''A'' ''snap-1'' (Some (demo_state 1)) 2,
     RecordOp ''snap-1'' ''A'' ''C'' demo_msg, MarkerOp ''A'' ''C'' ''snap-1'' None 3, MarkerOp ''A'' ''B'' ''snap-1'' None 4]"

definition demo3_gs :: "(nat, snap_state) GlobalSnapshot" where
  "demo3_gs = (case snap_GetSnapshot ''snap-1'' (fst (snap_run demo3_cb demo3_ops (fst (snd demo3_start), ()))) of
     Some gs \<Rightarrow> gs | None \<Rightarrow> demo_gs True 0)"

theorem snapshot_Verify_in_progress_witness:
  "\<not> gs_Done demo3_gs \<and> (\<exists>r. Verify demo3_gs = Some r \<and> \<not> vr_Consistent r)"
proof -
  have start: "InitiateSnapshot demo3_cb 1 0 ''A'' (demo3, ()) = (Some ''snap-1'', fst (snd demo3_start), ())"
    by code_simp
  have eq: "demo3 = \<lparr>sc_snapshots = [], sc_procStates = [(''A'', \<lparr>psn_peers = [''B'', ''C''], psn_perSnap = []\<rparr>),
      (''B'', \<lparr>psn_peers = [''A'', ''C''], psn_perSnap = []\<rparr>), (''C'', \<lparr>psn_peers = [''A'', ''B''], psn_perSnap = []\<rparr>)]\<rparr>"
    by code_simp
  have fresh: "\<forall>p. pstate ''snap-1'' p demo3 = None" unfolding eq by (simp add: pstate_def getProcessState_def)
  have gs: "snap_GetSnapshot ''snap-1'' (fst (snap_run demo3_cb demo3_ops (fst (snd demo3_start), ()))) = Some demo3_gs"
    by code_simp
  define ls where "ls = \<lparr>ls_ProcessID = ''A'', ls_LocalState = Some (demo_state 1),
    ls_RecordedChans = [(''B'', closed_channel ''B''), (''C'', (closed_channel ''C'')\<lparr>chs_Messages := [demo_msg]\<rparr>)],
    ls_Finalized = True, ls_SnapshotID = ''snap-1'', ls_SnapshotTime = 4\<rparr>"
  have "map_of (gs_LocalStates demo3_gs) ''A'' = Some ls" unfolding ls_def by code_simp
  moreover have "map_of (ls_RecordedChans ls) ''C'' = Some ((closed_channel ''C'')\<lparr>chs_Messages := [demo_msg]\<rparr>)"
    by (simp add: ls_def)
  moreover have "demo_msg \<in> set (chs_Messages ((closed_channel ''C'')\<lparr>chs_Messages := [demo_msg]\<rparr>))" by simp
  moreover have "map_of (gs_LocalStates demo3_gs) ''C'' = None" by code_simp
  moreover have "peers_of ''C'' demo3 \<noteq> None" unfolding eq by (simp add: peers_of_def getProcessState_def)
  ultimately show ?thesis by (rule snapshot_Verify_in_progress [OF start fresh gs])
qed

end
