(* ===== verification/Simulation_Model.thy ===== *)
theory Simulation_Model
  imports Snapshot_Verify Transport_Stages Causal_Graph
begin

text \<open>
  \<^verbatim>\<open>internal/simulation/simulation.go\<close>: the simulation that wires processes, transport, bus,
  snapshot coordinator and causal graph together. Processes are objects in the store \<open>sim_objs\<close>:
  the closure the transport calls keeps its process after \<^verbatim>\<open>KillProcess\<close>, so the process map
  and the transport hold references (indices). \<^verbatim>\<open>KillProcess\<close> releases the lock before it deregisters and
  stops the process; the goroutines between these stages are in \<open>sim_kills\<close>. Timestamps are parameters
  (\<open>now\<close>, \<open>sent\<close>, \<open>nano\<close>). Logging is left out.
\<close>

definition DefaultInitialProcesses :: nat where
  "DefaultInitialProcesses = 3"

definition MaxSimulationProcesses :: nat where
  "MaxSimulationProcesses = 100"

record SimConfig =
  sc_ClockType :: ClockType
  sc_DeliveryMode :: DeliveryMode
  sc_Channels :: string

record SimulationState =
  ss_Processes :: "ProcessState list"
  ss_EventCount :: int
  ss_Config :: SimConfig

text \<open>Where a goroutine in \<^verbatim>\<open>KillProcess\<close> is after it has removed the process from the map: about to deregister
  the identifier at the coordinator, and about to stop the process.\<close>

datatype kill_pc = KillDeregister pid nat | KillStop nat

record 'd Simulation =
  sim_objs :: "'d Process list"
  sim_processes :: "(pid, nat) gomap"
  sim_transport :: "('d, nat) SimTransport"
  sim_bus :: "'d EventBus"
  sim_snapshots :: "('d, snap_state) SnapshotCoordinator"
  sim_config :: SimConfig
  sim_eventCount :: int
  sim_causalGraph :: CausalGraph
  sim_kills :: "kill_pc list"

datatype sim_error =
    IDRequired | IDTooLong | AlreadyExists pid | LimitReached | ProcessNotFound pid
  | SendFailed transport_error | BroadcastFailed pid transport_error | SnapshotFailed pid

section \<open>The callbacks of the coordinator\<close>

definition marker_message :: "pid \<Rightarrow> pid \<Rightarrow> string \<Rightarrow> 'd Message" where
  "marker_message from to snapshotID =
     \<lparr>msg_ID = ''marker-'' @ snapshotID @ ''-'' @ from @ ''-'' @ to, msg_From = from, msg_To = to, msg_Data = None,
      msg_SentVC = [], msg_SentMatrix = [], msg_SentLC = 0, msg_SentAt = 0, msg_IsMarker = True,
      msg_SnapshotID = snapshotID\<rparr>"

definition publish_snapshot :: "EventType \<Rightarrow> pid \<Rightarrow> SnapshotPayload \<Rightarrow> 'd EventBus \<Rightarrow> 'd EventBus" where
  "publish_snapshot t p payload bus =
     (case events_NextSeq bus of (globalSeq, bus') \<Rightarrow>
        events_Publish (zero_Event\<lparr>ev_Type := t, ev_ProcessID := p, ev_GlobalSeq := globalSeq, ev_Snapshot := Some payload\<rparr>) bus')"

definition send_marker :: "pid \<Rightarrow> pid \<Rightarrow> string \<Rightarrow> ('d, nat) SimTransport \<times> 'd EventBus \<Rightarrow>
    ('d, nat) SimTransport \<times> 'd EventBus" where
  "send_marker from to snapshotID = (\<lambda>(t, bus).
     (snd (transport_Send from to (marker_message from to snapshotID) t),
      publish_snapshot EvtMarkerSent from \<lparr>sp_SnapshotID = snapshotID, sp_ProcessID = from, sp_Complete = False\<rparr> bus))"

definition capture_state :: "'d Simulation \<Rightarrow> pid \<Rightarrow> snap_state option" where
  "capture_state s p =
     (case map_of (sim_processes s) p of
        Some obj \<Rightarrow> Some (StateValue (process_Snapshot (sim_objs s ! obj)))
      | None \<Rightarrow> None)"

definition snapshot_complete :: "string \<Rightarrow> ('d, snap_state) GlobalSnapshot \<Rightarrow>
    ('d, nat) SimTransport \<times> 'd EventBus \<Rightarrow> ('d, nat) SimTransport \<times> 'd EventBus" where
  "snapshot_complete snapshotID gs = (\<lambda>(t, bus).
     (t, publish_snapshot EvtSnapshotComplete '''' \<lparr>sp_SnapshotID = snapshotID, sp_ProcessID = '''', sp_Complete = True\<rparr> bus))"

definition sim_callbacks :: "'d Simulation \<Rightarrow> ('d, snap_state, ('d, nat) SimTransport \<times> 'd EventBus) snap_callbacks" where
  "sim_callbacks s = \<lparr>onSendMarker = send_marker, onCaptureState = (\<lambda>p w. capture_state s p),
     onComplete = Some snapshot_complete\<rparr>"

section \<open>The causal graph\<close>

text \<open>The channel of the subscription that feeds the causal graph.\<close>

definition graph_chan :: nat where
  "graph_chan = 0"

definition handle_graph_event :: "'d Event \<Rightarrow> CausalGraph \<Rightarrow> CausalGraph" where
  "handle_graph_event e g =
     (let mid = (case ev_Message e of None \<Rightarrow> '''' | Some m \<Rightarrow> mp_ID m);
          ev = \<lparr>ce_ID = ev_ID e, ce_ProcessID = ev_ProcessID e,
                ce_Type = (if ev_Type e = EvtInternalEvent then EventInternal
                           else if ev_Type e = EvtSend then EventSend
                           else if ev_Type e = EvtReceive then EventReceive else ''''),
                ce_LocalSeq = ev_LocalSeq e,
                ce_MessageID = (if ev_Type e = EvtSend \<or> ev_Type e = EvtReceive then mid else '''')\<rparr>;
          g1 = causality_AddEvent g ev
      in case ev_Message e of
           Some m \<Rightarrow> if ev_Type e = EvtReceive \<and> \<not> mp_IsMarker m
                      then causality_AddEdge g1 (mp_ID m @ ''-send'') (ev_ID e) else g1
         | None \<Rightarrow> g1)"

text \<open>One iteration of \<^verbatim>\<open>handleCausalGraphEvents\<close>; the goroutine may instead end once the bus is stopped.\<close>

inductive handleCausalGraphEvents :: "'d Simulation \<Rightarrow> 'd Simulation \<Rightarrow> bool" where
  graph_take: "gm_get [] (eb_chans (sim_bus s)) graph_chan = e # es \<Longrightarrow>
    handleCausalGraphEvents s (s\<lparr>sim_bus := chan_receive graph_chan (sim_bus s),
      sim_causalGraph := handle_graph_event e (sim_causalGraph s)\<rparr>)"

section \<open>Operations\<close>

definition simulation_New :: "SimConfig \<Rightarrow> 'd Simulation" where
  "simulation_New cfg =
     (let cfg' = (if sc_Channels cfg \<noteq> '''' \<and> sc_Channels cfg \<noteq> ''full_mesh'' then cfg\<lparr>sc_Channels := ''full_mesh''\<rparr> else cfg)
      in \<lparr>sim_objs = [], sim_processes = [], sim_transport = NewSimTransport,
          sim_bus = events_Subscribe graph_chan [EvtSend, EvtReceive, EvtInternalEvent] events_NewEventBus,
          sim_snapshots = NewCoordinator, sim_config = cfg', sim_eventCount = 0,
          sim_causalGraph = causality_NewCausalGraph, sim_kills = []\<rparr>)"

definition spawn_config :: "ProcessConfig \<Rightarrow> 'd Simulation \<Rightarrow> ProcessConfig" where
  "spawn_config cfg s =
     (let cfg1 = (if cfg_ClockType cfg = '''' then cfg\<lparr>cfg_ClockType := sc_ClockType (sim_config s)\<rparr> else cfg);
          cfg2 = (if cfg_DeliveryMode cfg1 = '''' then cfg1\<lparr>cfg_DeliveryMode := sc_DeliveryMode (sim_config s)\<rparr> else cfg1)
      in cfg2\<lparr>cfg_AllPIDs := gm_keys (sim_processes s) @ [cfg_ID cfg]\<rparr>)"

definition SpawnProcess :: "(u64 \<Rightarrow> int) \<Rightarrow> ProcessConfig \<Rightarrow> 'd Simulation \<Rightarrow> (sim_error + unit) \<times> 'd Simulation" where
  "SpawnProcess now cfg s =
     (let new_id = cfg_ID cfg
      in if new_id = '''' then (Inl IDRequired, s)
         else if length new_id > 64 then (Inl IDTooLong, s)
         else if map_of (sim_processes s) new_id \<noteq> None then (Inl (AlreadyExists new_id), s)
         else if gm_len (sim_processes s) \<ge> MaxSimulationProcesses then (Inl LimitReached, s)
         else
           let p = process_New (spawn_config cfg s);
               obj = length (sim_objs s);
               procs = gm_set (sim_processes s) new_id obj;
               t1 = RegisterProcess new_id obj (sim_transport s);
               t2 = gm_fold (\<lambda>q _ t. if q = new_id then t else RegisterChannel q new_id (RegisterChannel new_id q t)) procs t1;
               peers = filter (\<lambda>q. q \<noteq> new_id) (gm_keys procs);
               c = snap_RegisterProcess new_id peers (sim_snapshots s);
               objs = gm_fold (\<lambda>q ob objs. if q \<noteq> new_id then objs[ob := process_AddPeer new_id (objs ! ob)] else objs)
                        procs (sim_objs s @ [p])
           in case process_Start now (objs ! obj, sim_bus s) of (p', bus') \<Rightarrow>
             (Inr (), s\<lparr>sim_objs := objs[obj := p'], sim_processes := procs, sim_transport := t2,
                sim_bus := bus', sim_snapshots := c\<rparr>))"

text \<open>\<^verbatim>\<open>KillProcess\<close>: the part under the lock; the two calls that follow it, without the lock; and the whole, when
  nothing comes between its stages.\<close>

definition KillProcess_begin :: "pid \<Rightarrow> 'd Simulation \<Rightarrow> (sim_error + unit) \<times> 'd Simulation" where
  "KillProcess_begin p s =
     (case map_of (sim_processes s) p of
        None \<Rightarrow> (Inl (ProcessNotFound p), s)
      | Some obj \<Rightarrow> (Inr (), s\<lparr>sim_processes := gm_del (sim_processes s) p, sim_kills := sim_kills s @ [KillDeregister p obj]\<rparr>))"

fun kill_stage :: "(u64 \<Rightarrow> int) \<Rightarrow> kill_pc \<Rightarrow> 'd Simulation \<Rightarrow> kill_pc list \<times> 'd Simulation" where
  "kill_stage now (KillDeregister p obj) s = ([KillStop obj], s\<lparr>sim_snapshots := DeregisterProcess p (sim_snapshots s)\<rparr>)"
| "kill_stage now (KillStop obj) s =
     (case process_Stop now (sim_objs s ! obj, sim_bus s) of (p', bus') \<Rightarrow>
        ([], s\<lparr>sim_objs := (sim_objs s)[obj := p'], sim_bus := bus'\<rparr>))"

inductive killStage :: "'d Simulation \<Rightarrow> 'd Simulation \<Rightarrow> bool" where
  kill_moves: "sim_kills s = xs @ pc # ys \<Longrightarrow> kill_stage now pc s = (r, s') \<Longrightarrow> killStage s (s'\<lparr>sim_kills := xs @ r @ ys\<rparr>)"

definition KillProcess :: "(u64 \<Rightarrow> int) \<Rightarrow> pid \<Rightarrow> 'd Simulation \<Rightarrow> (sim_error + unit) \<times> 'd Simulation" where
  "KillProcess now p s =
     (case map_of (sim_processes s) p of
        None \<Rightarrow> (Inl (ProcessNotFound p), s)
      | Some obj \<Rightarrow>
          (case process_Stop now (sim_objs s ! obj, sim_bus s) of (p', bus') \<Rightarrow>
            (Inr (), s\<lparr>sim_objs := (sim_objs s)[obj := p'], sim_processes := gm_del (sim_processes s) p,
               sim_bus := bus', sim_snapshots := DeregisterProcess p (sim_snapshots s)\<rparr>)))"

definition SendMessage :: "(u64 \<Rightarrow> int) \<Rightarrow> int \<Rightarrow> pid \<Rightarrow> pid \<Rightarrow> 'd option \<Rightarrow> 'd Simulation \<Rightarrow> (sim_error + unit) \<times> 'd Simulation" where
  "SendMessage now sent from to data s =
     (case map_of (sim_processes s) from of
        None \<Rightarrow> (Inl (ProcessNotFound from), s)
      | Some obj \<Rightarrow>
          (case process_Send transport_Send now sent to data (sim_objs s ! obj, sim_bus s) (sim_transport s) of
             (r, (p', bus'), t') \<Rightarrow>
               ((case r of Inl e \<Rightarrow> Inl (SendFailed e) | Inr u \<Rightarrow> Inr u),
                s\<lparr>sim_objs := (sim_objs s)[obj := p'], sim_bus := bus', sim_transport := t'\<rparr>)))"

definition BroadcastMessage :: "(u64 \<Rightarrow> int) \<Rightarrow> int \<Rightarrow> pid \<Rightarrow> 'd option \<Rightarrow> 'd Simulation \<Rightarrow> (sim_error + unit) \<times> 'd Simulation" where
  "BroadcastMessage now sent from data s =
     (case map_of (sim_processes s) from of
        None \<Rightarrow> (Inl (ProcessNotFound from), s)
      | Some obj \<Rightarrow>
          (case process_Broadcast transport_Send now sent data (sim_objs s ! obj, sim_bus s) (sim_transport s) of
             (r, (p', bus'), t') \<Rightarrow>
               ((case r of Inl (peer, e) \<Rightarrow> Inl (BroadcastFailed peer e) | Inr u \<Rightarrow> Inr u),
                s\<lparr>sim_objs := (sim_objs s)[obj := p'], sim_bus := bus', sim_transport := t'\<rparr>)))"

definition sim_InternalEvent :: "(u64 \<Rightarrow> int) \<Rightarrow> pid \<Rightarrow> 'd Simulation \<Rightarrow> (sim_error + unit) \<times> 'd Simulation" where
  "sim_InternalEvent now p s =
     (case map_of (sim_processes s) p of
        None \<Rightarrow> (Inl (ProcessNotFound p), s)
      | Some obj \<Rightarrow>
          (case process_InternalEvent now (sim_objs s ! obj, sim_bus s) of (p', bus') \<Rightarrow>
             (Inr (), s\<lparr>sim_objs := (sim_objs s)[obj := p'], sim_bus := bus'\<rparr>)))"

definition TriggerSnapshot :: "nat \<Rightarrow> int \<Rightarrow> pid \<Rightarrow> 'd Simulation \<Rightarrow> (sim_error + string) \<times> 'd Simulation" where
  "TriggerSnapshot nano start initiatorID s =
     (case map_of (sim_processes s) initiatorID of
        None \<Rightarrow> (Inl (ProcessNotFound initiatorID), s)
      | Some obj \<Rightarrow>
          (case InitiateSnapshot (sim_callbacks s) nano start initiatorID (sim_snapshots s, (sim_transport s, sim_bus s)) of
             (None, c, t, bus) \<Rightarrow> (Inl (SnapshotFailed initiatorID), s\<lparr>sim_snapshots := c, sim_transport := t, sim_bus := bus\<rparr>)
           | (Some snapID, c, t, bus) \<Rightarrow>
               (Inr snapID, s\<lparr>sim_snapshots := c, sim_transport := t,
                  sim_bus := publish_snapshot EvtSnapshotStart initiatorID
                    \<lparr>sp_SnapshotID = snapID, sp_ProcessID = initiatorID, sp_Complete = False\<rparr> bus\<rparr>)))"

definition sim_GetSnapshot :: "string \<Rightarrow> 'd Simulation \<Rightarrow> ('d, snap_state) GlobalSnapshot option" where
  "sim_GetSnapshot snapID s = snap_GetSnapshot snapID (sim_snapshots s)"

definition GetState :: "'d Simulation \<Rightarrow> SimulationState" where
  "GetState s = \<lparr>ss_Processes = map (\<lambda>(p, obj). process_Snapshot (sim_objs s ! obj)) (gm_range (sim_processes s)),
     ss_EventCount = sim_eventCount s, ss_Config = sim_config s\<rparr>"

definition GetProcess :: "pid \<Rightarrow> 'd Simulation \<Rightarrow> 'd Process option" where
  "GetProcess p s = map_option (\<lambda>obj. sim_objs s ! obj) (map_of (sim_processes s) p)"

definition sim_InjectDelay :: "pid \<Rightarrow> pid \<Rightarrow> int \<Rightarrow> 'd Simulation \<Rightarrow> 'd Simulation" where
  "sim_InjectDelay from to delayMs s = s\<lparr>sim_transport := InjectDelay from to (sint (word_of_int (delayMs * 1000000) :: u64)) (sim_transport s)\<rparr>"

definition sim_InjectDrop :: "pid \<Rightarrow> pid \<Rightarrow> 'd Simulation \<Rightarrow> 'd Simulation" where
  "sim_InjectDrop from to s = s\<lparr>sim_transport := InjectDrop from to (sim_transport s)\<rparr>"

definition sim_SetPartition :: "pid list list \<Rightarrow> 'd Simulation \<Rightarrow> 'd Simulation" where
  "sim_SetPartition groups s = s\<lparr>sim_transport := SetPartition groups (sim_transport s)\<rparr>"

definition sim_SetDeliveryMode :: "DeliveryMode \<Rightarrow> 'd Simulation \<Rightarrow> 'd Simulation" where
  "sim_SetDeliveryMode mode s =
     s\<lparr>sim_config := (sim_config s)\<lparr>sc_DeliveryMode := mode\<rparr>,
       sim_objs := fold (\<lambda>obj objs. objs[obj := SetDeliveryMode mode (objs ! obj)]) (gm_vals (sim_processes s)) (sim_objs s)\<rparr>"

definition simulation_Stop :: "(u64 \<Rightarrow> int) \<Rightarrow> 'd Simulation \<Rightarrow> 'd Simulation" where
  "simulation_Stop now s =
     (case fold (\<lambda>obj (objs, bus). case process_Stop now (objs ! obj, bus) of (p', bus') \<Rightarrow> (objs[obj := p'], bus'))
             (gm_vals (sim_processes s)) (sim_objs s, sim_bus s) of
        (objs, bus) \<Rightarrow> s\<lparr>sim_objs := objs, sim_bus := events_Stop bus, sim_transport := transport_Close (sim_transport s)\<rparr>)"

section \<open>Messages on their way\<close>

text \<open>The closure \<^verbatim>\<open>SpawnProcess\<close> registers with the transport, up to the call of \<^verbatim>\<open>Deliver\<close>.\<close>

definition snap_message :: "'d Message \<Rightarrow> 'd SnapMessage" where
  "snap_message m = \<lparr>sm_ID = msg_ID m, sm_From = msg_From m, sm_To = msg_To m, sm_Data = msg_Data m,
     sm_IsMarker = False, sm_SnapshotID = '''', sm_SenderVC = vector_Copy (msg_SentVC m)\<rparr>"

definition record_active :: "pid \<Rightarrow> 'd Message \<Rightarrow> ('d, snap_state) SnapshotCoordinator \<Rightarrow> ('d, snap_state) SnapshotCoordinator" where
  "record_active p m c =
     (if msg_IsMarker m then c
      else fold (\<lambda>snapID. RecordMessage snapID p (msg_From m) (snap_message m)) (GetActiveSnapshotIDs p c) c)"

text \<open>The goroutine of one channel takes a message and calls the closure of the destination.\<close>

inductive sim_forward :: "'d Simulation \<Rightarrow> 'd Simulation \<Rightarrow> bool" where
  forward_deliver: "transport_forward key (sim_transport s) = Some (m, Some obj, t) \<Longrightarrow>
    process_Deliver m (sim_objs s ! obj) p' \<Longrightarrow>
    sim_forward s (s\<lparr>sim_transport := t,
      sim_snapshots := record_active (cfg_ID (p_cfg (sim_objs s ! obj))) m (sim_snapshots s),
      sim_objs := (sim_objs s)[obj := p']\<rparr>)"
| forward_lost: "transport_forward key (sim_transport s) = Some (m, None, t) \<Longrightarrow>
    sim_forward s (s\<lparr>sim_transport := t\<rparr>)"

text \<open>\<^verbatim>\<open>OnMarker\<close>, and one iteration of the goroutine of a process.\<close>

definition on_marker :: "'d Simulation \<Rightarrow> int \<Rightarrow> pid \<Rightarrow> pid \<Rightarrow> string \<Rightarrow> ProcessState \<Rightarrow>
    'd EventBus \<times> ('d, snap_state) SnapshotCoordinator \<times> ('d, nat) SimTransport \<Rightarrow>
    'd EventBus \<times> ('d, snap_state) SnapshotCoordinator \<times> ('d, nat) SimTransport" where
  "on_marker s tm p from snapshotID localState = (\<lambda>(bus, c, t).
     case OnMarkerReceived (sim_callbacks s) tm p from snapshotID (Some (StateValue localState)) (c, (t, bus)) of
       (c', (t', bus')) \<Rightarrow> (bus', c', t'))"

inductive sim_handle :: "'d Simulation \<Rightarrow> 'd Simulation \<Rightarrow> bool" where
  handle: "obj < length (sim_objs s) \<Longrightarrow>
    process_run (Some (on_marker s tm (cfg_ID (p_cfg (sim_objs s ! obj))))) now
      ((sim_objs s ! obj, sim_bus s), (sim_snapshots s, sim_transport s)) ((p', bus'), (c', t')) \<Longrightarrow>
    sim_handle s (s\<lparr>sim_objs := (sim_objs s)[obj := p'], sim_bus := bus', sim_snapshots := c', sim_transport := t'\<rparr>)"

section \<open>Runs of the simulation\<close>

text \<open>\<^verbatim>\<open>SendMessage\<close> up to the call of the transport: the process has stamped the message and released its
  lock, and the goroutine enters the transport's \<^verbatim>\<open>Send\<close>, whose stages other goroutines may interleave with.\<close>

definition SendMessage_begin :: "(u64 \<Rightarrow> int) \<Rightarrow> int \<Rightarrow> pid \<Rightarrow> pid \<Rightarrow> 'd option \<Rightarrow> 'd Simulation \<Rightarrow> 'd Simulation" where
  "SendMessage_begin now sent from to data s =
     (case map_of (sim_processes s) from of
        None \<Rightarrow> s
      | Some obj \<Rightarrow>
          (case process_Stamp now sent to data (sim_objs s ! obj, sim_bus s) of (m, p', bus') \<Rightarrow>
             s\<lparr>sim_objs := (sim_objs s)[obj := p'], sim_bus := bus',
               sim_transport := call_Send (cfg_ID (p_cfg (sim_objs s ! obj))) to m (sim_transport s)\<rparr>))"

inductive sim_step :: "'d Simulation \<Rightarrow> 'd Simulation \<Rightarrow> bool" where
  spawn: "sim_step s (snd (SpawnProcess now cfg s))"
| kill: "sim_step s (snd (KillProcess_begin p s))"
| kill_stage: "killStage s t \<Longrightarrow> sim_step s t"
| send: "sim_step s (snd (SendMessage now sent p q data s))"
| send_begin: "sim_step s (SendMessage_begin now sent p q data s)"
| send_stage: "sendStage (sim_transport s) t \<Longrightarrow> sim_step s (s\<lparr>sim_transport := t\<rparr>)"
| broadcast: "sim_step s (snd (BroadcastMessage now sent p data s))"
| internal: "sim_step s (snd (sim_InternalEvent now p s))"
| trigger: "sim_step s (snd (TriggerSnapshot nano start p s))"
| delay: "sim_step s (sim_InjectDelay p q ms s)"
| drop: "sim_step s (sim_InjectDrop p q s)"
| partition: "sim_step s (sim_SetPartition groups s)"
| fault: "f \<in> {InjectReorder p q, ClearFaults} \<Longrightarrow> sim_step s (s\<lparr>sim_transport := f (sim_transport s)\<rparr>)"
| mode: "sim_step s (sim_SetDeliveryMode m s)"
| stop: "sim_step s (simulation_Stop now s)"
| forward: "sim_forward s t \<Longrightarrow> sim_step s t"
| late: "sendDelayed (sim_transport s) t \<Longrightarrow> sim_step s (s\<lparr>sim_transport := t\<rparr>)"
| handle: "sim_handle s t \<Longrightarrow> sim_step s t"
| graph: "handleCausalGraphEvents s t \<Longrightarrow> sim_step s t"
| bus: "events_loop (sim_bus s) b \<Longrightarrow> sim_step s (s\<lparr>sim_bus := b\<rparr>)"

text \<open>How the parts are wired together.\<close>

definition live :: "'d Simulation \<Rightarrow> pid set" where
  "live s = dom (map_of (sim_processes s))"

text \<open>The identifiers that some goroutine is about to deregister.\<close>

definition kill_pending :: "'d Simulation \<Rightarrow> pid set" where
  "kill_pending s = {p. \<exists>obj. KillDeregister p obj \<in> set (sim_kills s)}"

definition wired :: "'d Simulation \<Rightarrow> bool" where
  "wired s \<longleftrightarrow>
     (\<forall>p obj. map_of (sim_processes s) p = Some obj \<longrightarrow> obj < length (sim_objs s)
        \<and> cfg_ID (p_cfg (sim_objs s ! obj)) = p \<and> p \<noteq> '''' \<and> length p \<le> 64
        \<and> map_of (st_deliver (sim_transport s)) p = Some obj)
     \<and> gm_len (sim_processes s) \<le> MaxSimulationProcesses
     \<and> (\<forall>p\<in>live s. \<forall>q\<in>live s. p \<noteq> q \<longrightarrow> map_of (st_channels (sim_transport s)) (p, q) \<noteq> None)
     \<and> (\<forall>p peers. peers_of p (sim_snapshots s) = Some peers \<longrightarrow> p \<in> live s \<union> kill_pending s
          \<and> distinct peers \<and> set peers \<subseteq> live s \<union> kill_pending s - {p})
     \<and> (\<forall>k obj. map_of (st_deliver (sim_transport s)) k = Some obj \<longrightarrow> obj < length (sim_objs s))"

text \<open>
  The live processes are registered at the coordinator, each with the others among its peers, except for
  those in \<open>raced\<close>: the identifiers that were spawned again while a goroutine was about to deregister
  them.
\<close>

definition registered :: "pid set \<Rightarrow> 'd Simulation \<Rightarrow> bool" where
  "registered raced s \<longleftrightarrow> live s \<inter> kill_pending s \<subseteq> raced
     \<and> (\<forall>p \<in> live s - raced. \<exists>l. peers_of p (sim_snapshots s) = Some l \<and> live s - raced - {p} \<subseteq> set l)"

text \<open>What every operation other than spawning and killing leaves alone.\<close>

definition tframe :: "('d, 'f) SimTransport \<Rightarrow> ('d, 'f) SimTransport \<Rightarrow> bool" where
  "tframe t t' \<longleftrightarrow> st_deliver t' = st_deliver t
     \<and> (\<forall>k. map_of (st_channels t) k \<noteq> None \<longrightarrow> map_of (st_channels t') k \<noteq> None)"

definition oframe :: "'d Process list \<Rightarrow> 'd Process list \<Rightarrow> bool" where
  "oframe xs ys \<longleftrightarrow> length ys = length xs \<and> (\<forall>i < length xs. cfg_ID (p_cfg (ys ! i)) = cfg_ID (p_cfg (xs ! i)))"

definition sframe :: "'d Simulation \<Rightarrow> 'd Simulation \<Rightarrow> bool" where
  "sframe s s' \<longleftrightarrow> sim_processes s' = sim_processes s \<and> tframe (sim_transport s) (sim_transport s')
     \<and> oframe (sim_objs s) (sim_objs s') \<and> (\<forall>p. peers_of p (sim_snapshots s') = peers_of p (sim_snapshots s))
     \<and> sim_kills s' = sim_kills s"

lemma wiredI:
  assumes "\<And>p obj. map_of (sim_processes s) p = Some obj \<Longrightarrow> obj < length (sim_objs s)
        \<and> cfg_ID (p_cfg (sim_objs s ! obj)) = p \<and> p \<noteq> '''' \<and> length p \<le> 64
        \<and> map_of (st_deliver (sim_transport s)) p = Some obj"
    and "gm_len (sim_processes s) \<le> MaxSimulationProcesses"
    and "\<And>p q. p \<in> live s \<Longrightarrow> q \<in> live s \<Longrightarrow> p \<noteq> q \<Longrightarrow> map_of (st_channels (sim_transport s)) (p, q) \<noteq> None"
    and "\<And>p l. peers_of p (sim_snapshots s) = Some l \<Longrightarrow>
          p \<in> live s \<union> kill_pending s \<and> distinct l \<and> set l \<subseteq> live s \<union> kill_pending s - {p}"
    and "\<And>k obj. map_of (st_deliver (sim_transport s)) k = Some obj \<Longrightarrow> obj < length (sim_objs s)"
  shows "wired s"
  using assms unfolding wired_def by simp

lemma wiredD:
  assumes "wired s"
  shows "map_of (sim_processes s) p = Some obj \<Longrightarrow> obj < length (sim_objs s)
        \<and> cfg_ID (p_cfg (sim_objs s ! obj)) = p \<and> p \<noteq> '''' \<and> length p \<le> 64
        \<and> map_of (st_deliver (sim_transport s)) p = Some obj"
    and "gm_len (sim_processes s) \<le> MaxSimulationProcesses"
    and "p \<in> live s \<Longrightarrow> q \<in> live s \<Longrightarrow> p \<noteq> q \<Longrightarrow> map_of (st_channels (sim_transport s)) (p, q) \<noteq> None"
    and "peers_of p (sim_snapshots s) = Some l \<Longrightarrow>
          p \<in> live s \<union> kill_pending s \<and> distinct l \<and> set l \<subseteq> live s \<union> kill_pending s - {p}"
    and "map_of (st_deliver (sim_transport s)) k = Some obj \<Longrightarrow> obj < length (sim_objs s)"
  using assms unfolding wired_def by (simp_all del: not_None_eq)

lemma wired_frame: "wired s \<Longrightarrow> sframe s s' \<Longrightarrow> wired s'"
  unfolding wired_def sframe_def tframe_def oframe_def live_def kill_pending_def by auto

lemma registered_frame: "registered raced s \<Longrightarrow> sframe s s' \<Longrightarrow> registered raced s'"
  unfolding registered_def sframe_def live_def kill_pending_def by simp

lemma tframe_refl [simp]: "tframe t t" and tframe_trans: "tframe t u \<Longrightarrow> tframe u v \<Longrightarrow> tframe t v"
  by (auto simp: tframe_def)

lemma tframe_sendToChannel: "tframe t (snd (sendToChannel k m t))"
  by (auto simp: tframe_def sendToChannel_def Let_def)

lemma tframe_Send: "tframe t (snd (transport_Send p q m t))"
proof (cases rule: Send_cases [of p q m t])
  case (swap r)
  define u where "u = t\<lparr>st_reorderBuf := gm_set (st_reorderBuf t) (p, q) None\<rparr>"
  have "tframe t u" by (simp add: tframe_def u_def)
  then have "tframe t (snd (sendToChannel (p, q) m u))" by (rule tframe_trans) (rule tframe_sendToChannel)
  with swap show ?thesis
    by (auto simp: send_swapped_def Let_def u_def [symmetric] split: sum.splits
        intro: tframe_trans [OF _ tframe_sendToChannel])
qed (auto simp: tframe_def sendToChannel_def Let_def)

lemma tframe_forward: "transport_forward k t = Some (m, f, t') \<Longrightarrow> tframe t t'"
  by (auto simp: transport_forward_def tframe_def split: list.splits)

lemma tframe_delayed: "sendDelayed t t' \<Longrightarrow> tframe t t'"
  by (auto simp: tframe_def elim!: sendDelayed.cases)

lemma tframe_stage: "sendStage t t' \<Longrightarrow> tframe t t'"
proof (induction rule: sendStage.induct)
  case (stage t xs pc ys b r t')
  then show ?case by (cases pc) (auto simp: tframe_def Let_def split: if_splits option.splits)
qed

lemma tframe_call: "tframe t (call_Send p q m t)"
  by (simp add: tframe_def call_Send_def)

lemma tframe_faults [simp]: "tframe t (InjectDelay p q d t)" "tframe t (InjectDrop p q t)" "tframe t (InjectReorder p q t)"
    "tframe t (SetPartition g t)" "tframe t (ClearFaults t)" "tframe t (transport_Close t)"
  by (simp_all add: tframe_def InjectDelay_def InjectDrop_def InjectReorder_def SetPartition_def ClearFaults_def transport_Close_def)

lemma oframe_refl [simp]: "oframe xs xs" and oframe_trans: "oframe xs ys \<Longrightarrow> oframe ys zs \<Longrightarrow> oframe xs zs"
  by (auto simp: oframe_def)

lemma oframe_update: "cfg_ID (p_cfg p) = cfg_ID (p_cfg (xs ! i)) \<Longrightarrow> oframe xs (xs[i := p])"
  unfolding oframe_def by (metis length_list_update nth_list_update_eq nth_list_update_neq)

lemma sframe_simps [simp]:
  "tframe (sim_transport s) t \<Longrightarrow> sframe s (s\<lparr>sim_transport := t\<rparr>)" "sframe s (s\<lparr>sim_bus := b\<rparr>)" "sframe s s"
  by (simp_all add: sframe_def)

text \<open>Processes keep their identifier.\<close>

lemma ID_process_ops [simp]:
  "cfg_ID (p_cfg (fst (process_Start now x))) = cfg_ID (p_cfg (fst x))"
  "cfg_ID (p_cfg (fst (process_Stop now x))) = cfg_ID (p_cfg (fst x))"
  "cfg_ID (p_cfg (fst (process_InternalEvent now x))) = cfg_ID (p_cfg (fst x))"
  "cfg_ID (p_cfg (process_AddPeer q p)) = cfg_ID (p_cfg p)"
  "cfg_ID (p_cfg (SetDeliveryMode m p)) = cfg_ID (p_cfg p)"
  by (cases x; simp add: process_Start_def process_Stop_def process_InternalEvent_def emitEvent_def
      process_AddPeer_def SetDeliveryMode_def)+

lemma ID_Stamp: "cfg_ID (p_cfg (fst (snd (process_Stamp now sent to data x)))) = cfg_ID (p_cfg (fst x))"
  using fst_Stamp [of now sent to data x] by auto

lemma ID_Send: "process_Send xport now sent to data x t = (r, x', t') \<Longrightarrow> cfg_ID (p_cfg (fst x')) = cfg_ID (p_cfg (fst x))"
  using ID_Stamp [of now sent to data x] by (auto simp: process_Send_def split: prod.splits)

lemma frame_Send:
  "process_Send transport_Send now sent to data x t = (r, x', t') \<Longrightarrow> cfg_ID (p_cfg (fst x')) = cfg_ID (p_cfg (fst x)) \<and> tframe t t'"
  using ID_Send [of transport_Send now sent to data x t r x' t'] tframe_Send [of t "cfg_ID (p_cfg (fst x))" to]
  by (auto simp: process_Send_def split: prod.splits) (metis snd_conv)

lemma frame_broadcast:
  "broadcast_loop transport_Send now sent data peers x t = (r, x', t') \<Longrightarrow>
   cfg_ID (p_cfg (fst x')) = cfg_ID (p_cfg (fst x)) \<and> tframe t t'"
proof (induction peers arbitrary: x t)
  case (Cons q peers)
  show ?case
  proof (cases "process_Send transport_Send now sent q data x t")
    case s: (fields r1 x1 t1)
    from frame_Send [OF s] have one: "cfg_ID (p_cfg (fst x1)) = cfg_ID (p_cfg (fst x))" "tframe t t1" by auto
    show ?thesis
    proof (cases r1)
      case (Inl e)
      with Cons.prems s one show ?thesis by auto
    next
      case (Inr u)
      with Cons.prems s have "broadcast_loop transport_Send now sent data peers x1 t1 = (r, x', t')" by simp
      from Cons.IH [OF this] one show ?thesis by (auto intro: tframe_trans)
    qed
  qed
qed simp

lemma ID_handle: "cfg_ID (p_cfg (fst (fst (handleMessage f now m ((p, bus), c))))) = cfg_ID (p_cfg p)"
proof -
  have "cfg_ID (p_cfg (fst (deliverCausal now m (p, bus)))) = cfg_ID (p_cfg p)"
    using deliverCausal_shape [of now m "(p, bus)"] by auto
  then show ?thesis
    by (simp add: handleMessage_def Let_def deliverImmediate_def emitEvent_def split: prod.splits)
qed

lemma frame_send_marker: "tframe t (fst (send_marker p q sid (t, bus)))"
  by (simp add: send_marker_def tframe_Send)

lemma frame_send_markers: "tframe (fst w) (fst (fold (\<lambda>peer w. send_marker p peer sid w) peers w))"
proof (induction peers arbitrary: w)
  case (Cons q peers)
  have "tframe (fst w) (fst (send_marker p q sid w))" using frame_send_marker [of "fst w" p q sid "snd w"] by simp
  then show ?case by simp (rule tframe_trans [OF _ Cons])
qed simp

lemma frame_Initiate:
  assumes "InitiateSnapshot (sim_callbacks s) nano start p (c, w) = (r, c', w')"
  shows "tframe (fst w) (fst w')" and "peers_of q c' = peers_of q c"
  using assms frame_send_markers [of w p]
  by (auto simp: initiate_defs sim_callbacks_def Let_def peers_of_def split: option.splits)

lemma frame_checkFinalized: "fst (snd (checkFinalized (sim_callbacks s) tm sid p (c, w))) = fst w"
  by (auto simp: checkFinalized_def sim_callbacks_def snapshot_complete_def Let_def split: option.splits prod.splits)

lemma frame_marker: "tframe (fst w) (fst (snd (OnMarkerReceived (sim_callbacks s) tm p from sid cap (c, w))))"
proof -
  have "tframe (fst w) (fst (fold (\<lambda>peer w. onSendMarker (sim_callbacks s) p peer sid w) peers w))" for peers
    using frame_send_markers by (simp add: sim_callbacks_def)
  then show ?thesis
    by (auto simp: OnMarkerReceived_def Let_def frame_checkFinalized split: option.splits SnapshotRole.splits)
qed

lemma peers_marker: "peers_of q (fst (OnMarkerReceived cb tm p from sid cap (c, w))) = peers_of q c"
  using peers_step [of q cb "MarkerOp p from sid cap tm" c w] by simp

lemma peers_record_active: "peers_of q (record_active p m c) = peers_of q c"
proof -
  have "peers_of q (fold (\<lambda>sid. RecordMessage sid p (msg_From m) x) sids c) = peers_of q c" for sids x
    by (induction sids arbitrary: c) (simp_all add: record_effect)
  then show ?thesis by (simp add: record_active_def)
qed

lemma frame_handle:
  assumes "sim_handle s t"
  shows "sframe s t"
  using assms
proof cases
  case (handle obj tm now p' bus' c' t')
  obtain m ms where m: "p_inbound (sim_objs s ! obj) = m # ms"
    and r: "((p', bus'), (c', t')) = handleMessage (Some (on_marker s tm (cfg_ID (p_cfg (sim_objs s ! obj))))) now m
      (((sim_objs s ! obj)\<lparr>p_inbound := ms\<rparr>, sim_bus s), (sim_snapshots s, sim_transport s))"
    using handle(3) by (cases rule: process_run.cases) auto
  have "cfg_ID (p_cfg p') = cfg_ID (p_cfg (sim_objs s ! obj))"
    using arg_cong [OF r, of "\<lambda>x. cfg_ID (p_cfg (fst (fst x)))"] by (simp add: ID_handle)
  moreover have "tframe (sim_transport s) t' \<and> (\<forall>q. peers_of q c' = peers_of q (sim_snapshots s))"
  proof (cases "msg_IsMarker m")
    case True
    define id where "id = cfg_ID (p_cfg (sim_objs s ! obj))"
    define st where "st = snapshotLocked ((sim_objs s ! obj)\<lparr>p_inbound := ms\<rparr>)"
    define z where "z = OnMarkerReceived (sim_callbacks s) tm id (msg_From m) (msg_SnapshotID m) (Some (StateValue st))
        (sim_snapshots s, (sim_transport s, sim_bus s))"
    have "(c', t') = (fst z, fst (snd z))"
      using arg_cong [OF r, of snd] True
      by (simp add: handleMessage_def on_marker_def id_def [symmetric] st_def [symmetric] z_def [symmetric] split: prod.splits)
    then show ?thesis
      using frame_marker [of "(sim_transport s, sim_bus s)"] peers_marker unfolding z_def by auto
  next
    case False
    then have "(c', t') = (sim_snapshots s, sim_transport s)"
      using arg_cong [OF r, of snd] by (auto simp: handleMessage_def Let_def split: if_splits)
    then show ?thesis by simp
  qed
  ultimately show ?thesis using handle(1,2) by (auto simp: sframe_def intro: oframe_update)
qed

lemma oframe_fold: "(\<And>i p. cfg_ID (p_cfg (g p)) = cfg_ID (p_cfg p)) \<Longrightarrow>
    oframe xs (fold (\<lambda>i xs. xs[i := g (xs ! i)]) is xs)"
proof (induction "is" arbitrary: xs)
  case (Cons i "is")
  have "oframe xs (xs[i := g (xs ! i)])" by (rule oframe_update) (rule Cons.prems)
  with Cons show ?case by (auto intro: oframe_trans)
qed simp

lemma frame_Stop: "sframe s (simulation_Stop now s)"
proof -
  have "oframe xs (fst (fold (\<lambda>obj (objs, bus). case process_Stop now (objs ! obj, bus) of (p', bus') \<Rightarrow> (objs[obj := p'], bus'))
      is (xs, b)))" for "is" xs b
  proof (induction "is" arbitrary: xs b)
    case (Cons i "is")
    obtain p' b' where r: "process_Stop now (xs ! i, b) = (p', b')" by (cases "process_Stop now (xs ! i, b)")
    have "oframe xs (xs[i := p'])"
      by (rule oframe_update) (use ID_process_ops(2) [of now "(xs ! i, b)"] r in simp)
    with Cons [of "xs[i := p']" b'] r show ?case by (auto intro: oframe_trans)
  qed simp
  from this [of "sim_objs s" "gm_vals (sim_processes s)" "sim_bus s"] show ?thesis
    by (auto simp: simulation_Stop_def sframe_def split: prod.splits)
qed

lemma sframe_step:
  assumes "sim_step s t" and "\<And>now cfg. t \<noteq> snd (SpawnProcess now cfg s)" and "\<And>p. t \<noteq> snd (KillProcess_begin p s)" and "\<not> killStage s t"
  shows "sframe s t"
  using assms(1)
proof cases
  case (send now sent p q data)
  show ?thesis
  proof (cases "map_of (sim_processes s) p")
    case (Some obj)
    obtain r p' b' t' where r: "process_Send transport_Send now sent q data (sim_objs s ! obj, sim_bus s) (sim_transport s) = (r, (p', b'), t')"
      by (cases "process_Send transport_Send now sent q data (sim_objs s ! obj, sim_bus s) (sim_transport s)") auto
    from frame_Send [OF r] send Some r show ?thesis by (auto simp: SendMessage_def sframe_def intro: oframe_update)
  qed (simp add: send SendMessage_def)
next
  case (send_begin now sent p q data)
  show ?thesis
  proof (cases "map_of (sim_processes s) p")
    case (Some obj)
    obtain m p' b' where r: "process_Stamp now sent q data (sim_objs s ! obj, sim_bus s) = (m, p', b')"
      by (cases "process_Stamp now sent q data (sim_objs s ! obj, sim_bus s)") auto
    from ID_Stamp [of now sent q data "(sim_objs s ! obj, sim_bus s)"] r
    have "cfg_ID (p_cfg p') = cfg_ID (p_cfg (sim_objs s ! obj))" by simp
    with send_begin Some r show ?thesis by (auto simp: SendMessage_begin_def sframe_def tframe_call intro: oframe_update)
  qed (simp add: send_begin SendMessage_begin_def)
next
  case (send_stage t')
  then show ?thesis by (simp add: tframe_stage)
next
  case (broadcast now sent p data)
  show ?thesis
  proof (cases "map_of (sim_processes s) p")
    case (Some obj)
    obtain r p' b' t' where r: "process_Broadcast transport_Send now sent data (sim_objs s ! obj, sim_bus s) (sim_transport s) = (r, (p', b'), t')"
      by (cases "process_Broadcast transport_Send now sent data (sim_objs s ! obj, sim_bus s) (sim_transport s)") auto
    from frame_broadcast [OF r [unfolded process_Broadcast_def]] broadcast Some r show ?thesis
      by (auto simp: BroadcastMessage_def sframe_def intro: oframe_update)
  qed (simp add: broadcast BroadcastMessage_def)
next
  case (internal now p)
  show ?thesis
  proof (cases "map_of (sim_processes s) p")
    case (Some obj)
    obtain p' b' where r: "process_InternalEvent now (sim_objs s ! obj, sim_bus s) = (p', b')"
      by (cases "process_InternalEvent now (sim_objs s ! obj, sim_bus s)")
    from ID_process_ops(3) [of now "(sim_objs s ! obj, sim_bus s)"] r
    have "cfg_ID (p_cfg p') = cfg_ID (p_cfg (sim_objs s ! obj))" by simp
    with internal Some r show ?thesis by (auto simp: sim_InternalEvent_def sframe_def intro: oframe_update)
  qed (simp add: internal sim_InternalEvent_def)
next
  case (trigger nano start p)
  show ?thesis
  proof (cases "map_of (sim_processes s) p")
    case (Some obj)
    obtain r c' t' b' where r: "InitiateSnapshot (sim_callbacks s) nano start p (sim_snapshots s, (sim_transport s, sim_bus s)) = (r, c', (t', b'))"
      by (cases "InitiateSnapshot (sim_callbacks s) nano start p (sim_snapshots s, (sim_transport s, sim_bus s))") auto
    from frame_Initiate [OF r] have "tframe (sim_transport s) t'" "\<And>q. peers_of q c' = peers_of q (sim_snapshots s)" by simp_all
    with trigger Some r show ?thesis by (cases r) (auto simp: TriggerSnapshot_def sframe_def)
  qed (simp add: trigger TriggerSnapshot_def)
next
  case forward
  then show ?thesis
  proof cases
    case (forward_deliver key m obj t' p')
    have "cfg_ID (p_cfg p') = cfg_ID (p_cfg (sim_objs s ! obj))"
      using forward_deliver(3) by (auto elim!: process_Deliver.cases)
    then show ?thesis using forward_deliver(1) tframe_forward [OF forward_deliver(2)]
      by (auto simp: sframe_def peers_record_active intro: oframe_update)
  qed (auto simp: tframe_forward)
next
  case handle
  then show ?thesis by (rule frame_handle)
next
  case graph
  then show ?thesis by (auto simp: sframe_def elim!: handleCausalGraphEvents.cases)
next
  case (mode m)
  then show ?thesis using oframe_fold [of "SetDeliveryMode m"] by (simp add: sim_SetDeliveryMode_def sframe_def)
next
  case (stop now)
  then show ?thesis by (simp add: frame_Stop)
next
  case (late t')
  then show ?thesis by (simp add: tframe_delayed)
qed (use assms(2-) in \<open>auto simp: sim_InjectDelay_def sim_InjectDrop_def sim_SetPartition_def\<close>)

section \<open>Spawning and killing\<close>

lemma peers_Register:
  "peers_of q (snap_RegisterProcess p peers c) =
     (if q = p then Some peers else map_option (\<lambda>l. if p \<in> set l then l else l @ [p]) (peers_of q c))"
proof -
  define states where "states = gm_set (sc_procStates c) p \<lparr>psn_peers = peers, psn_perSnap = []\<rparr>"
  define f where "f = (\<lambda>(q :: pid) (ps :: ('a, 'b) processSnapshot) r. if q = p then r else if p \<in> set (psn_peers ps) then r
      else gm_set r q (ps\<lparr>psn_peers := psn_peers ps @ [p]\<rparr>))"
  have "map_of (gm_fold f states states) q = (case map_of states q of None \<Rightarrow> map_of states q
      | Some ps \<Rightarrow> (if q = p \<or> p \<in> set (psn_peers ps) then map_of states q else Some (ps\<lparr>psn_peers := psn_peers ps @ [p]\<rparr>)))"
    by (rule gm_fold_pointwise [where g = "\<lambda>q ps x. if q = p \<or> p \<in> set (psn_peers ps) then x else Some (ps\<lparr>psn_peers := psn_peers ps @ [p]\<rparr>)"])
      (auto simp: f_def)
  moreover have "sc_procStates (snap_RegisterProcess p peers c) = gm_fold f states states"
    by (simp add: snap_RegisterProcess_def Let_def states_def f_def)
  moreover have "map_of states q = (if q = p then Some \<lparr>psn_peers = peers, psn_perSnap = []\<rparr> else map_of (sc_procStates c) q)"
    by (simp add: states_def)
  ultimately show ?thesis by (auto simp: peers_of_def getProcessState_def split: option.splits)
qed

lemma peers_Deregister:
  "peers_of q (DeregisterProcess p c) = (if q = p then None else map_option (filter (\<lambda>x. x \<noteq> p)) (peers_of q c))"
proof -
  define states where "states = gm_del (sc_procStates c) p"
  define f where "f = (\<lambda>(q :: pid) (ps :: ('a, 'b) processSnapshot) r. gm_set r q (ps\<lparr>psn_peers := filter (\<lambda>x. x \<noteq> p) (psn_peers ps)\<rparr>))"
  have "map_of (gm_fold f states states) q = (case map_of states q of None \<Rightarrow> map_of states q
      | Some ps \<Rightarrow> Some (ps\<lparr>psn_peers := filter (\<lambda>x. x \<noteq> p) (psn_peers ps)\<rparr>))"
    by (rule gm_fold_pointwise [where g = "\<lambda>q ps x. Some (ps\<lparr>psn_peers := filter (\<lambda>x. x \<noteq> p) (psn_peers ps)\<rparr>)"])
      (auto simp: f_def)
  moreover have "sc_procStates (DeregisterProcess p c) = gm_fold f states states"
    by (simp add: DeregisterProcess_def Let_def states_def f_def)
  moreover have "map_of states q = (if q = p then None else map_of (sc_procStates c) q)"
    by (simp add: states_def)
  ultimately show ?thesis by (auto simp: peers_of_def getProcessState_def split: option.splits)
qed

lemma RegisterChannel_None [simp]:
  "map_of (st_channels (RegisterChannel a b t)) k = None \<longleftrightarrow> map_of (st_channels t) k = None \<and> k \<noteq> (a, b)"
  by (auto simp: RegisterChannel_def)

lemma registered_channels:
  "map_of (st_channels (fold (\<lambda>(q, _) t. if q = n then t else RegisterChannel q n (RegisterChannel n q t)) xs t)) k = None \<longleftrightarrow>
     map_of (st_channels t) k = None \<and> (\<forall>q\<in>fst ` set xs. q \<noteq> n \<longrightarrow> k \<noteq> (n, q) \<and> k \<noteq> (q, n))"
proof (induction xs arbitrary: t)
  case (Cons x xs)
  then show ?case by (cases x) auto
qed simp

lemma registered_deliver:
  "st_deliver (fold (\<lambda>(q, _) t. if q = n then t else RegisterChannel q n (RegisterChannel n q t)) xs t) = st_deliver t"
  by (induction xs arbitrary: t) (auto simp: RegisterChannel_def)

text \<open>What a successful spawn changes.\<close>

lemma spawn_effect:
  assumes "SpawnProcess now cfg s = (Inr (), s')"
  shows "cfg_ID cfg \<noteq> ''''" "length (cfg_ID cfg) \<le> 64" "map_of (sim_processes s) (cfg_ID cfg) = None"
    "gm_len (sim_processes s) < MaxSimulationProcesses"
    "sim_processes s' = gm_set (sim_processes s) (cfg_ID cfg) (length (sim_objs s))"
    "length (sim_objs s') = Suc (length (sim_objs s))"
    "oframe (sim_objs s @ [process_New (spawn_config cfg s)]) (sim_objs s')"
    "map_of (st_deliver (sim_transport s')) = (map_of (st_deliver (sim_transport s)))(cfg_ID cfg \<mapsto> length (sim_objs s))"
    "map_of (st_channels (sim_transport s')) k = None \<longleftrightarrow> map_of (st_channels (sim_transport s)) k = None
       \<and> (\<forall>q\<in>live s. k \<noteq> (cfg_ID cfg, q) \<and> k \<noteq> (q, cfg_ID cfg))"
    "sim_snapshots s' = snap_RegisterProcess (cfg_ID cfg) (filter (\<lambda>q. q \<noteq> cfg_ID cfg) (gm_keys (sim_processes s'))) (sim_snapshots s)"
    "sim_kills s' = sim_kills s"
proof -
  define n where "n = cfg_ID cfg"
  define obj where "obj = length (sim_objs s)"
  define procs where "procs = gm_set (sim_processes s) n obj"
  define add where "add = (\<lambda>q ob objs. if q \<noteq> n then objs[ob := process_AddPeer n (objs ! ob)] else (objs :: 'a Process list))"
  define objs where "objs = gm_fold add procs (sim_objs s @ [process_New (spawn_config cfg s)])"
  define reg where "reg = (\<lambda>q (v :: nat) (t :: ('a, nat) SimTransport). if q = n then t else RegisterChannel q n (RegisterChannel n q t))"
  obtain p' bus' where start: "process_Start now (objs ! obj, sim_bus s) = (p', bus')"
    by (cases "process_Start now (objs ! obj, sim_bus s)")
  have conds: "n \<noteq> ''''" "length n \<le> 64" "map_of (sim_processes s) n = None" "gm_len (sim_processes s) < MaxSimulationProcesses"
    using assms by (auto simp: SpawnProcess_def n_def Let_def split: if_splits)
  then have s': "s' = s\<lparr>sim_objs := objs[obj := p'], sim_processes := procs,
      sim_transport := gm_fold reg procs (RegisterProcess n obj (sim_transport s)), sim_bus := bus',
      sim_snapshots := snap_RegisterProcess n (filter (\<lambda>q. q \<noteq> n) (gm_keys procs)) (sim_snapshots s)\<rparr>"
    using assms start
    by (simp add: SpawnProcess_def Let_def n_def [symmetric] obj_def [symmetric] procs_def [symmetric]
        add_def [symmetric] objs_def [symmetric] reg_def [symmetric])
  show "cfg_ID cfg \<noteq> ''''" "length (cfg_ID cfg) \<le> 64" "map_of (sim_processes s) (cfg_ID cfg) = None"
    "gm_len (sim_processes s) < MaxSimulationProcesses" using conds by (simp_all add: n_def)
  show "sim_processes s' = gm_set (sim_processes s) (cfg_ID cfg) (length (sim_objs s))"
    by (simp add: s' procs_def n_def obj_def)
  have "oframe xs (fold (\<lambda>(k, v). add k v) ys xs)" for xs ys
  proof (induction ys arbitrary: xs)
    case (Cons y ys)
    have "oframe xs (add (fst y) (snd y) xs)" by (simp add: add_def oframe_update)
    with Cons show ?case by (auto simp: split_beta intro: oframe_trans)
  qed simp
  then have o1: "oframe (sim_objs s @ [process_New (spawn_config cfg s)]) objs"
    by (simp add: objs_def gm_fold_def)
  have "oframe objs (objs[obj := p'])"
    by (rule oframe_update) (use ID_process_ops(1) [of now "(objs ! obj, sim_bus s)"] start in simp)
  with o1 show o2: "oframe (sim_objs s @ [process_New (spawn_config cfg s)]) (sim_objs s')"
    by (auto simp: s' intro: oframe_trans)
  then show "length (sim_objs s') = Suc (length (sim_objs s))" by (simp add: oframe_def)
  have fold: "gm_fold reg procs t = fold (\<lambda>(q, _) t. if q = n then t else RegisterChannel q n (RegisterChannel n q t)) (gm_range procs) t" for t
    by (simp add: gm_fold_def reg_def case_prod_unfold)
  show "map_of (st_deliver (sim_transport s')) = (map_of (st_deliver (sim_transport s)))(cfg_ID cfg \<mapsto> length (sim_objs s))"
    by (simp add: s' fold registered_deliver RegisterProcess_def flip: n_def obj_def)
  have keys: "fst ` set (gm_range procs) = insert n (live s)"
    using set_gm_keys [of procs] by (auto simp: gm_keys_def procs_def live_def)
  have "n \<notin> live s" using conds(3) by (auto simp: live_def)
  then show "map_of (st_channels (sim_transport s')) k = None \<longleftrightarrow> map_of (st_channels (sim_transport s)) k = None
       \<and> (\<forall>q\<in>live s. k \<noteq> (cfg_ID cfg, q) \<and> k \<noteq> (q, cfg_ID cfg))"
    by (auto simp: s' fold registered_channels keys RegisterProcess_def simp flip: n_def)
  show "sim_snapshots s' = snap_RegisterProcess (cfg_ID cfg) (filter (\<lambda>q. q \<noteq> cfg_ID cfg) (gm_keys (sim_processes s'))) (sim_snapshots s)"
    by (simp add: s' n_def)
  show "sim_kills s' = sim_kills s" by (simp add: s')
qed

lemma wired_spawn:
  assumes w: "wired s" and ok: "SpawnProcess now cfg s = (Inr (), s')"
  shows "wired s'"
proof -
  define n where "n = cfg_ID cfg"
  note eff = spawn_effect [OF ok, folded n_def]
  have live': "live s' = insert n (live s)" by (auto simp: live_def eff(5))
  have fresh: "n \<notin> live s" using eff(3) by (auto simp: live_def)
  have id_new: "cfg_ID (p_cfg (process_New (spawn_config cfg s))) = n"
    by (simp add: spawn_config_def Let_def n_def)
  have ids: "cfg_ID (p_cfg (sim_objs s' ! i)) = (if i = length (sim_objs s) then n else cfg_ID (p_cfg (sim_objs s ! i)))"
    if "i \<le> length (sim_objs s)" for i
    using eff(7) that id_new by (auto simp: oframe_def nth_append)
  have old: "obj < length (sim_objs s)" "cfg_ID (p_cfg (sim_objs s ! obj)) = p" "p \<noteq> ''''" "length p \<le> 64"
      "map_of (st_deliver (sim_transport s)) p = Some obj" if "map_of (sim_processes s) p = Some obj" for p obj
    using w that by (auto simp: wired_def)
  have len: "gm_len (sim_processes s') \<le> MaxSimulationProcesses"
    using eff(3,4) by (simp add: eff(5) gm_len_set domIff)
  have procs: "obj < length (sim_objs s') \<and> cfg_ID (p_cfg (sim_objs s' ! obj)) = p \<and> p \<noteq> '''' \<and> length p \<le> 64
      \<and> map_of (st_deliver (sim_transport s')) p = Some obj" if "map_of (sim_processes s') p = Some obj" for p obj
  proof (cases "p = n")
    case True
    then have "obj = length (sim_objs s)" using that by (simp add: eff(5))
    with True eff(1,2,6,8) ids show ?thesis by simp
  next
    case False
    then have "map_of (sim_processes s) p = Some obj" using that by (simp add: eff(5))
    from old [OF this] False eff(6,8) ids [of obj] show ?thesis by simp
  qed
  have chans: "map_of (st_channels (sim_transport s')) (p, q) \<noteq> None" if "p \<in> live s'" "q \<in> live s'" "p \<noteq> q" for p q
    using that w fresh by (auto simp: eff(9) live' wired_def)
  have keys: "distinct (filter (\<lambda>q. q \<noteq> n) (gm_keys (sim_processes s')))"
      "set (filter (\<lambda>q. q \<noteq> n) (gm_keys (sim_processes s'))) = live s"
    using live' fresh by (auto simp: live_def)
  have peers: "peers_of p (sim_snapshots s') = (if p = n then Some (filter (\<lambda>q. q \<noteq> n) (gm_keys (sim_processes s')))
      else map_option (\<lambda>l. if n \<in> set l then l else l @ [n]) (peers_of p (sim_snapshots s)))" for p
    by (simp add: eff(10) peers_Register)
  have pend: "kill_pending s' = kill_pending s" by (simp add: kill_pending_def eff(11))
  have plist': "p \<in> live s' \<union> kill_pending s' \<and> distinct l \<and> set l \<subseteq> live s' \<union> kill_pending s' - {p}"
    if "peers_of p (sim_snapshots s') = Some l" for p l
    using that keys wiredD(4) [OF w, of p] fresh by (auto simp: peers live' pend split: if_splits)
  have refs: "obj < length (sim_objs s')" if "map_of (st_deliver (sim_transport s')) k = Some obj" for k obj
    using that wiredD(5) [OF w, of k obj] by (auto simp: eff(6,8) less_Suc_eq split: if_splits)
  show ?thesis by (rule wiredI [OF procs len chans plist' refs])
qed

text \<open>A spawn registers the new process with all live ones, and it with them; if its identifier is about to be
  deregistered by a goroutine, it is one of the raced ones.\<close>

lemma registered_spawn:
  assumes r: "registered raced s" and ok: "SpawnProcess now cfg s = (Inr (), s')"
  shows "registered (raced \<union> (live s' - live s) \<inter> kill_pending s) s'"
proof -
  define n where "n = cfg_ID cfg"
  note eff = spawn_effect [OF ok, folded n_def]
  have live': "live s' = insert n (live s)" by (auto simp: live_def eff(5))
  have fresh: "n \<notin> live s" using eff(3) by (auto simp: live_def)
  have pend: "kill_pending s' = kill_pending s" by (simp add: kill_pending_def eff(11))
  have keys: "set (filter (\<lambda>q. q \<noteq> n) (gm_keys (sim_processes s'))) = live s"
    using live' fresh by (auto simp: live_def)
  have peers: "peers_of p (sim_snapshots s') = (if p = n then Some (filter (\<lambda>q. q \<noteq> n) (gm_keys (sim_processes s')))
      else map_option (\<lambda>l. if n \<in> set l then l else l @ [n]) (peers_of p (sim_snapshots s)))" for p
    by (simp add: eff(10) peers_Register)
  let ?R = "raced \<union> (live s' - live s) \<inter> kill_pending s"
  have "\<exists>l. peers_of p (sim_snapshots s') = Some l \<and> live s' - ?R - {p} \<subseteq> set l" if p: "p \<in> live s' - ?R" for p
  proof (cases "p = n")
    case True
    then show ?thesis using keys by (auto simp: peers live')
  next
    case False
    then have "p \<in> live s - raced" using p by (auto simp: live')
    then obtain l where "peers_of p (sim_snapshots s) = Some l" "live s - raced - {p} \<subseteq> set l"
      using r unfolding registered_def by blast
    then show ?thesis using False by (auto simp: peers live')
  qed
  moreover have "live s' \<inter> kill_pending s' \<subseteq> ?R" using r by (auto simp: registered_def live' pend)
  ultimately show ?thesis by (simp add: registered_def)
qed

lemma kill_begin_effect:
  assumes "map_of (sim_processes s) p = Some obj"
  defines "s' \<equiv> snd (KillProcess_begin p s)"
  shows "live s' = live s - {p}" "kill_pending s' = insert p (kill_pending s)" "sim_objs s' = sim_objs s"
    "sim_transport s' = sim_transport s" "sim_snapshots s' = sim_snapshots s" "gm_len (sim_processes s') \<le> gm_len (sim_processes s)"
    "map_of (sim_processes s') q = (if q = p then None else map_of (sim_processes s) q)"
proof -
  have s': "s' = s\<lparr>sim_processes := gm_del (sim_processes s) p, sim_kills := sim_kills s @ [KillDeregister p obj]\<rparr>"
    by (simp add: s'_def KillProcess_begin_def assms(1))
  show "live s' = live s - {p}" "kill_pending s' = insert p (kill_pending s)" "sim_objs s' = sim_objs s"
    "sim_transport s' = sim_transport s" "sim_snapshots s' = sim_snapshots s"
    "map_of (sim_processes s') q = (if q = p then None else map_of (sim_processes s) q)"
    by (auto simp: s' live_def kill_pending_def)
  show "gm_len (sim_processes s') \<le> gm_len (sim_processes s)"
    by (auto simp: s' gm_len_conv_keys finite_dom_map_of intro!: card_mono)
qed

lemma wired_kill_begin:
  assumes w: "wired s" and p: "map_of (sim_processes s) p = Some obj"
  shows "wired (snd (KillProcess_begin p s))" (is "wired ?s")
proof -
  note eff = kill_begin_effect [OF p]
  have set_eq: "live ?s \<union> kill_pending ?s = live s \<union> kill_pending s" 
    using p unfolding eff(1,2) by (auto simp: live_def)
  show ?thesis
  proof (rule wiredI)
    show "obj < length (sim_objs ?s) \<and> cfg_ID (p_cfg (sim_objs ?s ! obj)) = q \<and> q \<noteq> '''' \<and> length q \<le> 64
        \<and> map_of (st_deliver (sim_transport ?s)) q = Some obj" if "map_of (sim_processes ?s) q = Some obj" for q obj
      using wiredD(1) [OF w, of q obj] that by (simp add: eff split: if_splits)
    show "gm_len (sim_processes ?s) \<le> MaxSimulationProcesses" using eff(6) wiredD(2) [OF w] by simp
    show "map_of (st_channels (sim_transport ?s)) (a, b) \<noteq> None" if "a \<in> live ?s" "b \<in> live ?s" "a \<noteq> b" for a b
      using wiredD(3) [OF w, of a b] that by (simp add: eff)
    show "q \<in> live ?s \<union> kill_pending ?s \<and> distinct l \<and> set l \<subseteq> live ?s \<union> kill_pending ?s - {q}"
      if "peers_of q (sim_snapshots ?s) = Some l" for q l
      using wiredD(4) [OF w, of q l] that unfolding set_eq by (simp add: eff(5))
    show "ob < length (sim_objs ?s)" if "map_of (st_deliver (sim_transport ?s)) k = Some ob" for k ob
      using wiredD(5) [OF w, of k ob] that by (simp add: eff)
  qed
qed

lemma registered_kill_begin:
  assumes r: "registered raced s" and p: "map_of (sim_processes s) p = Some obj"
  shows "registered raced (snd (KillProcess_begin p s))"
proof -
  note eff = kill_begin_effect [OF p]
  have "\<exists>l. peers_of q (sim_snapshots s) = Some l \<and> live s - {p} - raced - {q} \<subseteq> set l" if q: "q \<in> live s - {p} - raced" for q
  proof -
    have "q \<in> live s - raced" using q by blast
    then obtain l where "peers_of q (sim_snapshots s) = Some l" "live s - raced - {q} \<subseteq> set l"
      using r unfolding registered_def by blast
    then show ?thesis by blast
  qed
  moreover have "(live s - {p}) \<inter> insert p (kill_pending s) \<subseteq> raced" using r unfolding registered_def by blast
  ultimately show ?thesis unfolding registered_def eff(1,2,5) by blast
qed

text \<open>The last two stages.\<close>

lemma killStage_effect:
  assumes "killStage s t"
  shows "sim_processes t = sim_processes s" "sim_transport t = sim_transport s" "oframe (sim_objs s) (sim_objs t)"
    "(\<exists>p. insert p (kill_pending t) = kill_pending s
        \<and> (\<forall>q. peers_of q (sim_snapshots t) = (if q = p then None else map_option (filter (\<lambda>x. x \<noteq> p)) (peers_of q (sim_snapshots s)))))
     \<or> kill_pending t = kill_pending s \<and> sim_snapshots t = sim_snapshots s"
  using assms
proof (induction rule: killStage.induct)
  case (kill_moves s xs pc ys now r s')
  {
    case 1
    show ?case using kill_moves(2) by (cases pc) (auto split: prod.splits)
  next
    case 2
    show ?case using kill_moves(2) by (cases pc) (auto split: prod.splits)
  next
    case 3
    show ?case
    proof (cases pc)
      case (KillStop obj)
      obtain p' b' where stop: "process_Stop now (sim_objs s ! obj, sim_bus s) = (p', b')" by fastforce
      then have "cfg_ID (p_cfg p') = cfg_ID (p_cfg (sim_objs s ! obj))"
        using ID_process_ops(2) [of now "(sim_objs s ! obj, sim_bus s)"] by simp
      with kill_moves(2) KillStop stop show ?thesis by (auto intro!: oframe_update)
    qed (use kill_moves(2) in auto)
  next
    case 4
    show ?case
    proof (cases pc)
      case (KillDeregister p obj)
      with kill_moves show ?thesis
        by (intro disjI1 exI [of _ p]) (auto simp: kill_pending_def peers_Deregister)
    next
      case (KillStop obj)
      with kill_moves show ?thesis by (intro disjI2) (auto simp: kill_pending_def split: prod.splits)
    qed
  }
qed

lemma wired_killStage:
  assumes w: "wired s" and k: "killStage s t"
  shows "wired t"
proof (rule wiredI)
  note eff = killStage_effect [OF k]
  have live: "live t = live s" by (simp add: live_def eff(1))
  show "obj < length (sim_objs t) \<and> cfg_ID (p_cfg (sim_objs t ! obj)) = q \<and> q \<noteq> '''' \<and> length q \<le> 64
      \<and> map_of (st_deliver (sim_transport t)) q = Some obj" if "map_of (sim_processes t) q = Some obj" for q obj
    using wiredD(1) [OF w, of q obj] that eff(3) by (simp add: eff(1,2) oframe_def)
  show "gm_len (sim_processes t) \<le> MaxSimulationProcesses" using wiredD(2) [OF w] by (simp add: eff(1))
  show "map_of (st_channels (sim_transport t)) (a, b) \<noteq> None" if "a \<in> live t" "b \<in> live t" "a \<noteq> b" for a b
    using wiredD(3) [OF w, of a b] that by (simp add: eff(2) live)
  show "q \<in> live t \<union> kill_pending t \<and> distinct l \<and> set l \<subseteq> live t \<union> kill_pending t - {q}"
    if l: "peers_of q (sim_snapshots t) = Some l" for q l
    using eff(4)
  proof (elim disjE exE conjE)
    fix p
    assume p: "insert p (kill_pending t) = kill_pending s"
      "\<forall>q. peers_of q (sim_snapshots t) = (if q = p then None else map_option (filter (\<lambda>x. x \<noteq> p)) (peers_of q (sim_snapshots s)))"
    then obtain l0 where l0: "q \<noteq> p" "peers_of q (sim_snapshots s) = Some l0" "l = filter (\<lambda>x. x \<noteq> p) l0"
      using l by (auto split: if_splits)
    show ?thesis using wiredD(4) [OF w l0(2)] l0(1,3) unfolding live p(1) [symmetric] by auto
  next
    assume "kill_pending t = kill_pending s" "sim_snapshots t = sim_snapshots s"
    then show ?thesis using wiredD(4) [OF w, of q l] l by (simp add: live)
  qed
  show "ob < length (sim_objs t)" if "map_of (st_deliver (sim_transport t)) k = Some ob" for k ob
    using wiredD(5) [OF w, of k ob] that eff(3) by (simp add: eff(2) oframe_def)
qed

lemma registered_killStage:
  assumes r: "registered raced s" and k: "killStage s t"
  shows "registered raced t"
proof -
  note eff = killStage_effect [OF k]
  have live: "live t = live s" by (simp add: live_def eff(1))
  from eff(4) show ?thesis
  proof (elim disjE exE conjE)
    fix p
    assume p: "insert p (kill_pending t) = kill_pending s"
      "\<forall>q. peers_of q (sim_snapshots t) = (if q = p then None else map_option (filter (\<lambda>x. x \<noteq> p)) (peers_of q (sim_snapshots s)))"
    then have not_p: "p \<notin> live s - raced" using r by (auto simp: registered_def)
    have "\<exists>l. peers_of q (sim_snapshots t) = Some l \<and> live s - raced - {q} \<subseteq> set l" if q: "q \<in> live s - raced" for q
    proof -
      obtain l where l: "peers_of q (sim_snapshots s) = Some l" "live s - raced - {q} \<subseteq> set l"
        using r q unfolding registered_def by blast
      have "q \<noteq> p" using q not_p by blast
      then show ?thesis using l not_p p(2) by auto
    qed
    then show ?thesis using r p(1) by (auto simp: registered_def live)
  next
    assume "kill_pending t = kill_pending s" "sim_snapshots t = sim_snapshots s"
    then show ?thesis using r by (simp add: registered_def live)
  qed
qed

text \<open>A call of \<^verbatim>\<open>KillProcess\<close> that nothing interrupts.\<close>

lemma kill_stages: "sim_step\<^sup>*\<^sup>* s (snd (KillProcess now p s))"
proof (cases "map_of (sim_processes s) p")
  case None
  then show ?thesis by (simp add: KillProcess_def)
next
  case (Some obj)
  let ?s1 = "s\<lparr>sim_processes := gm_del (sim_processes s) p, sim_kills := sim_kills s @ [KillDeregister p obj]\<rparr>"
  let ?s2 = "s\<lparr>sim_processes := gm_del (sim_processes s) p, sim_snapshots := DeregisterProcess p (sim_snapshots s),
      sim_kills := sim_kills s @ [KillStop obj]\<rparr>"
  obtain p' b' where stop: "process_Stop now (sim_objs s ! obj, sim_bus s) = (p', b')" by fastforce
  have "sim_step s ?s1" using sim_step.kill [of s p] Some by (simp add: KillProcess_begin_def)
  moreover have "sim_step ?s1 ?s2"
    using sim_step.kill_stage [OF kill_moves [of ?s1 "sim_kills s" "KillDeregister p obj" "[]" now "[KillStop obj]"]] by simp
  moreover have "sim_step ?s2 (snd (KillProcess now p s))"
    using sim_step.kill_stage [OF kill_moves [of ?s2 "sim_kills s" "KillStop obj" "[]" now "[]"]] Some stop
    by (cases s) (simp add: KillProcess_def)
  ultimately show ?thesis by (meson converse_rtranclp_into_rtranclp r_into_rtranclp)
qed

text \<open>Every step is a spawn, a stage of a kill, or leaves the wiring alone.\<close>

lemma sim_step_wiring:
  assumes "sim_step s t"
  obtains (same) "t = s" | (spawned) now cfg where "SpawnProcess now cfg s = (Inr (), t)"
  | (killed) p obj where "map_of (sim_processes s) p = Some obj" "t = snd (KillProcess_begin p s)"
  | (stage) "killStage s t" | (frame) "sframe s t"
proof (cases "\<exists>now cfg. t = snd (SpawnProcess now cfg s)")
  case True
  then obtain now cfg where t: "t = snd (SpawnProcess now cfg s)" by blast
  show ?thesis
  proof (cases "fst (SpawnProcess now cfg s)")
    case (Inl e)
    then have "t = s" by (auto simp: t SpawnProcess_def Let_def split: if_splits prod.splits)
    then show ?thesis by (rule same)
  next
    case (Inr u)
    then show ?thesis using spawned [of now cfg] t by (metis old.unit.exhaust prod.collapse)
  qed
next
  case no_spawn: False
  show ?thesis
  proof (cases "\<exists>p. t = snd (KillProcess_begin p s)")
    case True
    then obtain p where t: "t = snd (KillProcess_begin p s)" by blast
    show ?thesis using t same killed by (cases "map_of (sim_processes s) p") (auto simp: KillProcess_begin_def)
  next
    case False
    then show ?thesis using no_spawn stage frame sframe_step [OF assms] by blast
  qed
qed

lemma wired_step:
  assumes "sim_step s t" and "wired s"
  shows "wired t"
  using assms(1)
proof (cases rule: sim_step_wiring)
  case (spawned now cfg)
  then show ?thesis using wired_spawn [OF assms(2)] by blast
next
  case (killed p obj)
  then show ?thesis using wired_kill_begin [OF assms(2)] by blast
qed (use assms(2) wired_killStage wired_frame in auto)

lemma registered_step:
  assumes "sim_step s t" and "registered raced s"
  shows "registered (raced \<union> (live t - live s) \<inter> kill_pending s) t"
  using assms(1)
proof (cases rule: sim_step_wiring)
  case (spawned now cfg)
  then show ?thesis using registered_spawn [OF assms(2)] by blast
next
  case (killed p obj)
  have "(live t - live s) \<inter> kill_pending s = {}" using kill_begin_effect(1) [OF killed(1)] killed(2) by auto
  with killed show ?thesis using registered_kill_begin [OF assms(2) killed(1)] by simp
next
  case stage
  then show ?thesis using registered_killStage [OF assms(2)] killStage_effect(1) [OF stage] by (simp add: live_def)
next
  case frame
  then show ?thesis using registered_frame [OF assms(2)] by (simp add: sframe_def live_def)
qed (use assms(2) in simp)

text \<open>A simulation in which no kill is under way and no identifier was raced.\<close>

definition settled :: "'d Simulation \<Rightarrow> bool" where
  "settled s \<longleftrightarrow> wired s \<and> registered {} s \<and> sim_kills s = []"

lemma settled_step:
  assumes "sim_step s t" "settled s" "sim_kills t = []"
  shows "settled t"
proof -
  have "kill_pending s = {}" using assms(2) by (simp add: settled_def kill_pending_def)
  then show ?thesis
    using wired_step [OF assms(1)] registered_step [OF assms(1), of "{}"] assms(2,3) by (simp add: settled_def)
qed

lemma settled_frame: "settled s \<Longrightarrow> sframe s s' \<Longrightarrow> settled s'"
  using wired_frame [of s s'] registered_frame [of "{}" s s'] by (simp add: settled_def sframe_def)

lemma settled_registered: "settled s \<Longrightarrow> p \<in> live s \<Longrightarrow> peers_of p (sim_snapshots s) \<noteq> None"
  unfolding settled_def registered_def by blast

end
