(* ===== verification/Simulation_Runs.thy ===== *)
theory Simulation_Runs
  imports Simulation_Model
begin

text \<open>
  What holds in every state the simulation reaches, and runs of it: the wiring of processes,
  transport and coordinator; the causal graph that the bus feeds; broadcasting; and a snapshot
  taken while messages flow.
\<close>

section \<open>Reachable states\<close>

definition sim_init :: "'d Simulation \<Rightarrow> bool" where
  "sim_init s \<longleftrightarrow> (\<exists>cfg. s = simulation_New cfg)"

text \<open>Every edge of the causal graph starts at an identifier that ends in \<^verbatim>\<open>-send\<close>.\<close>

definition send_sourced :: "CausalGraph \<Rightarrow> bool" where
  "send_sourced g \<longleftrightarrow> (\<forall>(x, y)\<in>edge_rel g. \<exists>m. x = m @ ''-send'')"

definition graph_sources :: "'d Simulation \<Rightarrow> bool" where
  "graph_sources s \<longleftrightarrow> send_sourced (sim_causalGraph s)"

interpretation sim: transition_system sim_init sim_step wired
proof unfold_locales
  show "sim_init s \<Longrightarrow> wired s" for s :: "'a Simulation"
    by (auto simp: sim_init_def simulation_New_def wired_def live_def Let_def gm_len_def MaxSimulationProcesses_def
        peers_of_def getProcessState_def NewCoordinator_def NewSimTransport_def)
qed (rule wired_step)

text \<open>
  Runs with the identifiers that were raced on the way: spawned again while a goroutine in \<^verbatim>\<open>KillProcess\<close> had
  removed the old process and not yet deregistered its identifier.
\<close>

inductive sim_trace :: "pid set \<Rightarrow> 'd Simulation \<Rightarrow> 'd Simulation \<Rightarrow> bool" where
  trace_start: "sim_trace {} s s"
| trace_step: "sim_trace raced s0 s \<Longrightarrow> sim_step s t \<Longrightarrow> sim_trace (raced \<union> (live t - live s) \<inter> kill_pending s) s0 t"

lemma trace_reachable: "sim_trace raced s0 s \<Longrightarrow> sim_step\<^sup>*\<^sup>* s0 s"
  by (induction rule: sim_trace.induct) auto

lemma reachable_trace: "sim_step\<^sup>*\<^sup>* s0 s \<Longrightarrow> \<exists>raced. sim_trace raced s0 s"
  by (induction rule: rtranclp_induct) (auto intro: sim_trace.intros)

lemma registered_New: "sim_init s \<Longrightarrow> registered raced s"
  by (auto simp: sim_init_def simulation_New_def registered_def live_def Let_def)

lemma trace_registered: "sim_trace raced s0 s \<Longrightarrow> sim_init s0 \<Longrightarrow> registered raced s"
  by (induction rule: sim_trace.induct) (auto intro: registered_New registered_step)

lemma sources_graph_event: "send_sourced g \<Longrightarrow> send_sourced (handle_graph_event e g)"
  by (auto simp: send_sourced_def handle_graph_event_def Let_def split: option.splits)

lemma causalGraph_kept:
  assumes "sim_step s t" and "\<not> handleCausalGraphEvents s t"
  shows "sim_causalGraph t = sim_causalGraph s"
  using assms
  by (auto simp: SpawnProcess_def KillProcess_begin_def SendMessage_def SendMessage_begin_def BroadcastMessage_def sim_InternalEvent_def
      TriggerSnapshot_def sim_InjectDelay_def sim_InjectDrop_def sim_SetPartition_def sim_SetDeliveryMode_def
      simulation_Stop_def Let_def split: prod.splits option.splits
      elim!: sim_step.cases sim_forward.cases sim_handle.cases killStage.cases kill_stage.elims)

interpretation graph: transition_system sim_init sim_step graph_sources
proof unfold_locales
  show "sim_init s \<Longrightarrow> graph_sources s" for s :: "'a Simulation"
    by (auto simp: sim_init_def simulation_New_def graph_sources_def send_sourced_def Let_def)
next
  show "sim_step s t \<Longrightarrow> graph_sources s \<Longrightarrow> graph_sources t" for s t :: "'a Simulation"
  proof (cases "handleCausalGraphEvents s t")
    case True
    then show "graph_sources s \<Longrightarrow> graph_sources t"
      using sources_graph_event by (auto simp: graph_sources_def elim!: handleCausalGraphEvents.cases)
  next
    case False
    then show "sim_step s t \<Longrightarrow> graph_sources s \<Longrightarrow> graph_sources t"
      by (simp add: graph_sources_def causalGraph_kept)
  qed
qed

lemma last_dec: "last (dec n) \<noteq> CHR ''d''"
proof -
  have "last (dec n) = digit (n mod 10)" by (subst dec.simps) auto
  then have "(of_char (last (dec n)) :: nat) = 48 + n mod 10" by (simp add: of_char_digit)
  moreover have "48 + n mod 10 < 58" by simp
  ultimately have "(of_char (last (dec n)) :: nat) \<noteq> 100" by linarith
  then show ?thesis by (intro notI) simp
qed

lemma not_event_source:
  assumes "send_sourced g"
  shows "\<not> causality_HappenedBefore g (p @ ''-e'' @ dec n) b"
proof
  assume "causality_HappenedBefore g (p @ ''-e'' @ dec n) b"
  then have "(p @ ''-e'' @ dec n, b) \<in> (edge_rel g)\<^sup>+"
    using hb_loop_sound [of g b "[]" "[p @ ''-e'' @ dec n]"]
    by (auto simp: causality_HappenedBefore_def rtrancl_eq_or_trancl split: if_splits)
  then obtain y where "(p @ ''-e'' @ dec n, y) \<in> edge_rel g" by (meson tranclD)
  with assms obtain m where eq: "p @ ''-e'' @ dec n = m @ ''-send''" by (auto simp: send_sourced_def)
  have "dec n \<noteq> []" by (subst dec.simps) auto
  with arg_cong [OF eq, of last] last_dec [of n] show False by (auto split: if_splits)
qed

section \<open>Executable steps\<close>

definition forward_fn :: "ChannelKey \<Rightarrow> 'd Simulation \<Rightarrow> 'd Simulation" where
  "forward_fn key s =
     (case transport_forward key (sim_transport s) of
        None \<Rightarrow> s
      | Some (m, None, t) \<Rightarrow> s\<lparr>sim_transport := t\<rparr>
      | Some (m, Some obj, t) \<Rightarrow>
          if length (p_inbound (sim_objs s ! obj)) < inboundCap
          then s\<lparr>sim_transport := t,
                 sim_snapshots := record_active (cfg_ID (p_cfg (sim_objs s ! obj))) m (sim_snapshots s),
                 sim_objs := (sim_objs s)[obj := (sim_objs s ! obj)\<lparr>p_inbound := p_inbound (sim_objs s ! obj) @ [m]\<rparr>]\<rparr>
          else s)"

definition handle_fn :: "int \<Rightarrow> nat \<Rightarrow> 'd Simulation \<Rightarrow> 'd Simulation" where
  "handle_fn tm obj s =
     (if obj < length (sim_objs s) then
        (case p_inbound (sim_objs s ! obj) of
           [] \<Rightarrow> s
         | m # ms \<Rightarrow>
             (case handleMessage (Some (on_marker s tm (cfg_ID (p_cfg (sim_objs s ! obj))))) (\<lambda>_. tm) m
                     (((sim_objs s ! obj)\<lparr>p_inbound := ms\<rparr>, sim_bus s), (sim_snapshots s, sim_transport s)) of
                ((p', bus'), (c', t')) \<Rightarrow>
                  s\<lparr>sim_objs := (sim_objs s)[obj := p'], sim_bus := bus', sim_snapshots := c', sim_transport := t'\<rparr>))
      else s)"

lemma forward_fn_steps: "sim_step\<^sup>*\<^sup>* s (forward_fn key s)"
proof (cases "transport_forward key (sim_transport s)")
  case None
  then show ?thesis by (simp add: forward_fn_def)
next
  case (Some x)
  then obtain m f t where x: "transport_forward key (sim_transport s) = Some (m, f, t)" by (cases x) auto
  show ?thesis
  proof (cases f)
    case None
    then show ?thesis using x by (auto simp: forward_fn_def intro!: sim_step.forward sim_forward.forward_lost)
  next
    case (Some obj)
    show ?thesis
    proof (cases "length (p_inbound (sim_objs s ! obj)) < inboundCap")
      case True
      have "sim_step s (forward_fn key s)"
        using x Some True
        by (auto simp: forward_fn_def intro!: sim_step.forward sim_forward.forward_deliver process_Deliver.accept)
      then show ?thesis by blast
    qed (use x Some in \<open>simp add: forward_fn_def\<close>)
  qed
qed

lemma handle_fn_steps: "sim_step\<^sup>*\<^sup>* s (handle_fn tm obj s)"
proof (cases "obj < length (sim_objs s) \<and> p_inbound (sim_objs s ! obj) \<noteq> []")
  case True
  then obtain m ms where m: "p_inbound (sim_objs s ! obj) = m # ms" by (cases "p_inbound (sim_objs s ! obj)") auto
  define r where "r = handleMessage (Some (on_marker s tm (cfg_ID (p_cfg (sim_objs s ! obj))))) (\<lambda>_. tm) m
      (((sim_objs s ! obj)\<lparr>p_inbound := ms\<rparr>, sim_bus s), (sim_snapshots s, sim_transport s))"
  obtain p' b' c' t' where r: "r = ((p', b'), (c', t'))" by (cases r) auto
  have "process_run (Some (on_marker s tm (cfg_ID (p_cfg (sim_objs s ! obj))))) (\<lambda>_. tm)
      ((sim_objs s ! obj, sim_bus s), (sim_snapshots s, sim_transport s)) ((p', b'), (c', t'))"
    unfolding r [symmetric] r_def by (rule process_run.run_take) (rule m)
  then have "sim_step s (s\<lparr>sim_objs := (sim_objs s)[obj := p'], sim_bus := b', sim_snapshots := c', sim_transport := t'\<rparr>)"
    using True by (auto intro: sim_step.handle sim_handle.handle)
  moreover have "handle_fn tm obj s = s\<lparr>sim_objs := (sim_objs s)[obj := p'], sim_bus := b', sim_snapshots := c', sim_transport := t'\<rparr>"
    using True m r by (simp add: handle_fn_def r_def)
  ultimately show ?thesis by simp
qed (auto simp: handle_fn_def)

definition stage_fn :: "nat \<Rightarrow> 'd Simulation \<Rightarrow> 'd Simulation" where
  "stage_fn i s =
     (let t = sim_transport s; pcs = st_sending t
      in if i < length pcs then
           (case send_stage False (pcs ! i) t of (r, t') \<Rightarrow>
              s\<lparr>sim_transport := t'\<lparr>st_sending := take i pcs @ (case r of Inl pc' \<Rightarrow> [pc'] | Inr _ \<Rightarrow> []) @ drop (Suc i) pcs\<rparr>\<rparr>)
         else s)"

lemma stage_fn_steps: "sim_step\<^sup>*\<^sup>* s (stage_fn i s)"
proof (cases "i < length (st_sending (sim_transport s))")
  case True
  let ?t = "sim_transport s"
  obtain r t' where r: "send_stage False (st_sending ?t ! i) ?t = (r, t')" by (cases "send_stage False (st_sending ?t ! i) ?t")
  have "sim_step s (stage_fn i s)"
    using sim_step.send_stage [OF sendStage.stage [OF id_take_nth_drop [OF True] r]] r True by (simp add: stage_fn_def Let_def)
  then show ?thesis by (rule r_into_rtranclp)
qed (simp add: stage_fn_def Let_def)

text \<open>A run given by a list of operations.\<close>

definition kill_stage_fn :: "nat \<Rightarrow> 'd Simulation \<Rightarrow> 'd Simulation" where
  "kill_stage_fn i s =
     (let pcs = sim_kills s
      in if i < length pcs then
           (case kill_stage (\<lambda>_. 0) (pcs ! i) s of (r, s') \<Rightarrow> s'\<lparr>sim_kills := take i pcs @ r @ drop (Suc i) pcs\<rparr>)
         else s)"

lemma kill_stage_fn_steps: "sim_step\<^sup>*\<^sup>* s (kill_stage_fn i s)"
proof (cases "i < length (sim_kills s)")
  case True
  obtain r s' where r: "kill_stage (\<lambda>_. 0) (sim_kills s ! i) s = (r, s')" by fastforce
  have "sim_step s (kill_stage_fn i s)"
    using sim_step.kill_stage [OF kill_moves [OF id_take_nth_drop [OF True] r]] r True by (simp add: kill_stage_fn_def Let_def)
  then show ?thesis by (rule r_into_rtranclp)
qed (simp add: kill_stage_fn_def Let_def)

datatype sim_op = Spawn ProcessConfig | Kill pid | KillStage nat | Send pid pid | Begin pid pid | Stage nat | Trigger pid
  | Forward ChannelKey | Handle nat

fun exec_op :: "sim_op \<Rightarrow> nat Simulation \<Rightarrow> nat Simulation" where
  "exec_op (Spawn cfg) s = snd (SpawnProcess (\<lambda>_. 0) cfg s)"
| "exec_op (Kill p) s = snd (KillProcess_begin p s)"
| "exec_op (KillStage i) s = kill_stage_fn i s"
| "exec_op (Send p q) s = snd (SendMessage (\<lambda>_. 0) 0 p q (Some 1) s)"
| "exec_op (Begin p q) s = SendMessage_begin (\<lambda>_. 0) 0 p q (Some 1) s"
| "exec_op (Stage i) s = stage_fn i s"
| "exec_op (Trigger p) s = snd (TriggerSnapshot 1 0 p s)"
| "exec_op (Forward key) s = forward_fn key s"
| "exec_op (Handle obj) s = handle_fn 0 obj s"

definition exec_run :: "sim_op list \<Rightarrow> nat Simulation" where
  "exec_run ops = fold exec_op ops (simulation_New \<lparr>sc_ClockType = ClockVector, sc_DeliveryMode = ImmediateDelivery, sc_Channels = ''full_mesh''\<rparr>)"

definition plain_cfg :: "pid \<Rightarrow> ProcessConfig" where
  "plain_cfg p = \<lparr>cfg_ID = p, cfg_ClockType = '''', cfg_DeliveryMode = '''', cfg_Peers = [], cfg_AllPIDs = []\<rparr>"

lemma exec_op_steps: "sim_step\<^sup>*\<^sup>* s (exec_op op s)"
  by (cases op) (auto simp: forward_fn_steps handle_fn_steps stage_fn_steps kill_stage_fn_steps intro: sim_step.intros)

lemma exec_run_reachable: "\<exists>s0. sim_init s0 \<and> sim_step\<^sup>*\<^sup>* s0 (exec_run ops)"
proof -
  have "sim_step\<^sup>*\<^sup>* s (fold exec_op ops s)" for s
    by (induction ops arbitrary: s) (auto intro: rtranclp_trans exec_op_steps)
  then show ?thesis unfolding exec_run_def sim_init_def by blast
qed

section \<open>Properties\<close>

text \<open>
  C7: The parts stay wired together. In every state the simulation reaches, by any sequence of
  spawns, stages of kills, sends, broadcasts, internal events, snapshots, fault injections,
  deliveries and bus steps: there are at most 100 processes, each under its own identifier of 1 to
  64 bytes; the transport delivers to the live process of that identifier; every two live processes
  have channels in both directions, so that a send between them never fails for want of a channel;
  and whoever is registered at the snapshot coordinator, or is a peer of one who is, is a live
  process or one that a goroutine is about to deregister. Every live process is registered, with the
  other live ones among its peers, except for identifiers that were spawned again while a kill of
  their predecessor was under way (\<^verbatim>\<open>KillProcess\<close> releases the lock before it deregisters the
  identifier). So with no kill under way and no such race on the way, the coordinator has exactly the
  live processes registered, each with exactly the others as its peers.
\<close>

theorem simulation_wiring:
  assumes "sim_init s0" and "sim_trace raced s0 s"
  shows "gm_len (sim_processes s) \<le> 100
    \<and> (\<forall>p obj. map_of (sim_processes s) p = Some obj \<longrightarrow> p \<noteq> '''' \<and> length p \<le> 64
         \<and> map_option process_ID (GetProcess p s) = Some p \<and> map_of (st_deliver (sim_transport s)) p = Some obj)
    \<and> (\<forall>p\<in>live s. \<forall>q\<in>live s. p \<noteq> q \<longrightarrow>
         fst (SendMessage now sent p q data s) \<noteq> Inl (SendFailed (NoChannel p q))
         \<and> fst (SendMessage now sent p q data s) \<noteq> Inl (ProcessNotFound p))
    \<and> (\<forall>p. case peers_of p (sim_snapshots s) of
           None \<Rightarrow> p \<notin> live s \<or> p \<in> raced
         | Some l \<Rightarrow> p \<in> live s \<union> kill_pending s \<and> distinct l \<and> set l \<subseteq> live s \<union> kill_pending s - {p}
             \<and> (p \<in> live s - raced \<longrightarrow> live s - raced - {p} \<subseteq> set l))
    \<and> (sim_kills s = [] \<and> raced = {} \<longrightarrow>
         (\<forall>p. case peers_of p (sim_snapshots s) of None \<Rightarrow> p \<notin> live s
            | Some l \<Rightarrow> p \<in> live s \<and> distinct l \<and> set l = live s - {p}))"
proof -
  have w: "wired s" by (rule sim.inv_reachable [OF assms(1) trace_reachable [OF assms(2)]])
  have r: "registered raced s" by (rule trace_registered [OF assms(2,1)])
  have send: "fst (SendMessage now sent p q data s) \<noteq> Inl (SendFailed (NoChannel p q))
      \<and> fst (SendMessage now sent p q data s) \<noteq> Inl (ProcessNotFound p)"
    if pq: "p \<in> live s" "q \<in> live s" "p \<noteq> q" for p q
  proof -
    obtain obj where obj: "map_of (sim_processes s) p = Some obj" using pq(1) by (auto simp: live_def)
    have id: "cfg_ID (p_cfg (sim_objs s ! obj)) = p" using wiredD(1) [OF w obj] by simp
    have "fst (transport_Send p q m (sim_transport s)) \<noteq> Inl (NoChannel p q)" for m
      using wiredD(3) [OF w pq]
      by (auto simp: transport_Send_def send_swapped_def sendToChannel_def Let_def split: option.splits sum.splits)
    then show ?thesis by (auto simp: SendMessage_def obj process_Send_def id split: prod.splits sum.splits) (metis fst_conv)
  qed
  have peers: "case peers_of p (sim_snapshots s) of
        None \<Rightarrow> p \<notin> live s \<or> p \<in> raced
      | Some l \<Rightarrow> p \<in> live s \<union> kill_pending s \<and> distinct l \<and> set l \<subseteq> live s \<union> kill_pending s - {p}
          \<and> (p \<in> live s - raced \<longrightarrow> live s - raced - {p} \<subseteq> set l)" for p
  proof -
    have reg: "\<exists>l. peers_of p (sim_snapshots s) = Some l \<and> live s - raced - {p} \<subseteq> set l" if "p \<in> live s - raced"
      using r that unfolding registered_def by blast
    show ?thesis
    proof (cases "peers_of p (sim_snapshots s)")
      case None
      then show ?thesis using reg by auto
    next
      case (Some l)
      then have "p \<in> live s - raced \<longrightarrow> live s - raced - {p} \<subseteq> set l" using reg by auto
      with Some wiredD(4) [OF w Some] show ?thesis by simp
    qed
  qed
  moreover have "case peers_of p (sim_snapshots s) of None \<Rightarrow> p \<notin> live s
      | Some l \<Rightarrow> p \<in> live s \<and> distinct l \<and> set l = live s - {p}" if "sim_kills s = []" "raced = {}" for p
  proof -
    have "kill_pending s = {}" using that(1) by (simp add: kill_pending_def)
    with peers [of p] that(2) show ?thesis by (cases "peers_of p (sim_snapshots s)") auto
  qed
  moreover have "p \<noteq> '''' \<and> length p \<le> 64 \<and> map_option process_ID (GetProcess p s) = Some p
      \<and> map_of (st_deliver (sim_transport s)) p = Some obj" if "map_of (sim_processes s) p = Some obj" for p obj
    using wiredD(1) [OF w that] that by (simp add: GetProcess_def process_ID_def)
  ultimately show ?thesis using wiredD(2) [OF w] send unfolding MaxSimulationProcesses_def by blast
qed

theorem simulation_wiring_witness:
  "gm_len (sim_processes (exec_run [Spawn (plain_cfg ''P''), Spawn (plain_cfg ''Q''), Kill ''P''])) \<le> 100"
proof -
  obtain s0 raced where "sim_init s0" "sim_trace raced s0 (exec_run [Spawn (plain_cfg ''P''), Spawn (plain_cfg ''Q''), Kill ''P''])"
    using exec_run_reachable reachable_trace by blast
  from simulation_wiring [OF this, of "\<lambda>_. 0" 0 None] show ?thesis by blast
qed

text \<open>
  The race. A process is killed, and spawned again under the same identifier before the goroutine that kills the
  old one has deregistered it: the new process is then live but not registered at the coordinator, none of the
  others has it as a peer, and it cannot take a snapshot, although nothing is under way any more.
\<close>

definition respawn_ops :: "sim_op list" where
  "respawn_ops = [Spawn (plain_cfg ''P''), Spawn (plain_cfg ''Q''), Kill ''P'', Spawn (plain_cfg ''P''), KillStage 0, KillStage 0]"

theorem respawn_is_deregistered:
  "(\<exists>s0. sim_init s0 \<and> sim_step\<^sup>*\<^sup>* s0 (exec_run respawn_ops)) \<and> sim_kills (exec_run respawn_ops) = []
   \<and> ''P'' \<in> live (exec_run respawn_ops) \<and> peers_of ''P'' (sim_snapshots (exec_run respawn_ops)) = None
   \<and> peers_of ''Q'' (sim_snapshots (exec_run respawn_ops)) = Some []
   \<and> fst (TriggerSnapshot 1 0 ''P'' (exec_run respawn_ops)) = Inl (SnapshotFailed ''P'')"
proof -
  have "sim_kills (exec_run respawn_ops) = []" "map_of (sim_processes (exec_run respawn_ops)) ''P'' \<noteq> None"
    "peers_of ''P'' (sim_snapshots (exec_run respawn_ops)) = None"
    "peers_of ''Q'' (sim_snapshots (exec_run respawn_ops)) = Some []"
    "fst (TriggerSnapshot 1 0 ''P'' (exec_run respawn_ops)) = Inl (SnapshotFailed ''P'')"
    by code_simp+
  then show ?thesis using exec_run_reachable by (simp add: live_def domIff)
qed

text \<open>
  The causal graph orders nothing. The identifiers of the events a process emits have the form
  \<^verbatim>\<open>P-eN\<close>, but the edges that the simulation adds start at \<^verbatim>\<open>M-send\<close> for a message \<^verbatim>\<open>M\<close>. So in every
  state the simulation reaches \<^verbatim>\<open>HappenedBefore\<close> is false for every emitted event, and any two
  emitted events count as concurrent, a send and its receipt included.
\<close>

theorem simulation_graph_unordered:
  assumes "sim_init s0" and "sim_step\<^sup>*\<^sup>* s0 s"
  shows "\<not> causality_HappenedBefore (sim_causalGraph s) (ev_ID (process_event t msg now g p)) b
    \<and> causality_Concurrent (sim_causalGraph s) (ev_ID (process_event t msg now g p)) (ev_ID (process_event t' msg' now' g' p'))"
proof -
  have "send_sourced (sim_causalGraph s)"
    using graph.inv_reachable [OF assms] by (simp add: graph_sources_def)
  from not_event_source [OF this] show ?thesis
    by (simp add: causality_Concurrent_def process_event_def Let_def)
qed

theorem simulation_graph_unordered_witness:
  "causality_Concurrent (sim_causalGraph (exec_run [])) ''P-e1'' ''Q-e1''"
proof -
  obtain s0 where s0: "sim_init s0" "sim_step\<^sup>*\<^sup>* s0 (exec_run [])" using exec_run_reachable by blast
  define p where "p = (process_New (plain_cfg ''P'') :: nat Process)"
  define q where "q = (process_New (plain_cfg ''Q'') :: nat Process)"
  have "ev_ID (process_event EvtSend None (\<lambda>_. 0) 0 p) = ''P-e1''" unfolding p_def by code_simp
  moreover have "ev_ID (process_event EvtSend None (\<lambda>_. 0) 0 q) = ''Q-e1''" unfolding q_def by code_simp
  ultimately show ?thesis
    using simulation_graph_unordered [OF s0, of EvtSend None "\<lambda>_. 0" 0 p "''Q-e1''" EvtSend None "\<lambda>_. 0" 0 q] by simp
qed

lemma AddPeer_other:
  "i \<notin> snd ` set xs \<or> (\<forall>(q, o')\<in>set xs. o' = i \<longrightarrow> q = n) \<Longrightarrow>
   fold (\<lambda>(q, ob) objs. if q \<noteq> n then objs[ob := process_AddPeer n (objs ! ob)] else objs) xs objs ! i = objs ! i"
proof (induction xs arbitrary: objs)
  case (Cons x xs)
  then show ?case by (cases x) (force simp: nth_list_update_neq)
qed simp

lemma AddPeer_length:
  "length (fold (\<lambda>(q, ob) objs. if q \<noteq> n then objs[ob := process_AddPeer n (objs ! ob)] else objs) xs ys) = length ys"
  by (induction xs arbitrary: ys) auto

lemma spawned_cfg:
  assumes w: "wired s" and ok: "SpawnProcess now cfg s = (Inr (), s')"
  shows "p_cfg (sim_objs s' ! length (sim_objs s)) = spawn_config cfg s"
proof -
  define n where "n = cfg_ID cfg"
  define obj where "obj = length (sim_objs s)"
  define procs where "procs = gm_set (sim_processes s) n obj"
  define objs where "objs = gm_fold (\<lambda>q ob objs. if q \<noteq> n then objs[ob := process_AddPeer n (objs ! ob)] else objs)
    procs (sim_objs s @ [process_New (spawn_config cfg s)])"
  have other: "ob = obj \<longrightarrow> q = n" if "(q, ob) \<in> set (gm_range procs)" for q ob
    using that wiredD(1) [OF w, of q ob] by (auto simp: mem_gm_range procs_def obj_def split: if_splits)
  have "objs ! obj = process_New (spawn_config cfg s)"
    unfolding objs_def gm_fold_def
    by (subst AddPeer_other) (use other in \<open>auto simp: obj_def nth_append\<close>)
  moreover have "length objs = Suc (length (sim_objs s))"
    by (simp add: objs_def gm_fold_def AddPeer_length)
  moreover have "sim_objs s' = objs[obj := fst (process_Start now (objs ! obj, sim_bus s))]"
    using ok by (auto simp: SpawnProcess_def Let_def n_def [symmetric] obj_def [symmetric] procs_def [symmetric]
        objs_def [symmetric] split: if_splits prod.splits)
  ultimately show ?thesis
    by (simp add: obj_def process_Start_def emitEvent_def)
qed

text \<open>
  A process that was just spawned broadcasts to nobody. \<^verbatim>\<open>SpawnProcess\<close> adds the new process to
  the peers of the running ones and registers them as its peers for snapshots, but does not set the
  new process's own list of peers, which \<^verbatim>\<open>Broadcast\<close> uses. With a configuration that names no
  peers (all callers of the program), broadcasting from the new process succeeds and
  changes nothing, however many other processes run.
\<close>

theorem simulation_broadcast_unheard:
  assumes "sim_init s0" and "sim_step\<^sup>*\<^sup>* s0 s" and "SpawnProcess now cfg s = (Inr (), s')" and "cfg_Peers cfg = []"
  shows "BroadcastMessage now' sent (cfg_ID cfg) data s' = (Inr (), s')"
proof -
  have w: "wired s" by (rule sim.inv_reachable [OF assms(1,2)])
  have obj: "map_of (sim_processes s') (cfg_ID cfg) = Some (length (sim_objs s))"
    by (simp add: spawn_effect(5) [OF assms(3)])
  have "cfg_Peers (p_cfg (sim_objs s' ! length (sim_objs s))) = []"
    using spawned_cfg [OF w assms(3)] assms(4) by (simp add: spawn_config_def Let_def)
  with obj show ?thesis by (simp add: BroadcastMessage_def process_Broadcast_def)
qed

definition demo_two :: "nat Simulation" where
  "demo_two = exec_run [Spawn (plain_cfg ''P''), Spawn (plain_cfg ''Q'')]"

theorem simulation_broadcast_unheard_witness:
  "BroadcastMessage (\<lambda>_. 0) 0 ''R'' (Some 1) (snd (SpawnProcess (\<lambda>_. 0) (plain_cfg ''R'') demo_two))
     = (Inr (), snd (SpawnProcess (\<lambda>_. 0) (plain_cfg ''R'') demo_two)) \<and> gm_len (sim_processes demo_two) = 2"
proof -
  obtain s0 where s0: "sim_init s0" "sim_step\<^sup>*\<^sup>* s0 demo_two" unfolding demo_two_def using exec_run_reachable by blast
  have "fst (SpawnProcess (\<lambda>_. 0) (plain_cfg ''R'') demo_two) = Inr ()" by code_simp
  then have ok: "SpawnProcess (\<lambda>_. 0) (plain_cfg ''R'') demo_two = (Inr (), snd (SpawnProcess (\<lambda>_. 0) (plain_cfg ''R'') demo_two))"
    by (metis prod.collapse)
  have cfg: "cfg_Peers (plain_cfg ''R'') = []" "cfg_ID (plain_cfg ''R'') = ''R''" by (simp_all add: plain_cfg_def)
  have "gm_len (sim_processes demo_two) = 2" by code_simp
  with simulation_broadcast_unheard [OF s0 ok cfg(1), of "\<lambda>_. 0" 0 "Some 1"] cfg(2) show ?thesis by simp
qed

text \<open>
  Spawning. \<^verbatim>\<open>SpawnProcess\<close> fails exactly for an empty identifier, one longer than 64 bytes, one
  that is taken, or when 100 processes run, with the error of the first of these that applies, and
  then changes nothing. Otherwise exactly one process is added and found under its identifier; its
  configuration takes the simulation's clock type and delivery mode where they were left open and
  lists the running processes and itself.
\<close>

theorem simulation_SpawnProcess_outcome:
  "(case fst (SpawnProcess now cfg s) of
      Inl e \<Rightarrow> snd (SpawnProcess now cfg s) = s \<and>
        e = (if cfg_ID cfg = '''' then IDRequired else if length (cfg_ID cfg) > 64 then IDTooLong
             else if cfg_ID cfg \<in> live s then AlreadyExists (cfg_ID cfg) else LimitReached)
    | Inr u \<Rightarrow> live (snd (SpawnProcess now cfg s)) = insert (cfg_ID cfg) (live s)
        \<and> gm_len (sim_processes (snd (SpawnProcess now cfg s))) = Suc (gm_len (sim_processes s))
        \<and> (wired s \<longrightarrow> (\<exists>p. GetProcess (cfg_ID cfg) (snd (SpawnProcess now cfg s)) = Some p
             \<and> process_ID p = cfg_ID cfg \<and> p_cfg p = spawn_config cfg s)))
   \<and> (fst (SpawnProcess now cfg s) = Inr () \<longleftrightarrow>
        cfg_ID cfg \<noteq> '''' \<and> length (cfg_ID cfg) \<le> 64 \<and> cfg_ID cfg \<notin> live s \<and> gm_len (sim_processes s) < 100)"
proof -
  have iff: "fst (SpawnProcess now cfg s) = Inr () \<longleftrightarrow>
      cfg_ID cfg \<noteq> '''' \<and> length (cfg_ID cfg) \<le> 64 \<and> cfg_ID cfg \<notin> live s \<and> gm_len (sim_processes s) < 100"
    by (auto simp: SpawnProcess_def Let_def live_def MaxSimulationProcesses_def split: prod.splits if_splits)
  show ?thesis
  proof (cases "fst (SpawnProcess now cfg s)")
    case (Inl e)
    then have "snd (SpawnProcess now cfg s) = s \<and>
        e = (if cfg_ID cfg = '''' then IDRequired else if length (cfg_ID cfg) > 64 then IDTooLong
             else if cfg_ID cfg \<in> live s then AlreadyExists (cfg_ID cfg) else LimitReached)"
      by (auto simp: SpawnProcess_def Let_def live_def split: prod.splits if_splits)
    with Inl iff show ?thesis by simp
  next
    case (Inr u)
    then have ok: "SpawnProcess now cfg s = (Inr (), snd (SpawnProcess now cfg s))" by (metis old.unit.exhaust prod.collapse)
    define s' where "s' = snd (SpawnProcess now cfg s)"
    note eff = spawn_effect [OF ok, folded s'_def]
    have "live s' = insert (cfg_ID cfg) (live s)" by (auto simp: live_def eff(5))
    moreover have "gm_len (sim_processes s') = Suc (gm_len (sim_processes s))" using eff(3) by (simp add: eff(5) gm_len_set domIff)
    moreover have "\<exists>p. GetProcess (cfg_ID cfg) s' = Some p \<and> process_ID p = cfg_ID cfg \<and> p_cfg p = spawn_config cfg s" if "wired s"
      using spawned_cfg [OF that ok, folded s'_def] by (simp add: GetProcess_def eff(5) process_ID_def spawn_config_def Let_def)
    ultimately show ?thesis using Inr iff by (simp add: s'_def)
  qed
qed

theorem simulation_SpawnProcess_outcome_witness:
  "fst (SpawnProcess (\<lambda>_. 0) (plain_cfg ''P'') demo_two) = Inl (AlreadyExists ''P'')
    \<and> fst (SpawnProcess (\<lambda>_. 0) (plain_cfg ''R'') demo_two) = Inr ()"
proof -
  have "fst (SpawnProcess (\<lambda>_. 0) (plain_cfg ''P'') demo_two) = Inl (AlreadyExists ''P'')" by code_simp
  moreover have "cfg_ID (plain_cfg ''R'') \<noteq> ''''" "length (cfg_ID (plain_cfg ''R'')) \<le> 64"
      "gm_len (sim_processes demo_two) < 100" "map_of (sim_processes demo_two) ''R'' = None"
    by code_simp+
  moreover have "cfg_ID (plain_cfg ''R'') \<notin> live demo_two"
    using \<open>map_of (sim_processes demo_two) ''R'' = None\<close> by (simp add: plain_cfg_def live_def domIff)
  ultimately show ?thesis
    using simulation_SpawnProcess_outcome [of "\<lambda>_. 0" "plain_cfg ''R''" demo_two] by blast
qed

section \<open>Snapshots while messages flow\<close>

definition race_ops :: "sim_op list" where
  "race_ops = [Spawn (plain_cfg ''P''), Spawn (plain_cfg ''Q''), Trigger ''P'', Forward (''P'', ''Q''), Handle 1,
     Send ''Q'' ''P'', Forward (''Q'', ''P''), Forward (''Q'', ''P''), Handle 0]"

definition snapshot_of :: "sim_op list \<Rightarrow> (nat, snap_state) GlobalSnapshot option" where
  "snapshot_of ops = sim_GetSnapshot ''snap-1'' (exec_run ops)"

text \<open>
  A snapshot on reliable FIFO channels can record a message sent after the cut. Messages are
  offered for recording when the transport forwards them, but a marker only takes effect when the
  process goroutine handles it: between the two, a message that follows the marker on the same
  channel is still recorded. In this run of two processes without any fault, Q takes its local
  snapshot, then sends a message to P; marker and message are forwarded before P handles the
  marker. The completed snapshot contains the message in the channel while Q's recorded state has
  not sent it, and \<^verbatim>\<open>Verify\<close> rejects it.
\<close>

theorem snapshot_records_post_cut_message:
  "(\<exists>s0. sim_init s0 \<and> sim_step\<^sup>*\<^sup>* s0 (exec_run race_ops))
   \<and> map_option gs_Done (snapshot_of race_ops) = Some True
   \<and> map_option (\<lambda>gs. map_option vr_Consistent (Verify gs)) (snapshot_of race_ops) = Some (Some False)"
proof -
  have "map_option gs_Done (snapshot_of race_ops) = Some True" by code_simp
  moreover have "map_option (\<lambda>gs. map_option vr_Consistent (Verify gs)) (snapshot_of race_ops) = Some (Some False)" by code_simp
  ultimately show ?thesis using exec_run_reachable by blast
qed

definition lost_ops :: "sim_op list" where
  "lost_ops = [Spawn (plain_cfg ''P''), Spawn (plain_cfg ''Q''), Spawn (plain_cfg ''R''), Trigger ''R'', Send ''Q'' ''P'',
     Forward (''R'', ''P''), Forward (''Q'', ''P''), Handle 0, Handle 0, Forward (''R'', ''Q''), Handle 1,
     Forward (''Q'', ''P''), Handle 0, Forward (''P'', ''Q''), Handle 1, Forward (''P'', ''R''), Handle 2, Forward (''Q'', ''R''), Handle 2]"

definition recorded_clock :: "pid \<Rightarrow> pid \<Rightarrow> (nat, snap_state) GlobalSnapshot \<Rightarrow> u64 option" where
  "recorded_clock p q gs =
     (case map_of (gs_LocalStates gs) p of None \<Rightarrow> None
      | Some ls \<Rightarrow> map_option (\<lambda>vc. gm_get 0 vc q) (vectorClockFromState (ls_LocalState ls)))"

definition recorded_messages :: "pid \<Rightarrow> pid \<Rightarrow> (nat, snap_state) GlobalSnapshot \<Rightarrow> nat SnapMessage list option" where
  "recorded_messages p q gs =
     (case map_of (gs_LocalStates gs) p of None \<Rightarrow> None
      | Some ls \<Rightarrow> map_option chs_Messages (map_of (ls_RecordedChans ls) q))"

text \<open>
  A snapshot on reliable FIFO channels can lose a message in transit. In this run of three
  processes without any fault, Q sends a message to P; R's marker and then the message are forwarded
  to P before P handles the marker, so the message is not recorded (P takes no part yet) and is
  received after P's cut. The completed snapshot passes \<^verbatim>\<open>Verify\<close>, but the message is nowhere: Q's
  recorded state has sent it (its own entry is 1), P's has not received it (its entry for Q is 0),
  and the channel from Q to P is recorded as empty.
\<close>

theorem snapshot_loses_message:
  "(\<exists>s0. sim_init s0 \<and> sim_step\<^sup>*\<^sup>* s0 (exec_run lost_ops))
   \<and> map_option (\<lambda>gs. (gs_Done gs, map_option vr_Consistent (Verify gs), recorded_clock ''Q'' ''Q'' gs,
        recorded_clock ''P'' ''Q'' gs, recorded_messages ''P'' ''Q'' gs)) (snapshot_of lost_ops)
     = Some (True, Some True, Some 1, Some 0, Some [])"
proof -
  have "map_option (\<lambda>gs. (gs_Done gs, map_option vr_Consistent (Verify gs), recorded_clock ''Q'' ''Q'' gs,
        recorded_clock ''P'' ''Q'' gs, recorded_messages ''P'' ''Q'' gs)) (snapshot_of lost_ops)
     = Some (True, Some True, Some 1, Some 0, Some [])" by code_simp
  then show ?thesis using exec_run_reachable by blast
qed

text \<open>
  A snapshot can also lose a message because \<^verbatim>\<open>Process.Send\<close> stamps it under the lock of the process
  and hands it to the transport after releasing the lock. In this run of two processes without any fault, P
  has stamped a message to Q when it initiates a snapshot; the marker enters the channel before the message. The
  completed snapshot passes \<^verbatim>\<open>Verify\<close>, P's recorded state has sent the message (its own entry is 1), Q's
  has not received it, and the channel is recorded as empty.
\<close>

definition overtaken_ops :: "sim_op list" where
  "overtaken_ops = [Spawn (plain_cfg ''P''), Spawn (plain_cfg ''Q''), Begin ''P'' ''Q'', Trigger ''P'', Stage 0, Stage 0, Stage 0, Stage 0, Stage 0,
     Forward (''P'', ''Q''), Handle 1, Forward (''P'', ''Q''), Handle 1, Forward (''Q'', ''P''), Handle 0]"

theorem snapshot_overtakes_send:
  "(\<exists>s0. sim_init s0 \<and> sim_step\<^sup>*\<^sup>* s0 (exec_run overtaken_ops))
   \<and> map_option (\<lambda>gs. (gs_Done gs, map_option vr_Consistent (Verify gs), recorded_clock ''P'' ''P'' gs,
        recorded_clock ''Q'' ''P'' gs, recorded_messages ''Q'' ''P'' gs)) (snapshot_of overtaken_ops)
     = Some (True, Some True, Some 1, Some 0, Some [])
   \<and> map_option (\<lambda>p. gm_get 0 (p_vc p) ''P'') (GetProcess ''Q'' (exec_run overtaken_ops)) = Some 1"
proof -
  have "map_option (\<lambda>gs. (gs_Done gs, map_option vr_Consistent (Verify gs), recorded_clock ''P'' ''P'' gs,
        recorded_clock ''Q'' ''P'' gs, recorded_messages ''Q'' ''P'' gs)) (snapshot_of overtaken_ops)
     = Some (True, Some True, Some 1, Some 0, Some [])" by code_simp
  moreover have "map_option (\<lambda>p. gm_get 0 (p_vc p) ''P'') (GetProcess ''Q'' (exec_run overtaken_ops)) = Some 1" by code_simp
  ultimately show ?thesis using exec_run_reachable by blast
qed

end
