(* ===== verification/Scenarios.thy ===== *)
theory Scenarios
  imports Simulation_Runs
begin

text \<open>
  \<^verbatim>\<open>internal/simulation/scenarios.go\<close>: the eight prepared scenarios, and the loop of
  \<^verbatim>\<open>handleRunScenario\<close> (\<^verbatim>\<open>gateway/rest.go\<close>) that executes one against a simulation. The data of a
  message is a string. The clock readings the actions make are the parameters of \<open>scen_env\<close>; pauses
  between the steps are the delays of the steps, in milliseconds, during which the other
  goroutines of the simulation run.
\<close>

section \<open>Steps and actions\<close>

record scen_env =
  se_now :: "u64 \<Rightarrow> int"
  se_sent :: int
  se_nano :: nat
  se_start :: int

type_synonym scen_action = "string Simulation \<Rightarrow> (sim_error + unit) \<times> string Simulation"

record ScenarioStep =
  step_Delay :: nat
  step_Action :: "scen_action option"
  step_Narrate :: string

record Scenario =
  sc_Name :: string
  sc_Description :: string
  sc_Steps :: "ScenarioStep list"

definition scen_step :: "nat \<Rightarrow> string \<Rightarrow> scen_action \<Rightarrow> ScenarioStep" where
  "scen_step delay narrate action = \<lparr>step_Delay = delay, step_Action = Some action, step_Narrate = narrate\<rparr>"

text \<open>The loop \<^verbatim>\<open>for _, id := range ids { if err := s.SpawnProcess(...); err != nil { return err } }\<close>.\<close>

fun spawn_all :: "scen_env \<Rightarrow> pid list \<Rightarrow> ClockType \<Rightarrow> DeliveryMode \<Rightarrow> scen_action" where
  "spawn_all e [] ct dm s = (Inr (), s)"
| "spawn_all e (p # ps) ct dm s =
     (case SpawnProcess (se_now e)
             \<lparr>cfg_ID = p, cfg_ClockType = ct, cfg_DeliveryMode = dm, cfg_Peers = [], cfg_AllPIDs = []\<rparr> s of
        (Inl err, s') \<Rightarrow> (Inl err, s')
      | (Inr u, s') \<Rightarrow> spawn_all e ps ct dm s')"

definition sc_send :: "scen_env \<Rightarrow> pid \<Rightarrow> pid \<Rightarrow> string \<Rightarrow> scen_action" where
  "sc_send e from to data = SendMessage (se_now e) (se_sent e) from to (Some data)"

definition sc_event :: "scen_env \<Rightarrow> pid \<Rightarrow> scen_action" where
  "sc_event e p = sim_InternalEvent (se_now e) p"

definition sc_snapshot :: "scen_env \<Rightarrow> pid \<Rightarrow> scen_action" where
  "sc_snapshot e p s =
     (case TriggerSnapshot (se_nano e) (se_start e) p s of
        (Inl err, s') \<Rightarrow> (Inl err, s')
      | (Inr sid, s') \<Rightarrow> (Inr (), s'))"

definition sc_partition :: "pid list list \<Rightarrow> scen_action" where
  "sc_partition groups s = (Inr (), s\<lparr>sim_transport := SetPartition groups (sim_transport s)\<rparr>)"

text \<open>One round of the ring: the errors of the first three sends are ignored.\<close>

definition ring_round :: "scen_env \<Rightarrow> string \<Rightarrow> scen_action" where
  "ring_round e data s =
     (let s1 = snd (sc_send e ''P1'' ''P2'' data s);
          s2 = snd (sc_send e ''P2'' ''P3'' data s1);
          s3 = snd (sc_send e ''P3'' ''P4'' data s2)
      in sc_send e ''P4'' ''P1'' data s3)"

definition em_dash :: string where
  "em_dash = [CHR 0xE2, CHR 0x80, CHR 0x94]"

section \<open>The scenarios\<close>

definition basicLamport :: "scen_env \<Rightarrow> Scenario" where
  "basicLamport e = \<lparr>sc_Name = ''BasicLamport'',
     sc_Description = ''3 processes, 5 events demonstrating Lamport total order'',
     sc_Steps =
      [scen_step 0 (''Spawning P1, P2, P3 with Lamport clocks'') (spawn_all e [''P1'', ''P2'', ''P3''] ClockLamport ''''),
       scen_step 100 (''P1 internal event'') (sc_event e ''P1''),
       scen_step 100 (''P1 sends to P2'') (sc_send e ''P1'' ''P2'' ''hello''),
       scen_step 150 (''P2 receives and sends to P3'') (sc_send e ''P2'' ''P3'' ''world''),
       scen_step 100 (''P3 internal event'') (sc_event e ''P3'')]\<rparr>"

definition concurrentWrites :: "scen_env \<Rightarrow> Scenario" where
  "concurrentWrites e = \<lparr>sc_Name = ''ConcurrentWrites'',
     sc_Description = ''2 processes write concurrently '' @ em_dash @ '' vector clock detects concurrent events'',
     sc_Steps =
      [scen_step 0 (''Spawning P1, P2 with Vector clocks'') (spawn_all e [''P1'', ''P2''] ClockVector ''''),
       scen_step 100 (''P1 internal event (concurrent with P2)'') (sc_event e ''P1''),
       scen_step 0 (''P2 internal event (concurrent with P1)'') (sc_event e ''P2'')]\<rparr>"

definition causalViolation :: "scen_env \<Rightarrow> Scenario" where
  "causalViolation e = \<lparr>sc_Name = ''CausalViolation'',
     sc_Description = ''Immediate delivery shows causal violation: P3 gets reply before question'',
     sc_Steps =
      [scen_step 0 (''Spawning with IMMEDIATE delivery (no hold-back queue)'') (spawn_all e [''P1'', ''P2'', ''P3''] ClockVector ImmediateDelivery),
       scen_step 50 (''P1 sends question to P2'') (sc_send e ''P1'' ''P2'' ''question''),
       scen_step 50 (''P2 replies to P3 (causally after question)'') (sc_send e ''P2'' ''P3'' ''answer'')]\<rparr>"

definition causalDelivery_scenario :: "scen_env \<Rightarrow> Scenario" where
  "causalDelivery_scenario e = \<lparr>sc_Name = ''CausalDelivery'',
     sc_Description = ''Causal delivery: hold-back queue ensures P3 gets question before answer'',
     sc_Steps =
      [scen_step 0 (''Spawning with CAUSAL delivery (hold-back queue active)'') (spawn_all e [''P1'', ''P2'', ''P3''] ClockVector CausalDelivery),
       scen_step 50 (''P1 sends question to P2'') (sc_send e ''P1'' ''P2'' ''question''),
       scen_step 50 (''P2 replies to P3'') (sc_send e ''P2'' ''P3'' ''answer'')]\<rparr>"

definition snapshot3P :: "scen_env \<Rightarrow> Scenario" where
  "snapshot3P e = \<lparr>sc_Name = ''Snapshot3P'',
     sc_Description = ''3-process Chandy-Lamport: marker propagation animated step by step'',
     sc_Steps =
      [scen_step 0 (''Spawning 3 processes with vector clocks'') (spawn_all e [''P1'', ''P2'', ''P3''] ClockVector ''''),
       scen_step 100 (''P1 sends to P2 (message in flight)'') (sc_send e ''P1'' ''P2'' ''data''),
       scen_step 50 (''P1 initiates global snapshot'') (sc_snapshot e ''P1'')]\<rparr>"

definition falseConflict :: "scen_env \<Rightarrow> Scenario" where
  "falseConflict e = \<lparr>sc_Name = ''FalseConflict'',
     sc_Description = ''VV false conflict: P1->P2 replication triggers false conflict in plain VCs but not DVV'',
     sc_Steps =
      [scen_step 0 (''Spawning P1, P2 with Vector clocks'') (spawn_all e [''P1'', ''P2''] ClockVector ''''),
       scen_step 50 (''P1 writes key x = v1'') (sc_event e ''P1''),
       scen_step 50 (''P1 sends to P2 (replication)'') (sc_send e ''P1'' ''P2'' ''replicate: x=v1''),
       scen_step 100 (''P2 writes key x = v2 (causally after v1)'') (sc_event e ''P2''),
       scen_step 50 (''P2 sends to P1 (replication back)'') (sc_send e ''P2'' ''P1'' ''replicate: x=v2'')]\<rparr>"

definition matrixGC :: "scen_env \<Rightarrow> Scenario" where
  "matrixGC e = \<lparr>sc_Name = ''MatrixGC'',
     sc_Description = ''4-process matrix clock: MinKnowledge grows through exchange rounds'',
     sc_Steps =
      [scen_step 0 (''Spawning P1-P4 with Matrix clocks'') (spawn_all e [''P1'', ''P2'', ''P3'', ''P4''] ClockMatrix ''''),
       scen_step 30 (''Round 1: P1'' @ arrow @ ''P2, P2'' @ arrow @ ''P3, P3'' @ arrow @ ''P4, P4'' @ arrow @ ''P1'') (ring_round e ''r1''),
       scen_step 30 (''Round 2: P1'' @ arrow @ ''P2, P2'' @ arrow @ ''P3, P3'' @ arrow @ ''P4, P4'' @ arrow @ ''P1'') (ring_round e ''r2''),
       scen_step 30 (''Round 3: P1'' @ arrow @ ''P2, P2'' @ arrow @ ''P3, P3'' @ arrow @ ''P4, P4'' @ arrow @ ''P1'') (ring_round e ''r3'')]\<rparr>"

definition partitionAndHeal :: "scen_env \<Rightarrow> Scenario" where
  "partitionAndHeal e = \<lparr>sc_Name = ''PartitionAndHeal'',
     sc_Description = ''4 processes: partition {P1,P2}|{P3,P4}, isolate, heal, converge'',
     sc_Steps =
      [scen_step 0 (''Spawning P1-P4 with Vector clocks'') (spawn_all e [''P1'', ''P2'', ''P3'', ''P4''] ClockVector ''''),
       scen_step 30 (''Partition: {P1,P2} | {P3,P4} '' @ em_dash @ '' cross-group messages dropped'') (sc_partition [[''P1'', ''P2''], [''P3'', ''P4'']]),
       scen_step 50 (''P1'' @ arrow @ ''P3 (dropped by partition)'') (sc_send e ''P1'' ''P3'' ''cross-partition''),
       scen_step 30 (''P1'' @ arrow @ ''P2 (in-group, delivered)'') (sc_send e ''P1'' ''P2'' ''in-partition''),
       scen_step 30 (''P3'' @ arrow @ ''P4 (in-group, delivered)'') (sc_send e ''P3'' ''P4'' ''in-partition''),
       scen_step 50 (''Heal: remove partition'') (sc_partition []),
       scen_step 50 (''P1'' @ arrow @ ''P3 (now delivered after heal)'') (sc_send e ''P1'' ''P3'' ''post-heal'')]\<rparr>"

definition AllScenarios :: "scen_env \<Rightarrow> Scenario list" where
  "AllScenarios e = [basicLamport e, concurrentWrites e, causalViolation e, causalDelivery_scenario e,
     snapshot3P e, falseConflict e, matrixGC e, partitionAndHeal e]"

section \<open>Running a scenario\<close>

text \<open>One iteration of the runner: narrate, then act. The result is what the action returned.\<close>

definition run_step :: "ScenarioStep \<Rightarrow> string Simulation \<Rightarrow> (sim_error + unit) \<times> string Simulation" where
  "run_step step sim =
     (let sim1 = (if step_Narrate step \<noteq> ''''
                  then case events_NextSeq (sim_bus sim) of (sq, bus) \<Rightarrow>
                    sim\<lparr>sim_bus := events_Publish (zero_Event\<lparr>ev_Type := EvtScenarioStep, ev_GlobalSeq := sq,
                      ev_Narration := step_Narrate step\<rparr>) bus\<rparr>
                  else sim)
      in case step_Action step of None \<Rightarrow> (Inr (), sim1) | Some action \<Rightarrow> action sim1)"

text \<open>The goroutines of the simulation: what happens to it while nobody calls its operations.\<close>

inductive sim_background :: "'d Simulation \<Rightarrow> 'd Simulation \<Rightarrow> bool" where
  "sim_forward s t \<Longrightarrow> sim_background s t"
| "sendDelayed (sim_transport s) t \<Longrightarrow> sim_background s (s\<lparr>sim_transport := t\<rparr>)"
| "sim_handle s t \<Longrightarrow> sim_background s t"
| "handleCausalGraphEvents s t \<Longrightarrow> sim_background s t"
| "events_loop (sim_bus s) b \<Longrightarrow> sim_background s (s\<lparr>sim_bus := b\<rparr>)"
| "killStage s t \<Longrightarrow> sim_background s t"

text \<open>The runner's loop, with any activity of the goroutines before each step; an error of a step does
  not end it. The list holds the results of the actions.\<close>

inductive run_scenario :: "ScenarioStep list \<Rightarrow> string Simulation \<Rightarrow> (sim_error + unit) list \<Rightarrow> string Simulation \<Rightarrow> bool" where
  finished: "run_scenario [] s [] s"
| next_step: "sim_background\<^sup>*\<^sup>* s s1 \<Longrightarrow> run_step step s1 = (r, s2) \<Longrightarrow> run_scenario steps s2 rs s3 \<Longrightarrow>
    run_scenario (step # steps) s (r # rs) s3"

inductive_cases run_scenario_NilE: "run_scenario [] s rs t"
inductive_cases run_scenario_ConsE: "run_scenario (step # steps) s rs t"

section \<open>Simulations without faults and markers\<close>

text \<open>An open transport without injected faults (other than a partition) whose channels hold at most
  \<open>k\<close> messages, and no marker anywhere.\<close>

definition calm_net :: "nat \<Rightarrow> ('d, 'f) SimTransport \<Rightarrow> bool" where
  "calm_net k t \<longleftrightarrow> \<not> st_closed t \<and> st_delays t = [] \<and> st_dropNext t = [] \<and> st_reorderBuf t = [] \<and> st_delayed t = []
     \<and> (\<forall>key. length (st_chan key t) \<le> k \<and> (\<forall>m \<in> set (st_chan key t). \<not> msg_IsMarker m))"

definition calm_objs :: "'d Process list \<Rightarrow> bool" where
  "calm_objs objs \<longleftrightarrow> (\<forall>p \<in> set objs. \<forall>m \<in> set (p_inbound p). \<not> msg_IsMarker m)"

definition calm :: "nat \<Rightarrow> 'd Simulation \<Rightarrow> bool" where
  "calm k s \<longleftrightarrow> settled s \<and> calm_net k (sim_transport s) \<and> calm_objs (sim_objs s)"

lemma calm_objs_update:
  "calm_objs objs \<Longrightarrow> \<forall>m \<in> set (p_inbound p). \<not> msg_IsMarker m \<Longrightarrow> calm_objs (objs[i := p])"
  unfolding calm_objs_def by (metis in_set_conv_nth length_list_update nth_list_update_eq nth_list_update_neq)

lemma calm_objs_nth: "calm_objs objs \<Longrightarrow> i < length objs \<Longrightarrow> m \<in> set (p_inbound (objs ! i)) \<Longrightarrow> \<not> msg_IsMarker m"
  unfolding calm_objs_def using nth_mem by blast

lemma calm_net_chan:
  "calm_net k t \<Longrightarrow> length (st_chan key t) \<le> k" "calm_net k t \<Longrightarrow> m \<in> set (st_chan key t) \<Longrightarrow> \<not> msg_IsMarker m"
  unfolding calm_net_def by blast+

lemma calm_net_set:
  assumes "calm_net k t" "length ms \<le> l" "k \<le> l" "\<forall>m \<in> set ms. \<not> msg_IsMarker m"
  shows "calm_net l (t\<lparr>st_channels := gm_set (st_channels t) key ms\<rparr>)"
proof -
  have "length (st_chan j t) \<le> l" for j using calm_net_chan(1) [OF assms(1), of j] assms(3) by simp
  with assms show ?thesis by (auto simp: calm_net_def)
qed

lemma calm_net_forward:
  assumes "calm_net k t" "transport_forward key t = Some (m, f, t')"
  shows "calm_net k t'" "\<not> msg_IsMarker m" "f = map_of (st_deliver t) (snd key)"
proof -
  obtain ms where ms: "st_chan key t = m # ms" "t' = t\<lparr>st_channels := gm_set (st_channels t) key ms\<rparr>"
    and f: "f = map_of (st_deliver t) (snd key)"
    using assms(2) by (auto simp: transport_forward_def split: list.splits)
  show "f = map_of (st_deliver t) (snd key)" by (rule f)
  have mem: "\<not> msg_IsMarker x" if "x \<in> set (m # ms)" for x using calm_net_chan(2) [OF assms(1), of x key] that ms(1) by simp
  then show "\<not> msg_IsMarker m" by simp
  have "length ms \<le> k" using calm_net_chan(1) [OF assms(1), of key] ms(1) by simp
  then show "calm_net k t'" unfolding ms(2) using mem by (intro calm_net_set [OF assms(1)]) auto
qed

lemma calm_net_mono: "calm_net k t \<Longrightarrow> k \<le> l \<Longrightarrow> calm_net l t"
  unfolding calm_net_def by (meson order_trans)

lemma calm_mono: "calm k s \<Longrightarrow> k \<le> l \<Longrightarrow> calm l s"
  unfolding calm_def using calm_net_mono by blast

lemma calm_bus [simp]: "calm k (s\<lparr>sim_bus := b\<rparr>) = calm k s" "live (s\<lparr>sim_bus := b\<rparr>) = live s"
  by (auto simp: calm_def live_def settled_def registered_def wired_def kill_pending_def)

lemma calm_graph: "calm k s \<Longrightarrow> calm k (s\<lparr>sim_bus := b, sim_causalGraph := g\<rparr>)"
  using settled_frame [of s "s\<lparr>sim_bus := b, sim_causalGraph := g\<rparr>"] by (simp add: calm_def sframe_def)

lemma inbound_handle: "\<not> msg_IsMarker m \<Longrightarrow> p_inbound (fst (fst (handleMessage f now m ((p, bus), c)))) = p_inbound p"
proof -
  have "p_inbound (fst (deliverCausal now m (p, bus))) = p_inbound p"
    using deliverCausal_shape [of now m "(p, bus)"] by auto
  moreover assume "\<not> msg_IsMarker m"
  ultimately show ?thesis
    by (simp add: handleMessage_def Let_def deliverImmediate_def receiveClock_def emitEvent_def split: prod.splits)
qed

text \<open>The goroutines keep a simulation calm and its processes running.\<close>

lemma calm_background:
  assumes "sim_background s t" and "calm k s"
  shows "calm k t" and "live t = live s"
proof -
  have w: "settled s" "calm_net k (sim_transport s)" "calm_objs (sim_objs s)" using assms(2) by (auto simp: calm_def)
  then have wi: "wired s" "sim_kills s = []" by (auto simp: settled_def)
  have "calm k t \<and> live t = live s"
    using assms(1)
  proof cases
    case 1
    then have "settled t" using wi(2) by (intro settled_step [OF sim_step.forward w(1)]) (auto elim!: sim_forward.cases)
    from 1 show ?thesis
    proof cases
      case (forward_deliver key m obj t' p')
      note net = calm_net_forward [OF w(2) forward_deliver(2)]
      have "obj < length (sim_objs s)" using wiredD(5) [OF wi(1)] net(3) by metis
      with net(2) have "\<forall>x \<in> set (p_inbound p'). \<not> msg_IsMarker x"
        using forward_deliver(3) calm_objs_nth [OF w(3)] by (auto elim!: process_Deliver.cases)
      then have "calm_objs (sim_objs t)" using forward_deliver(1) w(3) by (simp add: calm_objs_update)
      with net(1) \<open>settled t\<close> forward_deliver(1) show ?thesis by (simp add: calm_def live_def)
    next
      case (forward_lost key m t')
      show ?thesis using \<open>settled t\<close> w(3) forward_lost(1) calm_net_forward [OF w(2) forward_lost(2)] by (simp add: calm_def live_def)
    qed
  next
    case (2 t')
    then show ?thesis using w(2) by (auto simp: calm_net_def elim!: sendDelayed.cases)
  next
    case 3
    then have "settled t" using wi(2) by (intro settled_step [OF sim_step.handle w(1)]) (auto elim!: sim_handle.cases)
    from 3 show ?thesis
    proof cases
      case (handle obj tm now p' bus' c' t')
      then obtain m ms where m: "p_inbound (sim_objs s ! obj) = m # ms"
        and r: "((p', bus'), (c', t')) = handleMessage (Some (on_marker s tm (cfg_ID (p_cfg (sim_objs s ! obj))))) now m
          (((sim_objs s ! obj)\<lparr>p_inbound := ms\<rparr>, sim_bus s), (sim_snapshots s, sim_transport s))"
        by (auto elim: process_run.cases)
      have nm: "\<not> msg_IsMarker m" "\<forall>x \<in> set ms. \<not> msg_IsMarker x"
        using calm_objs_nth [OF w(3) handle(2)] m by auto
      have "p_inbound p' = ms"
        using arg_cong [OF r, of "\<lambda>x. p_inbound (fst (fst x))"] by (simp add: inbound_handle nm)
      moreover have "t' = sim_transport s"
        using arg_cong [OF r, of "\<lambda>x. snd (snd x)"] nm by (auto simp: handleMessage_def Let_def split: if_splits)
      ultimately show ?thesis
        using \<open>settled t\<close> handle(1) w nm by (simp add: calm_def live_def calm_objs_update)
    qed
  next
    case 4
    then show ?thesis using assms(2) by (auto simp: live_def intro: calm_graph elim!: handleCausalGraphEvents.cases)
  next
    case (5 b)
    then show ?thesis using assms(2) by simp
  next
    case 6
    then show ?thesis using wi(2) by (auto elim!: killStage.cases)
  qed
  then show "calm k t" "live t = live s" by auto
qed

lemma calm_backgrounds: "sim_background\<^sup>*\<^sup>* s t \<Longrightarrow> calm k s \<Longrightarrow> calm k t \<and> live t = live s"
  by (induction rule: rtranclp_induct) (auto dest: calm_background)

section \<open>The operations on a calm simulation\<close>

lemma calm_net_Send:
  assumes "calm_net k t" "map_of (st_channels t) (p, q) \<noteq> None" "k < ChannelBufferSize" "\<not> msg_IsMarker m"
  shows "fst (transport_Send p q m t) = Inr ()" "calm_net (Suc k) (snd (transport_Send p q m t))"
proof -
  have len: "length (st_chan (p, q) t) \<le> k" by (rule calm_net_chan(1) [OF assms(1)])
  have "calm_net (Suc k) (t\<lparr>st_channels := gm_set (st_channels t) (p, q) (st_chan (p, q) t @ [m])\<rparr>)"
    using len assms(4) calm_net_chan(2) [OF assms(1)] by (intro calm_net_set [OF assms(1)]) auto
  moreover have "transport_Send p q m t =
      (if st_partitionGroups t \<noteq> [] \<and> \<not> inSameGroup (st_partitionGroups t) p q then (Inr (), t)
       else (Inr (), t\<lparr>st_channels := gm_set (st_channels t) (p, q) (st_chan (p, q) t @ [m])\<rparr>))"
  proof -
    have "\<not> st_closed t" "st_delays t = []" "st_dropNext t = []" "st_reorderBuf t = []" using assms(1) by (simp_all add: calm_net_def)
    moreover have "length (st_chan (p, q) t) < ChannelBufferSize" using len assms(3) by simp
    ultimately show ?thesis using assms(2) by (auto simp: transport_Send_def sendToChannel_def Let_def)
  qed
  moreover have "calm_net (Suc k) t" using assms(1) by (rule calm_net_mono) simp
  ultimately show "fst (transport_Send p q m t) = Inr ()" "calm_net (Suc k) (snd (transport_Send p q m t))" by auto
qed

lemma inbound_Stamp:
  "p_inbound (fst (snd (process_Stamp now sent to data s))) = p_inbound (fst s)"
  "\<not> msg_IsMarker (fst (process_Stamp now sent to data s))"
  by (auto simp: process_Stamp_def sendClock_def Let_def split: prod.splits option.splits)

lemma calm_send:
  assumes "calm k s" "k < ChannelBufferSize" "p \<in> live s" "q \<in> live s" "p \<noteq> q"
  shows "fst (SendMessage now sent p q data s) = Inr ()" "calm (Suc k) (snd (SendMessage now sent p q data s))"
    "live (snd (SendMessage now sent p q data s)) = live s"
proof -
  have w: "settled s" "calm_net k (sim_transport s)" "calm_objs (sim_objs s)" using assms(1) by (auto simp: calm_def)
  then have wi: "wired s" "sim_kills s = []" by (auto simp: settled_def)
  obtain obj where obj: "map_of (sim_processes s) p = Some obj" using assms(3) by (auto simp: live_def)
  have o1: "obj < length (sim_objs s)" "cfg_ID (p_cfg (sim_objs s ! obj)) = p" using wiredD(1) [OF wi(1) obj] by auto
  obtain msg p' b' where st: "process_Stamp now sent q data (sim_objs s ! obj, sim_bus s) = (msg, p', b')"
    by (cases "process_Stamp now sent q data (sim_objs s ! obj, sim_bus s)") auto
  have inb: "p_inbound p' = p_inbound (sim_objs s ! obj)" "\<not> msg_IsMarker msg"
    using inbound_Stamp [of now sent q data "(sim_objs s ! obj, sim_bus s)"] st by auto
  have "map_of (st_channels (sim_transport s)) (p, q) \<noteq> None" using wiredD(3) [OF wi(1) assms(3,4,5)] .
  note net = calm_net_Send [OF w(2) this assms(2) inb(2)]
  obtain t' where t': "transport_Send p q msg (sim_transport s) = (Inr (), t')" "calm_net (Suc k) t'"
    using net by (cases "transport_Send p q msg (sim_transport s)") auto
  have eq: "SendMessage now sent p q data s =
      (Inr (), s\<lparr>sim_objs := (sim_objs s)[obj := p'], sim_bus := b', sim_transport := t'\<rparr>)"
    by (simp add: SendMessage_def obj process_Send_def st o1 t'(1))
  have "settled (snd (SendMessage now sent p q data s))" using wi(2) by (intro settled_step [OF sim_step.send w(1)]) (simp add: eq)
  moreover have "calm_objs ((sim_objs s)[obj := p'])"
    using calm_objs_nth [OF w(3) o1(1)] by (intro calm_objs_update [OF w(3)]) (auto simp: inb)
  ultimately show "fst (SendMessage now sent p q data s) = Inr ()" "calm (Suc k) (snd (SendMessage now sent p q data s))"
    "live (snd (SendMessage now sent p q data s)) = live s"
    unfolding eq using t'(2) by (simp_all add: calm_def live_def)
qed

lemma calm_event:
  assumes "calm k s" "p \<in> live s"
  shows "fst (sim_InternalEvent now p s) = Inr ()" "calm k (snd (sim_InternalEvent now p s))"
    "live (snd (sim_InternalEvent now p s)) = live s"
proof -
  have w: "settled s" "calm_net k (sim_transport s)" "calm_objs (sim_objs s)" using assms(1) by (auto simp: calm_def)
  then have wi: "wired s" "sim_kills s = []" by (auto simp: settled_def)
  obtain obj where obj: "map_of (sim_processes s) p = Some obj" using assms(2) by (auto simp: live_def)
  have o1: "obj < length (sim_objs s)" using wiredD(1) [OF wi(1) obj] by auto
  obtain p' b' where ev: "process_InternalEvent now (sim_objs s ! obj, sim_bus s) = (p', b')"
    by (cases "process_InternalEvent now (sim_objs s ! obj, sim_bus s)")
  have "p_inbound (fst (process_InternalEvent now (sim_objs s ! obj, sim_bus s))) = p_inbound (sim_objs s ! obj)"
    by (auto simp: process_InternalEvent_def tickClock_def Let_def)
  then have inb: "p_inbound p' = p_inbound (sim_objs s ! obj)" by (simp add: ev)
  have eq: "sim_InternalEvent now p s = (Inr (), s\<lparr>sim_objs := (sim_objs s)[obj := p'], sim_bus := b'\<rparr>)"
    by (simp add: sim_InternalEvent_def obj ev)
  have "settled (snd (sim_InternalEvent now p s))" using wi(2) by (intro settled_step [OF sim_step.internal w(1)]) (simp add: eq)
  moreover have "calm_objs ((sim_objs s)[obj := p'])"
    using calm_objs_nth [OF w(3) o1] by (intro calm_objs_update [OF w(3)]) (auto simp: inb)
  ultimately show "fst (sim_InternalEvent now p s) = Inr ()" "calm k (snd (sim_InternalEvent now p s))"
    "live (snd (sim_InternalEvent now p s)) = live s"
    unfolding eq using w(2) by (simp_all add: calm_def live_def)
qed

lemma calm_partition:
  assumes "calm k s"
  shows "fst (sc_partition groups s) = Inr ()" "calm k (snd (sc_partition groups s))" "live (snd (sc_partition groups s)) = live s"
proof -
  have "sframe s (s\<lparr>sim_transport := SetPartition groups (sim_transport s)\<rparr>)" by simp
  then have "settled (s\<lparr>sim_transport := SetPartition groups (sim_transport s)\<rparr>)"
    using assms by (auto simp: calm_def intro: settled_frame [OF _ \<open>sframe s _\<close>])
  then show "fst (sc_partition groups s) = Inr ()" "calm k (snd (sc_partition groups s))" "live (snd (sc_partition groups s)) = live s"
    using assms by (simp_all add: sc_partition_def calm_def calm_net_def SetPartition_def live_def)
qed

lemma snapshot_succeeds:
  assumes "settled s" "p \<in> live s"
  shows "fst (sc_snapshot e p s) = Inr ()"
proof -
  obtain obj where obj: "map_of (sim_processes s) p = Some obj" using assms(2) by (auto simp: live_def)
  have "peers_of p (sim_snapshots s) \<noteq> None" using assms by (rule settled_registered)
  then show ?thesis
    by (auto simp: sc_snapshot_def TriggerSnapshot_def obj initiate_defs peers_of_def Let_def split: prod.splits option.splits)
qed

lemma calm_net_register:
  "calm_net k t \<Longrightarrow> calm_net k (RegisterChannel a b t)" "calm_net k t \<Longrightarrow> calm_net k (RegisterProcess p f t)"
  by (auto simp: RegisterChannel_def RegisterProcess_def calm_net_def gm_get_def)

lemma calm_net_registers:
  "calm_net k t \<Longrightarrow> calm_net k (gm_fold (\<lambda>q v t. if q = n then t else RegisterChannel q n (RegisterChannel n q t)) m t)"
proof -
  have "calm_net k (fold (\<lambda>(q, v) t. if q = n then t else RegisterChannel q n (RegisterChannel n q t)) ys t)"
    if "calm_net k t" for ys t
    using that by (induction ys arbitrary: t) (auto simp: calm_net_register)
  then show "calm_net k t \<Longrightarrow> ?thesis" by (simp add: gm_fold_def)
qed

lemma calm_objs_peers:
  "calm_objs objs \<Longrightarrow> calm_objs (gm_fold (\<lambda>q ob objs. if q \<noteq> n then objs[ob := process_AddPeer n (objs ! ob)] else objs) m objs)"
proof -
  have one: "calm_objs (objs[ob := process_AddPeer n (objs ! ob)])" if "calm_objs objs" for objs :: "'a Process list" and ob
  proof (cases "ob < length objs")
    case True
    then show ?thesis using calm_objs_nth [OF that] by (intro calm_objs_update [OF that]) (auto simp: process_AddPeer_def)
  qed (simp add: that list_update_beyond)
  have "calm_objs (fold (\<lambda>(q, ob) objs. if q \<noteq> n then objs[ob := process_AddPeer n (objs ! ob)] else objs) ys objs)"
    if "calm_objs objs" for ys and objs :: "'a Process list"
    using that by (induction ys arbitrary: objs) (auto simp: one)
  then show "calm_objs objs \<Longrightarrow> ?thesis" by (simp add: gm_fold_def)
qed

lemma calm_spawn:
  assumes "calm k s" "cfg_ID cfg \<noteq> ''''" "length (cfg_ID cfg) \<le> 64" "cfg_ID cfg \<notin> live s" "card (live s) < 100"
  shows "fst (SpawnProcess now cfg s) = Inr ()" "calm k (snd (SpawnProcess now cfg s))"
    "live (snd (SpawnProcess now cfg s)) = insert (cfg_ID cfg) (live s)"
proof -
  have w: "settled s" "calm_net k (sim_transport s)" "calm_objs (sim_objs s)" using assms(1) by (auto simp: calm_def)
  then have wi: "wired s" "sim_kills s = []" by (auto simp: settled_def)
  have conds: "map_of (sim_processes s) (cfg_ID cfg) = None" "gm_len (sim_processes s) < MaxSimulationProcesses"
    using assms(4,5) by (auto simp: live_def domIff gm_len_conv_keys MaxSimulationProcesses_def)
  then show ok: "fst (SpawnProcess now cfg s) = Inr ()"
    using assms(2,3) by (simp add: SpawnProcess_def Let_def split: prod.splits)
  define s' where "s' = snd (SpawnProcess now cfg s)"
  have ok': "SpawnProcess now cfg s = (Inr (), s')" using ok by (simp add: s'_def prod_eq_iff)
  show "live (snd (SpawnProcess now cfg s)) = insert (cfg_ID cfg) (live s)"
    using spawn_effect(5) [OF ok'] by (auto simp: live_def ok')
  define procs where "procs = gm_set (sim_processes s) (cfg_ID cfg) (length (sim_objs s))"
  define objs where "objs = gm_fold (\<lambda>q ob objs. if q \<noteq> cfg_ID cfg then objs[ob := process_AddPeer (cfg_ID cfg) (objs ! ob)] else objs)
      procs (sim_objs s @ [process_New (spawn_config cfg s)])"
  obtain p' b' where st: "process_Start now (objs ! length (sim_objs s), sim_bus s) = (p', b')"
    by (cases "process_Start now (objs ! length (sim_objs s), sim_bus s)")
  have eq: "sim_objs s' = objs[length (sim_objs s) := p']"
    "sim_transport s' = gm_fold (\<lambda>q v t. if q = cfg_ID cfg then t else RegisterChannel q (cfg_ID cfg) (RegisterChannel (cfg_ID cfg) q t))
       procs (RegisterProcess (cfg_ID cfg) (length (sim_objs s)) (sim_transport s))"
    using conds assms(2,3) st unfolding s'_def
    by (simp_all add: SpawnProcess_def Let_def flip: procs_def objs_def)
  have "calm_objs (sim_objs s @ [process_New (spawn_config cfg s)])"
    using w(3) by (auto simp: calm_objs_def process_New_def Let_def)
  then have c: "calm_objs objs" unfolding objs_def by (rule calm_objs_peers)
  have "p_inbound (fst (process_Start now (objs ! length (sim_objs s), sim_bus s))) = p_inbound (objs ! length (sim_objs s))"
    by (simp add: process_Start_def emitEvent_def)
  then have "calm_objs (sim_objs s')"
    using st calm_objs_nth [OF c, of "length (sim_objs s)"] spawn_effect(6) [OF ok'] eq(1)
    by (auto simp: eq(1) intro!: calm_objs_update [OF c])
  moreover have "calm_net k (sim_transport s')"
    unfolding eq(2) using w(2) by (intro calm_net_registers calm_net_register)
  moreover have "settled s'"
    using settled_step [OF sim_step.spawn w(1), of now cfg] spawn_effect(11) [OF ok'] wi(2) by (simp add: ok')
  ultimately show "calm k (snd (SpawnProcess now cfg s))" by (simp add: calm_def s'_def)
qed

lemma calm_spawn_all:
  assumes "calm k s" "distinct ps" "set ps \<inter> live s = {}" "\<forall>p \<in> set ps. p \<noteq> '''' \<and> length p \<le> 64"
    "card (live s) + length ps \<le> 100"
  shows "fst (spawn_all e ps ct dm s) = Inr () \<and> calm k (snd (spawn_all e ps ct dm s))
    \<and> live (snd (spawn_all e ps ct dm s)) = live s \<union> set ps"
  using assms
proof (induction ps arbitrary: s)
  case (Cons p ps)
  let ?cfg = "\<lparr>cfg_ID = p, cfg_ClockType = ct, cfg_DeliveryMode = dm, cfg_Peers = [], cfg_AllPIDs = []\<rparr>"
  note sp = calm_spawn [of k s ?cfg "se_now e"]
  obtain s' where s': "SpawnProcess (se_now e) ?cfg s = (Inr (), s')" "calm k s'" "live s' = insert p (live s)"
    using sp Cons.prems by (cases "SpawnProcess (se_now e) ?cfg s") auto
  have fin: "finite (live s)" by (simp add: live_def finite_dom_map_of)
  have "set ps \<inter> live s' = {}" "card (live s') + length ps \<le> 100"
    using Cons.prems s'(3) fin by (auto simp: card_insert_if)
  with Cons.IH [OF s'(2)] Cons.prems s' show ?case by auto
qed simp

section \<open>Steps that succeed\<close>

text \<open>Every scenario sends at most four messages per step.\<close>

definition step_keeps :: "pid set \<Rightarrow> ScenarioStep \<Rightarrow> pid set \<Rightarrow> bool" where
  "step_keeps L step L' \<longleftrightarrow> (\<forall>k s. calm k s \<and> k + 4 \<le> ChannelBufferSize \<and> live s = L \<longrightarrow>
     fst (run_step step s) = Inr () \<and> calm (k + 4) (snd (run_step step s)) \<and> live (snd (run_step step s)) = L')"

definition step_succeeds :: "pid set \<Rightarrow> ScenarioStep \<Rightarrow> bool" where
  "step_succeeds L step \<longleftrightarrow> (\<forall>k s. calm k s \<and> k + 4 \<le> ChannelBufferSize \<and> live s = L \<longrightarrow> fst (run_step step s) = Inr ())"

lemma run_scen_step:
  "run_step (scen_step d n act) s = act (if n \<noteq> '''' then s\<lparr>sim_bus := events_Publish (zero_Event\<lparr>ev_Type := EvtScenarioStep,
     ev_GlobalSeq := fst (events_NextSeq (sim_bus s)), ev_Narration := n\<rparr>) (snd (events_NextSeq (sim_bus s)))\<rparr> else s)"
  by (simp add: run_step_def scen_step_def Let_def split: prod.splits)

lemma step_keepsD:
  "step_keeps L step L' \<Longrightarrow> run_step step s = (r, s2) \<Longrightarrow> calm k s \<Longrightarrow> live s = L \<Longrightarrow> k + 4 \<le> ChannelBufferSize \<Longrightarrow>
     r = Inr () \<and> calm (k + 4) s2 \<and> live s2 = L'"
  unfolding step_keeps_def by (metis fst_conv snd_conv)

lemma step_succeedsD:
  "step_succeeds L step \<Longrightarrow> run_step step s = (r, s2) \<Longrightarrow> calm k s \<Longrightarrow> live s = L \<Longrightarrow> k + 4 \<le> ChannelBufferSize \<Longrightarrow> r = Inr ()"
  unfolding step_succeeds_def by (metis fst_conv)

lemma step_keepsI:
  assumes "\<And>k s. calm k s \<Longrightarrow> k + 4 \<le> ChannelBufferSize \<Longrightarrow> live s = L \<Longrightarrow>
      fst (act s) = Inr () \<and> calm (k + 4) (snd (act s)) \<and> live (snd (act s)) = L'"
  shows "step_keeps L (scen_step d n act) L'"
  unfolding step_keeps_def run_scen_step
proof (intro allI impI, elim conjE)
  fix k and s :: "string Simulation"
  assume "calm k s" "k + 4 \<le> ChannelBufferSize" "live s = L"
  moreover define b where "b = events_Publish (zero_Event\<lparr>ev_Type := EvtScenarioStep,
     ev_GlobalSeq := fst (events_NextSeq (sim_bus s)), ev_Narration := n\<rparr>) (snd (events_NextSeq (sim_bus s)))"
  ultimately show "fst (act (if n \<noteq> '''' then s\<lparr>sim_bus := b\<rparr> else s)) = Inr ()
      \<and> calm (k + 4) (snd (act (if n \<noteq> '''' then s\<lparr>sim_bus := b\<rparr> else s)))
      \<and> live (snd (act (if n \<noteq> '''' then s\<lparr>sim_bus := b\<rparr> else s))) = L'"
    using assms [of k s] assms [of k "s\<lparr>sim_bus := b\<rparr>"] by simp
qed

lemma step_succeedsI:
  assumes "\<And>k s. calm k s \<Longrightarrow> k + 4 \<le> ChannelBufferSize \<Longrightarrow> live s = L \<Longrightarrow> fst (act s) = Inr ()"
  shows "step_succeeds L (scen_step d n act)"
proof -
  have "fst (act s') = Inr ()"
    if "calm k s" "k + 4 \<le> ChannelBufferSize" "live s = L" "s' = s \<or> s' = s\<lparr>sim_bus := b\<rparr>" for k s s' b
    using assms [of k s'] that by auto
  then show ?thesis unfolding step_succeeds_def run_scen_step by auto
qed

lemma keeps_succeeds: "step_keeps L step L' \<Longrightarrow> step_succeeds L step"
  unfolding step_keeps_def step_succeeds_def by blast

named_theorems scenario_steps \<open>steps of scenarios that succeed on a calm simulation\<close>

lemma keeps_send [scenario_steps]: "p \<in> L \<Longrightarrow> q \<in> L \<Longrightarrow> p \<noteq> q \<Longrightarrow> step_keeps L (scen_step d n (sc_send e p q x)) L"
proof (rule step_keepsI)
  fix k and s :: "string Simulation"
  assume "p \<in> L" "q \<in> L" "p \<noteq> q" "calm k s" "k + 4 \<le> ChannelBufferSize" "live s = L"
  then show "fst (sc_send e p q x s) = Inr () \<and> calm (k + 4) (snd (sc_send e p q x s)) \<and> live (snd (sc_send e p q x s)) = L"
    using calm_send [of k s p q "se_now e" "se_sent e" "Some x"] calm_mono [of "Suc k" _ "k + 4"] by (auto simp: sc_send_def)
qed

lemma keeps_event [scenario_steps]: "p \<in> L \<Longrightarrow> step_keeps L (scen_step d n (sc_event e p)) L"
proof (rule step_keepsI)
  fix k and s :: "string Simulation"
  assume "p \<in> L" "calm k s" "live s = L"
  then show "fst (sc_event e p s) = Inr () \<and> calm (k + 4) (snd (sc_event e p s)) \<and> live (snd (sc_event e p s)) = L"
    using calm_event [of k s p "se_now e"] calm_mono [of k _ "k + 4"] by (auto simp: sc_event_def)
qed

lemma keeps_partition [scenario_steps]: "step_keeps L (scen_step d n (sc_partition g)) L"
proof (rule step_keepsI)
  fix k and s :: "string Simulation"
  assume "calm k s" "live s = L"
  then show "fst (sc_partition g s) = Inr () \<and> calm (k + 4) (snd (sc_partition g s)) \<and> live (snd (sc_partition g s)) = L"
    using calm_partition [of k s g] calm_mono [of k _ "k + 4"] by auto
qed

lemma succeeds_snapshot [scenario_steps]: "p \<in> L \<Longrightarrow> step_succeeds L (scen_step d n (sc_snapshot e p))"
  by (rule step_succeedsI) (auto simp: calm_def intro: snapshot_succeeds)

lemma keeps_ring [scenario_steps]:
  assumes "{''P1'', ''P2'', ''P3'', ''P4''} \<subseteq> L"
  shows "step_keeps L (scen_step d n (ring_round e x)) L"
proof (rule step_keepsI)
  fix k and s :: "string Simulation"
  assume s: "calm k s" "k + 4 \<le> ChannelBufferSize" "live s = L"
  have send: "fst (sc_send e p q x s) = Inr () \<and> calm (Suc j) (snd (sc_send e p q x s)) \<and> live (snd (sc_send e p q x s)) = L"
    if "calm j s" "j < ChannelBufferSize" "live s = L" "p \<in> L" "q \<in> L" "p \<noteq> q" for j p q s
    using calm_send [OF that(1,2), of p q "se_now e" "se_sent e" "Some x"] that by (simp add: sc_send_def)
  define s1 where "s1 = snd (sc_send e ''P1'' ''P2'' x s)"
  define s2 where "s2 = snd (sc_send e ''P2'' ''P3'' x s1)"
  define s3 where "s3 = snd (sc_send e ''P3'' ''P4'' x s2)"
  have s1: "calm (Suc k) s1" "live s1 = L" using send [of k s "''P1''" "''P2''"] s assms by (auto simp: s1_def)
  have s2: "calm (Suc (Suc k)) s2" "live s2 = L" using send [of "Suc k" s1 "''P2''" "''P3''"] s s1 assms by (auto simp: s2_def)
  have s3: "calm (Suc (Suc (Suc k))) s3" "live s3 = L"
    using send [of "Suc (Suc k)" s2 "''P3''" "''P4''"] s s2 assms by (auto simp: s3_def)
  have "ring_round e x s = sc_send e ''P4'' ''P1'' x s3" by (simp add: ring_round_def Let_def s1_def s2_def s3_def)
  with send [of "Suc (Suc (Suc k))" s3 "''P4''" "''P1''"] s s3 assms
  show "fst (ring_round e x s) = Inr () \<and> calm (k + 4) (snd (ring_round e x s)) \<and> live (snd (ring_round e x s)) = L"
    by (auto simp: numeral_eq_Suc)
qed

lemmas succeeds_steps [scenario_steps] =
  keeps_send [THEN keeps_succeeds] keeps_event [THEN keeps_succeeds] keeps_partition [THEN keeps_succeeds] keeps_ring [THEN keeps_succeeds]

lemma keeps_spawn:
  assumes "distinct ps" "\<forall>p \<in> set ps. p \<noteq> '''' \<and> length p \<le> 64" "length ps \<le> 100"
  shows "step_keeps {} (scen_step d n (spawn_all e ps ct dm)) (set ps)"
proof (rule step_keepsI)
  fix k and s :: "string Simulation"
  assume "calm k s" "k + 4 \<le> ChannelBufferSize" "live s = {}"
  then show "fst (spawn_all e ps ct dm s) = Inr () \<and> calm (k + 4) (snd (spawn_all e ps ct dm s))
      \<and> live (snd (spawn_all e ps ct dm s)) = set ps"
    using calm_spawn_all [of k s ps e ct dm] assms calm_mono by force
qed

text \<open>A scenario: it spawns its processes and then acts on them; the last step may take a snapshot.\<close>

fun steps_ok :: "pid set \<Rightarrow> ScenarioStep list \<Rightarrow> bool" where
  "steps_ok L [] \<longleftrightarrow> True"
| "steps_ok L (step # steps) \<longleftrightarrow> step_succeeds L step \<and> (steps = [] \<or> step_keeps L step L \<and> steps_ok L steps)"

lemma run_steps_ok:
  assumes "run_scenario steps s rs t" "steps_ok L steps" "calm k s" "live s = L" "k + 4 * length steps \<le> ChannelBufferSize"
  shows "set rs \<subseteq> {Inr ()}"
  using assms
proof (induction arbitrary: k rule: run_scenario.induct)
  case (next_step s s1 step r s2 steps rs s3)
  have s1: "calm k s1" "live s1 = L" using calm_backgrounds [OF next_step(1)] next_step by auto
  have r: "r = Inr ()" using step_succeedsD [OF _ next_step(2) s1] next_step.prems by simp
  show ?case
  proof (cases "steps = []")
    case True
    then show ?thesis using next_step(3) r by (auto elim: run_scenario_NilE)
  next
    case False
    then have "step_keeps L step L" "steps_ok L steps" using next_step.prems by auto
    then have "calm (k + 4) s2" "live s2 = L" using step_keepsD [OF _ next_step(2) s1] next_step.prems by auto
    with next_step.IH [of "k + 4"] next_step.prems \<open>steps_ok L steps\<close> r show ?thesis by simp
  qed
qed simp

lemma run_scenario_ok:
  assumes "run_scenario (step # steps) s rs t" "step_keeps {} step L" "steps_ok L steps" "calm 0 s" "live s = {}"
    "length steps < 200"
  shows "set rs \<subseteq> {Inr ()}"
proof -
  obtain s1 r s2 rs' where r: "sim_background\<^sup>*\<^sup>* s s1" "run_step step s1 = (r, s2)" "run_scenario steps s2 rs' t" "rs = r # rs'"
    using assms(1) by (auto elim: run_scenario_ConsE)
  have "calm 0 s1" "live s1 = {}" using calm_backgrounds [OF r(1)] assms by auto
  with step_keepsD [OF assms(2) r(2), of 0] have "r = Inr ()" "calm 4 s2" "live s2 = L"
    by (auto simp: ChannelBufferSize_def)
  with run_steps_ok [OF r(3) assms(3)] assms(6) r(4) show ?thesis by (auto simp: ChannelBufferSize_def)
qed

lemma calm_New: "calm 0 (simulation_New cfg)" "live (simulation_New cfg) = {}"
proof -
  have init: "sim_init (simulation_New cfg)" by (auto simp: sim_init_def)
  have "wired (simulation_New cfg)" "registered {} (simulation_New cfg)"
    using sim.inv_init [OF init] registered_New [OF init] by auto
  then have "settled (simulation_New cfg)" by (simp add: settled_def simulation_New_def Let_def)
  then show "calm 0 (simulation_New cfg)" "live (simulation_New cfg) = {}"
    by (auto simp: calm_def calm_net_def calm_objs_def simulation_New_def NewSimTransport_def live_def Let_def)
qed

text \<open>Every scenario first spawns its processes, P1 among them, and then acts on them.\<close>

definition prepared :: "scen_env \<Rightarrow> Scenario \<Rightarrow> bool" where
  "prepared e sc \<longleftrightarrow> (\<exists>d n ps ct dm steps. sc_Steps sc = scen_step d n (spawn_all e (''P1'' # ps) ct dm) # steps
     \<and> distinct (''P1'' # ps) \<and> (\<forall>p \<in> set ps. p \<noteq> '''' \<and> length p \<le> 64) \<and> length ps < 100
     \<and> steps_ok (insert ''P1'' (set ps)) steps \<and> length steps < 200)"

lemma preparedI:
  "sc_Steps sc = scen_step d n (spawn_all e (''P1'' # ps) ct dm) # steps \<Longrightarrow> distinct (''P1'' # ps) \<Longrightarrow>
   \<forall>p \<in> set ps. p \<noteq> '''' \<and> length p \<le> 64 \<Longrightarrow> length ps < 100 \<Longrightarrow> steps_ok (insert ''P1'' (set ps)) steps \<Longrightarrow>
   length steps < 200 \<Longrightarrow> prepared e sc"
  unfolding prepared_def by blast

lemma scenarios_prepared:
  assumes "sc \<in> set (AllScenarios e)"
  shows "prepared e sc"
proof -
  consider "sc = basicLamport e" | "sc = concurrentWrites e" | "sc = causalViolation e" | "sc = causalDelivery_scenario e"
    | "sc = snapshot3P e" | "sc = falseConflict e" | "sc = matrixGC e" | "sc = partitionAndHeal e"
    using assms(1) by (auto simp: AllScenarios_def)
  then show ?thesis
  proof cases
    case 1
    show ?thesis by (rule preparedI, unfold 1 basicLamport_def Scenario.simps, rule refl) (simp_all add: scenario_steps)
  next
    case 2
    show ?thesis by (rule preparedI, unfold 2 concurrentWrites_def Scenario.simps, rule refl) (simp_all add: scenario_steps)
  next
    case 3
    show ?thesis by (rule preparedI, unfold 3 causalViolation_def Scenario.simps, rule refl) (simp_all add: scenario_steps)
  next
    case 4
    show ?thesis by (rule preparedI, unfold 4 causalDelivery_scenario_def Scenario.simps, rule refl) (simp_all add: scenario_steps)
  next
    case 5
    show ?thesis by (rule preparedI, unfold 5 snapshot3P_def Scenario.simps, rule refl) (simp_all add: scenario_steps)
  next
    case 6
    show ?thesis by (rule preparedI, unfold 6 falseConflict_def Scenario.simps, rule refl) (simp_all add: scenario_steps)
  next
    case 7
    show ?thesis by (rule preparedI, unfold 7 matrixGC_def Scenario.simps, rule refl) (simp_all add: scenario_steps)
  next
    case 8
    show ?thesis by (rule preparedI, unfold 8 partitionAndHeal_def Scenario.simps, rule refl) (simp_all add: scenario_steps)
  qed
qed

section \<open>Properties\<close>

text \<open>C29: every prepared scenario runs without an error on a fresh simulation: whatever the
  goroutines of the simulation do between its steps, and whatever the configuration and the clocks
  are, the action of every step returns success.\<close>

theorem scenarios_succeed:
  assumes "sc \<in> set (AllScenarios e)" and "run_scenario (sc_Steps sc) (simulation_New cfg) results s"
  shows "set results \<subseteq> {Inr ()}"
proof -
  obtain d n ps ct dm steps where sc: "sc_Steps sc = scen_step d n (spawn_all e (''P1'' # ps) ct dm) # steps"
      "distinct (''P1'' # ps)" "\<forall>p \<in> set ps. p \<noteq> '''' \<and> length p \<le> 64" "length ps < 100"
      "steps_ok (insert ''P1'' (set ps)) steps" "length steps < 200"
    using scenarios_prepared [OF assms(1)] unfolding prepared_def by blast
  have "step_keeps {} (scen_step d n (spawn_all e (''P1'' # ps) ct dm)) (insert ''P1'' (set ps))"
    using keeps_spawn [of "''P1'' # ps" d n e ct dm] sc by simp
  from run_scenario_ok [OF assms(2) [unfolded sc(1)] this sc(5) calm_New sc(6)] show ?thesis .
qed

definition demo_env :: scen_env where
  "demo_env = \<lparr>se_now = (\<lambda>_. 0), se_sent = 0, se_nano = 1, se_start = 0\<rparr>"

lemma run_scenario_total: "\<exists>rs t. run_scenario steps s rs t \<and> length rs = length steps"
proof (induction steps arbitrary: s)
  case (Cons step steps)
  obtain r s2 where r: "run_step step s = (r, s2)" by fastforce
  from Cons obtain rs t where "run_scenario steps s2 rs t" "length rs = length steps" by blast
  with r show ?case by (intro exI [of _ "r # rs"] exI [of _ t]) (auto intro: next_step)
qed (auto intro: finished)

theorem scenarios_succeed_witness:
  "\<exists>results s. run_scenario (sc_Steps (matrixGC demo_env)) (simulation_New \<lparr>sc_ClockType = ClockVector,
       sc_DeliveryMode = CausalDelivery, sc_Channels = ''full_mesh''\<rparr>) results s
     \<and> results = [Inr (), Inr (), Inr (), Inr ()]"
proof -
  let ?sim = "simulation_New \<lparr>sc_ClockType = ClockVector, sc_DeliveryMode = CausalDelivery, sc_Channels = ''full_mesh''\<rparr>"
  obtain rs t where run: "run_scenario (sc_Steps (matrixGC demo_env)) ?sim rs t" "length rs = length (sc_Steps (matrixGC demo_env))"
    using run_scenario_total by blast
  have "matrixGC demo_env \<in> set (AllScenarios demo_env)" by (simp add: AllScenarios_def)
  from scenarios_succeed [OF this run(1)] run(2) have "rs = replicate 4 (Inr ())"
    by (intro replicate_eqI) (auto simp: matrixGC_def)
  with run(1) show ?thesis by (auto simp: numeral_eq_Suc)
qed

lemma spawn_all_taken:
  "p \<in> live s \<Longrightarrow> p \<noteq> '''' \<Longrightarrow> length p \<le> 64 \<Longrightarrow> spawn_all e (p # ps) ct dm s = (Inl (AlreadyExists p), s)"
  by (auto simp: SpawnProcess_def live_def Let_def)

lemma spawn_step_taken:
  assumes "p \<in> live s" "p \<noteq> '''' \<and> length p \<le> 64"
  shows "fst (run_step (scen_step d n (spawn_all e (p # ps) ct dm)) s) = Inl (AlreadyExists p)
    \<and> sim_processes (snd (run_step (scen_step d n (spawn_all e (p # ps) ct dm)) s)) = sim_processes s
    \<and> sim_objs (snd (run_step (scen_step d n (spawn_all e (p # ps) ct dm)) s)) = sim_objs s"
  using assms unfolding run_scen_step by (subst spawn_all_taken) (auto simp: spawn_all_taken simp del: spawn_all.simps)

text \<open>A scenario is not prepared for a simulation that already runs a process P1, such as the
  one the server starts with. Its first step then fails at once and spawns none of its processes,
  so that the scenario goes on with whatever processes, clocks and delivery modes are there.\<close>

theorem scenario_on_populated_simulation:
  assumes "sc \<in> set (AllScenarios e)" and "''P1'' \<in> live s"
  shows "fst (run_step (hd (sc_Steps sc)) s) = Inl (AlreadyExists ''P1'')
    \<and> sim_processes (snd (run_step (hd (sc_Steps sc)) s)) = sim_processes s
    \<and> sim_objs (snd (run_step (hd (sc_Steps sc)) s)) = sim_objs s"
proof -
  obtain d n ps ct dm steps where "sc_Steps sc = scen_step d n (spawn_all e (''P1'' # ps) ct dm) # steps"
    using scenarios_prepared [OF assms(1)] unfolding prepared_def by blast
  then show ?thesis using spawn_step_taken [OF assms(2)] by (simp del: spawn_all.simps)
qed

theorem scenario_on_populated_simulation_witness:
  "fst (run_step (hd (sc_Steps (basicLamport demo_env)))
     (snd (spawn_all demo_env [''P1''] ClockVector CausalDelivery (simulation_New \<lparr>sc_ClockType = ClockVector,
       sc_DeliveryMode = CausalDelivery, sc_Channels = ''full_mesh''\<rparr>)))) = Inl (AlreadyExists ''P1'')"
proof -
  let ?sim = "simulation_New \<lparr>sc_ClockType = ClockVector, sc_DeliveryMode = CausalDelivery, sc_Channels = ''full_mesh''\<rparr>"
  have "''P1'' \<in> live (snd (spawn_all demo_env [''P1''] ClockVector CausalDelivery ?sim))"
    using calm_spawn_all [OF calm_New(1), of "[''P1'']"] by (simp add: calm_New del: spawn_all.simps)
  with scenario_on_populated_simulation [of "basicLamport demo_env" demo_env] show ?thesis by (simp add: AllScenarios_def del: spawn_all.simps)
qed

end
