(* ===== verification/Gateway_Auth.thy ===== *)
theory Gateway_Auth
  imports Go_Interfaces
begin

text \<open>
  \<^verbatim>\<open>gateway/auth/auth.go\<close>: the API tokens and the authentication middleware. Strings are byte
  strings. Reading and decoding the token file is done by the operating system and
  \<^verbatim>\<open>encoding/json\<close>: its outcome is a parameter. The middleware's use of the framework is the value
  it returns: let the request pass (with the token's name, if one was checked) or abort it with a
  status and a message. Logging is left out.
\<close>

section \<open>Strings\<close>

text \<open>The UTF-8 encodings of the code points for which \<^verbatim>\<open>unicode.IsSpace\<close> holds.\<close>

definition space_encodings :: "string list" where
  "space_encodings =
     map (\<lambda>n. [char_of n]) [9, 10, 11, 12, 13, 32 :: nat] @
     [[CHR 0xC2, CHR 0x85], [CHR 0xC2, CHR 0xA0], [CHR 0xE1, CHR 0x9A, CHR 0x80]] @
     map (\<lambda>n. [CHR 0xE2, CHR 0x80, char_of n]) ([0x80 ..< 0x8B] @ [0xA8, 0xA9, 0xAF :: nat]) @
     [[CHR 0xE2, CHR 0x81, CHR 0x9F], [CHR 0xE3, CHR 0x80, CHR 0x80]]"

function trim_prefixes :: "string list \<Rightarrow> string \<Rightarrow> string" where
  "trim_prefixes es s =
     (case find (\<lambda>e. e \<noteq> [] \<and> take (length e) s = e) es of
        None \<Rightarrow> s
      | Some e \<Rightarrow> trim_prefixes es (drop (length e) s))"
  by auto
termination
proof (relation "measure (\<lambda>(es, s). length s)", goal_cases)
  case (2 es s e)
  then have "e \<noteq> [] \<and> take (length e) s = e" by (auto simp: find_Some_iff)
  then have "e \<noteq> []" "length e \<le> length s" by (metis length_take min.cobounded1)+
  then show ?case by (cases s) auto
qed simp

declare trim_prefixes.simps [simp del]

definition TrimSpace :: "string \<Rightarrow> string" where
  "TrimSpace s = rev (trim_prefixes (map rev space_encodings) (rev (trim_prefixes space_encodings s)))"

definition TrimPrefix :: "string \<Rightarrow> string \<Rightarrow> string" where
  "TrimPrefix s pre = (if take (length pre) s = pre then drop (length pre) s else s)"

text \<open>\<^verbatim>\<open>IndexByte\<close>, with \<open>None\<close> for the result -1.\<close>

fun IndexByte :: "string \<Rightarrow> char \<Rightarrow> nat option" where
  "IndexByte [] c = None"
| "IndexByte (x # xs) c = (if x = c then Some 0 else map_option Suc (IndexByte xs c))"

text \<open>\<^verbatim>\<open>strings.Split\<close> at a separator of one byte.\<close>

fun Split :: "string \<Rightarrow> char \<Rightarrow> string list" where
  "Split [] c = [[]]"
| "Split (x # xs) c = (if x = c then [] # Split xs c
     else case Split xs c of [] \<Rightarrow> [[x]] | p # ps \<Rightarrow> (x # p) # ps)"

section \<open>Tokens\<close>

record Token =
  tok_Name :: string
  tok_Secret :: string

record Manager =
  mgr_tokens :: "(string, Token) gomap"

datatype auth_error = TokensFileError | MalformedEntry string | NoValidTokens

text \<open>The parts of \<open>name:secret\<close>, if both are there.\<close>

definition split_token :: "string \<Rightarrow> Token option" where
  "split_token entry =
     (case IndexByte entry (CHR '':'') of
        None \<Rightarrow> None
      | Some idx \<Rightarrow> if idx = 0 \<or> idx \<ge> length entry - 1 then None
                     else Some \<lparr>tok_Name = take idx entry, tok_Secret = drop (idx + 1) entry\<rparr>)"

fun parse_entries :: "string list \<Rightarrow> Token list \<Rightarrow> auth_error + Token list" where
  "parse_entries [] tokens = Inr tokens"
| "parse_entries (e # es) tokens =
     (let entry = TrimSpace e
      in if entry = '''' then parse_entries es tokens
         else case split_token entry of
           None \<Rightarrow> Inl (MalformedEntry entry)
         | Some t \<Rightarrow> parse_entries es (tokens @ [t]))"

definition mgr_set :: "Token list \<Rightarrow> Manager \<Rightarrow> Manager" where
  "mgr_set tokens m = m\<lparr>mgr_tokens := fold (\<lambda>t r. gm_set r (tok_Name t) t) tokens []\<rparr>"

text \<open>
  \<open>path\<close> and \<open>raw\<close> are the two environment variables (empty when unset); \<open>file\<close> is the list of
  tokens that \<^verbatim>\<open>ReadFile\<close> and \<^verbatim>\<open>json.Unmarshal\<close> yield for a path, or \<open>None\<close> when one of them fails.
\<close>

definition mgr_load :: "(string \<Rightarrow> Token list option) \<Rightarrow> string \<Rightarrow> string \<Rightarrow> Manager \<Rightarrow> (auth_error + unit) \<times> Manager" where
  "mgr_load file path raw m =
     (if path = '''' \<and> raw = '''' then (Inr (), m)
      else case (if path \<noteq> '''' then file path else Some []) of
        None \<Rightarrow> (Inl TokensFileError, m)
      | Some tokens \<Rightarrow>
          (case (if raw \<noteq> '''' then parse_entries (Split raw (CHR '','')) tokens else Inr tokens) of
             Inl e \<Rightarrow> (Inl e, m)
           | Inr tokens' \<Rightarrow>
               if length tokens' = 0 then (Inl NoValidTokens, m)
               else (Inr (), mgr_set tokens' m)))"

definition NewManager :: "(string \<Rightarrow> Token list option) \<Rightarrow> string \<Rightarrow> string \<Rightarrow> auth_error + Manager" where
  "NewManager file path raw =
     (case mgr_load file path raw \<lparr>mgr_tokens = []\<rparr> of
        (Inl e, m) \<Rightarrow> Inl e
      | (Inr u, m) \<Rightarrow> Inr m)"

definition mgr_Enabled :: "Manager \<Rightarrow> bool" where
  "mgr_Enabled m \<longleftrightarrow> gm_len (mgr_tokens m) > 0"

text \<open>\<^verbatim>\<open>ConstantTimeCompare\<close> yields 1 exactly when the byte strings are equal.\<close>

definition mgr_Validate :: "string \<Rightarrow> string \<Rightarrow> Manager \<Rightarrow> bool" where
  "mgr_Validate name secret m =
     (case map_of (mgr_tokens m) name of None \<Rightarrow> False | Some t \<Rightarrow> tok_Secret t = secret)"

datatype mw_result = Pass "string option" | Abort nat string

definition auth_Middleware :: "Manager \<Rightarrow> string \<Rightarrow> string \<Rightarrow> mw_result" where
  "auth_Middleware m path authz =
     (if path = ''/healthz'' \<or> path = ''/readyz'' \<or> path = ''/metrics'' then Pass None
      else if \<not> mgr_Enabled m then Pass None
      else if authz = '''' then Abort 401 ''missing Authorization header''
      else case split_token (TrimPrefix authz ''Bearer '') of
        None \<Rightarrow> Abort 401 ''malformed Authorization header (expected 'name:secret')''
      | Some t \<Rightarrow>
          if \<not> mgr_Validate (tok_Name t) (tok_Secret t) m then Abort 401 ''invalid credentials''
          else Pass (Some (tok_Name t)))"

text \<open>The lines of a token file that \<^verbatim>\<open>ReadTokensFile\<close> scans (opening and scanning are parameters).\<close>

fun read_lines :: "string list \<Rightarrow> Token list \<Rightarrow> auth_error + Token list" where
  "read_lines [] tokens = Inr tokens"
| "read_lines (l # ls) tokens =
     (let line = TrimSpace l
      in if line = '''' \<or> take 1 line = ''#'' then read_lines ls tokens
         else case split_token line of
           None \<Rightarrow> Inl (MalformedEntry line)
         | Some t \<Rightarrow> read_lines ls (tokens @ [t]))"

text \<open>\<open>open_file\<close> is what opening and scanning the file yields: its lines and whether scanning ended without
  an error, or \<open>None\<close>.\<close>

definition ReadTokensFile :: "(string \<Rightarrow> (string list \<times> bool) option) \<Rightarrow> string \<Rightarrow> auth_error + Token list" where
  "ReadTokensFile open_file path =
     (case open_file path of
        None \<Rightarrow> Inl TokensFileError
      | Some (ls, ok) \<Rightarrow>
          (case read_lines ls [] of
             Inl e \<Rightarrow> Inl e
           | Inr tokens \<Rightarrow> if ok then Inr tokens else Inl TokensFileError))"

section \<open>Tokens and their printed form\<close>

lemma IndexByte_None: "IndexByte s c = None \<longleftrightarrow> c \<notin> set s"
  by (induction s) auto

lemma IndexByte_Some: "IndexByte s c = Some i \<longleftrightarrow> i < length s \<and> s ! i = c \<and> c \<notin> set (take i s)"
proof (induction s arbitrary: i)
  case (Cons x xs)
  then show ?case by (cases i) auto
qed simp

text \<open>Splitting inverts printing: exactly the strings \<open>name:secret\<close> with two non-empty parts and
  no colon in the name are accepted.\<close>

lemma split_token_Some:
  "split_token s = Some t \<longleftrightarrow> s = tok_Name t @ '':'' @ tok_Secret t \<and> tok_Name t \<noteq> '''' \<and> tok_Secret t \<noteq> ''''
     \<and> CHR '':'' \<notin> set (tok_Name t)"
proof
  assume "split_token s = Some t"
  then obtain i where i: "IndexByte s (CHR '':'') = Some i" "i \<noteq> 0" "i < length s - 1"
      "t = \<lparr>tok_Name = take i s, tok_Secret = drop (i + 1) s\<rparr>"
    by (auto simp: split_token_def split: option.splits if_splits)
  then have "s ! i = CHR '':''" "CHR '':'' \<notin> set (take i s)" "i < length s" by (auto simp: IndexByte_Some)
  with i id_take_nth_drop [of i s] show "s = tok_Name t @ '':'' @ tok_Secret t \<and> tok_Name t \<noteq> '''' \<and> tok_Secret t \<noteq> ''''
     \<and> CHR '':'' \<notin> set (tok_Name t)" by auto
next
  assume a: "s = tok_Name t @ '':'' @ tok_Secret t \<and> tok_Name t \<noteq> '''' \<and> tok_Secret t \<noteq> '''' \<and> CHR '':'' \<notin> set (tok_Name t)"
  then have "IndexByte s (CHR '':'') = Some (length (tok_Name t))"
    by (auto simp: IndexByte_Some nth_append)
  with a show "split_token s = Some t" by (cases t) (auto simp: split_token_def)
qed

section \<open>Loading the configuration\<close>

lemma gm_len_pos: "0 < gm_len m \<longleftrightarrow> m \<noteq> []"
  by (cases m) (auto simp: gm_len_conv_keys card_gt_0_iff finite_dom_map_of simp del: map_of.simps simp: map_of_eq_empty_iff)

lemma mgr_Enabled_set: "mgr_Enabled (mgr_set ts m) \<longleftrightarrow> ts \<noteq> []"
proof (cases ts rule: rev_cases)
  case (snoc us t)
  have "map_of (mgr_tokens (mgr_set ts m)) (tok_Name t) = Some t" by (simp add: mgr_set_def snoc)
  then have "mgr_tokens (mgr_set ts m) \<noteq> []" by auto
  then show ?thesis by (simp add: mgr_Enabled_def gm_len_pos snoc)
qed (simp add: mgr_set_def mgr_Enabled_def gm_len_pos)

definition print_token :: "Token \<Rightarrow> string" where
  "print_token t = tok_Name t @ '':'' @ tok_Secret t"

fun join_comma :: "string list \<Rightarrow> string" where
  "join_comma [] = ''''"
| "join_comma [s] = s"
| "join_comma (s # ss) = s @ '','' @ join_comma ss"

text \<open>A token that the configuration variable can carry.\<close>

definition printable_token :: "Token \<Rightarrow> bool" where
  "printable_token t \<longleftrightarrow> tok_Name t \<noteq> '''' \<and> tok_Secret t \<noteq> '''' \<and> CHR '':'' \<notin> set (tok_Name t)
     \<and> CHR '','' \<notin> set (print_token t) \<and> TrimSpace (print_token t) = print_token t"

lemma Split_no_sep: "c \<notin> set s \<Longrightarrow> Split s c = [s]"
  by (induction s) auto

lemma Split_append_sep: "c \<notin> set s \<Longrightarrow> Split (s @ c # r) c = s # Split r c"
  by (induction s) auto

lemma Split_join_comma: "ss \<noteq> [] \<Longrightarrow> \<forall>s \<in> set ss. CHR '','' \<notin> set s \<Longrightarrow> Split (join_comma ss) (CHR '','') = ss"
  by (induction ss rule: join_comma.induct) (auto simp: Split_no_sep Split_append_sep)

lemma split_print_token: "printable_token t \<Longrightarrow> split_token (print_token t) = Some t"
  by (simp add: split_token_Some printable_token_def print_token_def)

lemma parse_entries_print:
  "\<forall>t \<in> set ts. printable_token t \<Longrightarrow> parse_entries (map print_token ts) acc = Inr (acc @ ts)"
proof (induction ts arbitrary: acc)
  case (Cons t ts)
  then have "split_token (print_token t) = Some t" by (simp add: split_print_token)
  moreover from Cons have "TrimSpace (print_token t) = print_token t" by (simp add: printable_token_def)
  moreover have "print_token t \<noteq> ''''" by (simp add: print_token_def)
  ultimately
  show ?case using Cons by simp
qed simp

lemma join_print_nonempty: "ts \<noteq> [] \<Longrightarrow> join_comma (map print_token ts) \<noteq> ''''"
  by (cases ts; cases "tl ts") (auto simp: print_token_def)

lemma map_of_mgr_set:
  "distinct (map tok_Name ts) \<Longrightarrow> t \<in> set ts \<Longrightarrow> map_of (mgr_tokens (mgr_set ts m)) (tok_Name t) = Some t"
proof -
  have "map_of (fold (\<lambda>t r. gm_set r (tok_Name t) t) ts r) k =
      (case find (\<lambda>t. tok_Name t = k) (rev ts) of None \<Rightarrow> map_of r k | Some t \<Rightarrow> Some t)" for r k
    by (induction ts arbitrary: r rule: rev_induct) auto
  moreover assume "distinct (map tok_Name ts)" "t \<in> set ts"
  then have "find (\<lambda>u. tok_Name u = tok_Name t) (rev ts) = Some t"
    by (induction ts rule: rev_induct) (auto simp: image_iff)
  ultimately show ?thesis by (simp add: mgr_set_def)
qed

lemma NewManager_print:
  assumes "ts \<noteq> []" "\<forall>t \<in> set ts. printable_token t"
  shows "NewManager file '''' (join_comma (map print_token ts)) = Inr (mgr_set ts \<lparr>mgr_tokens = []\<rparr>)"
proof -
  have "Split (join_comma (map print_token ts)) (CHR '','') = map print_token ts"
    using assms by (intro Split_join_comma) (auto simp: printable_token_def)
  with assms show ?thesis
    by (simp add: NewManager_def mgr_load_def join_print_nonempty parse_entries_print)
qed

section \<open>Properties\<close>

text \<open>C24: the middleware lets a request pass exactly if its path is one of the three public ones,
  or no tokens are configured, or its Authorization header (with or without the prefix Bearer) is
  \<open>name:secret\<close> for a non-empty name without a colon and the non-empty secret stored under it;
  every other request is aborted with status 401, and the token name passed on is the one checked.\<close>

theorem auth_Middleware_correct:
  "(case auth_Middleware m path authz of
      Pass r \<Rightarrow>
        (if path \<in> {''/healthz'', ''/readyz'', ''/metrics''} then r = None
         else if \<not> mgr_Enabled m then r = None
         else \<exists>name secret. r = Some name \<and> TrimPrefix authz ''Bearer '' = name @ '':'' @ secret \<and> name \<noteq> '''' \<and> secret \<noteq> ''''
            \<and> CHR '':'' \<notin> set name \<and> map_option tok_Secret (map_of (mgr_tokens m) name) = Some secret)
    | Abort status msg \<Rightarrow> status = 401 \<and> mgr_Enabled m \<and> path \<notin> {''/healthz'', ''/readyz'', ''/metrics''}
        \<and> (\<nexists>name secret. TrimPrefix authz ''Bearer '' = name @ '':'' @ secret \<and> name \<noteq> '''' \<and> secret \<noteq> ''''
            \<and> CHR '':'' \<notin> set name \<and> map_option tok_Secret (map_of (mgr_tokens m) name) = Some secret))"
proof -
  let ?s = "TrimPrefix authz ''Bearer ''"
  have split: "split_token ?s = Some \<lparr>tok_Name = n, tok_Secret = s\<rparr>
      \<longleftrightarrow> ?s = n @ '':'' @ s \<and> n \<noteq> '''' \<and> s \<noteq> '''' \<and> CHR '':'' \<notin> set n" for n s
    using split_token_Some [of ?s "\<lparr>tok_Name = n, tok_Secret = s\<rparr>"] by simp
  have val: "mgr_Validate n s m \<longleftrightarrow> map_option tok_Secret (map_of (mgr_tokens m) n) = Some s" for n s
    by (auto simp: mgr_Validate_def split: option.splits)
  consider (public) "path \<in> {''/healthz'', ''/readyz'', ''/metrics''} \<or> \<not> mgr_Enabled m"
    | (missing) "\<not> (path \<in> {''/healthz'', ''/readyz'', ''/metrics''} \<or> \<not> mgr_Enabled m)" "authz = ''''"
    | (checked) "\<not> (path \<in> {''/healthz'', ''/readyz'', ''/metrics''} \<or> \<not> mgr_Enabled m)" "authz \<noteq> ''''" by blast
  then show ?thesis
  proof cases
    case public
    then show ?thesis by (auto simp: auth_Middleware_def)
  next
    case missing
    then show ?thesis by (auto simp: auth_Middleware_def TrimPrefix_def)
  next
    case checked
    show ?thesis
    proof (cases "split_token ?s")
      case None
      then have "\<nexists>n s. ?s = n @ '':'' @ s \<and> n \<noteq> '''' \<and> s \<noteq> '''' \<and> CHR '':'' \<notin> set n"
        using split by force
      with checked None show ?thesis by (auto simp: auth_Middleware_def)
    next
      case (Some t)
      have cred: "(?s = n @ '':'' @ s \<and> n \<noteq> '''' \<and> s \<noteq> '''' \<and> CHR '':'' \<notin> set n
            \<and> map_option tok_Secret (map_of (mgr_tokens m) n) = Some s)
          \<longleftrightarrow> n = tok_Name t \<and> s = tok_Secret t \<and> mgr_Validate n s m" for n s
        using split [of n s] Some by (cases t) (auto simp: val)
      show ?thesis unfolding cred using checked Some by (simp add: auth_Middleware_def)
    qed
  qed
qed

text \<open>Authentication fails closed. A configured server (either variable set) either refuses to
  start or starts with authentication enabled; an unconfigured one starts with it disabled.\<close>

theorem auth_fails_closed:
  "(case NewManager file path raw of
      Inl e \<Rightarrow> \<not> (path = '''' \<and> raw = '''')
    | Inr m \<Rightarrow> mgr_Enabled m \<longleftrightarrow> \<not> (path = '''' \<and> raw = ''''))"
  by (auto simp: NewManager_def mgr_load_def mgr_Enabled_set mgr_Enabled_def [of "\<lparr>mgr_tokens = []\<rparr>"] gm_len_pos
      split: option.splits sum.splits if_splits)

text \<open>C35: the tokens printed into the configuration variable are the credentials the server accepts:
  after loading the comma-separated list of distinct printable tokens, every one of them
  authenticates a request to a protected path under its own name.\<close>

theorem auth_config_roundtrip:
  assumes "ts \<noteq> []" and "\<forall>t \<in> set ts. printable_token t" and "distinct (map tok_Name ts)"
    and "path \<notin> {''/healthz'', ''/readyz'', ''/metrics''}" and "t \<in> set ts"
  shows "\<exists>m. NewManager file '''' (join_comma (map print_token ts)) = Inr m
           \<and> auth_Middleware m path (''Bearer '' @ print_token t) = Pass (Some (tok_Name t))"
proof (intro exI conjI)
  let ?m = "mgr_set ts \<lparr>mgr_tokens = []\<rparr>"
  show "NewManager file '''' (join_comma (map print_token ts)) = Inr ?m"
    using assms by (simp add: NewManager_print)
  have "split_token (print_token t) = Some t" using assms by (simp add: split_print_token)
  moreover have "mgr_Validate (tok_Name t) (tok_Secret t) ?m"
    using assms by (simp add: mgr_Validate_def map_of_mgr_set)
  ultimately show "auth_Middleware ?m path (''Bearer '' @ print_token t) = Pass (Some (tok_Name t))"
    using assms by (simp add: auth_Middleware_def mgr_Enabled_set TrimPrefix_def)
qed

theorem auth_config_roundtrip_witness:
  "\<exists>m. NewManager (\<lambda>p. None) '''' ''admin:s3cret,bot:b0ttoken'' = Inr m
     \<and> auth_Middleware m ''/ws'' ''Bearer bot:b0ttoken'' = Pass (Some ''bot'')"
proof -
  let ?a = "\<lparr>tok_Name = ''admin'', tok_Secret = ''s3cret''\<rparr>"
  let ?b = "\<lparr>tok_Name = ''bot'', tok_Secret = ''b0ttoken''\<rparr>"
  have "printable_token ?a" "printable_token ?b" by code_simp+
  then show ?thesis
    using auth_config_roundtrip [of "[?a, ?b]" "''/ws''" ?b "\<lambda>p. None"] by (simp add: print_token_def)
qed

end
