(* ===== verification/Gateway_Limits.thy ===== *)
theory Gateway_Limits
  imports Complex_Main Gateway_Auth
begin

text \<open>
  \<^verbatim>\<open>gateway/ratelimit.go\<close>: a token bucket per client address. The clock is an argument of the
  operations that read it, in nanoseconds, as \<^verbatim>\<open>time.Now\<close> and \<^verbatim>\<open>Sub\<close> count; the \<^verbatim>\<open>float64\<close> numbers
  of tokens are real numbers (rounding is not modelled). The goroutine that evicts idle buckets is
  the operation \<open>rl_gc\<close>, one per tick of its ticker, and may run between any two requests.
\<close>

section \<open>Buckets\<close>

record bucket =
  b_tokens :: real
  b_last :: int

record rateLimiter =
  rl_buckets :: "(string, bucket) gomap"
  rl_rate :: real
  rl_burst :: real

definition newRateLimiter :: "real \<Rightarrow> real \<Rightarrow> rateLimiter" where
  "newRateLimiter rate burst = \<lparr>rl_buckets = [], rl_rate = rate, rl_burst = burst\<rparr>"

text \<open>\<^verbatim>\<open>Duration.Seconds\<close> of a duration in nanoseconds.\<close>

definition Seconds :: "int \<Rightarrow> real" where
  "Seconds d = of_int d / 1000000000"

definition hour :: int where
  "hour = 3600 * 1000000000"

definition rl_gc :: "int \<Rightarrow> rateLimiter \<Rightarrow> rateLimiter" where
  "rl_gc now rl =
     (let cutoff = now - hour
      in rl\<lparr>rl_buckets := gm_fold (\<lambda>k b m. if b_last b < cutoff then gm_del m k else m) (rl_buckets rl) (rl_buckets rl)\<rparr>)"

definition rl_allow :: "int \<Rightarrow> string \<Rightarrow> rateLimiter \<Rightarrow> bool \<times> rateLimiter" where
  "rl_allow now key rl =
     (let b = (case map_of (rl_buckets rl) key of
                 None \<Rightarrow> \<lparr>b_tokens = rl_burst rl, b_last = now\<rparr>
               | Some b \<Rightarrow> b);
          elapsed = Seconds (now - b_last b);
          filled = b_tokens b + elapsed * rl_rate rl;
          tokens = (if filled > rl_burst rl then rl_burst rl else filled);
          put = (\<lambda>n. rl\<lparr>rl_buckets := gm_set (rl_buckets rl) key \<lparr>b_tokens = n, b_last = now\<rparr>\<rparr>)
      in if tokens < 1 then (False, put tokens) else (True, put (tokens - 1)))"

definition RateLimitMiddleware :: "int \<Rightarrow> string \<Rightarrow> string \<Rightarrow> rateLimiter \<Rightarrow> mw_result \<times> rateLimiter" where
  "RateLimitMiddleware now path client_ip rl =
     (if path = ''/healthz'' \<or> path = ''/readyz'' \<or> path = ''/metrics'' \<or> path = ''/ws'' then (Pass None, rl)
      else let ip = (if client_ip = '''' then ''unknown'' else client_ip)
           in case rl_allow now ip rl of
                (ok, rl') \<Rightarrow> (if ok then Pass None else Abort 429 ''rate limit exceeded'', rl'))"

section \<open>The level of a bucket\<close>

text \<open>
  What a bucket amounts to at a time: the tokens a request arriving then would find. An address
  without a bucket has a full one.
\<close>

definition rl_level :: "int \<Rightarrow> string \<Rightarrow> rateLimiter \<Rightarrow> real" where
  "rl_level now key rl =
     (case map_of (rl_buckets rl) key of
        None \<Rightarrow> rl_burst rl
      | Some b \<Rightarrow> min (rl_burst rl) (b_tokens b + Seconds (now - b_last b) * rl_rate rl))"

text \<open>No bucket holds a debt and none was touched in the future.\<close>

definition rl_ok :: "int \<Rightarrow> rateLimiter \<Rightarrow> bool" where
  "rl_ok now rl \<longleftrightarrow> 0 \<le> rl_rate rl \<and> 0 \<le> rl_burst rl
     \<and> (\<forall>k b. map_of (rl_buckets rl) k = Some b \<longrightarrow> 0 \<le> b_tokens b \<and> b_last b \<le> now)"

lemma Seconds_nonneg [simp]: "0 \<le> d \<Longrightarrow> 0 \<le> Seconds d"
  by (simp add: Seconds_def)

lemma Seconds_add: "Seconds (a - c) = Seconds (a - b) + Seconds (b - c)"
  by (simp add: Seconds_def field_simps)

lemma Seconds_zero [simp]: "Seconds 0 = 0"
  by (simp add: Seconds_def)

lemma rl_allow_config [simp]:
  "rl_rate (snd (rl_allow now key rl)) = rl_rate rl" "rl_burst (snd (rl_allow now key rl)) = rl_burst rl"
  by (auto simp: rl_allow_def Let_def)

lemma rl_allow_other: "j \<noteq> key \<Longrightarrow> map_of (rl_buckets (snd (rl_allow now key rl))) j = map_of (rl_buckets rl) j"
  by (auto simp: rl_allow_def Let_def)

lemma rl_gc_config [simp]: "rl_rate (rl_gc now rl) = rl_rate rl" "rl_burst (rl_gc now rl) = rl_burst rl"
  by (auto simp: rl_gc_def Let_def)

lemma rl_level_le_burst: "rl_level now key rl \<le> rl_burst rl"
  by (simp add: rl_level_def split: option.splits)

lemma rl_ok_later: "rl_ok t rl \<Longrightarrow> t \<le> t' \<Longrightarrow> rl_ok t' rl"
  by (force simp: rl_ok_def)

lemma rl_level_nonneg: "rl_ok now rl \<Longrightarrow> 0 \<le> rl_level now key rl"
  by (force simp: rl_level_def rl_ok_def split: option.splits)

lemma rl_level_later:
  assumes "rl_ok t rl" "t \<le> t'"
  shows "rl_level t' key rl \<le> rl_level t key rl + Seconds (t' - t) * rl_rate rl"
proof -
  have "0 \<le> Seconds (t' - t) * rl_rate rl" using assms by (simp add: rl_ok_def)
  then have "min (rl_burst rl) (n + Seconds (t' - l) * rl_rate rl)
      \<le> min (rl_burst rl) (n + Seconds (t - l) * rl_rate rl) + Seconds (t' - t) * rl_rate rl" for n l
    unfolding Seconds_add [of t' l t] distrib_right by (auto simp: min_def)
  with \<open>0 \<le> Seconds (t' - t) * rl_rate rl\<close> show ?thesis by (simp add: rl_level_def split: option.splits)
qed

text \<open>A request is let through exactly if the level is at least one token, and then costs one; no
  other address is affected.\<close>

lemma rl_allow_eq:
  "rl_allow now key rl =
     (let n = rl_level now key rl
      in (1 \<le> n, rl\<lparr>rl_buckets := gm_set (rl_buckets rl) key
           \<lparr>b_tokens = (if 1 \<le> n then n - 1 else n), b_last = now\<rparr>\<rparr>))"
proof -
  define b where "b = (case map_of (rl_buckets rl) key of
      None \<Rightarrow> \<lparr>b_tokens = rl_burst rl, b_last = now\<rparr> | Some b \<Rightarrow> b)"
  let ?f = "b_tokens b + Seconds (now - b_last b) * rl_rate rl"
  have "rl_level now key rl = (if rl_burst rl < ?f then rl_burst rl else ?f)"
    by (simp add: rl_level_def b_def min_def split: option.splits)
  then show ?thesis
    unfolding rl_allow_def Let_def b_def [symmetric] by (simp only: not_less [symmetric] if_not_P if_P split: if_split) simp
qed

lemma rl_allow_iff: "fst (rl_allow now key rl) \<longleftrightarrow> 1 \<le> rl_level now key rl"
  by (simp add: rl_allow_eq Let_def)

lemma rl_allow_level:
  assumes "rl_allow now key rl = (ok, rl')"
  shows "ok \<longleftrightarrow> 1 \<le> rl_level now key rl"
    and "rl_level now key rl' = rl_level now key rl - (if ok then 1 else 0)"
    and "j \<noteq> key \<Longrightarrow> rl_level t j rl' = rl_level t j rl"
proof -
  let ?n = "rl_level now key rl"
  have eq: "ok = (1 \<le> ?n)" "rl' = rl\<lparr>rl_buckets := gm_set (rl_buckets rl) key
      \<lparr>b_tokens = (if 1 \<le> ?n then ?n - 1 else ?n), b_last = now\<rparr>\<rparr>"
    using assms by (auto simp: rl_allow_eq Let_def)
  show "ok \<longleftrightarrow> 1 \<le> ?n" by (rule eq)
  have "?n \<le> rl_burst rl" by (rule rl_level_le_burst)
  then show "rl_level now key rl' = ?n - (if ok then 1 else 0)"
    unfolding eq rl_level_def [of now key "rl\<lparr>rl_buckets := _\<rparr>"] by simp
  show "j \<noteq> key \<Longrightarrow> rl_level t j rl' = rl_level t j rl"
    using rl_allow_other [of j key now rl] rl_allow_config [of now key rl] assms by (simp add: rl_level_def split: option.splits)
qed

lemma rl_allow_ok:
  assumes "rl_allow now key rl = (ok, rl')" "rl_ok now rl"
  shows "rl_ok now rl'"
proof -
  have "0 \<le> rl_level now key rl" using assms by (simp add: rl_level_nonneg)
  with assms show ?thesis
    by (auto simp: rl_allow_def rl_level_def rl_ok_def Let_def split: option.splits if_splits)
qed

lemma map_of_rl_gc:
  "map_of (rl_buckets (rl_gc now rl)) k =
     (case map_of (rl_buckets rl) k of None \<Rightarrow> None | Some b \<Rightarrow> if b_last b < now - hour then None else Some b)"
proof -
  let ?m = "rl_buckets rl"
  have "map_of (gm_fold (\<lambda>k b m. if b_last b < now - hour then gm_del m k else m) ?m ?m) k =
      (case map_of ?m k of None \<Rightarrow> map_of ?m k | Some b \<Rightarrow> if b_last b < now - hour then None else map_of ?m k)"
    by (rule gm_fold_pointwise [where look = map_of]) auto
  then show ?thesis by (simp add: rl_gc_def Let_def split: option.splits)
qed

lemma rl_gc_ok: "rl_ok now rl \<Longrightarrow> rl_ok now (rl_gc now rl)"
  by (auto simp: rl_ok_def map_of_rl_gc split: option.splits if_splits)

text \<open>Evicting a bucket that an hour refills completely changes no level.\<close>

lemma rl_gc_level:
  assumes ok: "rl_ok now rl" and refill: "rl_burst rl \<le> 3600 * rl_rate rl"
  shows "rl_level now key (rl_gc now rl) = rl_level now key rl"
proof (cases "map_of (rl_buckets rl) key")
  case (Some b)
  show ?thesis
  proof (cases "b_last b < now - hour")
    case True
    have "3600 * rl_rate rl \<le> Seconds (now - b_last b) * rl_rate rl"
      using True ok by (intro mult_right_mono) (auto simp: Seconds_def hour_def rl_ok_def field_simps)
    moreover have "0 \<le> b_tokens b" using ok Some by (auto simp: rl_ok_def)
    ultimately show ?thesis using True Some refill by (simp add: rl_level_def map_of_rl_gc)
  qed (simp add: rl_level_def map_of_rl_gc Some)
qed (simp add: rl_level_def map_of_rl_gc)

section \<open>Runs of the limiter\<close>

text \<open>The requests and evictions in the order in which they take the mutex, with the time read.\<close>

datatype rl_op = Request int string | Evict int

fun op_time :: "rl_op \<Rightarrow> int" where
  "op_time (Request t k) = t"
| "op_time (Evict t) = t"

text \<open>The number of requests of an address that a run lets through, and the limiter after it.\<close>

fun rl_run :: "string \<Rightarrow> rl_op list \<Rightarrow> rateLimiter \<Rightarrow> nat \<times> rateLimiter" where
  "rl_run key [] rl = (0, rl)"
| "rl_run key (Request t k # ops) rl =
     (case rl_allow t k rl of
        (ok, rl') \<Rightarrow> map_prod (\<lambda>n. if ok \<and> k = key then Suc n else n) id (rl_run key ops rl'))"
| "rl_run key (Evict t # ops) rl = rl_run key ops (rl_gc t rl)"

text \<open>Times that never go back (the monotonic clock), from a start to an end.\<close>

fun in_time :: "int \<Rightarrow> rl_op list \<Rightarrow> int \<Rightarrow> bool" where
  "in_time start [] stop \<longleftrightarrow> start \<le> stop"
| "in_time start (x # ops) stop \<longleftrightarrow> start \<le> op_time x \<and> in_time (op_time x) ops stop"

lemma in_time_le: "in_time start ops stop \<Longrightarrow> start \<le> stop"
  by (induction ops arbitrary: start) force+

text \<open>
  A bucket that is evicted has been idle for an hour, and its address has a full one afterwards. If
  an hour does not refill a bucket, that is as if it had been refilled at the higher rate
  \<open>burst / 3600\<close>. The levels at that rate bound what is let through.
\<close>

definition evict_rate :: "rateLimiter \<Rightarrow> real" where
  "evict_rate rl = max (rl_rate rl) (rl_burst rl / 3600)"

definition rl_credit :: "int \<Rightarrow> string \<Rightarrow> rateLimiter \<Rightarrow> real" where
  "rl_credit now key rl = rl_level now key (rl\<lparr>rl_rate := evict_rate rl\<rparr>)"

lemma rl_ok_evict_rate: "rl_ok now rl \<Longrightarrow> rl_ok now (rl\<lparr>rl_rate := evict_rate rl\<rparr>)"
  by (auto simp: rl_ok_def evict_rate_def)

lemma rl_credit_later:
  "rl_ok t rl \<Longrightarrow> t \<le> t' \<Longrightarrow> rl_credit t' key rl \<le> rl_credit t key rl + Seconds (t' - t) * evict_rate rl"
  unfolding rl_credit_def using rl_level_later [OF rl_ok_evict_rate, of t rl t' key] by simp

lemma rl_credit_nonneg: "rl_ok now rl \<Longrightarrow> 0 \<le> rl_credit now key rl"
  unfolding rl_credit_def by (intro rl_level_nonneg rl_ok_evict_rate)

lemma rl_credit_le_burst: "rl_credit now key rl \<le> rl_burst rl"
  unfolding rl_credit_def using rl_level_le_burst [of now key "rl\<lparr>rl_rate := evict_rate rl\<rparr>"] by simp

lemma rl_credit_gc: "rl_ok now rl \<Longrightarrow> rl_credit now key (rl_gc now rl) = rl_credit now key rl"
proof -
  assume ok: "rl_ok now rl"
  have "(rl_gc now rl)\<lparr>rl_rate := evict_rate (rl_gc now rl)\<rparr> = rl_gc now (rl\<lparr>rl_rate := evict_rate rl\<rparr>)"
    by (simp add: rl_gc_def Let_def evict_rate_def)
  then show ?thesis
    unfolding rl_credit_def using rl_gc_level [OF rl_ok_evict_rate [OF ok], of key]
    by (simp add: evict_rate_def max_def field_simps)
qed

lemma rl_level_le_credit:
  assumes "rl_ok now rl"
  shows "rl_level now key rl \<le> rl_credit now key rl"
proof (cases "map_of (rl_buckets rl) key")
  case (Some b)
  then have "Seconds (now - b_last b) * rl_rate rl \<le> Seconds (now - b_last b) * evict_rate rl"
    using assms by (intro mult_left_mono) (auto simp: rl_ok_def evict_rate_def)
  then show ?thesis using Some by (simp add: rl_credit_def rl_level_def)
qed (simp add: rl_credit_def rl_level_def)

lemma rl_credit_allow:
  assumes ok: "rl_ok now rl" and a: "rl_allow now k rl = (adm, rl')"
  shows "rl_credit now key rl' + (if adm \<and> k = key then 1 else 0) \<le> rl_credit now key rl"
proof -
  have cfg: "rl_rate rl' = rl_rate rl" "rl_burst rl' = rl_burst rl" using rl_allow_config [of now k rl] a by auto
  then have er: "evict_rate rl' = evict_rate rl" by (simp add: evict_rate_def)
  show ?thesis
  proof (cases "k = key")
    case True
    let ?n = "rl_level now key rl"
    have rl': "rl' = rl\<lparr>rl_buckets := gm_set (rl_buckets rl) key
        \<lparr>b_tokens = (if 1 \<le> ?n then ?n - 1 else ?n), b_last = now\<rparr>\<rparr>" "adm = (1 \<le> ?n)"
      using a True by (auto simp: rl_allow_eq Let_def)
    have "rl_credit now key rl' \<le> ?n - (if adm then 1 else 0)"
      using rl_level_le_burst [of now key rl] by (simp add: rl_credit_def rl_level_def [of now key "_\<lparr>rl_rate := _\<rparr>"] rl')
    then show ?thesis using rl_level_le_credit [OF ok, of key] True by (auto split: if_splits)
  next
    case False
    then show ?thesis
      using rl_allow_other [of key k now rl] a cfg by (simp add: rl_credit_def rl_level_def er split: option.splits)
  qed
qed

lemma rl_run_credit:
  assumes "rl_ok start rl" "in_time start ops stop"
  shows "real (fst (rl_run key ops rl)) + rl_credit stop key (snd (rl_run key ops rl))
           \<le> rl_credit start key rl + Seconds (stop - start) * evict_rate rl"
  using assms
proof (induction key ops rl arbitrary: start rule: rl_run.induct)
  case (1 key rl)
  then show ?case by (simp add: rl_credit_later)
next
  case (2 key t k ops rl)
  obtain adm rl' where a: "rl_allow t k rl = (adm, rl')" by fastforce
  have er: "evict_rate rl' = evict_rate rl" using rl_allow_config [of t k rl] a by (simp add: evict_rate_def)
  have t: "start \<le> t" "in_time t ops stop" "rl_ok t rl" using 2 rl_ok_later by auto
  have "rl_credit t key rl \<le> rl_credit start key rl + Seconds (t - start) * evict_rate rl"
    using 2 t by (simp add: rl_credit_later)
  moreover have "real (fst (rl_run key ops rl')) + rl_credit stop key (snd (rl_run key ops rl'))
      \<le> rl_credit t key rl' + Seconds (stop - t) * evict_rate rl"
    using 2 t a er rl_allow_ok [OF a] by fastforce
  ultimately show ?case
    using rl_credit_allow [OF t(3) a, of key]
    by (cases "rl_run key ops rl'") (auto simp: a Seconds_add [of stop start t] distrib_right split: if_splits)
next
  case (3 key t ops rl)
  have er: "evict_rate (rl_gc t rl) = evict_rate rl" by (simp add: evict_rate_def)
  have t: "start \<le> t" "in_time t ops stop" "rl_ok t rl" using 3 rl_ok_later by auto
  have "rl_credit t key rl \<le> rl_credit start key rl + Seconds (t - start) * evict_rate rl"
    using 3 t by (simp add: rl_credit_later)
  moreover have "real (fst (rl_run key ops (rl_gc t rl))) + rl_credit stop key (snd (rl_run key ops (rl_gc t rl)))
      \<le> rl_credit t key rl + Seconds (stop - t) * evict_rate rl"
    using "3.IH" [OF rl_gc_ok [OF t(3)] t(2)] er rl_credit_gc [OF t(3), of key] by simp
  ultimately show ?case by (simp add: Seconds_add [of stop start t] distrib_right)
qed

lemma rl_run_ok:
  "rl_ok start rl \<Longrightarrow> in_time start ops stop \<Longrightarrow> rl_ok stop (snd (rl_run key ops rl))
     \<and> rl_rate (snd (rl_run key ops rl)) = rl_rate rl \<and> rl_burst (snd (rl_run key ops rl)) = rl_burst rl"
proof (induction key ops rl arbitrary: start rule: rl_run.induct)
  case (1 key rl)
  then show ?case by (simp add: rl_ok_later)
next
  case (2 key t k ops rl)
  obtain ok rl' where a: "rl_allow t k rl = (ok, rl')" by fastforce
  then show ?case using 2 rl_allow_ok [OF a] rl_ok_later rl_allow_config [of t k rl] by fastforce
next
  case (3 key t ops rl)
  then show ?case using rl_gc_ok rl_ok_later by fastforce
qed

text \<open>An address without requests since a time: its bucket is gone or was last touched by then.\<close>

definition idle_since :: "int \<Rightarrow> string \<Rightarrow> rateLimiter \<Rightarrow> bool" where
  "idle_since t key rl \<longleftrightarrow>
     (\<forall>b. map_of (rl_buckets rl) key = Some b \<longrightarrow> 0 \<le> b_tokens b \<and> b_last b \<le> t)"

lemma rl_run_append: "snd (rl_run key (xs @ ys) rl) = snd (rl_run key ys (snd (rl_run key xs rl)))"
  by (induction key xs rl rule: rl_run.induct) (auto split: prod.splits)

lemma rl_run_snd_Cons:
  "snd (rl_run key (x # ops) rl) =
     snd (rl_run key ops (case x of Request t k \<Rightarrow> snd (rl_allow t k rl) | Evict t \<Rightarrow> rl_gc t rl))"
  by (cases x) (auto split: prod.splits)

lemma idle_since_run:
  assumes "\<forall>x \<in> set rest. \<forall>u. x \<noteq> Request u key" "idle_since t key rl"
  shows "idle_since t key (snd (rl_run key rest rl))
     \<and> rl_rate (snd (rl_run key rest rl)) = rl_rate rl \<and> rl_burst (snd (rl_run key rest rl)) = rl_burst rl"
  using assms
proof (induction rest arbitrary: rl)
  case (Cons x rest)
  let ?rl = "case x of Request t k \<Rightarrow> snd (rl_allow t k rl) | Evict t \<Rightarrow> rl_gc t rl"
  have "idle_since t key ?rl"
  proof (cases x)
    case (Request u k)
    then have "k \<noteq> key" using Cons.prems by auto
    then show ?thesis using Cons.prems Request rl_allow_other [of key k u rl] by (simp add: idle_since_def)
  next
    case (Evict u)
    then show ?thesis
      using Cons.prems by (auto simp: idle_since_def map_of_rl_gc split: option.splits if_splits)
  qed
  moreover have "rl_rate ?rl = rl_rate rl" "rl_burst ?rl = rl_burst rl" by (simp_all split: rl_op.splits)
  ultimately show ?case using Cons.IH [of ?rl] Cons.prems by (simp add: rl_run_snd_Cons del: rl_run.simps)
qed simp

lemma idle_since_level:
  assumes "idle_since t key rl" "0 < rl_rate rl" "1 \<le> rl_burst rl" "1 \<le> rl_rate rl * Seconds (now - t)"
  shows "1 \<le> rl_level now key rl"
proof (cases "map_of (rl_buckets rl) key")
  case (Some b)
  then have b: "0 \<le> b_tokens b" "b_last b \<le> t" using assms by (auto simp: idle_since_def)
  then have "Seconds (now - t) \<le> Seconds (now - b_last b)" by (simp add: Seconds_def divide_right_mono)
  then have "rl_rate rl * Seconds (now - t) \<le> Seconds (now - b_last b) * rl_rate rl"
    using assms by (subst mult.commute) (intro mult_right_mono, auto)
  with assms b have "1 \<le> b_tokens b + Seconds (now - b_last b) * rl_rate rl" by linarith
  then show ?thesis using assms Some by (simp add: rl_level_def)
qed (use assms in \<open>simp add: rl_level_def\<close>)

section \<open>Properties\<close>

text \<open>C25: the rate limit holds over every window. In any run of requests of any addresses,
  interleaved with evictions of idle buckets, whose times never go back, the requests of one
  address that are let through in the part of the run between two times number at most the burst
  plus the rate times the length of the window, where the rate is the configured one or
  \<open>burst / 3600\<close> per second, whichever is larger. With a burst of at most \<open>3600 * rate\<close> it is the
  configured rate; above it, an eviction after an hour hands out a full bucket that the configured
  rate would not have filled.\<close>

theorem ratelimit_window_bound:
  assumes "0 \<le> rate" and "0 \<le> burst"
    and "in_time start before t" and "in_time t window stop"
  shows "real (fst (rl_run key window (snd (rl_run key before (newRateLimiter rate burst)))))
           \<le> burst + max rate (burst / 3600) * Seconds (stop - t)"
proof -
  let ?rl = "snd (rl_run key before (newRateLimiter rate burst))"
  have ok: "rl_ok start (newRateLimiter rate burst)" using assms by (simp add: rl_ok_def newRateLimiter_def)
  have mid: "rl_ok t ?rl" "rl_rate ?rl = rate" "rl_burst ?rl = burst"
    using rl_run_ok [OF ok assms(3)] by (auto simp: newRateLimiter_def)
  have "0 \<le> rl_credit stop key (snd (rl_run key window ?rl))"
    using rl_run_ok [OF mid(1) assms(4)] rl_credit_nonneg by blast
  moreover have "rl_credit t key ?rl \<le> burst" using rl_credit_le_burst mid by metis
  ultimately show ?thesis
    using rl_run_credit [OF mid(1) assms(4), of key] mid by (simp add: evict_rate_def mult.commute)
qed

theorem ratelimit_window_bound_witness:
  "real (fst (rl_run ''a'' [Request 1 ''a'', Request 2 ''a'', Request 3 ''b'', Request 4 ''a'']
       (snd (rl_run ''a'' [Request 0 ''a'', Evict 1] (newRateLimiter 10 2))))) \<le> 2 + 10 * Seconds (5 - 1)"
proof -
  have "max 10 (2 / 3600 :: real) = 10" by simp
  then show ?thesis
    using ratelimit_window_bound [of 10 2 0 "[Request 0 ''a'', Evict 1]" 1
        "[Request 1 ''a'', Request 2 ''a'', Request 3 ''b'', Request 4 ''a'']" 5 "''a''"] by simp
qed

text \<open>With a burst above \<open>3600 * rate\<close> the configured rate alone is no bound: at one request in ten
  thousand seconds and a burst of two, four requests are let through within an hour and a second,
  because the bucket was evicted in between.\<close>

theorem eviction_refills_bucket:
  "fst (rl_run ''a'' [Request 0 ''a'', Request 0 ''a'', Evict (hour + 1000000000), Request (hour + 1000000000) ''a'',
      Request (hour + 1000000000) ''a''] (newRateLimiter (1 / 10000) 2)) = 4
   \<and> 2 + (1 / 10000) * Seconds (hour + 1000000000) < 3"
  by (simp add: rl_allow_def newRateLimiter_def Let_def rl_gc_def gm_fold_def hour_def Seconds_def
      gm_set_def gm_del_def gm_range_def)

text \<open>C26: the limiter starves nobody. With a positive rate and a burst of at least one token, a
  request is let through whenever its address made no request for as long as one token takes:
  after any run up to a time, followed by requests of other addresses and evictions only.\<close>

theorem ratelimit_serves_paced_client:
  assumes "0 < rate" and "1 \<le> burst" and "in_time start ops t"
    and "\<forall>x \<in> set rest. \<forall>u. x \<noteq> Request u key" and "1 \<le> rate * Seconds (now - t)"
  shows "fst (rl_allow now key (snd (rl_run key (ops @ rest) (newRateLimiter rate burst))))"
proof -
  let ?rl = "snd (rl_run key ops (newRateLimiter rate burst))"
  have "rl_ok start (newRateLimiter rate burst)" using assms by (simp add: rl_ok_def newRateLimiter_def)
  from rl_run_ok [OF this assms(3)] have "rl_ok t ?rl" "rl_rate ?rl = rate" "rl_burst ?rl = burst"
    by (auto simp: newRateLimiter_def)
  then have "rl_rate (snd (rl_run key rest ?rl)) = rate" "rl_burst (snd (rl_run key rest ?rl)) = burst"
      "idle_since t key (snd (rl_run key rest ?rl))"
    using idle_since_run [OF assms(4), of t ?rl] by (auto simp: rl_ok_def idle_since_def)
  then have "1 \<le> rl_level now key (snd (rl_run key rest ?rl))"
    using assms idle_since_level [of t key "snd (rl_run key rest ?rl)" now] by simp
  then show ?thesis by (simp add: rl_run_append rl_allow_iff)
qed

theorem ratelimit_serves_paced_client_witness:
  "fst (rl_allow 1000000000 ''a'' (snd (rl_run ''a'' ([Request 0 ''a''] @ [Request 1 ''b'', Evict 2]) (newRateLimiter 1 1))))"
  by (rule ratelimit_serves_paced_client [where start = 0 and t = 0]) (simp_all add: Seconds_def)

end
