(* ===== verification/Gateway_Hub.thy ===== *)
theory Gateway_Hub
  imports Event_Bus Gateway_Auth
begin

text \<open>
  \<^verbatim>\<open>gateway/websocket.go\<close>: the hub that copies the events of a bus into the send buffers of the
  WebSocket clients, and the lifecycle of its fan-out goroutine.

  Channels, clients and buses are objects with identities: channels that only signal are numbers
  whose closing is recorded in \<open>hw_closed\<close>; a client's buffered channel is the list \<open>cl_send\<close>; buses
  are stored by address. The goroutines are steps: \<open>hw_runs\<close> holds the live fan-out goroutines by
  the done channel that each closes on exit, with the bus and the subscription that it has read
  and waits on (\<open>None\<close> at the top of its loop). Calls of \<^verbatim>\<open>stop\<close>, \<^verbatim>\<open>reconnect\<close> and \<^verbatim>\<open>start\<close> may overlap:
  \<open>hw_stops\<close> has the goroutines in \<^verbatim>\<open>stop\<close>, each with the bus it will reconnect to afterwards, if any;
  \<open>hw_swaps\<close> those in \<^verbatim>\<open>reconnect\<close> that have left \<^verbatim>\<open>stop\<close> and wait for the lock; and \<open>hw_starts\<close> is the
  number of those in \<^verbatim>\<open>start\<close>. A send on a closed channel panics: in the fan-out goroutine
  \<open>hw_fanout_panicked\<close> records it, in the history replay of a client \<open>cl_replayPanicked\<close>; closing a
  closed channel panics too, which \<open>hw_double_close\<close> records.
  Each client has a connection, of which only whether it is closed is kept, with the goroutines that read it,
  write to it and ping it; deadlines and frames are not modelled. The JSON encoder is a parameter that yields the text of an event, or \<open>None\<close> when it fails.
\<close>

section \<open>Origins\<close>

definition buildOriginSet :: "string list \<Rightarrow> (string, unit) gomap" where
  "buildOriginSet origins =
     fold (\<lambda>x s. let x = TrimSpace x in if x = '''' then s else gm_set s x ()) origins []"

text \<open>The function \<^verbatim>\<open>CheckOrigin\<close> of the upgrader that \<^verbatim>\<open>newUpgrader\<close> returns, on the Origin header
  (empty when there is none).\<close>

definition CheckOrigin :: "string list \<Rightarrow> string \<Rightarrow> bool" where
  "CheckOrigin allowedOrigins origin =
     (let allow = buildOriginSet allowedOrigins
      in if origin = '''' then length allowedOrigins = 0
         else map_of allow origin \<noteq> None)"

definition EnvAllowedOrigins :: "string \<Rightarrow> string list" where
  "EnvAllowedOrigins env =
     (let v = TrimSpace env
      in if v = '''' then []
         else fold (\<lambda>p out. let p = TrimSpace p in if p \<noteq> '''' then out @ [p] else out) (Split v (CHR '','')) [])"

section \<open>Client identifiers\<close>

definition hexDigits :: string where
  "hexDigits = ''0123456789abcdef''"

definition encodeHex :: "8 word list \<Rightarrow> string" where
  "encodeHex b = concat (map (\<lambda>v. [hexDigits ! unat (drop_bit 4 v), hexDigits ! unat (and v 0x0f)]) b)"

text \<open>\<open>now\<close> is the time in nanoseconds, converted to 64 bits.\<close>

definition uuidString :: "u64 \<Rightarrow> string" where
  "uuidString now = encodeHex (map (\<lambda>i. ucast (and (drop_bit (i * 8) now) 0xFF)) [0 ..< 8])"

section \<open>The hub\<close>

definition WSClientSendBuffer :: nat where
  "WSClientSendBuffer = 256"

record 'd client =
  cl_send :: "string list"
  cl_closed :: bool
  cl_id :: string
  cl_replay :: "'d Event list option"
  cl_replayPanicked :: bool
  cl_connClosed :: bool
  cl_pingStop :: bool
  cl_ping :: bool
  cl_pump :: bool
  cl_written :: "string list"

record WSHub =
  hub_clients :: "(nat, bool) gomap"
  hub_bus :: nat
  hub_sub :: "nat option"
  hub_drops :: u64
  hub_allowed :: "string list"
  hub_runCancel :: "nat option"
  hub_runDone :: "nat option"
  hub_connected :: nat
  hub_sent :: nat
  hub_dropped :: nat

text \<open>Where a goroutine in \<^verbatim>\<open>stop\<close> is: with the cancel channel it has read under the lock; and, having found
  that channel open, about to close it. When \<^verbatim>\<open>reconnect\<close> is the caller, the bus it was given.\<close>

datatype stop_pc = StopCheck (stop_chan: nat) (stop_then: "nat option") | StopClose (stop_chan: nat) (stop_then: "nat option")

record 'd hub_world =
  hw_hub :: WSHub
  hw_buses :: "nat \<Rightarrow> 'd EventBus"
  hw_clients :: "(nat, 'd client) gomap"
  hw_closed :: "(nat, bool) gomap"
  hw_runs :: "(nat, (nat \<times> nat) option) gomap"
  hw_stops :: "stop_pc list"
  hw_swaps :: "nat list"
  hw_starts :: nat
  hw_fanout_panicked :: bool
  hw_double_close :: bool
  hw_next :: nat

definition hw_is_closed :: "'d hub_world \<Rightarrow> nat \<Rightarrow> bool" where
  "hw_is_closed w ch = gm_get False (hw_closed w) ch"

definition upd_bus :: "nat \<Rightarrow> ('d EventBus \<Rightarrow> 'd EventBus) \<Rightarrow> 'd hub_world \<Rightarrow> 'd hub_world" where
  "upd_bus a f w = w\<lparr>hw_buses := (hw_buses w)(a := f (hw_buses w a))\<rparr>"

text \<open>\<open>fresh\<close> is the first identity not in use.\<close>

definition newWSHub :: "nat \<Rightarrow> (nat \<Rightarrow> 'd EventBus) \<Rightarrow> nat \<Rightarrow> string list \<Rightarrow> 'd hub_world" where
  "newWSHub fresh buses bus allowedOrigins = upd_bus bus (events_Subscribe fresh [])
     \<lparr>hw_hub = \<lparr>hub_clients = [], hub_bus = bus, hub_sub = Some fresh, hub_drops = 0, hub_allowed = allowedOrigins,
        hub_runCancel = None, hub_runDone = None, hub_connected = 0, hub_sent = 0, hub_dropped = 0\<rparr>,
      hw_buses = buses, hw_clients = [], hw_closed = [], hw_runs = [], hw_stops = [], hw_swaps = [],
      hw_starts = 0, hw_fanout_panicked = False, hw_double_close = False, hw_next = fresh + 1\<rparr>"

text \<open>
  \<^verbatim>\<open>start\<close>: the waiting loop ends when there is no previous run or its done channel is closed;
  otherwise (\<open>None\<close>) it waits, for at most two seconds at a time, and checks again.
\<close>

definition hub_spawn_run :: "'d hub_world \<Rightarrow> 'd hub_world" where
  "hub_spawn_run w =
     (let cancel = hw_next w; don = hw_next w + 1
      in w\<lparr>hw_hub := (hw_hub w)\<lparr>hub_runCancel := Some cancel, hub_runDone := Some don\<rparr>,
           hw_runs := gm_set (hw_runs w) don None, hw_next := hw_next w + 2\<rparr>)"

definition hub_start :: "'d hub_world \<Rightarrow> 'd hub_world option" where
  "hub_start w =
     (case hub_runDone (hw_hub w) of
        None \<Rightarrow> Some (hub_spawn_run w)
      | Some d \<Rightarrow>
          if hw_is_closed w d
          then Some (hub_spawn_run (w\<lparr>hw_hub := (hw_hub w)\<lparr>hub_runDone := None, hub_runCancel := None\<rparr>\<rparr>))
          else None)"

definition hub_stop :: "'d hub_world \<Rightarrow> 'd hub_world" where
  "hub_stop w =
     (case hub_runCancel (hw_hub w) of
        None \<Rightarrow> w
      | Some c \<Rightarrow> if hw_is_closed w c then w else w\<lparr>hw_closed := gm_set (hw_closed w) c True\<rparr>)"

text \<open>\<^verbatim>\<open>stop\<close> at the granularity of its accesses to shared state: reading the cancel channel under the lock,
  the select on it, and its closing, which panics when another goroutine has closed it in between. A call that
  returns to \<^verbatim>\<open>reconnect\<close> goes on there.\<close>

definition stop_returns :: "nat option \<Rightarrow> 'd hub_world \<Rightarrow> 'd hub_world" where
  "stop_returns next w = (case next of None \<Rightarrow> w | Some bus \<Rightarrow> w\<lparr>hw_swaps := bus # hw_swaps w\<rparr>)"

definition stop_call :: "nat option \<Rightarrow> 'd hub_world \<Rightarrow> 'd hub_world" where
  "stop_call next w =
     (case hub_runCancel (hw_hub w) of
        None \<Rightarrow> stop_returns next w
      | Some cancel \<Rightarrow> w\<lparr>hw_stops := hw_stops w @ [StopCheck cancel next]\<rparr>)"

fun stop_stage :: "stop_pc \<Rightarrow> 'd hub_world \<Rightarrow> stop_pc list \<times> 'd hub_world" where
  "stop_stage (StopCheck c next) w = (if hw_is_closed w c then ([], stop_returns next w) else ([StopClose c next], w))"
| "stop_stage (StopClose c next) w =
     (if hw_is_closed w c then ([], w\<lparr>hw_double_close := True\<rparr>)
      else ([], stop_returns next (w\<lparr>hw_closed := gm_set (hw_closed w) c True\<rparr>)))"

text \<open>The locked part of \<^verbatim>\<open>reconnect\<close>, with which it enters \<^verbatim>\<open>start\<close>, and \<^verbatim>\<open>reconnect\<close> up to that point when nothing
  comes between its stages.\<close>

definition hub_swap :: "nat \<Rightarrow> 'd hub_world \<Rightarrow> 'd hub_world" where
  "hub_swap bus w =
     (let w = (case hub_sub (hw_hub w) of
                 None \<Rightarrow> w
               | Some ch \<Rightarrow> upd_bus (hub_bus (hw_hub w)) (events_Unsubscribe ch) w);
          ch = hw_next w;
          w = upd_bus bus (events_Subscribe ch []) w
      in w\<lparr>hw_hub := (hw_hub w)\<lparr>hub_bus := bus, hub_sub := Some ch\<rparr>, hw_next := ch + 1, hw_starts := hw_starts w + 1\<rparr>)"

definition hub_reconnect :: "nat \<Rightarrow> 'd hub_world \<Rightarrow> 'd hub_world" where
  "hub_reconnect bus w = hub_swap bus (hub_stop w)"

text \<open>One client of the fan-out: a non-blocking send. \<open>None\<close> is the panic of a send on a closed
  channel.\<close>

definition hub_send :: "string \<Rightarrow> nat \<Rightarrow> WSHub \<times> (nat, 'd client) gomap \<Rightarrow> (WSHub \<times> (nat, 'd client) gomap) option" where
  "hub_send data k hc =
     (case hc of (h, cls) \<Rightarrow>
        (case map_of cls k of
           None \<Rightarrow> None
         | Some c \<Rightarrow>
             if cl_closed c then None
             else if length (cl_send c) < WSClientSendBuffer
             then Some (h\<lparr>hub_sent := hub_sent h + 1\<rparr>, gm_set cls k (c\<lparr>cl_send := cl_send c @ [data]\<rparr>))
             else Some (h\<lparr>hub_drops := hub_drops h + 1, hub_dropped := hub_dropped h + 1\<rparr>, cls)))"

definition hub_fanout :: "string \<Rightarrow> WSHub \<times> (nat, 'd client) gomap \<Rightarrow> (WSHub \<times> (nat, 'd client) gomap) option" where
  "hub_fanout data hc = fold (\<lambda>k r. Option.bind r (hub_send data k)) (gm_keys (hub_clients (fst hc))) (Some hc)"

definition hub_deliver :: "('d Event \<Rightarrow> string option) \<Rightarrow> 'd Event \<Rightarrow> 'd hub_world \<Rightarrow> 'd hub_world" where
  "hub_deliver marshal e w =
     (case marshal e of
        None \<Rightarrow> w
      | Some data \<Rightarrow>
          (case hub_fanout data (hw_hub w, hw_clients w) of
             None \<Rightarrow> w\<lparr>hw_fanout_panicked := True\<rparr>
           | Some (h, cls) \<Rightarrow> w\<lparr>hw_hub := h, hw_clients := cls\<rparr>))"

definition run_cancelled :: "'d hub_world \<Rightarrow> bool" where
  "run_cancelled w = (case hub_runCancel (hw_hub w) of None \<Rightarrow> False | Some c \<Rightarrow> hw_is_closed w c)"

definition run_exit :: "nat \<Rightarrow> 'd hub_world \<Rightarrow> 'd hub_world" where
  "run_exit d w = w\<lparr>hw_runs := gm_del (hw_runs w) d, hw_closed := gm_set (hw_closed w) d True\<rparr>"

text \<open>A new connection (\<^verbatim>\<open>handleWS\<close> up to its goroutines), if the upgrade succeeded, and the
  cleanup of a client whose connection ended.\<close>

definition hub_register :: "bool \<Rightarrow> u64 \<Rightarrow> 'd hub_world \<Rightarrow> 'd hub_world" where
  "hub_register upgraded now w =
     (if \<not> upgraded then w
      else let k = hw_next w;
               cl = \<lparr>cl_send = [], cl_closed = False, cl_id = uuidString now, cl_replay = None, cl_replayPanicked = False,
                 cl_connClosed = False, cl_pingStop = False, cl_ping = True, cl_pump = True, cl_written = []\<rparr>;
               clients = gm_set (hub_clients (hw_hub w)) k True
           in w\<lparr>hw_hub := (hw_hub w)\<lparr>hub_clients := clients, hub_connected := gm_len clients\<rparr>,
                hw_clients := gm_set (hw_clients w) k cl, hw_next := k + 1\<rparr>)"

definition hub_cleanup :: "nat \<Rightarrow> 'd hub_world \<Rightarrow> 'd hub_world" where
  "hub_cleanup k w =
     (case map_of (hw_clients w) k of
        None \<Rightarrow> w
      | Some c \<Rightarrow>
          let clients = gm_del (hub_clients (hw_hub w)) k
          in w\<lparr>hw_hub := (hw_hub w)\<lparr>hub_clients := clients, hub_connected := gm_len clients\<rparr>,
               hw_clients := gm_set (hw_clients w) k (c\<lparr>cl_pingStop := True, cl_connClosed := True, cl_closed := True\<rparr>)\<rparr>)"

text \<open>One round of the read loop, whose end runs the cleanup; what it reads is decoded and logged only.\<close>

definition read_loop :: "bool \<Rightarrow> nat \<Rightarrow> 'd hub_world \<Rightarrow> 'd hub_world" where
  "read_loop err k w = (if err then hub_cleanup k w else w)"

text \<open>The history replay of a client: it reads the history of the hub's bus when it gets to run,
  then sends the events one by one, waiting for room at most two seconds.\<close>

definition replay_start :: "nat \<Rightarrow> 'd hub_world \<Rightarrow> 'd hub_world" where
  "replay_start k w =
     (case map_of (hw_clients w) k of
        None \<Rightarrow> w
      | Some c \<Rightarrow> w\<lparr>hw_clients := gm_set (hw_clients w) k
          (c\<lparr>cl_replay := Some (events_History (hw_buses w (hub_bus (hw_hub w))))\<rparr>)\<rparr>)"

text \<open>\<open>timeout\<close>: the timer of two seconds fires first. A send on the channel that the cleanup has closed
  panics, which the deferred function of the goroutine recovers; either way the replay ends.\<close>

definition replay_next :: "('d Event \<Rightarrow> string option) \<Rightarrow> bool \<Rightarrow> 'd client \<Rightarrow> 'd client" where
  "replay_next marshal timeout c =
     (case cl_replay c of
        Some (e # es) \<Rightarrow>
          (case marshal e of
             None \<Rightarrow> c\<lparr>cl_replay := Some es\<rparr>
           | Some data \<Rightarrow>
               if timeout then c\<lparr>cl_replay := Some []\<rparr>
               else if cl_closed c then c\<lparr>cl_replay := Some [], cl_replayPanicked := True\<rparr>
               else if length (cl_send c) < WSClientSendBuffer
               then c\<lparr>cl_send := cl_send c @ [data], cl_replay := Some es\<rparr>
               else c)
      | _ \<Rightarrow> c)"

text \<open>One round of the write pump, which ends when the channel is closed and empty, or when a write fails: on
  a closed connection, or for a reason of the network (\<open>werr\<close>). \<open>cl_written\<close> is what the socket has taken.\<close>

definition write_pump :: "bool \<Rightarrow> 'd client \<Rightarrow> 'd client" where
  "write_pump werr c =
     (if \<not> cl_pump c then c
      else case cl_send c of
        [] \<Rightarrow> if cl_closed c then c\<lparr>cl_pump := False\<rparr> else c
      | data # rest \<Rightarrow>
          if cl_connClosed c \<or> werr then c\<lparr>cl_send := rest, cl_pump := False\<rparr>
          else c\<lparr>cl_send := rest, cl_written := cl_written c @ [data]\<rparr>)"

text \<open>One round of the ping goroutine: a tick of its timer, or else the closed channel \<^verbatim>\<open>pingStop\<close>.\<close>

definition ping_loop :: "bool \<Rightarrow> bool \<Rightarrow> 'd client \<Rightarrow> 'd client" where
  "ping_loop tick werr c =
     (if \<not> cl_ping c then c
      else if tick then if cl_connClosed c \<or> werr then c\<lparr>cl_ping := False\<rparr> else c
      else if cl_pingStop c then c\<lparr>cl_ping := False\<rparr> else c)"

definition upd_client :: "nat \<Rightarrow> ('d client \<Rightarrow> 'd client) \<Rightarrow> 'd hub_world \<Rightarrow> 'd hub_world" where
  "upd_client k f w =
     (case map_of (hw_clients w) k of
        None \<Rightarrow> w
      | Some c \<Rightarrow> w\<lparr>hw_clients := gm_set (hw_clients w) k (f c)\<rparr>)"

section \<open>The goroutines\<close>

definition hub_closeAllClients :: "'d hub_world \<Rightarrow> 'd hub_world" where
  "hub_closeAllClients w =
     fold (\<lambda>k. upd_client k (\<lambda>c. c\<lparr>cl_connClosed := True\<rparr>)) (gm_keys (hub_clients (hw_hub w))) w"

text \<open>The fan-out goroutine with done channel \<open>d\<close>: one step is what it does between two accesses to shared
  state. A cancelled goroutine that waits in its second select may still take an event. \<open>marshal\<close> is the JSON
  encoder.\<close>

inductive fanout_step :: "('d Event \<Rightarrow> string option) \<Rightarrow> nat \<Rightarrow> 'd hub_world \<Rightarrow> 'd hub_world \<Rightarrow> bool"
  for marshal :: "'d Event \<Rightarrow> string option" and d :: nat where
  top_exit: "map_of (hw_runs w) d = Some None \<Longrightarrow> run_cancelled w \<Longrightarrow> fanout_step marshal d w (run_exit d w)"
| capture: "map_of (hw_runs w) d = Some None \<Longrightarrow> \<not> run_cancelled w \<Longrightarrow> hub_sub (hw_hub w) = Some ch \<Longrightarrow>
    fanout_step marshal d w (w\<lparr>hw_runs := gm_set (hw_runs w) d (Some (hub_bus (hw_hub w), ch))\<rparr>)"
| select_exit: "map_of (hw_runs w) d = Some (Some (a, ch)) \<Longrightarrow> run_cancelled w \<or> events_Done (hw_buses w a) \<Longrightarrow>
    fanout_step marshal d w (run_exit d w)"
| select_event: "map_of (hw_runs w) d = Some (Some (a, ch)) \<Longrightarrow> map_of (eb_chans (hw_buses w a)) ch = Some (e # es) \<Longrightarrow>
    fanout_step marshal d w (hub_deliver marshal e
      (upd_bus a (chan_receive ch) (w\<lparr>hw_runs := gm_set (hw_runs w) d None\<rparr>)))"

text \<open>
  A read fails on a closed connection, and may fail at any time because of the network or the deadline.
  \<^verbatim>\<open>start\<close>, \<^verbatim>\<open>stop\<close> and \<^verbatim>\<open>reconnect\<close> may be called at any time, also while other calls are under way.
\<close>

inductive hub_step :: "('d Event \<Rightarrow> string option) \<Rightarrow> 'd hub_world \<Rightarrow> 'd hub_world \<Rightarrow> bool"
  for marshal :: "'d Event \<Rightarrow> string option" where
  begin_start: "hub_step marshal w (w\<lparr>hw_starts := hw_starts w + 1\<rparr>)"
| begin_stop: "hub_step marshal w (stop_call next w)"
| stop_moves: "hw_stops w = xs @ pc # ys \<Longrightarrow> stop_stage pc w = (r, w') \<Longrightarrow>
    hub_step marshal w (w'\<lparr>hw_stops := xs @ r @ ys\<rparr>)"
| swap: "bus \<in> set (hw_swaps w) \<Longrightarrow> hub_step marshal w (hub_swap bus (w\<lparr>hw_swaps := remove1 bus (hw_swaps w)\<rparr>))"
| started: "0 < hw_starts w \<Longrightarrow> hub_start w = Some w' \<Longrightarrow> hub_step marshal w (w'\<lparr>hw_starts := hw_starts w - 1\<rparr>)"
| fans_out: "fanout_step marshal d w w' \<Longrightarrow> hub_step marshal w w'"
| connect: "hub_step marshal w (hub_register upgraded now w)"
| reads: "map_of (hw_clients w) k = Some c \<Longrightarrow> \<not> cl_closed c \<Longrightarrow> (cl_connClosed c \<longrightarrow> err) \<Longrightarrow>
    hub_step marshal w (read_loop err k w)"
| replay: "map_of (hw_clients w) k = Some c \<Longrightarrow> cl_replay c = None \<Longrightarrow> hub_step marshal w (replay_start k w)"
| replay_event: "hub_step marshal w (upd_client k (replay_next marshal timeout) w)"
| pump: "hub_step marshal w (upd_client k (write_pump werr) w)"
| ping: "hub_step marshal w (upd_client k (ping_loop tick werr) w)"
| close_all: "hub_step marshal w (hub_closeAllClients w)"
| bus_loop: "events_loop (hw_buses w a) b \<Longrightarrow> hub_step marshal w (upd_bus a (\<lambda>_. b) w)"
| bus_publish: "hub_step marshal w (upd_bus a (events_Publish e) w)"
| bus_stop: "hub_step marshal w (upd_bus a events_Stop w)"

definition hub_init :: "'d hub_world \<Rightarrow> bool" where
  "hub_init w \<longleftrightarrow> (\<exists>fresh buses bus allowed. w = newWSHub fresh buses bus allowed)"

text \<open>
  A live fan-out goroutine is the one of the current done channel, which is open; an open done
  channel has a live goroutine. The clients of the hub are open and their buffers bounded.
\<close>

definition run_inv :: "'d hub_world \<Rightarrow> bool" where
  "run_inv w \<longleftrightarrow>
     (\<forall>d. map_of (hw_runs w) d \<noteq> None \<longleftrightarrow> hub_runDone (hw_hub w) = Some d \<and> \<not> hw_is_closed w d)
     \<and> (\<forall>d. map_of (hw_closed w) d \<noteq> None \<or> map_of (hw_runs w) d \<noteq> None \<or> hub_runDone (hw_hub w) = Some d
           \<or> hub_runCancel (hw_hub w) = Some d \<longrightarrow> d < hw_next w)
     \<and> (hub_runDone (hw_hub w) = None \<longleftrightarrow> hub_runCancel (hw_hub w) = None)
     \<and> (\<exists>ch < hw_next w. hub_sub (hw_hub w) = Some ch)
     \<and> (\<forall>c. hub_runCancel (hw_hub w) = Some c \<longrightarrow> hub_runDone (hw_hub w) \<noteq> Some c)
     \<and> (\<forall>pc \<in> set (hw_stops w). stop_chan pc < hw_next w \<and> hub_runDone (hw_hub w) \<noteq> Some (stop_chan pc))"

text \<open>A replay panics only on a channel that the cleanup has closed, and a panic ends it.\<close>

definition client_ok :: "'d client \<Rightarrow> bool" where
  "client_ok c \<longleftrightarrow> length (cl_send c) \<le> WSClientSendBuffer
     \<and> (cl_replayPanicked c \<longrightarrow> cl_closed c \<and> cl_replay c = Some [])"

definition client_inv :: "'d hub_world \<Rightarrow> bool" where
  "client_inv w \<longleftrightarrow> \<not> hw_fanout_panicked w
     \<and> (\<forall>k. map_of (hub_clients (hw_hub w)) k \<noteq> None \<longrightarrow> (\<exists>c. map_of (hw_clients w) k = Some c \<and> \<not> cl_closed c))
     \<and> (\<forall>k c. map_of (hw_clients w) k = Some c \<longrightarrow> client_ok c)"

definition hub_inv :: "'d hub_world \<Rightarrow> bool" where
  "hub_inv w \<longleftrightarrow> run_inv w \<and> client_inv w"

subsection \<open>What the fan-out does\<close>

lemma hub_sends:
  assumes "distinct ks" "\<forall>k \<in> set ks. \<exists>c. map_of cls k = Some c \<and> \<not> cl_closed c"
  shows "\<exists>h' cls'. fold (\<lambda>k r. Option.bind r (hub_send data k)) ks (Some (h, cls)) = Some (h', cls')
    \<and> (\<forall>k. map_of cls' k = (if k \<in> set ks
         then map_option (\<lambda>c. c\<lparr>cl_send := chan_try_send WSClientSendBuffer data (cl_send c)\<rparr>) (map_of cls k)
         else map_of cls k))
    \<and> h' = h\<lparr>hub_sent := hub_sent h + length (filter (\<lambda>k. length (cl_send (the (map_of cls k))) < WSClientSendBuffer) ks),
        hub_drops := hub_drops h + of_nat (length (filter (\<lambda>k. \<not> length (cl_send (the (map_of cls k))) < WSClientSendBuffer) ks)),
        hub_dropped := hub_dropped h + length (filter (\<lambda>k. \<not> length (cl_send (the (map_of cls k))) < WSClientSendBuffer) ks)\<rparr>"
  using assms
proof (induction ks arbitrary: h cls)
  case (Cons k ks)
  obtain c where c: "map_of cls k = Some c" "\<not> cl_closed c" using Cons.prems by auto
  define full where "full \<longleftrightarrow> \<not> length (cl_send c) < WSClientSendBuffer"
  define cls1 where "cls1 = (if full then cls else gm_set cls k (c\<lparr>cl_send := cl_send c @ [data]\<rparr>))"
  define h1 where "h1 = (if full then h\<lparr>hub_drops := hub_drops h + 1, hub_dropped := hub_dropped h + 1\<rparr>
      else h\<lparr>hub_sent := hub_sent h + 1\<rparr>)"
  have one: "hub_send data k (h, cls) = Some (h1, cls1)"
    using c by (simp add: hub_send_def h1_def cls1_def full_def)
  have same: "map_of cls1 j = map_of cls j" if "j \<in> set ks" for j
    using that Cons.prems by (auto simp: cls1_def)
  have flt: "filter (\<lambda>k. P (cl_send (the (map_of cls1 k)))) ks = filter (\<lambda>k. P (cl_send (the (map_of cls k)))) ks" for P
    by (rule filter_cong) (auto simp: same)
  have at_k: "map_of cls1 k = Some (c\<lparr>cl_send := chan_try_send WSClientSendBuffer data (cl_send c)\<rparr>)"
    using c by (auto simp: cls1_def chan_try_send_def full_def)
  have other: "map_of cls1 j = map_of cls j" if "j \<noteq> k" for j using that by (simp add: cls1_def)
  have "distinct ks" "\<forall>k \<in> set ks. \<exists>c. map_of cls1 k = Some c \<and> \<not> cl_closed c"
    using Cons.prems same by auto
  from Cons.IH [OF this, of h1] obtain h' cls' where
    r: "fold (\<lambda>k r. Option.bind r (hub_send data k)) ks (Some (h1, cls1)) = Some (h', cls')" and
    cl: "\<And>j. map_of cls' j = (if j \<in> set ks
         then map_option (\<lambda>c. c\<lparr>cl_send := chan_try_send WSClientSendBuffer data (cl_send c)\<rparr>) (map_of cls1 j)
         else map_of cls1 j)" and
    h': "h' = h1\<lparr>hub_sent := hub_sent h1 + length (filter (\<lambda>k. length (cl_send (the (map_of cls k))) < WSClientSendBuffer) ks),
        hub_drops := hub_drops h1 + of_nat (length (filter (\<lambda>k. \<not> length (cl_send (the (map_of cls k))) < WSClientSendBuffer) ks)),
        hub_dropped := hub_dropped h1 + length (filter (\<lambda>k. \<not> length (cl_send (the (map_of cls k))) < WSClientSendBuffer) ks)\<rparr>"
    using flt [of "\<lambda>s. length s < WSClientSendBuffer"] flt [of "\<lambda>s. \<not> length s < WSClientSendBuffer"] by auto
  have "map_of cls' j = (if j \<in> set (k # ks)
         then map_option (\<lambda>c. c\<lparr>cl_send := chan_try_send WSClientSendBuffer data (cl_send c)\<rparr>) (map_of cls j)
         else map_of cls j)" for j
    using cl [of j] at_k c other [of j] Cons.prems by (cases "j = k") auto
  moreover have "h' = h\<lparr>hub_sent := hub_sent h + length (filter (\<lambda>k. length (cl_send (the (map_of cls k))) < WSClientSendBuffer) (k # ks)),
        hub_drops := hub_drops h + of_nat (length (filter (\<lambda>k. \<not> length (cl_send (the (map_of cls k))) < WSClientSendBuffer) (k # ks))),
        hub_dropped := hub_dropped h + length (filter (\<lambda>k. \<not> length (cl_send (the (map_of cls k))) < WSClientSendBuffer) (k # ks))\<rparr>"
    unfolding h' using c by (simp add: h1_def full_def)
  ultimately show ?case using r one by auto
qed simp

subsection \<open>The invariant\<close>

lemma upd_bus_simps [simp]:
  "hw_hub (upd_bus a f w) = hw_hub w" "hw_clients (upd_bus a f w) = hw_clients w" "hw_closed (upd_bus a f w) = hw_closed w"
  "hw_runs (upd_bus a f w) = hw_runs w" "hw_starts (upd_bus a f w) = hw_starts w"
  "hw_swaps (upd_bus a f w) = hw_swaps w"
  "hw_fanout_panicked (upd_bus a f w) = hw_fanout_panicked w" "hw_stops (upd_bus a f w) = hw_stops w" "hw_next (upd_bus a f w) = hw_next w"
  by (simp_all add: upd_bus_def)

lemma upd_client_simps [simp]:
  "hw_hub (upd_client k f w) = hw_hub w" "hw_closed (upd_client k f w) = hw_closed w"
  "hw_runs (upd_client k f w) = hw_runs w" "hw_fanout_panicked (upd_client k f w) = hw_fanout_panicked w" "hw_stops (upd_client k f w) = hw_stops w"
  "hw_swaps (upd_client k f w) = hw_swaps w" "hw_starts (upd_client k f w) = hw_starts w" "hw_next (upd_client k f w) = hw_next w"
  by (simp_all add: upd_client_def split: option.splits)

lemma run_inv_mono:
  assumes "run_inv w" "\<And>d. map_of (hw_runs w') d = None \<longleftrightarrow> map_of (hw_runs w) d = None" "hw_closed w' = hw_closed w"
    "hub_runDone (hw_hub w') = hub_runDone (hw_hub w)" "hub_runCancel (hw_hub w') = hub_runCancel (hw_hub w)"
    "\<exists>ch < hw_next w'. hub_sub (hw_hub w') = Some ch" "hw_next w \<le> hw_next w'" "hw_stops w' = hw_stops w"
  shows "run_inv w'"
  using assms unfolding run_inv_def hw_is_closed_def by (auto intro: less_le_trans)

lemma client_invI:
  assumes "\<not> hw_fanout_panicked w"
    "\<And>k. map_of (hub_clients (hw_hub w)) k \<noteq> None \<Longrightarrow> \<exists>c. map_of (hw_clients w) k = Some c \<and> \<not> cl_closed c"
    "\<And>k c. map_of (hw_clients w) k = Some c \<Longrightarrow> client_ok c"
  shows "client_inv w"
  using assms unfolding client_inv_def by blast

lemma client_inv_open:
  "client_inv w \<Longrightarrow> map_of (hub_clients (hw_hub w)) k \<noteq> None \<Longrightarrow> \<exists>c. map_of (hw_clients w) k = Some c \<and> \<not> cl_closed c"
  unfolding client_inv_def by blast

lemma client_inv_bound:
  "client_inv w \<Longrightarrow> map_of (hw_clients w) k = Some c \<Longrightarrow> client_ok c"
  unfolding client_inv_def by blast

lemma client_inv_mono:
  assumes "client_inv w" "hub_clients (hw_hub w') = hub_clients (hw_hub w)" "hw_clients w' = hw_clients w"
    "hw_fanout_panicked w' = hw_fanout_panicked w"
  shows "client_inv w'"
  using assms unfolding client_inv_def by simp

lemma client_inv_upd:
  assumes "client_inv w" "\<And>c. cl_closed (f c) = cl_closed c"
    "\<And>c. map_of (hw_clients w) k = Some c \<Longrightarrow> client_ok c \<Longrightarrow> client_ok (f c)"
  shows "client_inv (upd_client k f w)"
  using assms unfolding client_inv_def by (force simp: upd_client_def split: option.splits)

lemma hub_fanout_ok:
  assumes "client_inv w"
  obtains h cls where "hub_fanout data (hw_hub w, hw_clients w) = Some (h, cls)"
    "hub_clients h = hub_clients (hw_hub w)" "hub_runDone h = hub_runDone (hw_hub w)"
    "hub_runCancel h = hub_runCancel (hw_hub w)" "hub_sub h = hub_sub (hw_hub w)"
    "\<And>k. map_of cls k = (if map_of (hub_clients (hw_hub w)) k \<noteq> None
         then map_option (\<lambda>c. c\<lparr>cl_send := chan_try_send WSClientSendBuffer data (cl_send c)\<rparr>) (map_of (hw_clients w) k)
         else map_of (hw_clients w) k)"
proof -
  have "\<forall>k \<in> set (gm_keys (hub_clients (hw_hub w))). \<exists>c. map_of (hw_clients w) k = Some c \<and> \<not> cl_closed c"
    using assms by (auto simp: client_inv_def)
  from hub_sends [OF distinct_gm_keys this, of data "hw_hub w"] that show ?thesis
    by (auto simp: hub_fanout_def domIff)
qed

lemma hub_deliver_inv:
  assumes "run_inv w" "client_inv w"
  shows "run_inv (hub_deliver marshal e w)" "client_inv (hub_deliver marshal e w)"
proof -
  have "run_inv (hub_deliver marshal e w) \<and> client_inv (hub_deliver marshal e w)"
  proof (cases "marshal e")
    case None
    with assms show ?thesis by (simp add: hub_deliver_def)
  next
    case (Some data)
    obtain h cls where
      f: "hub_fanout data (hw_hub w, hw_clients w) = Some (h, cls)" and
      h: "hub_clients h = hub_clients (hw_hub w)" "hub_runDone h = hub_runDone (hw_hub w)"
        "hub_runCancel h = hub_runCancel (hw_hub w)" "hub_sub h = hub_sub (hw_hub w)" and
      cls: "\<And>k. map_of cls k = (if map_of (hub_clients (hw_hub w)) k \<noteq> None
         then map_option (\<lambda>c. c\<lparr>cl_send := chan_try_send WSClientSendBuffer data (cl_send c)\<rparr>) (map_of (hw_clients w) k)
         else map_of (hw_clients w) k)"
      by (rule hub_fanout_ok [OF assms(2), of data]) (rule that; assumption)
    have "client_inv (w\<lparr>hw_hub := h, hw_clients := cls\<rparr>)"
    proof (rule client_invI)
      show "\<not> hw_fanout_panicked (w\<lparr>hw_hub := h, hw_clients := cls\<rparr>)" using assms by (simp add: client_inv_def)
    next
      fix k
      assume "map_of (hub_clients (hw_hub (w\<lparr>hw_hub := h, hw_clients := cls\<rparr>))) k \<noteq> None"
      then show "\<exists>c. map_of (hw_clients (w\<lparr>hw_hub := h, hw_clients := cls\<rparr>)) k = Some c \<and> \<not> cl_closed c"
        using client_inv_open [OF assms(2), of k] cls [of k] h by auto
    next
      fix k c
      assume "map_of (hw_clients (w\<lparr>hw_hub := h, hw_clients := cls\<rparr>)) k = Some c"
      then obtain c0 where "map_of (hw_clients w) k = Some c0"
          "c = c0 \<or> c = c0\<lparr>cl_send := chan_try_send WSClientSendBuffer data (cl_send c0)\<rparr>"
        using cls [of k] by (auto split: if_splits)
      with client_inv_bound [OF assms(2)] show "client_ok c" by (auto simp: client_ok_def chan_try_send_def)
    qed
    moreover have "run_inv (w\<lparr>hw_hub := h, hw_clients := cls\<rparr>)"
      using assms(1) by (rule run_inv_mono) (use assms(1) in \<open>auto simp: h run_inv_def\<close>)
    ultimately show ?thesis by (simp add: hub_deliver_def Some f)
  qed
  then show "run_inv (hub_deliver marshal e w)" "client_inv (hub_deliver marshal e w)" by auto
qed

lemma hub_stop_inv: "run_inv w \<Longrightarrow> run_inv (hub_stop w)"
  unfolding run_inv_def hub_stop_def hw_is_closed_def by (auto split: option.splits if_splits)

lemma hub_stop_simps [simp]:
  "hw_hub (hub_stop w) = hw_hub w" "hw_clients (hub_stop w) = hw_clients w" "hw_runs (hub_stop w) = hw_runs w"
  "hw_fanout_panicked (hub_stop w) = hw_fanout_panicked w" "hw_next (hub_stop w) = hw_next w" "hw_buses (hub_stop w) = hw_buses w"
  "hw_starts (hub_stop w) = hw_starts w" "hw_stops (hub_stop w) = hw_stops w" "hw_swaps (hub_stop w) = hw_swaps w"
  by (simp_all add: hub_stop_def split: option.splits)

lemma stop_returns_simps [simp]:
  "hw_hub (stop_returns next w) = hw_hub w" "hw_clients (stop_returns next w) = hw_clients w"
  "hw_runs (stop_returns next w) = hw_runs w" "hw_fanout_panicked (stop_returns next w) = hw_fanout_panicked w"
  "hw_next (stop_returns next w) = hw_next w" "hw_closed (stop_returns next w) = hw_closed w"
  "hw_stops (stop_returns next w) = hw_stops w" "hw_buses (stop_returns next w) = hw_buses w"
  by (simp_all add: stop_returns_def split: option.splits)

lemma stop_call_simps [simp]:
  "hw_hub (stop_call next w) = hw_hub w" "hw_clients (stop_call next w) = hw_clients w"
  "hw_runs (stop_call next w) = hw_runs w" "hw_fanout_panicked (stop_call next w) = hw_fanout_panicked w"
  "hw_next (stop_call next w) = hw_next w" "hw_closed (stop_call next w) = hw_closed w" "hw_buses (stop_call next w) = hw_buses w"
  by (simp_all add: stop_call_def split: option.splits)

lemma hub_swap_simps [simp]:
  "hw_clients (hub_swap bus w) = hw_clients w" "hw_runs (hub_swap bus w) = hw_runs w"
  "hw_fanout_panicked (hub_swap bus w) = hw_fanout_panicked w" "hw_closed (hub_swap bus w) = hw_closed w"
  "hub_clients (hw_hub (hub_swap bus w)) = hub_clients (hw_hub w)"
  "hub_runDone (hw_hub (hub_swap bus w)) = hub_runDone (hw_hub w)"
  "hub_runCancel (hw_hub (hub_swap bus w)) = hub_runCancel (hw_hub w)"
  "hub_sub (hw_hub (hub_swap bus w)) = Some (hw_next w)" "hub_bus (hw_hub (hub_swap bus w)) = bus"
  "hw_next (hub_swap bus w) = hw_next w + 1" "hw_stops (hub_swap bus w) = hw_stops w"
  "hw_starts (hub_swap bus w) = hw_starts w + 1" "hw_swaps (hub_swap bus w) = hw_swaps w"
  by (simp_all add: hub_swap_def Let_def split: option.splits)

lemma hub_reconnect_simps [simp]:
  "hw_clients (hub_reconnect bus w) = hw_clients w" "hw_runs (hub_reconnect bus w) = hw_runs w"
  "hw_closed (hub_reconnect bus w) = hw_closed (hub_stop w)"
  "hub_clients (hw_hub (hub_reconnect bus w)) = hub_clients (hw_hub w)"
  "hub_sub (hw_hub (hub_reconnect bus w)) = Some (hw_next w)" "hub_bus (hw_hub (hub_reconnect bus w)) = bus"
  "hub_runCancel (hw_hub (hub_reconnect bus w)) = hub_runCancel (hw_hub w)" "hw_next (hub_reconnect bus w) = hw_next w + 1"
  "hw_starts (hub_reconnect bus w) = hw_starts w + 1"
  by (simp_all add: hub_reconnect_def)

lemma run_exit_inv: "run_inv w \<Longrightarrow> map_of (hw_runs w) d \<noteq> None \<Longrightarrow> run_inv (run_exit d w)"
  unfolding run_inv_def run_exit_def hw_is_closed_def by auto

lemma hub_start_simps:
  assumes "hub_start w = Some w'"
  shows "hub_runDone (hw_hub w') = Some (hw_next w + 1)" "hub_runCancel (hw_hub w') = Some (hw_next w)"
    "hw_runs w' = gm_set (hw_runs w) (hw_next w + 1) None" "hw_next w' = hw_next w + 2" "hw_closed w' = hw_closed w"
    "hub_sub (hw_hub w') = hub_sub (hw_hub w)" "hub_clients (hw_hub w') = hub_clients (hw_hub w)"
    "hw_clients w' = hw_clients w" "hw_fanout_panicked w' = hw_fanout_panicked w" "hw_stops w' = hw_stops w"
  using assms by (auto simp: hub_start_def hub_spawn_run_def Let_def split: option.splits if_splits)

lemma run_inv_D:
  assumes "run_inv w"
  shows "map_of (hw_runs w) d = None \<longleftrightarrow> \<not> (hub_runDone (hw_hub w) = Some d \<and> \<not> hw_is_closed w d)"
    and "map_of (hw_closed w) d \<noteq> None \<Longrightarrow> d < hw_next w"
    and "hub_runCancel (hw_hub w) = None \<longleftrightarrow> hub_runDone (hw_hub w) = None"
    and "\<exists>ch < hw_next w. hub_sub (hw_hub w) = Some ch"
    and "pc \<in> set (hw_stops w) \<Longrightarrow> stop_chan pc < hw_next w"
  using assms unfolding run_inv_def by blast+

text \<open>\<^verbatim>\<open>start\<close> returns exactly when no fan-out goroutine is live.\<close>

lemma hub_start_iff:
  assumes "run_inv w"
  shows "hub_start w = None \<longleftrightarrow> (\<exists>d. map_of (hw_runs w) d \<noteq> None)"
  using run_inv_D(1) [OF assms] by (auto simp: hub_start_def split: option.splits)

lemma hub_start_inv:
  assumes "run_inv w" "hub_start w = Some w'"
  shows "run_inv w'"
proof -
  note new = hub_start_simps [OF assms(2)]
  have none: "map_of (hw_runs w) d = None" for d using hub_start_iff [OF assms(1)] assms(2) by auto
  have "map_of (hw_closed w) (hw_next w + 1) = None"
    using run_inv_D(2) [OF assms(1), of "hw_next w + 1"] by force
  then have "\<not> hw_is_closed w' (hw_next w + 1)" by (simp add: hw_is_closed_def gm_get_def new)
  moreover have "map_of (hw_closed w) d \<noteq> None \<Longrightarrow> d < hw_next w + 2" for d
    using run_inv_D(2) [OF assms(1), of d] by simp
  moreover have "stop_chan pc < hw_next w + 2 \<and> hw_next w + 1 \<noteq> stop_chan pc" if "pc \<in> set (hw_stops w)" for pc
    using run_inv_D(5) [OF assms(1) that] by simp
  ultimately show ?thesis
    using run_inv_D(4) [OF assms(1)] none unfolding run_inv_def new by auto
qed

lemma run_inv_double [simp]: "run_inv (w\<lparr>hw_double_close := b\<rparr>) = run_inv w"
  by (simp add: run_inv_def hw_is_closed_def)

lemma run_inv_returns [simp]: "run_inv (stop_returns next w) = run_inv w"
  by (simp add: run_inv_def hw_is_closed_def)

lemma run_inv_stops:
  assumes "run_inv w" "stop_chan ` set pcs \<subseteq> stop_chan ` set (hw_stops w)"
  shows "run_inv (w\<lparr>hw_stops := pcs\<rparr>)"
proof -
  have "stop_chan pc < hw_next w \<and> hub_runDone (hw_hub w) \<noteq> Some (stop_chan pc)" if "pc \<in> set pcs" for pc
    using assms that unfolding run_inv_def by fastforce
  then show ?thesis using assms(1) unfolding run_inv_def hw_is_closed_def by simp
qed

lemma run_inv_close:
  assumes "run_inv w" "c < hw_next w" "hub_runDone (hw_hub w) \<noteq> Some c"
  shows "run_inv (w\<lparr>hw_closed := gm_set (hw_closed w) c True\<rparr>)"
proof -
  have "\<not> (hub_runDone (hw_hub w) = Some c)" by (rule assms(3))
  then show ?thesis using assms(1,2) unfolding run_inv_def hw_is_closed_def by simp
qed

lemma stop_stage_inv:
  assumes "run_inv w" "hw_stops w = xs @ pc # ys" "stop_stage pc w = (r, w')"
  shows "run_inv (w'\<lparr>hw_stops := xs @ r @ ys\<rparr>)"
proof -
  have c: "stop_chan pc < hw_next w" "hub_runDone (hw_hub w) \<noteq> Some (stop_chan pc)"
    using assms(1,2) unfolding run_inv_def by auto
  have "run_inv w' \<and> hw_stops w' = hw_stops w"
    using assms run_inv_close [OF assms(1) c]
    by (cases pc) (auto split: if_splits)
  moreover have "stop_chan ` set r \<subseteq> {stop_chan pc}" using assms(3) by (cases pc) (auto split: if_splits)
  ultimately show ?thesis
    using run_inv_stops [of w' "xs @ r @ ys"] assms(2) by auto
qed

lemma stop_stage_simps:
  "stop_stage pc w = (r, w') \<Longrightarrow> hw_hub w' = hw_hub w \<and> hw_clients w' = hw_clients w
     \<and> hw_fanout_panicked w' = hw_fanout_panicked w \<and> hw_runs w' = hw_runs w \<and> hw_buses w' = hw_buses w"
  by (cases pc) (auto split: if_splits)

lemma stop_call_inv: "run_inv w \<Longrightarrow> run_inv (stop_call next w)"
  unfolding run_inv_def by (auto simp: stop_call_def stop_returns_def hw_is_closed_def split: option.splits)

lemma hub_register_inv:
  assumes "run_inv w" "client_inv w"
  shows "run_inv (hub_register upgraded now w)" "client_inv (hub_register upgraded now w)"
proof -
  show "run_inv (hub_register upgraded now w)"
    by (rule run_inv_mono [OF assms(1)]) (use run_inv_D(4) [OF assms(1)] in \<open>auto simp: hub_register_def Let_def\<close>)
  show "client_inv (hub_register upgraded now w)"
    using assms(2) unfolding client_inv_def by (simp add: hub_register_def Let_def client_ok_def)
qed

lemma hub_cleanup_inv:
  assumes "run_inv w" "client_inv w"
  shows "run_inv (hub_cleanup k w)" "client_inv (hub_cleanup k w)"
proof -
  show "run_inv (hub_cleanup k w)"
    by (rule run_inv_mono [OF assms(1)])
      (use run_inv_D(4) [OF assms(1)] in \<open>auto simp: hub_cleanup_def Let_def split: option.splits\<close>)
  show "client_inv (hub_cleanup k w)"
    using assms(2) unfolding client_inv_def
    by (auto simp: hub_cleanup_def Let_def client_ok_def split: option.splits)
qed

lemma replay_start_conv:
  "replay_start k w = upd_client k (\<lambda>c. c\<lparr>cl_replay := Some (events_History (hw_buses w (hub_bus (hw_hub w))))\<rparr>) w"
  by (simp add: replay_start_def upd_client_def split: option.splits)

lemma replay_next_simps:
  "cl_closed (replay_next marshal timeout c) = cl_closed c"
  "client_ok c \<Longrightarrow> client_ok (replay_next marshal timeout c)"
  by (auto simp: replay_next_def client_ok_def split: option.splits list.splits)

lemma pump_simps:
  "cl_closed (write_pump werr c) = cl_closed c" "cl_closed (ping_loop tick werr c) = cl_closed c"
  "client_ok c \<Longrightarrow> client_ok (write_pump werr c)" "client_ok c \<Longrightarrow> client_ok (ping_loop tick werr c)"
  by (auto simp: write_pump_def ping_loop_def client_ok_def split: list.splits)

lemma hub_same_inv:
  assumes "run_inv w" "client_inv w" "hw_hub w' = hw_hub w" "hw_runs w' = hw_runs w" "hw_closed w' = hw_closed w"
    "hw_next w' = hw_next w" "hw_clients w' = hw_clients w" "hw_fanout_panicked w' = hw_fanout_panicked w" "hw_stops w' = hw_stops w"
  shows "run_inv w' \<and> client_inv w'"
proof
  show "run_inv w'" by (rule run_inv_mono [OF assms(1)]) (use run_inv_D(4) [OF assms(1)] assms in auto)
  show "client_inv w'" by (rule client_inv_mono [OF assms(2)]) (use assms in auto)
qed

lemma upd_client_inv:
  assumes "run_inv w" "client_inv w" "\<And>c. cl_closed (f c) = cl_closed c"
    "\<And>c. map_of (hw_clients w) k = Some c \<Longrightarrow> client_ok c \<Longrightarrow> client_ok (f c)"
  shows "run_inv (upd_client k f w)" "client_inv (upd_client k f w)"
proof -
  show "run_inv (upd_client k f w)" by (rule run_inv_mono [OF assms(1)]) (use run_inv_D(4) [OF assms(1)] in auto)
  show "client_inv (upd_client k f w)" using assms by (intro client_inv_upd)
qed

lemma hub_closeAll_inv: "hub_inv w \<Longrightarrow> hub_inv (hub_closeAllClients w)"
proof -
  assume inv: "hub_inv w"
  have "hub_inv (upd_client k (\<lambda>c. c\<lparr>cl_connClosed := True\<rparr>) v)" if "hub_inv v" for k and v :: "'a hub_world"
    using that by (auto simp: hub_inv_def client_ok_def intro!: upd_client_inv)
  then have "hub_inv (fold (\<lambda>k. upd_client k (\<lambda>c. c\<lparr>cl_connClosed := True\<rparr>)) ks w)" for ks
    using inv by (induction ks arbitrary: w) auto
  then show ?thesis by (simp add: hub_closeAllClients_def)
qed

lemma hub_swap_inv: "hub_inv w \<Longrightarrow> hub_inv (hub_swap bus w)"
  unfolding hub_inv_def
proof (elim conjE, rule conjI)
  assume "run_inv w" "client_inv w"
  show "run_inv (hub_swap bus w)" by (rule run_inv_mono [OF \<open>run_inv w\<close>]) auto
  show "client_inv (hub_swap bus w)" by (rule client_inv_mono [of w]) (use \<open>client_inv w\<close> in auto)
qed

lemma hub_started_inv:
  assumes "hub_inv w" "hub_start w = Some w'"
  shows "hub_inv (w'\<lparr>hw_starts := n\<rparr>)"
proof -
  have "run_inv w'" using assms hub_start_inv by (auto simp: hub_inv_def)
  moreover have "client_inv w'"
    by (rule client_inv_mono [of w]) (use assms hub_start_simps [OF assms(2)] in \<open>auto simp: hub_inv_def\<close>)
  ultimately show ?thesis unfolding hub_inv_def by (rule hub_same_inv) auto
qed

lemma hub_stopped_inv: "hub_inv w \<Longrightarrow> hub_inv (hub_stop w)"
  using hub_stop_inv [of w] client_inv_mono [of w "hub_stop w"] by (simp add: hub_inv_def)

lemma hub_reconnect_inv: "hub_inv w \<Longrightarrow> hub_inv (hub_reconnect bus w)"
  by (simp add: hub_reconnect_def hub_swap_inv hub_stopped_inv)

lemma hub_exit_inv: "hub_inv w \<Longrightarrow> map_of (hw_runs w) d \<noteq> None \<Longrightarrow> hub_inv (run_exit d w)"
  using run_exit_inv [of w d] client_inv_mono [of w "run_exit d w"] by (simp add: hub_inv_def run_exit_def)

lemma hub_inv_buses [simp]: "hub_inv (w\<lparr>hw_buses := b\<rparr>) = hub_inv w"
  by (simp add: hub_inv_def run_inv_def client_inv_def hw_is_closed_def)

lemma hub_inv_next: "hub_inv w \<Longrightarrow> hw_next w \<le> n \<Longrightarrow> hub_inv (w\<lparr>hw_next := n\<rparr>)"
  unfolding hub_inv_def
proof (elim conjE, rule conjI)
  assume a: "run_inv w" "client_inv w" "hw_next w \<le> n"
  show "run_inv (w\<lparr>hw_next := n\<rparr>)"
    by (rule run_inv_mono [OF a(1)]) (use a(3) run_inv_D(4) [OF a(1)] less_le_trans in auto)
  show "client_inv (w\<lparr>hw_next := n\<rparr>)" by (rule client_inv_mono [OF a(2)]) auto
qed

lemma hub_new_inv: "hub_inv (newWSHub fresh buses bus allowed)"
  by (auto simp: newWSHub_def hub_inv_def run_inv_def client_inv_def hw_is_closed_def)

lemma fanout_step_inv: "fanout_step marshal d w w' \<Longrightarrow> hub_inv w \<Longrightarrow> hub_inv w'"
proof (induction rule: fanout_step.induct)
  case (top_exit w)
  then show ?case by (simp add: hub_exit_inv)
next
  case (capture w ch)
  have "run_inv (w\<lparr>hw_runs := gm_set (hw_runs w) d (Some (hub_bus (hw_hub w), ch))\<rparr>)"
    by (rule run_inv_mono [of w]) (use capture run_inv_D(4) [of w] in \<open>auto simp: hub_inv_def\<close>)
  moreover have "client_inv (w\<lparr>hw_runs := gm_set (hw_runs w) d (Some (hub_bus (hw_hub w), ch))\<rparr>)"
    by (rule client_inv_mono [of w]) (use capture in \<open>auto simp: hub_inv_def\<close>)
  ultimately show ?case by (simp add: hub_inv_def)
next
  case (select_exit w a ch)
  then show ?case by (simp add: hub_exit_inv)
next
  case (select_event w a ch e es)
  let ?w = "upd_bus a (chan_receive ch) (w\<lparr>hw_runs := gm_set (hw_runs w) d None\<rparr>)"
  have "run_inv ?w" by (rule run_inv_mono [of w ?w]) (use select_event run_inv_D(4) [of w] in \<open>auto simp: hub_inv_def\<close>)
  moreover have "client_inv ?w" by (rule client_inv_mono [of w ?w]) (use select_event in \<open>auto simp: hub_inv_def\<close>)
  ultimately show ?case by (simp add: hub_deliver_inv hub_inv_def)
qed

interpretation hub: transition_system hub_init "hub_step marshal" hub_inv
proof unfold_locales
  show "hub_init w \<Longrightarrow> hub_inv w" for w :: "'a hub_world"
    by (auto simp: hub_init_def hub_new_inv)
  show "hub_step marshal w w' \<Longrightarrow> hub_inv w \<Longrightarrow> hub_inv w'" for w w' :: "'a hub_world"
  proof (induction rule: hub_step.induct)
    case (begin_stop w "next")
    have "client_inv (stop_call next w)" by (rule client_inv_mono [of w]) (use begin_stop in \<open>auto simp: hub_inv_def\<close>)
    with begin_stop show ?case by (simp add: hub_inv_def stop_call_inv)
  next
    case (stop_moves w xs pc ys r w')
    have "client_inv (w'\<lparr>hw_stops := xs @ r @ ys\<rparr>)"
      by (rule client_inv_mono [of w]) (use stop_moves stop_stage_simps [OF stop_moves(2)] in \<open>auto simp: hub_inv_def\<close>)
    with stop_moves stop_stage_inv show ?case unfolding hub_inv_def by blast
  next
    case (swap bus w)
    have "hub_inv (w\<lparr>hw_swaps := remove1 bus (hw_swaps w)\<rparr>)"
      using swap unfolding hub_inv_def by (elim conjE) (rule hub_same_inv; simp)
    then show ?case by (rule hub_swap_inv)
  next
    case (started w w')
    then show ?case by (auto intro: hub_started_inv)
  next
    case (fans_out d w w')
    then show ?case by (auto intro: fanout_step_inv)
  next
    case (connect w upgraded now)
    then show ?case by (simp add: hub_register_inv hub_inv_def)
  next
    case (reads w k c err)
    then show ?case by (simp add: read_loop_def hub_cleanup_inv hub_inv_def)
  next
    case (replay w k c)
    then show ?case unfolding replay_start_conv hub_inv_def by (auto intro!: upd_client_inv simp: client_ok_def)
  next
    case (replay_event w k timeout)
    then show ?case unfolding hub_inv_def by (auto intro: upd_client_inv simp: replay_next_simps)
  next
    case (pump w k werr)
    then show ?case unfolding hub_inv_def by (auto intro: upd_client_inv simp: pump_simps)
  next
    case (ping w k tick werr)
    then show ?case unfolding hub_inv_def by (auto intro: upd_client_inv simp: pump_simps)
  next
    case (close_all w)
    then show ?case by (rule hub_closeAll_inv)
  qed (unfold hub_inv_def, (rule hub_same_inv; simp)+)
qed

section \<open>Properties\<close>

lemma gm_len_le_1: "gm_len m \<le> Suc 0 \<longleftrightarrow> (\<forall>i j. map_of m i \<noteq> None \<and> map_of m j \<noteq> None \<longrightarrow> i = j)"
  by (auto simp: gm_len_conv_keys card_le_Suc0_iff_eq finite_dom_map_of)

text \<open>At most one fan-out goroutine.\<close>

lemma run_inv_one: "run_inv w \<Longrightarrow> gm_len (hw_runs w) \<le> 1"
proof -
  assume "run_inv w"
  then have "hub_runDone (hw_hub w) = Some d" if "map_of (hw_runs w) d \<noteq> None" for d
    using run_inv_D(1) [of w d] that by blast
  then show ?thesis unfolding One_nat_def gm_len_le_1 by (metis option.inject)
qed

definition hub_demo :: "nat hub_world" where
  "hub_demo = newWSHub 0 (\<lambda>_. events_NewEventBus) 0 []"

definition hub_started :: "nat hub_world" where
  "hub_started = the (hub_start (hub_demo\<lparr>hw_starts := 1\<rparr>))\<lparr>hw_starts := 0\<rparr>"

lemma hub_started_reachable: "(hub_step marshal)\<^sup>*\<^sup>* hub_demo hub_started"
proof -
  have s: "hub_start (hub_demo\<lparr>hw_starts := 1\<rparr>) = Some (the (hub_start (hub_demo\<lparr>hw_starts := 1\<rparr>)))"
    by (simp add: hub_demo_def newWSHub_def hub_start_def)
  have "hub_step marshal hub_demo (hub_demo\<lparr>hw_starts := 1\<rparr>)"
    using begin_start [of marshal hub_demo] by (simp add: hub_demo_def newWSHub_def)
  moreover have "hub_step marshal (hub_demo\<lparr>hw_starts := 1\<rparr>) hub_started"
    using started [OF _ s, of marshal] by (simp add: hub_started_def)
  ultimately show ?thesis by (rule rtranclp.rtrancl_into_rtrancl [OF r_into_rtranclp])
qed

text \<open>C11: in every interleaving of connections, disconnections, resets (overlapping ones included),
  stops, starts and bus traffic, at most one fan-out goroutine is live, the fan-out goroutine never
  sends on a closed client channel (which would panic while the hub's lock is held), every
  registered client is open with at most 256 buffered messages, and \<^verbatim>\<open>start\<close> returns exactly when
  no fan-out goroutine is live. Two other panics are possible and not excluded here: a second \<^verbatim>\<open>stop\<close>
  may close the cancel channel again, and the history replay of a client may send on its channel
  after the cleanup has closed it; the latter happens to clients that are no longer registered
  only, and ends their replay.\<close>

theorem hub_safety:
  assumes "hub_init s" and "(hub_step marshal)\<^sup>*\<^sup>* s w"
  shows "gm_len (hw_runs w) \<le> 1 \<and> \<not> hw_fanout_panicked w
     \<and> (\<forall>k. map_of (hub_clients (hw_hub w)) k = None
          \<or> (\<exists>c. map_of (hw_clients w) k = Some c \<and> \<not> cl_closed c \<and> \<not> cl_replayPanicked c \<and> length (cl_send c) \<le> 256))
     \<and> (\<forall>k c. map_of (hw_clients w) k = Some c \<and> cl_replayPanicked c \<longrightarrow>
          cl_closed c \<and> map_of (hub_clients (hw_hub w)) k = None \<and> cl_replay c = Some [])
     \<and> (hub_start w = None \<longleftrightarrow> gm_len (hw_runs w) = 1)"
proof -
  have inv: "run_inv w" "client_inv w" using hub.inv_reachable [OF assms] by (auto simp: hub_inv_def)
  have one: "gm_len (hw_runs w) \<le> 1" using inv(1) by (rule run_inv_one)
  moreover have "hub_start w = None \<longleftrightarrow> gm_len (hw_runs w) = 1"
    using hub_start_iff [OF inv(1)] one by (auto simp: gm_len_conv_keys card_1_singleton_iff finite_dom_map_of
        domIff le_Suc_eq card_eq_0_iff dom_eq_empty_conv)
  moreover have reg: "map_of (hub_clients (hw_hub w)) k = None
      \<or> (\<exists>c. map_of (hw_clients w) k = Some c \<and> \<not> cl_closed c \<and> \<not> cl_replayPanicked c \<and> length (cl_send c) \<le> 256)" for k
    using client_inv_open [OF inv(2), of k] client_inv_bound [OF inv(2), of k]
    by (cases "map_of (hub_clients (hw_hub w)) k") (auto simp: client_ok_def WSClientSendBuffer_def)
  moreover have "cl_closed c \<and> map_of (hub_clients (hw_hub w)) k = None \<and> cl_replay c = Some []"
    if "map_of (hw_clients w) k = Some c" "cl_replayPanicked c" for k c
    using client_inv_bound [OF inv(2) that(1)] reg [of k] that by (auto simp: client_ok_def)
  moreover have "\<not> hw_fanout_panicked w" using inv(2) by (simp add: client_inv_def)
  ultimately show ?thesis by blast
qed

theorem hub_safety_witness: "hub_start hub_started = None"
proof -
  have "hub_init hub_demo" by (auto simp: hub_init_def hub_demo_def)
  moreover have "gm_len (hw_runs hub_started) = 1" by code_simp
  ultimately show ?thesis using hub_safety [OF _ hub_started_reachable [of "\<lambda>_. None"]] by simp
qed

text \<open>\<^verbatim>\<open>stop\<close> is not safe when it is called twice at the same time (by two resets, or by a reset and a shutdown):
  it releases the lock before it looks at the cancel channel, both calls find the channel open, and the second
  one closes a closed channel, which panics. One call alone is the function \<^const>\<open>hub_stop\<close>.\<close>

theorem hub_stop_closes_twice:
  "\<exists>w. (hub_step marshal)\<^sup>*\<^sup>* hub_demo w \<and> hw_double_close w"
proof -
  have init: "hub_runCancel (hw_hub hub_started) = Some 1" "\<not> hw_is_closed hub_started 1" "hw_stops hub_started = []"
    by code_simp+
  let ?w = "\<lambda>pcs. hub_started\<lparr>hw_stops := pcs\<rparr>"
  let ?c = "hub_started\<lparr>hw_closed := gm_set (hw_closed hub_started) 1 True\<rparr>"
  have "hub_step marshal hub_started (?w [StopCheck 1 None])"
    using begin_stop [of marshal hub_started None] init by (simp add: stop_call_def)
  moreover have "hub_step marshal (?w [StopCheck 1 None]) (?w [StopCheck 1 None, StopCheck 1 None])"
    using begin_stop [of marshal "?w [StopCheck 1 None]" None] init(1) by (simp add: stop_call_def)
  moreover have "hub_step marshal (?w [StopCheck 1 None, StopCheck 1 None]) (?w [StopClose 1 None, StopCheck 1 None])"
    using stop_moves [of "?w [StopCheck 1 None, StopCheck 1 None]" "[]" "StopCheck 1 None" "[StopCheck 1 None]" "[StopClose 1 None]" _ marshal]
      init(2) by (simp add: hw_is_closed_def)
  moreover have "hub_step marshal (?w [StopClose 1 None, StopCheck 1 None]) (?w [StopClose 1 None, StopClose 1 None])"
    using stop_moves [of "?w [StopClose 1 None, StopCheck 1 None]" "[StopClose 1 None]" "StopCheck 1 None" "[]" "[StopClose 1 None]" _ marshal]
      init(2) by (simp add: hw_is_closed_def)
  moreover have "hub_step marshal (?w [StopClose 1 None, StopClose 1 None]) (?c\<lparr>hw_stops := [StopClose 1 None]\<rparr>)"
    using stop_moves [of "?w [StopClose 1 None, StopClose 1 None]" "[]" "StopClose 1 None" "[StopClose 1 None]" "[]" _ marshal] init(2)
    by (simp add: hw_is_closed_def stop_returns_def)
  moreover have "hub_step marshal (?c\<lparr>hw_stops := [StopClose 1 None]\<rparr>) (?c\<lparr>hw_double_close := True, hw_stops := []\<rparr>)"
    using stop_moves [of "?c\<lparr>hw_stops := [StopClose 1 None]\<rparr>" "[]" "StopClose 1 None" "[]" "[]" _ marshal]
    by (simp add: hw_is_closed_def)
  ultimately have "(hub_step marshal)\<^sup>*\<^sup>* hub_demo (?c\<lparr>hw_double_close := True, hw_stops := []\<rparr>)"
    using hub_started_reachable [of marshal] by (meson rtranclp.rtrancl_into_rtrancl)
  then show ?thesis by (rule exI [of _ "?c\<lparr>hw_double_close := True, hw_stops := []\<rparr>", OF conjI]) simp
qed

text \<open>The history replay of a client sends on the client's channel without the hub's lock: a client that
  disconnects during its replay has the channel closed under it.\<close>

theorem replay_sends_on_closed_channel:
  assumes "map_of (hw_clients w) k = Some c" and "\<not> cl_closed c" and "cl_replay c = Some (e # es)"
    and "marshal e = Some data"
  shows "\<exists>w' c'. (hub_step marshal)\<^sup>*\<^sup>* w w' \<and> map_of (hw_clients w') k = Some c' \<and> cl_replayPanicked c'"
proof -
  let ?v = "read_loop True k w" and ?c = "c\<lparr>cl_pingStop := True, cl_connClosed := True, cl_closed := True\<rparr>"
  have v: "map_of (hw_clients ?v) k = Some ?c" using assms(1) by (simp add: read_loop_def hub_cleanup_def Let_def)
  have "hub_step marshal w ?v" using assms(1,2) by (rule reads) simp
  moreover have "hub_step marshal ?v (upd_client k (replay_next marshal False) ?v)" by (rule replay_event)
  moreover have "map_of (hw_clients (upd_client k (replay_next marshal False) ?v)) k = Some (replay_next marshal False ?c)"
    using v by (simp add: upd_client_def)
  moreover have "cl_replayPanicked (replay_next marshal False ?c)" using assms(3,4) by (simp add: replay_next_def)
  ultimately show ?thesis by (meson converse_rtranclp_into_rtranclp r_into_rtranclp)
qed

lemma run_exit_simps [simp]:
  "hw_hub (run_exit d w) = hw_hub w" "hw_buses (run_exit d w) = hw_buses w" "hw_starts (run_exit d w) = hw_starts w"
  "hw_swaps (run_exit d w) = hw_swaps w" "hw_stops (run_exit d w) = hw_stops w"
  by (simp_all add: run_exit_def)

lemma run_exit_step:
  assumes "map_of (hw_runs w) d \<noteq> None" "run_cancelled w"
  shows "fanout_step marshal d w (run_exit d w)"
proof -
  obtain p where p: "map_of (hw_runs w) d = Some p" using assms by auto
  show ?thesis
  proof (cases p)
    case None
    then show ?thesis using p assms by (auto intro: top_exit)
  next
    case (Some ac)
    obtain a ch where "ac = (a, ch)" by fastforce
    with Some p assms show ?thesis by (auto intro!: select_exit)
  qed
qed

lemma run_exit_start:
  assumes "run_inv w" "map_of (hw_runs w) d \<noteq> None"
  shows "hub_start (run_exit d w) \<noteq> None"
  using run_inv_D(1) [OF assms(1), of d] assms(2)
  by (auto simp: hub_start_def run_exit_def hw_is_closed_def)

lemma hub_start_buses: "hub_start w = Some w' \<Longrightarrow> hw_buses w' = hw_buses w \<and> hub_bus (hw_hub w') = hub_bus (hw_hub w)"
  by (auto simp: hub_start_def hub_spawn_run_def Let_def split: option.splits if_splits)

lemma reconnect_cancelled:
  assumes "run_inv w" "map_of (hw_runs w) d \<noteq> None"
  shows "run_cancelled (hub_reconnect bus w)"
proof -
  have "hub_runCancel (hw_hub w) \<noteq> None" using run_inv_D [OF assms(1)] assms(2) by auto
  then show ?thesis
    by (auto simp: run_cancelled_def hw_is_closed_def hub_reconnect_def hub_stop_def split: option.splits)
qed

lemma hub_swap_subs:
  "map_of (eb_subs (hw_buses (hub_swap bus w) bus)) (hw_next w) = Some []"
  "hub_sub (hw_hub w) = Some ch \<Longrightarrow> a = hub_bus (hw_hub w) \<Longrightarrow> ch \<noteq> hw_next w \<Longrightarrow>
     map_of (eb_subs (hw_buses (hub_swap bus w) a)) ch = None"
  by (auto simp: hub_swap_def Let_def upd_bus_def events_Subscribe_def events_Unsubscribe_def split: option.splits)

lemma reconnect_subs:
  "map_of (eb_subs (hw_buses (hub_reconnect bus w) bus)) (hw_next w) = Some []"
  "hub_sub (hw_hub w) = Some ch \<Longrightarrow> a = hub_bus (hw_hub w) \<Longrightarrow> ch \<noteq> hw_next w \<Longrightarrow>
     map_of (eb_subs (hw_buses (hub_reconnect bus w) a)) ch = None"
  using hub_swap_subs [where bus = bus and w = "hub_stop w"] by (simp_all add: hub_reconnect_def)

text \<open>The stages of a call of \<^verbatim>\<open>stop\<close> that nothing interrupts amount to \<^const>\<open>hub_stop\<close>, and those of \<^verbatim>\<open>reconnect\<close> to
  \<^const>\<open>hub_reconnect\<close>.\<close>

lemma stop_stages: "(hub_step marshal)\<^sup>*\<^sup>* w (stop_returns next (hub_stop w))"
proof (cases "hub_runCancel (hw_hub w)")
  case None
  then show ?thesis using begin_stop [of marshal w "next"] by (auto simp: stop_call_def hub_stop_def)
next
  case (Some c)
  let ?w = "\<lambda>pcs. w\<lparr>hw_stops := hw_stops w @ pcs\<rparr>"
  have 1: "hub_step marshal w (?w [StopCheck c next])" using begin_stop [of marshal w "next"] Some by (simp add: stop_call_def)
  have closed: "hw_is_closed (?w pcs) c = hw_is_closed w c" for pcs by (simp add: hw_is_closed_def)
  show ?thesis
  proof (cases "hw_is_closed w c")
    case True
    have "hub_step marshal (?w [StopCheck c next]) (stop_returns next w)"
      using stop_moves [of "?w [StopCheck c next]" "hw_stops w" "StopCheck c next" "[]" "[]" _ marshal] True closed
      by (simp add: stop_returns_def split: option.splits)
    with 1 show ?thesis using True Some by (simp add: hub_stop_def)
  next
    case False
    have "hub_step marshal (?w [StopCheck c next]) (?w [StopClose c next])"
      using stop_moves [of "?w [StopCheck c next]" "hw_stops w" "StopCheck c next" "[]" "[StopClose c next]" _ marshal] False closed
      by simp
    moreover have "hub_step marshal (?w [StopClose c next]) (stop_returns next (w\<lparr>hw_closed := gm_set (hw_closed w) c True\<rparr>))"
      using stop_moves [of "?w [StopClose c next]" "hw_stops w" "StopClose c next" "[]" "[]" _ marshal] False closed
      by (simp add: stop_returns_def split: option.splits)
    ultimately show ?thesis using 1 False Some
      by (simp add: hub_stop_def)
  qed
qed

lemma reconnect_stages: "(hub_step marshal)\<^sup>*\<^sup>* w (hub_reconnect bus w)"
  using rtranclp.rtrancl_into_rtrancl [OF stop_stages [of marshal w "Some bus"] swap [of bus]]
  by (cases w) (simp add: stop_returns_def hub_reconnect_def hub_stop_def split: option.splits)

subsection \<open>A reconnection completes\<close>

text \<open>The steps a cancelled fan-out goroutine has left: from its second select it may take one more event
  before it looks at the cancel channel again.\<close>

definition run_weight :: "'d hub_world \<Rightarrow> nat \<Rightarrow> nat" where
  "run_weight w d = (case map_of (hw_runs w) d of None \<Rightarrow> 0 | Some None \<Rightarrow> 1 | Some (Some ac) \<Rightarrow> 2)"

lemma hub_sends_None: "fold (\<lambda>k r. Option.bind r (hub_send data k)) ks None = None"
  by (induction ks) auto

lemma hub_sends_config:
  assumes "fold (\<lambda>k r. Option.bind r (hub_send data k)) ks (Some (h, cls)) = Some (h', cls')"
  shows "hub_bus h' = hub_bus h \<and> hub_sub h' = hub_sub h \<and> hub_runCancel h' = hub_runCancel h \<and> hub_runDone h' = hub_runDone h"
  using assms
proof (induction ks arbitrary: h cls)
  case (Cons k ks)
  obtain h1 cls1 where s: "hub_send data k (h, cls) = Some (h1, cls1)"
    using Cons.prems by (cases "hub_send data k (h, cls)") (auto simp: hub_sends_None)
  then have "hub_bus h1 = hub_bus h" "hub_sub h1 = hub_sub h" "hub_runCancel h1 = hub_runCancel h" "hub_runDone h1 = hub_runDone h"
    by (auto simp: hub_send_def split: option.splits if_splits)
  with Cons.IH [of h1 cls1] Cons.prems s show ?case by simp
qed simp

lemma hub_deliver_config [simp]:
  "hw_closed (hub_deliver marshal e w) = hw_closed w" "hw_runs (hub_deliver marshal e w) = hw_runs w"
  "hw_buses (hub_deliver marshal e w) = hw_buses w" "hw_starts (hub_deliver marshal e w) = hw_starts w"
  "hw_stops (hub_deliver marshal e w) = hw_stops w" "hw_swaps (hub_deliver marshal e w) = hw_swaps w"
  "hub_bus (hw_hub (hub_deliver marshal e w)) = hub_bus (hw_hub w)"
  "hub_sub (hw_hub (hub_deliver marshal e w)) = hub_sub (hw_hub w)"
  "hub_runCancel (hw_hub (hub_deliver marshal e w)) = hub_runCancel (hw_hub w)"
  using hub_sends_config [of _ _ "hw_hub w" "hw_clients w"]
  by (auto simp: hub_deliver_def hub_fanout_def split: option.splits)

text \<open>What a step of a fan-out goroutine leaves alone; and each step of a cancelled one brings it nearer to its
  end.\<close>

lemma fanout_step_keeps:
  assumes "fanout_step marshal d w w'"
  shows "hub_bus (hw_hub w') = hub_bus (hw_hub w) \<and> hub_sub (hw_hub w') = hub_sub (hw_hub w) \<and> hw_starts w' = hw_starts w
     \<and> eb_subs (hw_buses w' a) = eb_subs (hw_buses w a)"
  using assms by (induction rule: fanout_step.induct) (auto simp: upd_bus_def chan_receive_def)

lemma fanout_step_cancelled:
  assumes "fanout_step marshal d w w'" "run_cancelled w" "run_inv w"
  shows "run_weight w' d < run_weight w d" "run_cancelled w'" "\<And>j. j \<noteq> d \<Longrightarrow> map_of (hw_runs w') j = map_of (hw_runs w) j"
proof -
  have live: "map_of (hw_runs w) d \<noteq> None" using assms(1) by (cases rule: fanout_step.cases) auto
  then have neq: "hub_runCancel (hw_hub w) \<noteq> Some d"
    using run_inv_D(1) [OF assms(3), of d] assms(3) unfolding run_inv_def by blast
  show "run_weight w' d < run_weight w d" "\<And>j. j \<noteq> d \<Longrightarrow> map_of (hw_runs w') j = map_of (hw_runs w) j"
    using assms(1,2) by (cases rule: fanout_step.cases; simp add: run_weight_def run_exit_def)+
  show "run_cancelled w'"
    using assms(1,2) neq
    by (cases rule: fanout_step.cases) (auto simp: run_cancelled_def run_exit_def hw_is_closed_def split: option.splits)
qed

text \<open>Nothing else in the hub revives a cancelled goroutine or gives it more to do, whatever happens in between.\<close>

lemma run_cancelled_mono:
  assumes "run_cancelled w" "hub_runCancel (hw_hub w') = hub_runCancel (hw_hub w)"
    "\<And>c. hw_is_closed w c \<Longrightarrow> hw_is_closed w' c"
  shows "run_cancelled w'"
  using assms by (auto simp: run_cancelled_def split: option.splits)

lemma stop_stage_closed: "stop_stage pc w = (r, w') \<Longrightarrow> hw_is_closed w c \<Longrightarrow> hw_is_closed w' c"
  by (cases pc) (auto simp: hw_is_closed_def split: if_splits)

lemma closeAll_simps [simp]:
  "hw_stops (hub_closeAllClients w) = hw_stops w" "hw_swaps (hub_closeAllClients w) = hw_swaps w" "hw_starts (hub_closeAllClients w) = hw_starts w"
  "hw_hub (hub_closeAllClients w) = hw_hub w" "hw_runs (hub_closeAllClients w) = hw_runs w" "hw_closed (hub_closeAllClients w) = hw_closed w"
proof -
  have "hw_hub (fold (\<lambda>k. upd_client k f) ks w) = hw_hub w \<and> hw_runs (fold (\<lambda>k. upd_client k f) ks w) = hw_runs w
      \<and> hw_closed (fold (\<lambda>k. upd_client k f) ks w) = hw_closed w \<and> hw_stops (fold (\<lambda>k. upd_client k f) ks w) = hw_stops w
      \<and> hw_swaps (fold (\<lambda>k. upd_client k f) ks w) = hw_swaps w \<and> hw_starts (fold (\<lambda>k. upd_client k f) ks w) = hw_starts w" for f :: "'a client \<Rightarrow> 'a client" and ks
    by (induction ks arbitrary: w) auto
  then show "hw_stops (hub_closeAllClients w) = hw_stops w" "hw_swaps (hub_closeAllClients w) = hw_swaps w"
    "hw_starts (hub_closeAllClients w) = hw_starts w" "hw_hub (hub_closeAllClients w) = hw_hub w" "hw_runs (hub_closeAllClients w) = hw_runs w" "hw_closed (hub_closeAllClients w) = hw_closed w"
    by (auto simp: hub_closeAllClients_def)
qed

lemma cancelled_run_stable:
  assumes "hub_step marshal w w'" "hub_inv w" "run_cancelled w" "map_of (hw_runs w) d \<noteq> None"
  shows "run_weight w' d \<le> run_weight w d \<and> run_cancelled w'"
  using assms
proof (induction rule: hub_step.induct)
  case (started w w')
  then have False using hub_start_iff [of w] by (auto simp: hub_inv_def)
  then show ?case ..
next
  case (fans_out d' w w')
  then show ?case
    using fanout_step_cancelled [OF fans_out(1)] by (cases "d' = d") (auto simp: hub_inv_def run_weight_def)
next
  case (stop_moves w xs pc ys r w')
  have "run_cancelled w'"
    using stop_stage_simps [OF stop_moves(2)] stop_stage_closed [OF stop_moves(2)] stop_moves(4)
    by (intro run_cancelled_mono [of w w']) auto
  then show ?case
    using stop_stage_simps [OF stop_moves(2)]
    by (simp add: run_weight_def run_cancelled_def hw_is_closed_def split: option.splits)
qed (auto simp: run_weight_def run_cancelled_def hw_is_closed_def hub_register_def hub_cleanup_def read_loop_def replay_start_conv Let_def
    split: option.splits)

lemma fanout_steps_bounded:
  assumes "((\<lambda>v v'. \<exists>d. fanout_step marshal d v v') ^^ n) w v" "hub_inv w" "run_cancelled w \<or> (\<forall>d. map_of (hw_runs w) d = None)"
    "\<forall>d. run_weight w d \<le> m"
  shows "n \<le> m \<and> hub_inv v \<and> (run_cancelled v \<or> (\<forall>d. map_of (hw_runs v) d = None))
     \<and> hub_bus (hw_hub v) = hub_bus (hw_hub w) \<and> hub_sub (hw_hub v) = hub_sub (hw_hub w) \<and> hw_starts v = hw_starts w
     \<and> (\<forall>a. eb_subs (hw_buses v a) = eb_subs (hw_buses w a))"
  using assms
proof (induction n arbitrary: w m)
  case (Suc n)
  obtain u d where u: "fanout_step marshal d w u" "((\<lambda>v v'. \<exists>d. fanout_step marshal d v v') ^^ n) u v"
    using relpowp_Suc_D2 [OF Suc.prems(1)] by blast
  have live: "map_of (hw_runs w) d \<noteq> None" using u(1) by (cases rule: fanout_step.cases) auto
  then have c: "run_cancelled w" using Suc.prems(3) by auto
  have inv: "run_inv w" using Suc.prems(2) by (simp add: hub_inv_def)
  note st = fanout_step_cancelled [OF u(1) c inv]
  have only: "map_of (hw_runs w) j = None" if "j \<noteq> d" for j
    using run_inv_D(1) [OF inv, of d] run_inv_D(1) [OF inv, of j] live that by auto
  then have "run_weight u j \<le> m - 1" for j
    using st(1) st(3) [of j] Suc.prems(4) [rule_format, of d] by (cases "j = d") (auto simp: run_weight_def)
  moreover have "0 < m" using st(1) Suc.prems(4) [rule_format, of d] by simp
  ultimately show ?case
    using Suc.IH [OF u(2) fanout_step_inv [OF u(1) Suc.prems(2)], of "m - 1"] st(2) fanout_step_keeps [OF u(1)] by auto
qed simp

text \<open>C27: a reset does not hang in the hub. In every reachable state, after \<^verbatim>\<open>reconnect\<close> has cancelled the
  fan-out goroutine and switched the bus, that goroutine makes at most two more steps (it may take
  one last event before it sees the cancellation), and only when it has none left does it stop
  making them: then the waiting \<^verbatim>\<open>start\<close> can return, with exactly one fan-out goroutine, which serves
  the new bus, on which the hub holds a subscription to all event types, while its subscription of
  the old bus is released. The call in \<^verbatim>\<open>start\<close> is the one of this reset if no other was there
  before; with several, one of them returns and the others wait for the next cancellation.\<close>

theorem hub_reconnect_completes:
  assumes "hub_init s" and "(hub_step marshal)\<^sup>*\<^sup>* s w"
    and "((\<lambda>v v'. \<exists>d. fanout_step marshal d v v') ^^ n) (hub_reconnect bus w) v"
  shows "n \<le> 2 \<and> hw_starts v = hw_starts w + 1
     \<and> ((\<exists>d v'. fanout_step marshal d v v')
        \<or> (\<exists>w' ch. hub_start v = Some w' \<and> gm_len (hw_runs w') = 1
            \<and> hub_bus (hw_hub w') = bus \<and> hub_sub (hw_hub w') = Some ch \<and> map_of (eb_subs (hw_buses w' bus)) ch = Some []
            \<and> map_of (eb_subs (hw_buses w' (hub_bus (hw_hub w)))) (the (hub_sub (hw_hub w))) = None))"
proof -
  let ?r = "hub_reconnect bus w"
  have inv: "hub_inv w" "hub_inv ?r" using hub.inv_reachable [OF assms(1,2)] hub_reconnect_inv by auto
  have runs: "hw_runs ?r = hw_runs w" by (simp add: hub_reconnect_def)
  have canc: "run_cancelled ?r \<or> (\<forall>d. map_of (hw_runs ?r) d = None)"
    using reconnect_cancelled [of w _ bus] inv(1) runs unfolding hub_inv_def by metis
  have "run_weight ?r d \<le> 2" for d by (simp add: run_weight_def split: option.splits)
  note b = fanout_steps_bounded [OF assms(3) inv(2) canc, of 2, OF allI, OF this]
  have v: "run_inv v" "hub_bus (hw_hub v) = bus" "hub_sub (hw_hub v) = Some (hw_next w)" "hw_starts v = hw_starts w + 1"
    using b by (auto simp: hub_inv_def hub_reconnect_def)
  obtain ch0 where ch0: "hub_sub (hw_hub w) = Some ch0" "ch0 < hw_next w"
    using run_inv_D(4) inv(1) by (auto simp: hub_inv_def)
  have subs: "map_of (eb_subs (hw_buses v bus)) (hw_next w) = Some []"
    "map_of (eb_subs (hw_buses v (hub_bus (hw_hub w)))) ch0 = None"
    using b reconnect_subs(1) [of bus w] reconnect_subs(2) [OF ch0(1) refl, of bus] ch0(2) by simp_all
  show ?thesis
  proof (cases "\<exists>d. map_of (hw_runs v) d \<noteq> None")
    case True
    then obtain d where d: "map_of (hw_runs v) d \<noteq> None" by blast
    then have "fanout_step marshal d v (run_exit d v)" using b by (intro run_exit_step) auto
    then show ?thesis using b v(4) by blast
  next
    case False
    then obtain w' where w': "hub_start v = Some w'" using hub_start_iff [OF v(1)] by auto
    have "gm_len (hw_runs w') = 1"
      using hub_start_simps(3) [OF w'] False by (simp add: gm_len_conv_keys dom_def)
    then show ?thesis
      using conjunct1 [OF b] v(2-) w' subs hub_start_simps(6) [OF w'] hub_start_buses [OF w'] ch0(1) by simp
  qed
qed

theorem hub_reconnect_completes_witness:
  "((\<lambda>v v'. \<exists>d. fanout_step (\<lambda>_. None) d v v') ^^ 1) (hub_reconnect 7 hub_started) (run_exit 2 (hub_reconnect 7 hub_started))
   \<and> hw_starts (run_exit 2 (hub_reconnect 7 hub_started)) = 1
   \<and> (\<exists>w'. hub_start (run_exit 2 (hub_reconnect 7 hub_started)) = Some w' \<and> hub_bus (hw_hub w') = 7)"
proof -
  let ?v = "run_exit 2 (hub_reconnect 7 hub_started)"
  have live: "map_of (hw_runs (hub_reconnect 7 hub_started)) 2 \<noteq> None" "run_cancelled (hub_reconnect 7 hub_started)"
      "hw_starts hub_started = 0" "hw_runs ?v = []"
    by code_simp+
  have step: "((\<lambda>v v'. \<exists>d. fanout_step (\<lambda>_. None) d v v') ^^ 1) (hub_reconnect 7 hub_started) ?v"
    using run_exit_step [OF live(1,2), of "\<lambda>_. None"] by (auto simp: OO_def)
  have "\<not> (\<exists>d v'. fanout_step (\<lambda>_. None) d ?v v')"
    using live(4) by (auto elim!: fanout_step.cases)
  moreover have "hub_init hub_demo" by (auto simp: hub_init_def hub_demo_def)
  ultimately show ?thesis
    using hub_reconnect_completes [OF _ hub_started_reachable step] step live(3) by auto
qed

text \<open>C37: The fan-out of one event reaches every registered client whose buffer has room, at the end
  of its buffer, and no other; a full client loses the event without delaying the others, and the
  drop counter grows by the number of full clients (modulo \<open>2^64\<close>).\<close>

theorem hub_fanout_effect:
  assumes "hub_init s" and "(hub_step marshal)\<^sup>*\<^sup>* s w" and "marshal e = Some data"
  shows "(\<forall>k. map_of (hw_clients (hub_deliver marshal e w)) k =
            (if map_of (hub_clients (hw_hub w)) k \<noteq> None
             then map_option (\<lambda>c. c\<lparr>cl_send := (if length (cl_send c) < 256 then cl_send c @ [data] else cl_send c)\<rparr>)
                    (map_of (hw_clients w) k)
             else map_of (hw_clients w) k))
     \<and> hub_drops (hw_hub (hub_deliver marshal e w)) = hub_drops (hw_hub w) + of_nat (card {k. map_of (hub_clients (hw_hub w)) k \<noteq> None
           \<and> 256 \<le> length (cl_send (the (map_of (hw_clients w) k)))})"
proof -
  have "client_inv w" using hub.inv_reachable [OF assms(1,2)] by (auto simp: hub_inv_def)
  then have "\<forall>k \<in> set (gm_keys (hub_clients (hw_hub w))). \<exists>c. map_of (hw_clients w) k = Some c \<and> \<not> cl_closed c"
    by (auto simp: client_inv_def)
  from hub_sends [OF distinct_gm_keys this, of data "hw_hub w"] obtain h cls where
    f: "hub_fanout data (hw_hub w, hw_clients w) = Some (h, cls)" and
    cls: "\<And>k. map_of cls k = (if map_of (hub_clients (hw_hub w)) k \<noteq> None
         then map_option (\<lambda>c. c\<lparr>cl_send := chan_try_send WSClientSendBuffer data (cl_send c)\<rparr>) (map_of (hw_clients w) k)
         else map_of (hw_clients w) k)" and
    h: "hub_drops h = hub_drops (hw_hub w) + of_nat (length (filter (\<lambda>k. \<not> length (cl_send (the (map_of (hw_clients w) k)))
          < WSClientSendBuffer) (gm_keys (hub_clients (hw_hub w)))))"
    unfolding hub_fanout_def by (auto simp: domIff)
  have "length (filter P (gm_keys m)) = card {k. map_of m k \<noteq> None \<and> P k}" for P and m :: "(nat, bool) gomap"
    using distinct_card [of "filter P (gm_keys m)"] by (simp add: domIff)
  then show ?thesis
    by (simp add: hub_deliver_def assms(3) f cls h chan_try_send_def WSClientSendBuffer_def not_less)
qed

theorem hub_fanout_effect_witness:
  "map_option cl_send (map_of (hw_clients (hub_deliver (\<lambda>_. Some ''x'') zero_Event (hub_register True 0 hub_demo))) 1) = Some [''x'']"
proof -
  let ?w = "hub_register True 0 hub_demo"
  have "(hub_step (\<lambda>_. Some ''x''))\<^sup>*\<^sup>* hub_demo ?w" by (blast intro: connect)
  moreover have "hub_init hub_demo" by (auto simp: hub_init_def hub_demo_def)
  ultimately have "map_of (hw_clients (hub_deliver (\<lambda>_. Some ''x'') zero_Event ?w)) 1 =
            (if map_of (hub_clients (hw_hub ?w)) 1 \<noteq> None
             then map_option (\<lambda>c. c\<lparr>cl_send := (if length (cl_send c) < 256 then cl_send c @ [''x''] else cl_send c)\<rparr>)
                    (map_of (hw_clients ?w) 1)
             else map_of (hw_clients ?w) 1)"
    using hub_fanout_effect [of hub_demo "\<lambda>_. Some ''x''" ?w zero_Event "''x''"] by blast
  moreover have "map_of (hub_clients (hw_hub ?w)) 1 \<noteq> None" "map_option cl_send (map_of (hw_clients ?w) 1) = Some []"
    by code_simp+
  then obtain c where "map_of (hw_clients ?w) 1 = Some c" "cl_send c = []" "map_of (hub_clients (hw_hub ?w)) 1 \<noteq> None" by auto
  ultimately show ?thesis by simp
qed

lemma buildOriginSet_dom: "map_of (buildOriginSet origins) x \<noteq> None \<longleftrightarrow> x \<noteq> '''' \<and> x \<in> TrimSpace ` set origins"
proof -
  have "map_of (fold (\<lambda>x s. let x = TrimSpace x in if x = '''' then s else gm_set s x ()) origins s) x \<noteq> None
      \<longleftrightarrow> map_of s x \<noteq> None \<or> x \<noteq> '''' \<and> x \<in> TrimSpace ` set origins" for s
    by (induction origins arbitrary: s) (auto simp: Let_def)
  then show ?thesis by (simp add: buildOriginSet_def)
qed

text \<open>The origin check of the WebSocket upgrade. A request with an Origin header is accepted
  exactly if the header is one of the configured origins (with surrounding white space removed), so
  an empty allowlist refuses every browser; a request without the header is accepted exactly if
  no origins are configured.\<close>

theorem ws_CheckOrigin_correct:
  "CheckOrigin allowedOrigins origin \<longleftrightarrow>
     (if origin = '''' then allowedOrigins = [] else origin \<in> TrimSpace ` set allowedOrigins)"
  using buildOriginSet_dom [of allowedOrigins origin] by (simp add: CheckOrigin_def)

end
