(* ===== verification/Gateway_Server.thy ===== *)
theory Gateway_Server
  imports Gateway_Hub Gateway_Limits Scenarios Conflict_Store
begin

text \<open>
  \<^verbatim>\<open>gateway/server.go\<close>: the server's state, how a simulation is replaced, the goroutine that feeds
  the server's causal graph, the middleware, and shutdown.

  Simulations are objects: \<open>sv_sims\<close> stores every one the server ever had, \<open>sv_sim\<close> is the current
  one. Other parts keep references to a simulation's bus (\<open>sv_kvSim\<close> is the simulation whose bus
  the conflict detector publishes on), so the hub and the detector are run on the buses of the
  store. The data of a message, which the server never inspects, is a string. Metrics are in
  \<^verbatim>\<open>Gateway_Metrics\<close>; logging and the HTTP library are not modelled; a handler's use of the framework is the response
  it returns.
\<close>

section \<open>State\<close>

text \<open>A goroutine started by \<^verbatim>\<open>subscribeCausalGraph\<close>: the simulation and the channel it listens to, and
  whether its context was cancelled.\<close>

record cg_sub =
  cg_sim :: nat
  cg_chan :: nat
  cg_cancelled :: bool

record Server =
  sv_sims :: "string Simulation list"
  sv_sim :: nat
  sv_hub :: "string hub_world"
  sv_cgs :: "(nat, cg_sub) gomap"
  sv_cgCancel :: "nat option"
  sv_kv :: "(string, MVCCEntry) gomap"
  sv_kvSim :: nat
  sv_causalGraph :: CausalGraph
  sv_auth :: Manager
  sv_limiter :: "rateLimiter option"
  sv_allowed :: "string list"
  sv_ready :: bool
  sv_healthErr :: string
  sv_runners :: "(nat option \<times> ScenarioStep list) list"

definition getSim :: "Server \<Rightarrow> string Simulation" where
  "getSim sv = sv_sims sv ! sv_sim sv"

definition upd_sim :: "(string Simulation \<Rightarrow> string Simulation) \<Rightarrow> Server \<Rightarrow> Server" where
  "upd_sim f sv = sv\<lparr>sv_sims := (sv_sims sv)[sv_sim sv := f (getSim sv)]\<rparr>"

text \<open>Running an operation of the hub on the buses of the simulations.\<close>

definition hub_view :: "Server \<Rightarrow> string hub_world" where
  "hub_view sv = (sv_hub sv)\<lparr>hw_buses := (\<lambda>i. sim_bus (sv_sims sv ! i))\<rparr>"

definition hub_put :: "string hub_world \<Rightarrow> Server \<Rightarrow> Server" where
  "hub_put w sv = sv\<lparr>sv_hub := w,
     sv_sims := map (\<lambda>i. (sv_sims sv ! i)\<lparr>sim_bus := hw_buses w i\<rparr>) [0 ..< length (sv_sims sv)]\<rparr>"

section \<open>Replacing the simulation\<close>

definition cancel_cg :: "Server \<Rightarrow> Server" where
  "cancel_cg sv =
     (case sv_cgCancel sv of
        None \<Rightarrow> sv
      | Some g \<Rightarrow>
          (case map_of (sv_cgs sv) g of
             None \<Rightarrow> sv
           | Some c \<Rightarrow> sv\<lparr>sv_cgs := gm_set (sv_cgs sv) g (c\<lparr>cg_cancelled := True\<rparr>)\<rparr>))"

text \<open>\<open>i\<close> is the simulation whose bus is subscribed to; identities come from the same supply as the hub's.\<close>

definition subscribeCausalGraph :: "nat \<Rightarrow> Server \<Rightarrow> Server" where
  "subscribeCausalGraph i sv =
     (let sv1 = cancel_cg sv;
          ch = hw_next (sv_hub sv1);
          sim = sv_sims sv1 ! i
      in sv1\<lparr>sv_sims := (sv_sims sv1)[i := sim\<lparr>sim_bus :=
               events_Subscribe ch [EvtSend, EvtReceive, EvtInternalEvent] (sim_bus sim)\<rparr>],
             sv_hub := (sv_hub sv1)\<lparr>hw_next := ch + 1\<rparr>,
             sv_cgs := gm_set (sv_cgs sv1) ch \<lparr>cg_sim = i, cg_chan = ch, cg_cancelled = False\<rparr>,
             sv_cgCancel := Some ch\<rparr>)"

text \<open>
  What the goroutine does with an event. \<^verbatim>\<open>reconnect\<close> waits until the previous fan-out goroutine has
  left its loop: \<open>hub_settle\<close> lets it leave and then starts the new one.
\<close>

definition server_graph_event :: "'d Event \<Rightarrow> CausalGraph \<Rightarrow> CausalGraph" where
  "server_graph_event e g =
     (let ev = \<lparr>ce_ID = ev_ID e, ce_ProcessID = ev_ProcessID e, ce_Type = '''', ce_LocalSeq = ev_LocalSeq e, ce_MessageID = ''''\<rparr>;
          with_message = (\<lambda>ev. case ev_Message e of None \<Rightarrow> ev | Some m \<Rightarrow> ev\<lparr>ce_MessageID := mp_ID m\<rparr>);
          ev1 = (if ev_Type e = EvtInternalEvent then ev\<lparr>ce_Type := EventInternal\<rparr>
                 else if ev_Type e = EvtSend then with_message (ev\<lparr>ce_Type := EventSend\<rparr>)
                 else if ev_Type e = EvtReceive then with_message (ev\<lparr>ce_Type := EventReceive\<rparr>)
                 else ev);
          g1 = causality_AddEvent g ev1
      in if ev_Type e = EvtReceive
         then case ev_Message e of
                Some m \<Rightarrow> if \<not> mp_IsMarker m then causality_AddEdge g1 (mp_ID m @ ''-send'') (ev_ID e) else g1
              | None \<Rightarrow> g1
         else g1)"

definition hub_settle :: "'d hub_world \<Rightarrow> 'd hub_world" where
  "hub_settle w =
     (case hub_start w of
        Some w' \<Rightarrow> w'\<lparr>hw_starts := hw_starts w - 1\<rparr>
      | None \<Rightarrow>
          (case hub_runDone (hw_hub w) of
             None \<Rightarrow> w
           | Some d \<Rightarrow>
               (case hub_start (run_exit d w) of
                  Some w' \<Rightarrow> w'\<lparr>hw_starts := hw_starts w - 1\<rparr>
                | None \<Rightarrow> w)))"

definition setSim :: "(u64 \<Rightarrow> int) \<Rightarrow> string Simulation \<Rightarrow> Server \<Rightarrow> Server" where
  "setSim now newSim sv =
     (let old = sv_sim sv;
          i = length (sv_sims sv);
          sv1 = sv\<lparr>sv_sims := sv_sims sv @ [newSim], sv_sim := i\<rparr>;
          sv2 = hub_put (hub_settle (hub_reconnect i (hub_view sv1))) sv1;
          sv3 = subscribeCausalGraph i sv2
      in sv3\<lparr>sv_sims := (sv_sims sv3)[old := simulation_Stop now (sv_sims sv3 ! old)]\<rparr>)"

definition NewServerWithRateLimit :: "string Simulation \<Rightarrow> string list \<Rightarrow> Manager \<Rightarrow> real \<Rightarrow> real \<Rightarrow> Server" where
  "NewServerWithRateLimit sim allowedOrigins authMgr ratePerSec burst =
     (let sv = \<lparr>sv_sims = [sim], sv_sim = 0,
                sv_hub = newWSHub 1 (\<lambda>i. sim_bus sim) 0 allowedOrigins,
                sv_cgs = [], sv_cgCancel = None, sv_kv = cd_store (conflict_New (Some (sim_bus sim))), sv_kvSim = 0,
                sv_causalGraph = causality_NewCausalGraph, sv_auth = authMgr,
                sv_limiter = (if ratePerSec > 0 \<and> burst > 0 then Some (newRateLimiter ratePerSec burst) else None),
                sv_allowed = allowedOrigins, sv_ready = False, sv_healthErr = '''', sv_runners = []\<rparr>;
          sv1 = hub_put (hub_settle (sv_hub sv)) sv;
          sv2 = subscribeCausalGraph 0 sv1
      in sv2\<lparr>sv_ready := True\<rparr>)"

text \<open>One event taken by a causal-graph goroutine, and its end.\<close>

definition cg_take :: "nat \<Rightarrow> Server \<Rightarrow> Server" where
  "cg_take g sv =
     (case map_of (sv_cgs sv) g of
        None \<Rightarrow> sv
      | Some c \<Rightarrow>
          let sim = sv_sims sv ! cg_sim c
          in case gm_get [] (eb_chans (sim_bus sim)) (cg_chan c) of
               [] \<Rightarrow> sv
             | e # es \<Rightarrow> sv\<lparr>sv_sims := (sv_sims sv)[cg_sim c := sim\<lparr>sim_bus := chan_receive (cg_chan c) (sim_bus sim)\<rparr>],
                           sv_causalGraph := server_graph_event e (sv_causalGraph sv)\<rparr>)"

definition cg_exit :: "nat \<Rightarrow> Server \<Rightarrow> Server" where
  "cg_exit g sv =
     (case map_of (sv_cgs sv) g of
        None \<Rightarrow> sv
      | Some c \<Rightarrow>
          if cg_cancelled c
          then let sim = sv_sims sv ! cg_sim c
               in sv\<lparr>sv_cgs := gm_del (sv_cgs sv) g,
                     sv_sims := (sv_sims sv)[cg_sim c := sim\<lparr>sim_bus := events_Unsubscribe (cg_chan c) (sim_bus sim)\<rparr>]\<rparr>
          else sv)"

text \<open>\<^verbatim>\<open>Shutdown\<close> up to its wait for the goroutines, less the HTTP server's own shutdown.\<close>

definition Shutdown :: "(u64 \<Rightarrow> int) \<Rightarrow> Server \<Rightarrow> Server" where
  "Shutdown now sv =
     (let sv1 = sv\<lparr>sv_ready := False, sv_healthErr := ''shutting down''\<rparr>;
          sv2 = hub_put (hub_closeAllClients (hub_stop (hub_view sv1))) sv1;
          sv3 = upd_sim (simulation_Stop now) sv2
      in cancel_cg sv3)"

section \<open>Middleware\<close>

type_synonym headers = "(string \<times> string) list"

record http_request =
  hr_Method :: string
  hr_Path :: string
  hr_Origin :: string
  hr_Cookie :: string
  hr_Authorization :: string
  hr_RequestId :: string
  hr_HasBody :: bool
  hr_ContentLength :: int
  hr_ClientIP :: string

definition MaxJSONBodyBytes :: int where
  "MaxJSONBodyBytes = 2 ^ 20"

definition securityHeaders :: headers where
  "securityHeaders = [(''X-Content-Type-Options'', ''nosniff''), (''X-Frame-Options'', ''DENY''),
     (''Referrer-Policy'', ''no-referrer''), (''Permissions-Policy'', ''geolocation=(), microphone=(), camera=()'')]"

text \<open>\<open>uuid\<close> is a fresh identifier of the third-party generator.\<close>

definition requestID :: "string \<Rightarrow> http_request \<Rightarrow> string" where
  "requestID uuid r =
     (let rid = hr_RequestId r in if rid = '''' \<or> length rid > 128 then uuid else rid)"

definition maxBodyMiddleware :: "int \<Rightarrow> http_request \<Rightarrow> mw_result" where
  "maxBodyMiddleware maxBytes r =
     (if hr_HasBody r \<and> hr_ContentLength r > maxBytes then Abort 413 ''request body exceeds maximum allowed size''
      else Pass None)"

definition corsMiddleware :: "string list \<Rightarrow> http_request \<Rightarrow> headers \<times> mw_result" where
  "corsMiddleware allowedOrigins r =
     (let allow = buildOriginSet allowedOrigins;
          origin = hr_Origin r;
          hs = (if origin \<noteq> '''' \<and> map_of allow origin \<noteq> None
                then [(''Access-Control-Allow-Origin'', origin), (''Vary'', ''Origin''),
                      (''Access-Control-Allow-Methods'', ''GET, POST, DELETE, OPTIONS''),
                      (''Access-Control-Allow-Headers'', ''Content-Type, X-Request-Id'')]
                     @ (if hr_Cookie r \<noteq> '''' \<or> hr_Authorization r \<noteq> ''''
                        then [(''Access-Control-Allow-Credentials'', ''true'')] else [])
                else [])
      in (hs, if hr_Method r = ''OPTIONS'' then Abort 204 '''' else Pass None))"

definition httpStatusLabel :: "int \<Rightarrow> string" where
  "httpStatusLabel code =
     (if code < 200 then ''1xx'' else if code < 300 then ''2xx'' else if code < 400 then ''3xx''
      else if code < 500 then ''4xx'' else ''5xx'')"

definition limit_request :: "int \<Rightarrow> http_request \<Rightarrow> Server \<Rightarrow> mw_result \<times> Server" where
  "limit_request now r sv =
     (case sv_limiter sv of
        None \<Rightarrow> (Pass None, sv)
      | Some rl \<Rightarrow>
          (case RateLimitMiddleware now (hr_Path r) (hr_ClientIP r) rl of
             (res, rl') \<Rightarrow> (res, sv\<lparr>sv_limiter := Some rl'\<rparr>)))"

section \<open>What replacing the simulation does\<close>

lemma server_graph_event_conv: "server_graph_event e g = handle_graph_event e g"
  by (auto simp: server_graph_event_def handle_graph_event_def Let_def EvtInternalEvent_def EvtSend_def EvtReceive_def
      split: option.splits)

lemma length_hub_put [simp]: "length (sv_sims (hub_put w sv)) = length (sv_sims sv)"
  by (simp add: hub_put_def)

lemma cancel_cg_simps [simp]:
  "sv_sims (cancel_cg sv) = sv_sims sv" "sv_sim (cancel_cg sv) = sv_sim sv" "sv_hub (cancel_cg sv) = sv_hub sv"
  "sv_kv (cancel_cg sv) = sv_kv sv" "sv_kvSim (cancel_cg sv) = sv_kvSim sv" "sv_causalGraph (cancel_cg sv) = sv_causalGraph sv"
  "sv_runners (cancel_cg sv) = sv_runners sv" "sv_auth (cancel_cg sv) = sv_auth sv" "sv_ready (cancel_cg sv) = sv_ready sv"
  by (simp_all add: cancel_cg_def split: option.splits)

lemma subscribeCausalGraph_simps [simp]:
  "length (sv_sims (subscribeCausalGraph i sv)) = length (sv_sims sv)" "sv_sim (subscribeCausalGraph i sv) = sv_sim sv"
  "sv_kv (subscribeCausalGraph i sv) = sv_kv sv" "sv_kvSim (subscribeCausalGraph i sv) = sv_kvSim sv"
  "sv_causalGraph (subscribeCausalGraph i sv) = sv_causalGraph sv" "sv_runners (subscribeCausalGraph i sv) = sv_runners sv"
  "sv_auth (subscribeCausalGraph i sv) = sv_auth sv"
  by (simp_all add: subscribeCausalGraph_def Let_def)

lemma hub_put_simps [simp]:
  "sv_sim (hub_put w sv) = sv_sim sv" "sv_kv (hub_put w sv) = sv_kv sv" "sv_kvSim (hub_put w sv) = sv_kvSim sv"
  "sv_causalGraph (hub_put w sv) = sv_causalGraph sv" "sv_runners (hub_put w sv) = sv_runners sv" "sv_auth (hub_put w sv) = sv_auth sv"
  by (simp_all add: hub_put_def)

lemma setSim_simps [simp]:
  "length (sv_sims (setSim now sim sv)) = Suc (length (sv_sims sv))" "sv_sim (setSim now sim sv) = length (sv_sims sv)"
  "sv_kv (setSim now sim sv) = sv_kv sv" "sv_kvSim (setSim now sim sv) = sv_kvSim sv"
  "sv_causalGraph (setSim now sim sv) = sv_causalGraph sv" "sv_runners (setSim now sim sv) = sv_runners sv"
  "sv_auth (setSim now sim sv) = sv_auth sv"
  by (simp_all add: setSim_def Let_def)

lemma hub_settle_inv:
  assumes "hub_inv w"
  shows "hub_inv (hub_settle w)"
proof (cases "hub_start w")
  case (Some w')
  then show ?thesis using assms by (simp add: hub_settle_def hub_started_inv)
next
  case None
  have inv: "run_inv w" using assms by (simp add: hub_inv_def)
  obtain d where d: "map_of (hw_runs w) d \<noteq> None" using None hub_start_iff [OF inv] by auto
  obtain w' where w': "hub_start (run_exit d w) = Some w'" using run_exit_start [OF inv d] by auto
  have "hub_runDone (hw_hub w) = Some d" using d run_inv_D(1) [OF inv, of d] by simp
  then show ?thesis using None w' hub_started_inv [OF hub_exit_inv [OF assms d] w'] by (simp add: hub_settle_def)
qed

text \<open>After it exactly one fan-out goroutine is live, and the hub keeps its bus and its subscription.\<close>

lemma hub_settle_started:
  assumes "run_inv w"
  shows "gm_len (hw_runs (hub_settle w)) = 1" "hub_bus (hw_hub (hub_settle w)) = hub_bus (hw_hub w)"
    "hub_sub (hw_hub (hub_settle w)) = hub_sub (hw_hub w)" "hw_buses (hub_settle w) = hw_buses w"
proof -
  have "\<exists>v v'. run_inv v \<and> hub_start v = Some v' \<and> hub_settle w = v'\<lparr>hw_starts := hw_starts w - 1\<rparr> \<and> hw_hub v = hw_hub w \<and> hw_buses v = hw_buses w"
  proof (cases "hub_start w")
    case (Some w')
    then show ?thesis using assms by (auto simp: hub_settle_def)
  next
    case None
    then obtain d where d: "map_of (hw_runs w) d \<noteq> None" using hub_start_iff [OF assms] by auto
    obtain w' where w': "hub_start (run_exit d w) = Some w'" using run_exit_start [OF assms d] by auto
    have "hub_runDone (hw_hub w) = Some d" using d run_inv_D(1) [OF assms, of d] by simp
    then show ?thesis using None w' run_exit_inv [OF assms d]
      by (intro exI [of _ "run_exit d w"] exI [of _ w']) (simp add: hub_settle_def)
  qed
  then obtain v v' where v: "run_inv v" "hub_start v = Some v'" "hub_settle w = v'\<lparr>hw_starts := hw_starts w - 1\<rparr>"
    "hw_hub v = hw_hub w" "hw_buses v = hw_buses w" by blast
  have "map_of (hw_runs v) d = None" for d using hub_start_iff [OF v(1)] v(2) by auto
  then have "gm_len (hw_runs v') = 1" using hub_start_simps(3) [OF v(2)] by (simp add: gm_len_conv_keys dom_def)
  with v hub_start_simps [OF v(2)] hub_start_buses [OF v(2)]
  show "gm_len (hw_runs (hub_settle w)) = 1" "hub_bus (hw_hub (hub_settle w)) = hub_bus (hw_hub w)"
    "hub_sub (hw_hub (hub_settle w)) = hub_sub (hw_hub w)" "hw_buses (hub_settle w) = hw_buses w" by simp_all
qed

text \<open>\<open>hub_settle\<close> is a run of the hub: the cancelled goroutine leaves, then \<^verbatim>\<open>start\<close> returns.\<close>

lemma hub_settle_steps:
  assumes "run_inv w" "0 < hw_starts w" "run_cancelled w \<or> (\<forall>d. map_of (hw_runs w) d = None)"
  shows "(hub_step marshal)\<^sup>*\<^sup>* w (hub_settle w)" "hw_starts (hub_settle w) = hw_starts w - 1"
proof -
  have "(hub_step marshal)\<^sup>*\<^sup>* w (hub_settle w) \<and> hw_starts (hub_settle w) = hw_starts w - 1"
  proof (cases "hub_start w")
    case (Some w')
    then show ?thesis using started [OF assms(2) Some, of marshal] by (auto simp: hub_settle_def)
  next
    case None
    then obtain d where d: "map_of (hw_runs w) d \<noteq> None" using hub_start_iff [OF assms(1)] by auto
    then have rd: "hub_runDone (hw_hub w) = Some d" using run_inv_D(1) [OF assms(1), of d] by simp
    have ex: "hub_step marshal w (run_exit d w)" using d assms(3) by (intro fans_out [OF run_exit_step]) auto
    obtain w' where w': "hub_start (run_exit d w) = Some w'" using run_exit_start [OF assms(1) d] by auto
    have "hub_step marshal (run_exit d w) (w'\<lparr>hw_starts := hw_starts w - 1\<rparr>)"
      using started [of "run_exit d w" w' marshal] w' assms(2) by simp
    with ex None rd w' show ?thesis by (auto simp: hub_settle_def)
  qed
  then show "(hub_step marshal)\<^sup>*\<^sup>* w (hub_settle w)" "hw_starts (hub_settle w) = hw_starts w - 1" by auto
qed

end
