(* ===== verification/Gateway_Rest.thy ===== *)
theory Gateway_Rest
  imports Gateway_Server
begin

text \<open>
  \<^verbatim>\<open>gateway/rest.go\<close>: the handlers. A handler is a function of the request and the server to a
  response (status and body) and the server. What \<^verbatim>\<open>ShouldBindJSON\<close> does is a parameter of each
  request: whether it succeeded, and the struct it filled. The clock readings of the operations
  are those of \<open>scen_env\<close>. A body is a value of the type \<open>body\<close>, whose JSON form is left to the
  encoder. \<^verbatim>\<open>handlePrometheusMetrics\<close> is in \<^verbatim>\<open>Gateway_Metrics\<close>, \<^verbatim>\<open>handleWS\<close> in
  \<^verbatim>\<open>Gateway_Hub\<close>; the uptime of \<^verbatim>\<open>handleHealthz\<close> is left out.
\<close>

section \<open>Validation\<close>

datatype pid_error = PidRequired | PidTooLong | PidMalformed

fun pid_error_text :: "pid_error \<Rightarrow> string" where
  "pid_error_text PidRequired = ''process id required''"
| "pid_error_text PidTooLong = ''process id too long''"
| "pid_error_text PidMalformed = ''process id must match [A-Za-z0-9][A-Za-z0-9_.-]{0,63}''"

definition alnum :: "char \<Rightarrow> bool" where
  "alnum c \<longleftrightarrow> CHR ''A'' \<le> c \<and> c \<le> CHR ''Z'' \<or> CHR ''a'' \<le> c \<and> c \<le> CHR ''z'' \<or> CHR ''0'' \<le> c \<and> c \<le> CHR ''9''"

text \<open>The strings that \<^verbatim>\<open>pidPattern\<close> matches.\<close>

definition pidPattern :: "string \<Rightarrow> bool" where
  "pidPattern s = (case s of
     [] \<Rightarrow> False
   | c # cs \<Rightarrow> alnum c \<and> list_all (\<lambda>x. alnum x \<or> x \<in> set ''_.-'') cs \<and> length cs \<le> 63)"

definition validatePID :: "string \<Rightarrow> pid_error option" where
  "validatePID s =
     (if s = '''' then Some PidRequired
      else if length s > 64 then Some PidTooLong
      else if \<not> pidPattern s then Some PidMalformed
      else None)"

definition parseClockType :: "string \<Rightarrow> ClockType option" where
  "parseClockType s =
     (if s = '''' \<or> s = ''vector'' then Some ClockVector
      else if s = ''lamport'' then Some ClockLamport
      else if s = ''matrix'' then Some ClockMatrix
      else None)"

definition parseDeliveryMode :: "string \<Rightarrow> DeliveryMode option" where
  "parseDeliveryMode s =
     (if s = '''' \<or> s = ''causal'' then Some CausalDelivery
      else if s = ''immediate'' then Some ImmediateDelivery
      else if s = ''total_order'' then Some TotalOrderDelivery
      else None)"

definition Contains :: "string \<Rightarrow> string \<Rightarrow> bool" where
  "Contains s sub = list_ex (\<lambda>i. take (length sub) (drop i s) = sub) [0 ..< length s + 1]"

fun transport_error_text :: "transport_error \<Rightarrow> string" where
  "transport_error_text TransportClosed = ''transport closed''"
| "transport_error_text (NoChannel p q) = ''no channel '' @ p @ arrow @ q"
| "transport_error_text ChannelFull = ''channel full''"

fun sim_error_text :: "sim_error \<Rightarrow> string" where
  "sim_error_text IDRequired = ''process id is required''"
| "sim_error_text IDTooLong = ''process id too long''"
| "sim_error_text (AlreadyExists p) = ''process '' @ p @ '' already exists''"
| "sim_error_text LimitReached = ''process limit reached (max '' @ dec MaxSimulationProcesses @ ''); reset simulation to add more''"
| "sim_error_text (ProcessNotFound p) = ''process '' @ p @ '' not found''"
| "sim_error_text (SendFailed e) = transport_error_text e"
| "sim_error_text (BroadcastFailed p e) = ''broadcast to '' @ p @ '': '' @ transport_error_text e"
| "sim_error_text (SnapshotFailed p) = ''snapshot: process '' @ p @ '' not registered''"

section \<open>Requests and responses\<close>

record startRequest =
  sr_ProcessCount :: int
  sr_ClockType :: string
  sr_DeliveryMode :: string

record spawnRequest =
  spr_ID :: string
  spr_ClockType :: string
  spr_DeliveryMode :: string

record sendRequest =
  ser_From :: string
  ser_To :: string
  ser_Data :: "string option"

record delayRequest =
  der_From :: string
  der_To :: string
  der_DelayMs :: int

record kvWriteRequest =
  kw_Value :: bytes
  kw_AuthorID :: string
  kw_ContextVC :: vclock

text \<open>The outcome of \<^verbatim>\<open>ShouldBindJSON\<close>.\<close>

type_synonym 'r bound = "bool \<times> 'r"

datatype body =
    ErrorBody string
  | CountBody string int
  | StateBody SimulationState
  | NameBody string
  | ProcessBody ProcessState
  | OkBody
  | SnapshotBody "(string, snap_state) SnapshotDTO"
  | VerifyBody string "VerificationResult option"
  | OrderBody bool bool string string
  | FaultsBody FaultState
  | PartitionBody "pid list list"
  | WriteBody string bool vclock string
  | VersionsBody string "ValueVersion list"
  | WinnerBody string ValueVersion string
  | ScenariosBody "(string \<times> string \<times> nat) list"
  | DropsBody u64
  | ReadyBody bool string

type_synonym response = "nat \<times> body"

definition safeError :: "nat \<Rightarrow> string \<Rightarrow> Server \<Rightarrow> response \<times> Server" where
  "safeError status publicMsg sv = ((status, ErrorBody publicMsg), sv)"

text \<open>The message \<^verbatim>\<open>invalid 'f'\<close> for a field \<open>f\<close>.\<close>

definition invalid_field :: "string \<Rightarrow> string" where
  "invalid_field f = ''invalid '' @ [CHR 0x27] @ f @ [CHR 0x27]"

text \<open>The result of an operation on the current simulation.\<close>

definition on_sim :: "(string Simulation \<Rightarrow> (sim_error + 'a) \<times> string Simulation) \<Rightarrow> Server \<Rightarrow> (sim_error + 'a) \<times> Server" where
  "on_sim f sv = (case f (getSim sv) of (r, s) \<Rightarrow> (r, upd_sim (\<lambda>_. s) sv))"

section \<open>Health\<close>

definition handleHealthz :: "Server \<Rightarrow> response \<times> Server" where
  "handleHealthz sv = ((200, NameBody ''ok''), sv)"

text \<open>The server always has a simulation, so the answer for none is left out.\<close>

definition handleReadyz :: "Server \<Rightarrow> response \<times> Server" where
  "handleReadyz sv =
     (if \<not> sv_ready sv then ((503, ReadyBody False ''''), sv) else ((200, ReadyBody True ''''), sv))"

section \<open>Simulation control\<close>

definition proc_name :: "nat \<Rightarrow> pid" where
  "proc_name i = CHR ''P'' # dec (i + 1)"

text \<open>The loop that spawns P1, P2, ... and only logs errors.\<close>

definition spawn_one :: "scen_env \<Rightarrow> ClockType \<Rightarrow> DeliveryMode \<Rightarrow> nat \<Rightarrow> string Simulation \<Rightarrow> string Simulation" where
  "spawn_one e ct dm i s = snd (SpawnProcess (se_now e)
     \<lparr>cfg_ID = proc_name i, cfg_ClockType = ct, cfg_DeliveryMode = dm, cfg_Peers = [], cfg_AllPIDs = []\<rparr> s)"

definition spawn_count :: "scen_env \<Rightarrow> int \<Rightarrow> ClockType \<Rightarrow> DeliveryMode \<Rightarrow> string Simulation \<Rightarrow> string Simulation" where
  "spawn_count e n ct dm s = fold (spawn_one e ct dm) [0 ..< nat n] s"

definition handleSimulationStart :: "scen_env \<Rightarrow> startRequest bound \<Rightarrow> Server \<Rightarrow> response \<times> Server" where
  "handleSimulationStart e b sv =
     (case b of (ok, req) \<Rightarrow>
        if \<not> ok then safeError 400 ''invalid request body'' sv
        else if sr_ProcessCount req < 1 \<or> sr_ProcessCount req > 100
        then safeError 400 ''processCount must be between 1 and 100'' sv
        else let clockType = (if sr_ClockType req = '''' then ''vector'' else sr_ClockType req)
             in case parseClockType clockType of
                  None \<Rightarrow> safeError 400 ''invalid clockType'' sv
                | Some ct \<Rightarrow>
                    (case parseDeliveryMode (sr_DeliveryMode req) of
                       None \<Rightarrow> safeError 400 ''invalid deliveryMode'' sv
                     | Some dm \<Rightarrow>
                         ((200, CountBody ''started'' (sr_ProcessCount req)),
                          upd_sim (spawn_count e (sr_ProcessCount req) ct dm) sv)))"

definition handleSimulationReset :: "scen_env \<Rightarrow> startRequest bound \<Rightarrow> Server \<Rightarrow> response \<times> Server" where
  "handleSimulationReset e b sv =
     (let req = snd b;
          clockType = (if sr_ClockType req = '''' then ''vector'' else sr_ClockType req);
          deliveryMode = (if sr_DeliveryMode req = '''' then CausalDelivery else sr_DeliveryMode req);
          n = (if sr_ProcessCount req < 1 \<or> sr_ProcessCount req > 100 then 3 else sr_ProcessCount req)
      in case parseClockType clockType of
           None \<Rightarrow> safeError 400 ''invalid clockType'' sv
         | Some ct \<Rightarrow>
             (case parseDeliveryMode deliveryMode of
                None \<Rightarrow> safeError 400 ''invalid deliveryMode'' sv
              | Some dm \<Rightarrow>
                  let newSim = spawn_count e n ct dm
                        (simulation_New \<lparr>sc_ClockType = ct, sc_DeliveryMode = dm, sc_Channels = ''full_mesh''\<rparr>)
                  in ((200, CountBody ''reset'' n), setSim (se_now e) newSim sv)))"

definition handleSimulationState :: "Server \<Rightarrow> response \<times> Server" where
  "handleSimulationState sv = ((200, StateBody (GetState (getSim sv))), sv)"

definition handleSimulationConfig :: "string bound \<Rightarrow> Server \<Rightarrow> response \<times> Server" where
  "handleSimulationConfig b sv =
     (case b of (ok, deliveryMode) \<Rightarrow>
        if \<not> ok then safeError 400 ''invalid request body'' sv
        else case parseDeliveryMode deliveryMode of
               None \<Rightarrow> safeError 400 ''invalid deliveryMode'' sv
             | Some dm \<Rightarrow> ((200, NameBody deliveryMode), upd_sim (sim_SetDeliveryMode dm) sv))"

section \<open>Processes\<close>

definition handleSpawnProcess :: "scen_env \<Rightarrow> spawnRequest bound \<Rightarrow> Server \<Rightarrow> response \<times> Server" where
  "handleSpawnProcess e b sv =
     (case b of (ok, req) \<Rightarrow>
        if \<not> ok then safeError 400 ''invalid request body'' sv
        else case validatePID (spr_ID req) of
          Some err \<Rightarrow> safeError 400 (pid_error_text err) sv
        | None \<Rightarrow>
            (case parseClockType (spr_ClockType req) of
               None \<Rightarrow> safeError 400 ''invalid clockType'' sv
             | Some ct \<Rightarrow>
                 (case parseDeliveryMode (spr_DeliveryMode req) of
                    None \<Rightarrow> safeError 400 ''invalid deliveryMode'' sv
                  | Some dm \<Rightarrow>
                      (case on_sim (SpawnProcess (se_now e) \<lparr>cfg_ID = spr_ID req, cfg_ClockType = ct,
                              cfg_DeliveryMode = dm, cfg_Peers = [], cfg_AllPIDs = []\<rparr>) sv of
                         (Inl err, sv') \<Rightarrow> safeError 409 (sim_error_text err) sv'
                       | (Inr u, sv') \<Rightarrow> ((201, NameBody (spr_ID req)), sv')))))"

text \<open>The goroutine of the handler goes on with the last two stages of \<^verbatim>\<open>KillProcess\<close>, which are steps of the
  simulation, before it answers.\<close>

definition handleKillProcess :: "string \<Rightarrow> Server \<Rightarrow> response \<times> Server" where
  "handleKillProcess p sv =
     (case validatePID p of
        Some err \<Rightarrow> safeError 400 (pid_error_text err) sv
      | None \<Rightarrow>
          (case on_sim (KillProcess_begin p) sv of
             (Inl err, sv') \<Rightarrow> safeError 404 (sim_error_text err) sv'
           | (Inr u, sv') \<Rightarrow> ((200, NameBody p), sv')))"

definition handleGetProcess :: "string \<Rightarrow> Server \<Rightarrow> response \<times> Server" where
  "handleGetProcess p sv =
     (case validatePID p of
        Some err \<Rightarrow> safeError 400 (pid_error_text err) sv
      | None \<Rightarrow>
          (case GetProcess p (getSim sv) of
             None \<Rightarrow> safeError 404 ''process not found'' sv
           | Some pr \<Rightarrow> ((200, ProcessBody (process_Snapshot pr)), sv)))"

definition handleInternalEvent :: "scen_env \<Rightarrow> string \<Rightarrow> Server \<Rightarrow> response \<times> Server" where
  "handleInternalEvent e p sv =
     (case validatePID p of
        Some err \<Rightarrow> safeError 400 (pid_error_text err) sv
      | None \<Rightarrow>
          (case on_sim (sim_InternalEvent (se_now e) p) sv of
             (Inl err, sv') \<Rightarrow> safeError 404 (sim_error_text err) sv'
           | (Inr u, sv') \<Rightarrow> ((200, OkBody), sv')))"

definition handleTriggerSnapshot :: "scen_env \<Rightarrow> string \<Rightarrow> Server \<Rightarrow> response \<times> Server" where
  "handleTriggerSnapshot e p sv =
     (case validatePID p of
        Some err \<Rightarrow> safeError 400 (pid_error_text err) sv
      | None \<Rightarrow>
          (case on_sim (TriggerSnapshot (se_nano e) (se_start e) p) sv of
             (Inl err, sv') \<Rightarrow>
               if Contains (sim_error_text err) ''not found'' then safeError 404 ''process not found'' sv'
               else safeError 500 ''snapshot failed'' sv'
           | (Inr snapID, sv') \<Rightarrow> ((200, NameBody snapID), sv')))"

section \<open>Messages\<close>

definition handleSendMessage :: "scen_env \<Rightarrow> sendRequest bound \<Rightarrow> Server \<Rightarrow> response \<times> Server" where
  "handleSendMessage e b sv =
     (case b of (ok, req) \<Rightarrow>
        if \<not> ok then safeError 400 ''invalid request body'' sv
        else if validatePID (ser_From req) \<noteq> None then safeError 400 (invalid_field ''from'') sv
        else if validatePID (ser_To req) \<noteq> None then safeError 400 (invalid_field ''to'') sv
        else case on_sim (SendMessage (se_now e) (se_sent e) (ser_From req) (ser_To req) (ser_Data req)) sv of
               (Inl err, sv') \<Rightarrow> safeError 500 ''send failed'' sv'
             | (Inr u, sv') \<Rightarrow> ((200, OkBody), sv'))"

text \<open>The request carries \<^verbatim>\<open>from\<close> and \<^verbatim>\<open>data\<close> only.\<close>

definition handleBroadcast :: "scen_env \<Rightarrow> (string \<times> string option) bound \<Rightarrow> Server \<Rightarrow> response \<times> Server" where
  "handleBroadcast e b sv =
     (case b of (ok, from, data) \<Rightarrow>
        if \<not> ok then safeError 400 ''invalid request body'' sv
        else if validatePID from \<noteq> None then safeError 400 (invalid_field ''from'') sv
        else case on_sim (BroadcastMessage (se_now e) (se_sent e) from data) sv of
               (Inl err, sv') \<Rightarrow> safeError 500 ''broadcast failed'' sv'
             | (Inr u, sv') \<Rightarrow> ((200, OkBody), sv'))"

section \<open>Snapshots and causality\<close>

definition handleGetSnapshot :: "string \<Rightarrow> Server \<Rightarrow> response \<times> Server" where
  "handleGetSnapshot sid sv =
     (case sim_GetSnapshot sid (getSim sv) of
        None \<Rightarrow> safeError 404 ''snapshot not found'' sv
      | Some gs \<Rightarrow> ((200, SnapshotBody (gs_ToDTO gs)), sv))"

definition handleVerifySnapshot :: "string \<Rightarrow> Server \<Rightarrow> response \<times> Server" where
  "handleVerifySnapshot sid sv =
     (case sim_GetSnapshot sid (getSim sv) of
        None \<Rightarrow> safeError 404 ''snapshot not found'' sv
      | Some gs \<Rightarrow> ((200, VerifyBody sid (Verify gs)), sv))"

definition handleHappenedBefore :: "string \<Rightarrow> string \<Rightarrow> Server \<Rightarrow> response \<times> Server" where
  "handleHappenedBefore a b sv =
     (if a = '''' \<or> b = '''' then safeError 400 ''query params 'a' and 'b' required'' sv
      else ((200, OrderBody (causality_HappenedBefore (sv_causalGraph sv) a b)
                    (causality_Concurrent (sv_causalGraph sv) a b) a b), sv))"

section \<open>Faults\<close>

definition handleFaultDelay :: "delayRequest bound \<Rightarrow> Server \<Rightarrow> response \<times> Server" where
  "handleFaultDelay b sv =
     (case b of (ok, req) \<Rightarrow>
        if \<not> ok then safeError 400 ''invalid request body'' sv
        else if validatePID (der_From req) \<noteq> None then safeError 400 (invalid_field ''from'') sv
        else if validatePID (der_To req) \<noteq> None then safeError 400 (invalid_field ''to'') sv
        else if der_DelayMs req < 0 \<or> der_DelayMs req > 600000 then safeError 400 ''delayMs must be between 0 and 600000'' sv
        else ((200, OkBody), upd_sim (sim_InjectDelay (der_From req) (der_To req) (der_DelayMs req)) sv))"

definition handleFaultDrop :: "(string \<times> string) bound \<Rightarrow> Server \<Rightarrow> response \<times> Server" where
  "handleFaultDrop b sv =
     (case b of (ok, from, to) \<Rightarrow>
        if \<not> ok then safeError 400 ''invalid request body'' sv
        else if validatePID from \<noteq> None then safeError 400 (invalid_field ''from'') sv
        else if validatePID to \<noteq> None then safeError 400 (invalid_field ''to'') sv
        else ((200, OkBody), upd_sim (sim_InjectDrop from to) sv))"

definition handleClearFaults :: "Server \<Rightarrow> response \<times> Server" where
  "handleClearFaults sv = ((200, OkBody), upd_sim (\<lambda>s. s\<lparr>sim_transport := ClearFaults (sim_transport s)\<rparr>) sv)"

definition handleGetFaults :: "Server \<Rightarrow> response \<times> Server" where
  "handleGetFaults sv = ((200, FaultsBody (GetFaults (sim_transport (getSim sv)))), sv)"

definition handleFaultPartition :: "(pid list \<times> pid list) bound \<Rightarrow> Server \<Rightarrow> response \<times> Server" where
  "handleFaultPartition b sv =
     (case b of (ok, sideA, sideB) \<Rightarrow>
        if \<not> ok then safeError 400 ''invalid request body'' sv
        else if length sideA = 0 \<or> length sideB = 0 then safeError 400 ''sideA and sideB must each be non-empty'' sv
        else if length sideA > 256 \<or> length sideB > 256 then safeError 400 ''partition side too large (max 256 entries)'' sv
        else if list_ex (\<lambda>p. validatePID p \<noteq> None) (sideA @ sideB) then safeError 400 ''invalid process id in partition'' sv
        else ((200, PartitionBody [sideA, sideB]), upd_sim (sim_SetPartition [sideA, sideB]) sv))"

definition handleHealPartition :: "Server \<Rightarrow> response \<times> Server" where
  "handleHealPartition sv = ((200, PartitionBody []), upd_sim (sim_SetPartition []) sv)"

section \<open>Key-value store\<close>

text \<open>The detector publishes on the bus of the simulation it was made with.\<close>

definition kv_detector :: "Server \<Rightarrow> string ConflictDetector" where
  "kv_detector sv = \<lparr>cd_store = sv_kv sv, cd_bus = Some (sim_bus (sv_sims sv ! sv_kvSim sv))\<rparr>"

definition kv_put :: "string ConflictDetector \<Rightarrow> Server \<Rightarrow> Server" where
  "kv_put d sv =
     (case cd_bus d of
        None \<Rightarrow> sv\<lparr>sv_kv := cd_store d\<rparr>
      | Some bus \<Rightarrow> sv\<lparr>sv_kv := cd_store d, sv_sims := (sv_sims sv)[sv_kvSim sv := (sv_sims sv ! sv_kvSim sv)\<lparr>sim_bus := bus\<rparr>]\<rparr>)"

definition handleKVWrite :: "int \<Rightarrow> int \<Rightarrow> string \<Rightarrow> kvWriteRequest bound \<Rightarrow> Server \<Rightarrow> response \<times> Server" where
  "handleKVWrite now1 now2 key b sv =
     (case b of (ok, req) \<Rightarrow>
        if key = '''' \<or> length key > 256 then safeError 400 ''invalid key'' sv
        else if \<not> ok then safeError 400 ''invalid request body'' sv
        else if length (kw_Value req) > 2 ^ 20 then safeError 413 ''value too large'' sv
        else if kw_AuthorID req = '''' then safeError 400 ''authorId required'' sv
        else if validatePID (kw_AuthorID req) \<noteq> None then safeError 400 ''invalid authorId'' sv
        else case conflict_Write now1 now2 key (kw_Value req) (kw_ContextVC req) (kw_AuthorID req) (kv_detector sv) of
               (Inl err, d) \<Rightarrow> safeError 503 ''kv write failed'' (kv_put d sv)
             | (Inr (ver, isConflict), d) \<Rightarrow>
                 ((200, WriteBody key isConflict (vv_Clock ver) (vv_Author ver)), kv_put d sv))"

definition handleKVRead :: "string \<Rightarrow> Server \<Rightarrow> response \<times> Server" where
  "handleKVRead key sv =
     (if key = '''' \<or> length key > 256 then safeError 400 ''invalid key'' sv
      else if map_of (sv_kv sv) key = None then safeError 404 ''key not found'' sv
      else ((200, VersionsBody key (conflict_Read (kv_detector sv) key)), sv))"

definition parseStrategy :: "string \<Rightarrow> ConflictResolution option" where
  "parseStrategy s =
     (if s = ''first_writer_wins'' then Some FirstWriterWins
      else if s = ''keep_all'' then Some KeepAll
      else if s = '''' \<or> s = ''last_writer_wins'' then Some LastWriterWins
      else None)"

definition handleKVResolve :: "string \<Rightarrow> string bound \<Rightarrow> Server \<Rightarrow> response \<times> Server" where
  "handleKVResolve key b sv =
     (if key = '''' \<or> length key > 256 then safeError 400 ''invalid key'' sv
      else case parseStrategy (snd b) of
             None \<Rightarrow> safeError 400 ''unknown strategy'' sv
           | Some strategy \<Rightarrow>
               (case conflict_ResolveKey key strategy (kv_detector sv) of
                  (None, d) \<Rightarrow> safeError 404 ''key not found'' (kv_put d sv)
                | (Some winner, d) \<Rightarrow> ((200, WinnerBody key winner (snd b)), kv_put d sv)))"

section \<open>Scenarios and metrics\<close>

definition handleListScenarios :: "scen_env \<Rightarrow> Server \<Rightarrow> response \<times> Server" where
  "handleListScenarios e sv =
     ((200, ScenariosBody (map (\<lambda>sc. (sc_Name sc, sc_Description sc, length (sc_Steps sc))) (AllScenarios e))), sv)"

text \<open>The handler starts a runner goroutine, which has not yet read the current simulation (\<open>None\<close>). The first step
  of the goroutine does so, and each further one runs a step of the scenario on that simulation.\<close>

definition handleRunScenario :: "scen_env \<Rightarrow> string \<Rightarrow> Server \<Rightarrow> response \<times> Server" where
  "handleRunScenario e nm sv =
     (if nm = '''' \<or> length nm > 128 then safeError 400 ''invalid scenario name'' sv
      else case find (\<lambda>sc. sc_Name sc = nm) (AllScenarios e) of
             None \<Rightarrow> safeError 404 ''scenario not found'' sv
           | Some sc \<Rightarrow> ((200, NameBody nm), sv\<lparr>sv_runners := sv_runners sv @ [(None, sc_Steps sc)]\<rparr>))"

definition runner_step :: "nat \<Rightarrow> Server \<Rightarrow> Server" where
  "runner_step i sv =
     (case sv_runners sv ! i of
        (None, steps) \<Rightarrow> sv\<lparr>sv_runners := (sv_runners sv)[i := (Some (sv_sim sv), steps)]\<rparr>
      | (Some k, []) \<Rightarrow> sv
      | (Some k, step # steps) \<Rightarrow>
          sv\<lparr>sv_sims := (sv_sims sv)[k := snd (run_step step (sv_sims sv ! k))],
             sv_runners := (sv_runners sv)[i := (Some k, steps)]\<rparr>)"

definition handleMetrics :: "Server \<Rightarrow> response \<times> Server" where
  "handleMetrics sv = ((200, DropsBody (events_DropCount (sim_bus (getSim sv)))), sv)"

section \<open>Routes\<close>

text \<open>One constructor per route of \<^verbatim>\<open>registerRoutes\<close>, with the parameters its handler reads.\<close>

datatype request =
    StartSim "startRequest bound" | ResetSim "startRequest bound" | SimState | SimConfigure "string bound"
  | SpawnProc "spawnRequest bound" | KillProc string | GetProc string | EventProc string | SnapshotProc string
  | SendMsg "sendRequest bound" | BroadcastMsg "(string \<times> string option) bound"
  | GetSnap string | VerifySnap string | HappenedBeforeQ string string
  | FaultsGet | FaultDelay "delayRequest bound" | FaultDrop "(string \<times> string) bound" | FaultsClear
  | PartitionSet "(pid list \<times> pid list) bound" | PartitionHeal
  | KVWrite int int string "kvWriteRequest bound" | KVRead string | KVResolve string "string bound"
  | ScenarioList | ScenarioRun string | MetricsGet | Healthz | Readyz

fun dispatch :: "scen_env \<Rightarrow> request \<Rightarrow> Server \<Rightarrow> response \<times> Server" where
  "dispatch e (StartSim b) sv = handleSimulationStart e b sv"
| "dispatch e (ResetSim b) sv = handleSimulationReset e b sv"
| "dispatch e SimState sv = handleSimulationState sv"
| "dispatch e (SimConfigure b) sv = handleSimulationConfig b sv"
| "dispatch e (SpawnProc b) sv = handleSpawnProcess e b sv"
| "dispatch e (KillProc p) sv = handleKillProcess p sv"
| "dispatch e (GetProc p) sv = handleGetProcess p sv"
| "dispatch e (EventProc p) sv = handleInternalEvent e p sv"
| "dispatch e (SnapshotProc p) sv = handleTriggerSnapshot e p sv"
| "dispatch e (SendMsg b) sv = handleSendMessage e b sv"
| "dispatch e (BroadcastMsg b) sv = handleBroadcast e b sv"
| "dispatch e (GetSnap p) sv = handleGetSnapshot p sv"
| "dispatch e (VerifySnap p) sv = handleVerifySnapshot p sv"
| "dispatch e (HappenedBeforeQ a b) sv = handleHappenedBefore a b sv"
| "dispatch e FaultsGet sv = handleGetFaults sv"
| "dispatch e (FaultDelay b) sv = handleFaultDelay b sv"
| "dispatch e (FaultDrop b) sv = handleFaultDrop b sv"
| "dispatch e FaultsClear sv = handleClearFaults sv"
| "dispatch e (PartitionSet b) sv = handleFaultPartition b sv"
| "dispatch e PartitionHeal sv = handleHealPartition sv"
| "dispatch e (KVWrite t1 t2 key b) sv = handleKVWrite t1 t2 key b sv"
| "dispatch e (KVRead key) sv = handleKVRead key sv"
| "dispatch e (KVResolve key b) sv = handleKVResolve key b sv"
| "dispatch e ScenarioList sv = handleListScenarios e sv"
| "dispatch e (ScenarioRun nm) sv = handleRunScenario e nm sv"
| "dispatch e MetricsGet sv = handleMetrics sv"
| "dispatch e Healthz sv = handleHealthz sv"
| "dispatch e Readyz sv = handleReadyz sv"

text \<open>
  The chain of middleware that \<^verbatim>\<open>NewServerWithRateLimit\<close> installs, in its order, then the handler.
  \<open>route\<close> is what the framework makes of the request's method and path (\<open>None\<close>: no such route). The
  result is the headers, the status with the body, and the server.
\<close>

definition serve :: "(http_request \<Rightarrow> request option) \<Rightarrow> scen_env \<Rightarrow> string \<Rightarrow> int \<Rightarrow> http_request \<Rightarrow> Server \<Rightarrow>
    headers \<times> response \<times> Server" where
  "serve route e uuid now r sv =
     (let hs = securityHeaders @ [(''X-Request-Id'', requestID uuid r)]
      in case maxBodyMiddleware MaxJSONBodyBytes r of
           Abort status msg \<Rightarrow> (hs, (status, ErrorBody msg), sv)
         | Pass _ \<Rightarrow>
             (case corsMiddleware (sv_allowed sv) r of
                (ch, Abort status msg) \<Rightarrow> (hs @ ch, (status, ErrorBody msg), sv)
              | (ch, Pass _) \<Rightarrow>
                  (case limit_request now r sv of
                     (Abort status msg, sv1) \<Rightarrow> (hs @ ch @ [(''Retry-After'', ''1'')], (status, ErrorBody msg), sv1)
                   | (Pass _, sv1) \<Rightarrow>
                       (case auth_Middleware (sv_auth sv1) (hr_Path r) (hr_Authorization r) of
                          Abort status msg \<Rightarrow> (hs @ ch, (status, ErrorBody msg), sv1)
                        | Pass _ \<Rightarrow>
                            (case route r of
                               None \<Rightarrow> (hs @ ch, (404, ErrorBody ''404 page not found''), sv1)
                             | Some q \<Rightarrow> (hs @ ch, dispatch e q sv1))))))"

end
