(* ===== verification/Gateway_Runs.thy ===== *)
theory Gateway_Runs
  imports Gateway_Rest
begin

text \<open>
  What holds in every state the server reaches, whatever requests arrive, over the chain of
  middleware or not, and whatever the goroutines of the simulations, the hub, the causal-graph
  subscriptions and the scenario runners do in between.
\<close>

section \<open>Simulations with valid identifiers\<close>

definition good_sim :: "'d Simulation \<Rightarrow> bool" where
  "good_sim s \<longleftrightarrow> wired s \<and> (\<forall>p \<in> live s. validatePID p = None)"

lemma good_bus [simp]: "good_sim (s\<lparr>sim_bus := b\<rparr>) = good_sim s"
  by (simp add: good_sim_def live_def wired_def kill_pending_def)

lemma good_New: "good_sim (simulation_New cfg)"
proof -
  have "wired (simulation_New cfg)" by (rule sim.inv_init) (auto simp: sim_init_def)
  then show ?thesis by (simp add: good_sim_def calm_New)
qed

lemma live_spawn: "live (snd (SpawnProcess now cfg s)) \<subseteq> insert (cfg_ID cfg) (live s)"
  by (auto simp: SpawnProcess_def Let_def live_def split: prod.splits if_splits)

lemma good_spawn:
  assumes "good_sim s" "validatePID (cfg_ID cfg) = None"
  shows "good_sim (snd (SpawnProcess now cfg s))"
  using assms live_spawn [of now cfg s] wired_step [OF sim_step.spawn [of s now cfg]] by (auto simp: good_sim_def)

lemma live_kill: "live (snd (KillProcess_begin p s)) \<subseteq> live s"
  by (auto simp: KillProcess_begin_def live_def split: option.splits if_splits)

text \<open>The other operations keep the set of processes or remove one.\<close>

lemma good_stepI: "sim_step s t \<Longrightarrow> good_sim s \<Longrightarrow> live t \<subseteq> live s \<Longrightarrow> good_sim t"
  using wired_step by (auto simp: good_sim_def)

lemma processes_ops [simp]:
  "sim_processes (snd (SendMessage now sent p q data s)) = sim_processes s"
  "sim_processes (snd (BroadcastMessage now sent p data s)) = sim_processes s"
  "sim_processes (snd (sim_InternalEvent now p s)) = sim_processes s"
  "sim_processes (snd (TriggerSnapshot nano start p s)) = sim_processes s"
  "sim_processes (sim_InjectDelay p q d s) = sim_processes s" "sim_processes (sim_InjectDrop p q s) = sim_processes s"
  "sim_processes (sim_SetPartition g s) = sim_processes s" "sim_processes (sim_SetDeliveryMode m s) = sim_processes s"
  "sim_processes (simulation_Stop now s) = sim_processes s"
  by (auto simp: SendMessage_def BroadcastMessage_def sim_InternalEvent_def TriggerSnapshot_def sim_InjectDelay_def
      sim_InjectDrop_def sim_SetPartition_def sim_SetDeliveryMode_def simulation_Stop_def split: option.splits prod.splits)

lemma processes_background: "sim_background s t \<Longrightarrow> sim_processes t = sim_processes s"
  by (auto elim!: sim_background.cases sim_forward.cases sim_handle.cases handleCausalGraphEvents.cases
      simp: killStage_effect(1))

lemma background_step: "sim_background s t \<Longrightarrow> sim_step s t"
  by (auto elim!: sim_background.cases intro: sim_step.intros)

named_theorems good_ops \<open>operations that keep a good simulation good\<close>

lemma good_send [good_ops]: "good_sim s \<Longrightarrow> good_sim (snd (SendMessage now sent p q data s))"
  by (rule good_stepI [OF sim_step.send]) (auto simp: live_def)

lemma good_broadcast [good_ops]: "good_sim s \<Longrightarrow> good_sim (snd (BroadcastMessage now sent p data s))"
  by (rule good_stepI [OF sim_step.broadcast]) (auto simp: live_def)

lemma good_event [good_ops]: "good_sim s \<Longrightarrow> good_sim (snd (sim_InternalEvent now p s))"
  by (rule good_stepI [OF sim_step.internal]) (auto simp: live_def)

lemma good_trigger [good_ops]: "good_sim s \<Longrightarrow> good_sim (snd (TriggerSnapshot nano start p s))"
  by (rule good_stepI [OF sim_step.trigger]) (auto simp: live_def)

lemma good_kill [good_ops]: "good_sim s \<Longrightarrow> good_sim (snd (KillProcess_begin p s))"
  by (rule good_stepI [OF sim_step.kill]) (auto dest: live_kill [THEN subsetD])

lemma good_faults [good_ops]:
  "good_sim s \<Longrightarrow> good_sim (sim_InjectDelay p q d s)" "good_sim s \<Longrightarrow> good_sim (sim_InjectDrop p q s)"
  "good_sim s \<Longrightarrow> good_sim (sim_SetPartition g s)" "good_sim s \<Longrightarrow> good_sim (sim_SetDeliveryMode m s)"
  "good_sim s \<Longrightarrow> good_sim (simulation_Stop now s)"
  "good_sim s \<Longrightarrow> good_sim (s\<lparr>sim_transport := ClearFaults (sim_transport s)\<rparr>)"
  by (erule good_stepI [rotated]; auto simp: live_def intro: sim_step.intros)+

lemma good_background: "sim_background s t \<Longrightarrow> good_sim s \<Longrightarrow> good_sim t"
  by (rule good_stepI [OF background_step]) (auto simp: live_def processes_background)

lemma good_partition [good_ops]: "good_sim s \<Longrightarrow> good_sim (snd (sc_partition g s))"
  using good_faults(3) [of s g] by (simp add: sc_partition_def sim_SetPartition_def)

lemma good_snapshot [good_ops]: "good_sim s \<Longrightarrow> good_sim (snd (sc_snapshot e p s))"
  using good_trigger [of s "se_nano e" "se_start e" p] by (auto simp: sc_snapshot_def split: prod.splits sum.splits)

lemma good_ring [good_ops]: "good_sim s \<Longrightarrow> good_sim (snd (ring_round e x s))"
  by (simp add: ring_round_def sc_send_def Let_def good_send)

lemma good_spawn_all:
  "good_sim s \<Longrightarrow> \<forall>p \<in> set ps. validatePID p = None \<Longrightarrow> good_sim (snd (spawn_all e ps ct dm s))"
proof (induction ps arbitrary: s)
  case (Cons p ps)
  let ?cfg = "\<lparr>cfg_ID = p, cfg_ClockType = ct, cfg_DeliveryMode = dm, cfg_Peers = [], cfg_AllPIDs = []\<rparr>"
  have "good_sim (snd (SpawnProcess (se_now e) ?cfg s))" using Cons.prems by (intro good_spawn) auto
  with Cons show ?case by (auto split: prod.splits sum.splits)
qed simp

text \<open>The steps of the scenarios.\<close>

lemma valid_P: "validatePID ''P1'' = None" "validatePID ''P2'' = None" "validatePID ''P3'' = None" "validatePID ''P4'' = None"
  by code_simp+

definition keeps_good :: "ScenarioStep \<Rightarrow> bool" where
  "keeps_good step \<longleftrightarrow> (\<forall>s. good_sim s \<longrightarrow> good_sim (snd (run_step step s)))"

lemma keeps_goodI: "(\<And>s. good_sim s \<Longrightarrow> good_sim (snd (act s))) \<Longrightarrow> keeps_good (scen_step d n act)"
  unfolding keeps_good_def run_scen_step by simp

lemma keeps_good_steps:
  "keeps_good (scen_step d n (sc_event e p))" "keeps_good (scen_step d n (sc_send e p q x))"
  "keeps_good (scen_step d n (sc_snapshot e p))" "keeps_good (scen_step d n (sc_partition g))"
  "keeps_good (scen_step d n (ring_round e x))"
  "list_all (\<lambda>p. validatePID p = None) ps \<Longrightarrow> keeps_good (scen_step d n (spawn_all e ps ct dm))"
  by (rule keeps_goodI; simp add: sc_event_def sc_send_def good_ops good_spawn_all list_all_iff)+

lemma good_scenarios:
  assumes "sc \<in> set (AllScenarios e)"
  shows "list_all keeps_good (sc_Steps sc)"
proof -
  consider "sc = basicLamport e" | "sc = concurrentWrites e" | "sc = causalViolation e" | "sc = causalDelivery_scenario e"
    | "sc = snapshot3P e" | "sc = falseConflict e" | "sc = matrixGC e" | "sc = partitionAndHeal e"
    using assms by (auto simp: AllScenarios_def)
  then show ?thesis
    by cases (simp_all add: keeps_good_steps valid_P basicLamport_def concurrentWrites_def causalViolation_def
        causalDelivery_scenario_def snapshot3P_def falseConflict_def matrixGC_def partitionAndHeal_def)
qed

section \<open>The names of spawned processes\<close>

lemma alnum_digit: "n < 10 \<Longrightarrow> alnum (digit n)"
proof -
  assume "n < 10"
  then have "n \<in> {0, 1, 2, 3, 4, 5, 6, 7, 8, 9}" by auto
  then show ?thesis by (elim insertE emptyE; simp add: digit_def alnum_def; code_simp)
qed

lemma alnum_dec: "list_all alnum (dec n)"
proof (induction n rule: dec.induct)
  case (1 n)
  then show ?case by (subst dec.simps) (auto simp: alnum_digit)
qed

lemma length_dec: "n < 10 ^ k \<Longrightarrow> 0 < k \<Longrightarrow> length (dec n) \<le> k"
proof (induction n arbitrary: k rule: dec.induct)
  case (1 n)
  show ?case
  proof (cases "n < 10")
    case True
    then show ?thesis using 1 by (subst dec.simps) simp
  next
    case False
    then obtain j where k: "k = Suc j" "0 < j" using 1 by (cases k; cases "k - 1") auto
    then have "n div 10 < 10 ^ j" using 1(2) by (simp add: less_mult_imp_div_less mult.commute)
    with 1(1) [OF False this k(2)] k show ?thesis using False by (subst dec.simps) simp
  qed
qed

lemma valid_proc_name: "i < 100 \<Longrightarrow> validatePID (proc_name i) = None"
proof -
  assume "i < 100"
  then have "length (dec (i + 1)) \<le> 3" by (intro length_dec) auto
  moreover have "alnum (CHR ''P'')" by code_simp
  moreover have "list_all (\<lambda>x. alnum x \<or> x \<in> set ''_.-'') (dec (i + 1))" using alnum_dec by (auto simp: list_all_iff)
  ultimately show ?thesis by (auto simp: validatePID_def pidPattern_def proc_name_def list_all_iff)
qed

lemma good_spawn_one: "good_sim s \<Longrightarrow> i < 100 \<Longrightarrow> good_sim (spawn_one e ct dm i s)"
  unfolding spawn_one_def by (rule good_spawn) (simp_all add: valid_proc_name)

lemma good_spawn_count: "good_sim s \<Longrightarrow> n \<le> 100 \<Longrightarrow> good_sim (spawn_count e n ct dm s)"
proof -
  have "good_sim (fold (spawn_one e ct dm) xs s)" if "good_sim s" "\<forall>i \<in> set xs. i < 100" for xs s
    using that by (induction xs arbitrary: s) (auto simp: good_spawn_one)
  moreover have "n \<le> 100 \<Longrightarrow> \<forall>i \<in> set [0 ..< nat n]. i < 100" by auto
  ultimately show "good_sim s \<Longrightarrow> n \<le> 100 \<Longrightarrow> ?thesis" unfolding spawn_count_def by blast
qed

text \<open>On a fresh simulation the loop spawns exactly the processes it is asked for.\<close>

lemma inj_proc_name: "inj_on proc_name A"
  by (auto simp: inj_on_def proc_name_def)

lemma spawn_fresh:
  "m \<le> 100 \<Longrightarrow> calm 0 (fold (spawn_one e ct dm) [0 ..< m] (simulation_New cfg))
     \<and> live (fold (spawn_one e ct dm) [0 ..< m] (simulation_New cfg)) = proc_name ` {0 ..< m}"
proof (induction m)
  case (Suc m)
  define s where "s = fold (spawn_one e ct dm) [0 ..< m] (simulation_New cfg)"
  have s: "calm 0 s" "live s = proc_name ` {0 ..< m}" using Suc by (auto simp: s_def)
  have "card (live s) = m" using s(2) inj_proc_name by (simp add: card_image)
  moreover have "proc_name m \<notin> live s" using s(2) by (auto simp: proc_name_def)
  moreover have "proc_name m \<noteq> ''''" "length (proc_name m) \<le> 64"
    using valid_proc_name [of m] Suc.prems by (auto simp: validatePID_def split: if_splits)
  ultimately have "calm 0 (spawn_one e ct dm m s) \<and> live (spawn_one e ct dm m s) = insert (proc_name m) (live s)"
    using calm_spawn(2,3) [OF s(1)] Suc.prems by (simp add: spawn_one_def)
  then show ?case using s(2) by (simp add: s_def atLeast0_lessThan_Suc)
qed (simp add: calm_New)

lemma spawn_count_fresh:
  "n \<le> 100 \<Longrightarrow> live (spawn_count e n ct dm (simulation_New cfg)) = proc_name ` {0 ..< nat n}"
  using spawn_fresh [of "nat n"] by (simp add: spawn_count_def)

section \<open>The steps of the server\<close>

inductive server_step :: "(string Event \<Rightarrow> string option) \<Rightarrow> Server \<Rightarrow> Server \<Rightarrow> bool"
  for marshal :: "string Event \<Rightarrow> string option" where
  http: "server_step marshal sv (snd (snd (serve route e uuid now r sv)))"
| sim_runs: "i < length (sv_sims sv) \<Longrightarrow> sim_background (sv_sims sv ! i) s \<Longrightarrow>
    server_step marshal sv (sv\<lparr>sv_sims := (sv_sims sv)[i := s]\<rparr>)"
| runner: "i < length (sv_runners sv) \<Longrightarrow> server_step marshal sv (runner_step i sv)"
| graph_event: "server_step marshal sv (cg_take g sv)"
| graph_exit: "server_step marshal sv (cg_exit g sv)"
| hub_runs: "hub_step marshal (hub_view sv) w \<Longrightarrow> server_step marshal sv (hub_put w sv)"
| evict: "sv_limiter sv = Some rl \<Longrightarrow> server_step marshal sv (sv\<lparr>sv_limiter := Some (rl_gc now rl)\<rparr>)"
| shutdown: "server_step marshal sv (Shutdown now sv)"

text \<open>The server starts with a simulation that \<^verbatim>\<open>main\<close> made and filled.\<close>

definition server_init :: "Server \<Rightarrow> bool" where
  "server_init sv \<longleftrightarrow> (\<exists>e cfg n ct dm allowed mgr rate burst. n \<le> 100 \<and>
     sv = NewServerWithRateLimit (spawn_count e n ct dm (simulation_New cfg)) allowed mgr rate burst)"

definition server_inv :: "Server \<Rightarrow> bool" where
  "server_inv sv \<longleftrightarrow> sv_sim sv < length (sv_sims sv) \<and> sv_kvSim sv < length (sv_sims sv)
     \<and> list_all good_sim (sv_sims sv) \<and> hub_inv (sv_hub sv)
     \<and> (\<forall>(k, steps) \<in> set (sv_runners sv). list_all keeps_good steps)"

lemma server_invD:
  assumes "server_inv sv"
  shows "sv_sim sv < length (sv_sims sv)" "sv_kvSim sv < length (sv_sims sv)" "i < length (sv_sims sv) \<Longrightarrow> good_sim (sv_sims sv ! i)"
    "good_sim (getSim sv)" "(k, steps) \<in> set (sv_runners sv) \<Longrightarrow> list_all keeps_good steps"
    "hub_inv (hub_view sv)"
  using assms by (auto simp: server_inv_def list_all_length getSim_def hub_view_def)

lemma list_all_update: "list_all P xs \<Longrightarrow> P x \<Longrightarrow> list_all P (xs[i := x])"
  by (auto simp: list_all_iff dest: set_update_subset_insert [THEN subsetD])

lemma list_all_update_nth:
  "list_all P xs \<Longrightarrow> (i < length xs \<Longrightarrow> P (xs ! i) \<Longrightarrow> P x) \<Longrightarrow> list_all P (xs[i := x])"
  by (cases "i < length xs") (auto simp: list_all_length nth_list_update)

text \<open>Changes of the simulations alone.\<close>

lemma inv_sims:
  assumes "server_inv sv" "list_all good_sim sims" "length sims = length (sv_sims sv)" "sv_sims sv' = sims"
    "sv_sim sv' = sv_sim sv" "sv_kvSim sv' = sv_kvSim sv" "sv_runners sv' = sv_runners sv" "hub_inv (sv_hub sv')"
  shows "server_inv sv'"
  using assms by (simp add: server_inv_def)

lemma inv_upd_sim: "server_inv sv \<Longrightarrow> (\<And>s. good_sim s \<Longrightarrow> good_sim (f s)) \<Longrightarrow> server_inv (upd_sim f sv)"
  by (rule inv_sims) (auto simp: upd_sim_def server_inv_def getSim_def intro: list_all_update_nth)

lemma inv_on_sim:
  assumes "server_inv sv" "\<And>s. good_sim s \<Longrightarrow> good_sim (snd (f s))"
  shows "server_inv (snd (on_sim f sv))"
proof -
  have "snd (on_sim f sv) = upd_sim (\<lambda>s. snd (f s)) sv"
    by (simp add: on_sim_def upd_sim_def split: prod.splits)
  then show ?thesis using assms by (simp add: inv_upd_sim)
qed

lemma inv_hub_put: "server_inv sv \<Longrightarrow> hub_inv w \<Longrightarrow> server_inv (hub_put w sv)"
  by (rule inv_sims) (auto simp: hub_put_def list_all_length server_inv_def)

lemma inv_cancel: "server_inv sv \<Longrightarrow> server_inv (cancel_cg sv)"
  by (simp add: server_inv_def)

lemma inv_subscribe: "server_inv sv \<Longrightarrow> server_inv (subscribeCausalGraph i sv)"
  by (rule inv_sims [of sv])
    (auto simp: subscribeCausalGraph_def Let_def server_inv_def intro!: list_all_update_nth hub_inv_next)

lemma inv_kv_put: "server_inv sv \<Longrightarrow> server_inv (kv_put d sv)"
  by (rule inv_sims [of sv]) (auto simp: kv_put_def server_inv_def intro!: list_all_update_nth split: option.splits)

lemma inv_setSim:
  assumes "server_inv sv" "good_sim sim"
  shows "server_inv (setSim now sim sv)"
proof -
  define sv1 where "sv1 = sv\<lparr>sv_sims := sv_sims sv @ [sim], sv_sim := length (sv_sims sv)\<rparr>"
  have "server_inv sv1" using assms by (simp add: server_inv_def sv1_def)
  then have sv3: "server_inv (subscribeCausalGraph (length (sv_sims sv))
      (hub_put (hub_settle (hub_reconnect (length (sv_sims sv)) (hub_view sv1))) sv1))" (is "server_inv ?sv3")
    by (intro inv_subscribe inv_hub_put hub_settle_inv hub_reconnect_inv) (simp_all add: server_invD)
  then have "list_all good_sim ((sv_sims ?sv3)[sv_sim sv := simulation_Stop now (sv_sims ?sv3 ! sv_sim sv)])"
    by (intro list_all_update_nth) (auto simp: server_inv_def good_ops)
  moreover have "hub_inv (sv_hub ?sv3)" using sv3 by (simp add: server_inv_def)
  ultimately show ?thesis
    using inv_sims [OF sv3, of _ "?sv3\<lparr>sv_sims := (sv_sims ?sv3)[sv_sim sv := simulation_Stop now (sv_sims ?sv3 ! sv_sim sv)]\<rparr>"]
    by (simp add: setSim_def Let_def sv1_def)
qed

lemma inv_on_simE:
  "on_sim f sv = (r, sv') \<Longrightarrow> server_inv sv \<Longrightarrow> (\<And>s. good_sim s \<Longrightarrow> good_sim (snd (f s))) \<Longrightarrow> server_inv sv'"
  using inv_on_sim [of sv f] by simp

lemma snd_safeError [simp]: "snd (safeError n m sv) = sv"
  by (simp add: safeError_def)

lemma inv_handlers:
  assumes inv: "server_inv sv"
  shows "server_inv (snd (handleSimulationStart e b1 sv))" "server_inv (snd (handleSimulationReset e b1 sv))"
    "server_inv (snd (handleSimulationConfig b2 sv))" "server_inv (snd (handleSpawnProcess e b3 sv))"
    "server_inv (snd (handleKillProcess p sv))" "server_inv (snd (handleInternalEvent e p sv))"
    "server_inv (snd (handleTriggerSnapshot e p sv))" "server_inv (snd (handleSendMessage e b4 sv))"
    "server_inv (snd (handleBroadcast e b5 sv))" "server_inv (snd (handleFaultDelay b6 sv))"
    "server_inv (snd (handleFaultDrop b7 sv))" "server_inv (snd (handleClearFaults sv))"
    "server_inv (snd (handleFaultPartition b8 sv))" "server_inv (snd (handleHealPartition sv))"
    "server_inv (snd (handleKVWrite t1 t2 key b9 sv))" "server_inv (snd (handleKVResolve key b10 sv))"
proof -
  show "server_inv (snd (handleSimulationStart e b1 sv))"
    using inv by (auto simp: handleSimulationStart_def Let_def intro!: inv_upd_sim good_spawn_count split: prod.splits option.splits)
  show "server_inv (snd (handleSimulationReset e b1 sv))"
    using inv by (auto simp: handleSimulationReset_def Let_def intro!: inv_setSim good_spawn_count good_New split: option.splits)
  show "server_inv (snd (handleSimulationConfig b2 sv))"
    using inv by (auto simp: handleSimulationConfig_def good_ops intro!: inv_upd_sim split: prod.splits option.splits)
  show "server_inv (snd (handleSpawnProcess e b3 sv))"
    using inv by (auto simp: handleSpawnProcess_def split: option.splits prod.splits sum.splits)
      (erule inv_on_simE, assumption, rule good_spawn, assumption, simp)+
  show "server_inv (snd (handleKillProcess p sv))"
    using inv by (auto simp: handleKillProcess_def good_ops intro: inv_on_simE split: option.splits prod.splits sum.splits)
  show "server_inv (snd (handleInternalEvent e p sv))"
    using inv by (auto simp: handleInternalEvent_def good_ops intro: inv_on_simE split: option.splits prod.splits sum.splits)
  show "server_inv (snd (handleTriggerSnapshot e p sv))"
    using inv by (auto simp: handleTriggerSnapshot_def good_ops intro: inv_on_simE split: option.splits prod.splits sum.splits)
  show "server_inv (snd (handleSendMessage e b4 sv))"
    using inv by (auto simp: handleSendMessage_def good_ops intro: inv_on_simE split: prod.splits sum.splits)
  show "server_inv (snd (handleBroadcast e b5 sv))"
    using inv by (auto simp: handleBroadcast_def good_ops intro: inv_on_simE split: prod.splits sum.splits)
  show "server_inv (snd (handleFaultDelay b6 sv))"
    using inv by (auto simp: handleFaultDelay_def good_ops intro!: inv_upd_sim split: prod.splits)
  show "server_inv (snd (handleFaultDrop b7 sv))"
    using inv by (auto simp: handleFaultDrop_def good_ops intro!: inv_upd_sim split: prod.splits)
  show "server_inv (snd (handleClearFaults sv))"
    using inv by (auto simp: handleClearFaults_def good_ops intro!: inv_upd_sim)
  show "server_inv (snd (handleFaultPartition b8 sv))"
    using inv by (auto simp: handleFaultPartition_def good_ops intro!: inv_upd_sim split: prod.splits)
  show "server_inv (snd (handleHealPartition sv))"
    using inv by (auto simp: handleHealPartition_def good_ops intro!: inv_upd_sim)
  show "server_inv (snd (handleKVWrite t1 t2 key b9 sv))"
    using inv by (auto simp: handleKVWrite_def intro!: inv_kv_put split: prod.splits sum.splits)
  show "server_inv (snd (handleKVResolve key b10 sv))"
    using inv by (auto simp: handleKVResolve_def intro!: inv_kv_put split: prod.splits option.splits)
qed

lemma inv_runScenario: "server_inv sv \<Longrightarrow> server_inv (snd (handleRunScenario e nm sv))"
proof -
  assume inv: "server_inv sv"
  have "list_all keeps_good (sc_Steps sc)" if "find (\<lambda>sc. sc_Name sc = nm) (AllScenarios e) = Some sc" for sc
    using that good_scenarios [of sc e] by (auto simp: find_Some_iff)
  with inv show ?thesis by (auto simp: handleRunScenario_def server_inv_def split: option.splits)
qed

lemma readonly_handlers [simp]:
  "snd (handleSimulationState sv) = sv" "snd (handleGetProcess p sv) = sv" "snd (handleGetSnapshot p sv) = sv"
  "snd (handleVerifySnapshot p sv) = sv" "snd (handleHappenedBefore a b sv) = sv" "snd (handleGetFaults sv) = sv"
  "snd (handleKVRead key sv) = sv" "snd (handleListScenarios e sv) = sv" "snd (handleMetrics sv) = sv"
  "snd (handleHealthz sv) = sv" "snd (handleReadyz sv) = sv"
  by (simp_all add: handleSimulationState_def handleGetProcess_def handleGetSnapshot_def handleVerifySnapshot_def
      handleHappenedBefore_def handleGetFaults_def handleKVRead_def handleListScenarios_def handleMetrics_def
      handleHealthz_def handleReadyz_def split: option.splits)

lemma inv_dispatch: "server_inv sv \<Longrightarrow> server_inv (snd (dispatch e q sv))"
  by (cases q) (simp_all add: inv_handlers inv_runScenario)

lemma inv_limit: "server_inv sv \<Longrightarrow> server_inv (snd (limit_request now r sv))"
  by (auto simp: limit_request_def server_inv_def split: option.splits prod.splits)

lemma inv_serve: "server_inv sv \<Longrightarrow> server_inv (snd (snd (serve route e uuid now r sv)))"
  using inv_limit [of sv now r]
  by (auto simp: serve_def Let_def inv_dispatch split: mw_result.splits prod.splits option.splits)

lemma inv_runner: "server_inv sv \<Longrightarrow> i < length (sv_runners sv) \<Longrightarrow> server_inv (runner_step i sv)"
proof -
  assume inv: "server_inv sv" and i: "i < length (sv_runners sv)"
  obtain o1 steps where r: "sv_runners sv ! i = (o1, steps)" by fastforce
  then have "(o1, steps) \<in> set (sv_runners sv)" using i nth_mem by metis
  then have ok: "list_all keeps_good steps" by (rule server_invD(5) [OF inv])
  have upd: "\<forall>(k, steps) \<in> set ((sv_runners sv)[i := (k', rest)]). list_all keeps_good steps" if "list_all keeps_good rest" for k' rest
    using inv that by (auto simp: server_inv_def dest!: set_update_subset_insert [THEN subsetD])
  show ?thesis
  proof (cases o1)
    case None
    then show ?thesis using inv r upd [OF ok] by (simp add: runner_step_def server_inv_def)
  next
    case (Some k)
    show ?thesis
    proof (cases steps)
      case (Cons step rest)
      have "list_all good_sim ((sv_sims sv)[k := snd (run_step step (sv_sims sv ! k))])"
        using inv ok Cons by (intro list_all_update_nth) (auto simp: server_inv_def keeps_good_def)
      then show ?thesis using inv r Some Cons ok upd [of rest] by (simp add: runner_step_def server_inv_def)
    qed (use inv r Some in \<open>simp add: runner_step_def\<close>)
  qed
qed

lemma inv_cg: "server_inv sv \<Longrightarrow> server_inv (cg_take g sv)" "server_inv sv \<Longrightarrow> server_inv (cg_exit g sv)"
  by (auto simp: cg_take_def cg_exit_def server_inv_def Let_def intro!: list_all_update_nth split: option.splits list.splits)

lemma inv_shutdown: "server_inv sv \<Longrightarrow> server_inv (Shutdown now sv)"
proof -
  assume "server_inv sv"
  then have "server_inv (sv\<lparr>sv_ready := False, sv_healthErr := ''shutting down''\<rparr>)" by (simp add: server_inv_def)
  then show ?thesis unfolding Shutdown_def Let_def by (intro inv_cancel inv_upd_sim inv_hub_put hub_closeAll_inv hub_stopped_inv) (auto simp: good_ops server_invD)
qed

interpretation server: transition_system server_init "server_step marshal" server_inv
proof unfold_locales
  fix sv
  assume "server_init sv"
  then obtain e cfg n ct dm allowed mgr rate burst where n: "n \<le> 100" and
    sv: "sv = NewServerWithRateLimit (spawn_count e n ct dm (simulation_New cfg)) allowed mgr rate burst"
    by (auto simp: server_init_def)
  define s0 where "s0 = spawn_count e n ct dm (simulation_New cfg)"
  have "good_sim s0" unfolding s0_def using n by (intro good_spawn_count good_New)
  then have "server_inv (subscribeCausalGraph 0 (hub_put w \<lparr>sv_sims = [s0], sv_sim = 0, sv_hub = h, sv_cgs = [], sv_cgCancel = None,
      sv_kv = kv, sv_kvSim = 0, sv_causalGraph = g, sv_auth = mgr, sv_limiter = l, sv_allowed = allowed, sv_ready = r,
      sv_healthErr = m, sv_runners = []\<rparr>))" if "hub_inv w" "hub_inv h" for w h kv g l r m
    using that by (intro inv_subscribe inv_hub_put) (simp_all add: server_inv_def)
  then show "server_inv sv"
    unfolding sv NewServerWithRateLimit_def Let_def s0_def [symmetric]
    by (simp add: server_inv_def hub_settle_inv hub_new_inv)
next
  fix sv sv'
  assume "server_step marshal sv sv'" "server_inv sv"
  then show "server_inv sv'"
  proof (induction rule: server_step.induct)
    case (sim_runs i sv s)
    then have "list_all good_sim ((sv_sims sv)[i := s])"
      by (intro list_all_update) (auto simp: server_inv_def list_all_length intro: good_background)
    with sim_runs show ?case by (simp add: server_inv_def)
  next
    case (evict sv rl now)
    then show ?case by (simp add: server_inv_def)
  next
    case (hub_runs sv w)
    then have "hub_inv w" using hub.inv_step server_invD(6) by blast
    with hub_runs show ?case by (simp add: inv_hub_put)
  qed (simp_all add: inv_serve inv_runner inv_cg inv_shutdown)
qed

section \<open>Errors change nothing\<close>

lemma upd_sim_same [simp]: "s = getSim sv \<Longrightarrow> upd_sim (\<lambda>_. s) sv = sv"
  by (simp add: upd_sim_def getSim_def)

lemma on_sim_same: "on_sim f sv = (r, sv') \<Longrightarrow> snd (f (getSim sv)) = getSim sv \<Longrightarrow> sv' = sv"
  by (auto simp: on_sim_def split: prod.splits)

lemma sim_errors_same:
  "fst (SpawnProcess now cfg s) = Inl err \<Longrightarrow> snd (SpawnProcess now cfg s) = s"
  "fst (KillProcess_begin p s) = Inl err \<Longrightarrow> snd (KillProcess_begin p s) = s"
  "fst (sim_InternalEvent now p s) = Inl err \<Longrightarrow> snd (sim_InternalEvent now p s) = s"
  by (auto simp: SpawnProcess_def KillProcess_begin_def sim_InternalEvent_def Let_def split: if_splits prod.splits option.splits)

text \<open>A snapshot fails for an unknown process, and then changes nothing; or because the coordinator does not know
  the process, whose identifier was raced. The message of the latter error does not contain \<^verbatim>\<open>not found\<close>, whatever
  the identifier, so that the handler does not answer it with 404.\<close>

lemma trigger_error:
  "fst (TriggerSnapshot nano start p s) = Inl err \<Longrightarrow> snd (TriggerSnapshot nano start p s) = s \<or> err = SnapshotFailed p"
  by (auto simp: TriggerSnapshot_def split: option.splits prod.splits)

lemma Split_not_Nil [simp]: "Split s c \<noteq> []"
  by (induction s) (auto split: list.splits)

lemma Split_append: "Split (x @ c # y) c = Split x c @ Split y c"
proof (induction x)
  case (Cons a x)
  then show ?case by (cases "Split x c") (auto simp: Cons_eq_append_conv)
qed simp

lemma Contains_split: "Contains s sub \<Longrightarrow> \<exists>a b. s = a @ sub @ b"
  unfolding Contains_def list_ex_iff by (metis append_take_drop_id)

lemma last_Split: "s \<noteq> [] \<Longrightarrow> last s \<noteq> c \<Longrightarrow> last (Split s c) \<noteq> [] \<and> last (last (Split s c)) = last s"
proof (induction s)
  case (Cons a s)
  show ?case
  proof (cases "s = []")
    case False
    then show ?thesis using Cons by (cases "Split s c") (auto split: list.splits)
  qed (use Cons in auto)
qed simp

lemma hd_Split: "a \<noteq> c \<Longrightarrow> \<exists>w ws. Split (a # s) c = (a # w) # ws"
  by (simp split: list.split)

lemma blank_not_alnum: "\<not> alnum (CHR '' '')"
  by code_simp

lemma raced_snapshot_text:
  assumes "validatePID p = None"
  shows "\<not> Contains (sim_error_text (SnapshotFailed p)) ''not found''"
proof
  assume "Contains (sim_error_text (SnapshotFailed p)) ''not found''"
  then obtain a b where eq: "''snapshot: process '' @ p @ '' not registered'' = a @ ''not found'' @ b"
    using Contains_split by fastforce
  have "CHR '' '' \<notin> set p"
    using assms blank_not_alnum by (auto simp: validatePID_def pidPattern_def list_all_iff split: if_splits list.splits)
  then have l: "Split (''snapshot: process '' @ p @ '' not registered'') (CHR '' '') = [''snapshot:'', ''process'', p, ''not'', ''registered'']"
    by (simp add: Split_append_sep)
  obtain w ws where r: "Split (''found'' @ b) (CHR '' '') = (CHR ''f'' # w) # ws" using hd_Split [of "CHR ''f''" "CHR '' ''" "''ound'' @ b"] by auto
  define xs where "xs = Split (a @ ''not'') (CHR '' '')"
  have xs: "xs \<noteq> []" "last (last xs) = CHR ''t''" using last_Split [of "a @ ''not''" "CHR '' ''"] by (auto simp: xs_def)
  have "xs @ (CHR ''f'' # w) # ws = [''snapshot:'', ''process'', p, ''not'', ''registered'']"
  proof -
    have "xs @ (CHR ''f'' # w) # ws = Split ((a @ ''not'') @ CHR '' '' # ''found'' @ b) (CHR '' '')"
      unfolding xs_def r [symmetric] by (rule Split_append [symmetric])
    also have "(a @ ''not'') @ CHR '' '' # ''found'' @ b = ''snapshot: process '' @ p @ '' not registered''" using eq by simp
    finally show ?thesis using l by (rule trans)
  qed
  then show False using xs by (auto simp: append_eq_Cons_conv)
qed

lemma on_sim_error:
  assumes "on_sim f sv = (Inl err, sv')" "fst (f (getSim sv)) = Inl err \<Longrightarrow> snd (f (getSim sv)) = getSim sv"
  shows "sv' = sv"
  using assms on_sim_same [OF assms(1)] by (auto simp: on_sim_def split: prod.splits)

lemma kv_put_same: "cd_store d = sv_kv sv \<Longrightarrow> cd_bus d = Some (sim_bus (sv_sims sv ! sv_kvSim sv)) \<Longrightarrow> kv_put d sv = sv"
  by (simp add: kv_put_def)

lemma kv_errors_same:
  "conflict_Write t1 t2 key v vc a d = (Inl err, d') \<Longrightarrow> d' = d"
  "conflict_ResolveKey key st d = (None, d') \<Longrightarrow> d' = d"
  by (auto simp: conflict_Write_def conflict_ResolveKey_def Let_def split: if_splits option.splits prod.splits)

text \<open>A response that is not a client error, or leaves the server alone.\<close>

definition refuses_unchanged :: "Server \<Rightarrow> response \<times> Server \<Rightarrow> bool" where
  "refuses_unchanged sv rs \<longleftrightarrow> (400 \<le> fst (fst rs) \<and> fst (fst rs) < 500 \<longrightarrow> snd rs = sv)"

lemma refuses_simps [simp]:
  "refuses_unchanged sv (safeError n m sv)" "refuses_unchanged sv (rs, sv)"
  "refuses_unchanged sv ((200, bd), sv')" "refuses_unchanged sv ((Suc 200, bd), sv')" "refuses_unchanged sv ((201, bd), sv')"
  "500 \<le> n \<Longrightarrow> refuses_unchanged sv (safeError n m sv')"
  by (simp_all add: refuses_unchanged_def safeError_def)

lemma handlers_refuse:
  "refuses_unchanged sv (handleSimulationStart e b1 sv)" "refuses_unchanged sv (handleSimulationReset e b1 sv)"
  "refuses_unchanged sv (handleSimulationConfig b2 sv)" "refuses_unchanged sv (handleSendMessage e b4 sv)"
  "refuses_unchanged sv (handleBroadcast e b5 sv)" "refuses_unchanged sv (handleFaultDelay b6 sv)"
  "refuses_unchanged sv (handleFaultDrop b7 sv)" "refuses_unchanged sv (handleClearFaults sv)"
  "refuses_unchanged sv (handleFaultPartition b8 sv)" "refuses_unchanged sv (handleHealPartition sv)"
  "refuses_unchanged sv (handleKVWrite t1 t2 key b9 sv)" "refuses_unchanged sv (handleRunScenario e nm sv)"
  unfolding handleSimulationStart_def handleSimulationReset_def handleSimulationConfig_def handleSendMessage_def
    handleBroadcast_def handleFaultDelay_def handleFaultDrop_def handleClearFaults_def handleFaultPartition_def
    handleHealPartition_def handleKVWrite_def handleRunScenario_def Let_def
  by (simp_all split: prod.split option.split sum.split)

lemma sim_handlers_refuse:
  shows "refuses_unchanged sv (handleSpawnProcess e b3 sv)" "refuses_unchanged sv (handleKillProcess p sv)"
    "refuses_unchanged sv (handleInternalEvent e p sv)" "refuses_unchanged sv (handleTriggerSnapshot e p sv)"
proof -
  have sp: "sv' = sv" if "on_sim (SpawnProcess now cfg) sv = (Inl err, sv')" for now cfg err sv'
    using that sim_errors_same(1) by (rule on_sim_error)
  have kl: "sv' = sv" if "on_sim (KillProcess_begin p) sv = (Inl err, sv')" for p err sv'
    using that sim_errors_same(2) by (rule on_sim_error)
  have ev: "sv' = sv" if "on_sim (sim_InternalEvent now p) sv = (Inl err, sv')" for now p err sv'
    using that sim_errors_same(3) by (rule on_sim_error)
  have tr: "sv' = sv \<or> err = SnapshotFailed p" if "on_sim (TriggerSnapshot nano st p) sv = (Inl err, sv')" for nano st p err sv'
  proof (rule disjCI)
    assume "err \<noteq> SnapshotFailed p"
    then show "sv' = sv" using that trigger_error [of nano st p "getSim sv" err] by (auto intro: on_sim_error)
  qed
  show "refuses_unchanged sv (handleSpawnProcess e b3 sv)"
    unfolding handleSpawnProcess_def by (auto split: prod.split option.split sum.split dest!: sp)
  show "refuses_unchanged sv (handleKillProcess p sv)"
    unfolding handleKillProcess_def by (auto split: prod.split option.split sum.split dest!: kl)
  show "refuses_unchanged sv (handleInternalEvent e p sv)"
    unfolding handleInternalEvent_def by (auto split: prod.split option.split sum.split dest!: ev)
  show "refuses_unchanged sv (handleTriggerSnapshot e p sv)"
  proof (cases "validatePID p")
    case None
    show ?thesis
    proof (cases "on_sim (TriggerSnapshot (se_nano e) (se_start e) p) sv")
      case (Pair res sv')
      show ?thesis
      proof (cases res)
        case (Inl err)
        then show ?thesis using Pair None tr [of "se_nano e" "se_start e" p err sv'] raced_snapshot_text [OF None]
          by (auto simp: handleTriggerSnapshot_def simp del: sim_error_text.simps)
      qed (simp add: handleTriggerSnapshot_def None Pair)
    qed
  qed (simp add: handleTriggerSnapshot_def)
qed

lemma resolve_refuses: "refuses_unchanged sv (handleKVResolve key b sv)"
proof -
  have kv: "kv_put (kv_detector sv) sv = sv" by (rule kv_put_same) (simp_all add: kv_detector_def)
  have "refuses_unchanged sv (case conflict_ResolveKey key st (kv_detector sv) of
      (None, d) \<Rightarrow> safeError 404 m (kv_put d sv) | (Some winner, d) \<Rightarrow> ((200, WinnerBody key winner (snd b)), kv_put d sv))" for st m
    using kv kv_errors_same(2) [of key st "kv_detector sv"] by (auto split: prod.split option.split)
  then show ?thesis unfolding handleKVResolve_def by (simp split: option.split)
qed

lemma readonly_refuse: "snd rs = sv \<Longrightarrow> refuses_unchanged sv rs"
  by (simp add: refuses_unchanged_def)

lemma dispatch_refuses: "refuses_unchanged sv (dispatch e q sv)"
  by (cases q) (simp_all add: handlers_refuse sim_handlers_refuse resolve_refuses readonly_refuse)

text \<open>What the limiter does to the server.\<close>

lemma limit_request_frame: "\<exists>l. snd (limit_request now r sv) = sv\<lparr>sv_limiter := l\<rparr> \<and> (sv_limiter sv = None \<longrightarrow> l = None)"
proof (cases "sv_limiter sv")
  case None
  then have "snd (limit_request now r sv) = sv\<lparr>sv_limiter := None\<rparr>" by (simp add: limit_request_def)
  then show ?thesis by (intro exI [of _ None]) simp
next
  case (Some rl)
  obtain res rl' where "RateLimitMiddleware now (hr_Path r) (hr_ClientIP r) rl = (res, rl')" by fastforce
  then have "snd (limit_request now r sv) = sv\<lparr>sv_limiter := Some rl'\<rparr>" using Some by (simp add: limit_request_def)
  then show ?thesis using Some by (intro exI [of _ "Some rl'"]) simp
qed

text \<open>C21: a request that is refused because of the client, by the middleware or by the handler (any status
  from 400 to 499), leaves the server as it was but for the rate limiter's buckets: no process, message,
  fault, version, subscription or runner is created, changed or removed. With no limiter configured
  nothing changes at all.\<close>

theorem rest_client_error_changes_nothing:
  assumes "serve route e uuid now r sv = (hs, (status, bd), sv')" and "400 \<le> status" and "status < 500"
  shows "\<exists>l. sv' = sv\<lparr>sv_limiter := l\<rparr> \<and> (sv_limiter sv = None \<longrightarrow> l = None)"
proof -
  obtain res sv1 where l: "limit_request now r sv = (res, sv1)" by fastforce
  obtain ch m where c: "corsMiddleware (sv_allowed sv) r = (ch, m)" by fastforce
  have d: "sv' = sv1" if "dispatch e q sv1 = ((status, bd), sv')" for q
    using dispatch_refuses [of sv1 e q] that assms(2,3) by (simp add: refuses_unchanged_def)
  have "sv' = sv \<or> sv' = sv1"
    using assms unfolding serve_def Let_def l c
    by (auto split: mw_result.splits option.splits dest: d)
  moreover have "sv = sv\<lparr>sv_limiter := sv_limiter sv\<rparr>" by simp
  ultimately show ?thesis using limit_request_frame [of now r sv] l by (metis snd_conv)
qed

section \<open>Resetting the simulation\<close>

text \<open>What replacing the simulation makes of the new one: only its bus changes, which the hub and the
  causal graph subscribe to.\<close>

lemma getSim_setSim:
  assumes "server_inv sv"
  obtains bus c where "getSim (setSim now sim sv) = sim\<lparr>sim_bus := bus\<rparr>" "map_of (eb_subs bus) c = Some []"
    "hub_sub (hw_hub (sv_hub (setSim now sim sv))) = Some c" "hub_bus (hw_hub (sv_hub (setSim now sim sv))) = length (sv_sims sv)"
    "gm_len (hw_runs (sv_hub (setSim now sim sv))) = 1"
proof -
  define i where "i = length (sv_sims sv)"
  define sv1 where "sv1 = sv\<lparr>sv_sims := sv_sims sv @ [sim], sv_sim := i\<rparr>"
  define r where "r = hub_reconnect i (hub_view sv1)"
  define w where "w = hub_settle r"
  have "hub_inv (hub_view sv1)" using server_invD(6) [OF assms] by (simp add: hub_view_def sv1_def)
  then have r: "hub_inv r" by (simp add: r_def hub_reconnect_inv)
  then have inv: "run_inv r" "run_inv w" using hub_settle_inv [OF r] by (simp_all add: w_def hub_inv_def)
  have sub: "hub_sub (hw_hub w) = Some (hw_next (sv_hub sv))" "hub_bus (hw_hub w) = i" "gm_len (hw_runs w) = 1"
      "map_of (eb_subs (hw_buses w i)) (hw_next (sv_hub sv)) = Some []"
    using hub_settle_started [OF inv(1)] reconnect_subs(1) [of i "hub_view sv1"]
    by (simp_all add: w_def r_def hub_view_def sv1_def)
  have new: "hw_next (sv_hub sv) \<noteq> hw_next w" using run_inv_D(4) [OF inv(2)] sub(1) by auto
  have "sv_sim sv \<noteq> i" using server_invD(1) [OF assms] by (simp add: i_def)
  then have "getSim (setSim now sim sv) =
      sim\<lparr>sim_bus := events_Subscribe (hw_next w) [EvtSend, EvtReceive, EvtInternalEvent] (hw_buses w i)\<rparr>"
    by (simp add: getSim_def setSim_def subscribeCausalGraph_def Let_def hub_put_def i_def [symmetric] sv1_def [symmetric]
        r_def [symmetric] w_def [symmetric]) (simp add: sv1_def i_def nth_append)
  then show ?thesis
  proof (rule that [where c = "hw_next (sv_hub sv)"])
    show "map_of (eb_subs (events_Subscribe (hw_next w) [EvtSend, EvtReceive, EvtInternalEvent] (hw_buses w i)))
        (hw_next (sv_hub sv)) = Some []"
      using sub(4) new by (simp add: events_Subscribe_def)
  qed (use sub in \<open>simp_all add: setSim_def subscribeCausalGraph_def Let_def hub_put_def i_def [symmetric] sv1_def [symmetric]
        r_def [symmetric] w_def [symmetric]\<close>)
qed

text \<open>The old simulation is stopped.\<close>

lemma setSim_stops:
  assumes "server_inv sv"
  shows "events_Done (sim_bus (sv_sims (setSim now sim sv) ! sv_sim sv))"
  using server_invD(1) [OF assms]
  by (simp add: setSim_def Let_def nth_list_update simulation_Stop_def events_Done_def events_Stop_def split: prod.splits)

lemma reset_ok:
  assumes "handleSimulationReset e b sv = ((200, bd), sv')"
  obtains ct dm n where "bd = CountBody ''reset'' n" "1 \<le> n" "n \<le> 100"
    "n = (if sr_ProcessCount (snd b) < 1 \<or> sr_ProcessCount (snd b) > 100 then 3 else sr_ProcessCount (snd b))"
    "sv' = setSim (se_now e) (spawn_count e n ct dm
       (simulation_New \<lparr>sc_ClockType = ct, sc_DeliveryMode = dm, sc_Channels = ''full_mesh''\<rparr>)) sv"
  using assms by (auto simp: handleSimulationReset_def safeError_def Let_def split: option.splits if_splits)

text \<open>C22: a reset that succeeds replaces the simulation: it runs exactly the processes \<open>P1\<close> to \<open>Pn\<close> and
  reports \<open>n\<close>, which is the requested count if that lies between 1 and 100, and 3 otherwise; the
  WebSocket hub has one live fan-out goroutine and subscribes to all events of the new simulation;
  and the bus of the old simulation is stopped.\<close>

theorem reset_correct:
  assumes "server_init s" and "(server_step marshal)\<^sup>*\<^sup>* s sv" and "handleSimulationReset e b sv = ((200, bd), sv')"
  shows "\<exists>n c. bd = CountBody ''reset'' n \<and> 1 \<le> n \<and> n \<le> 100
     \<and> (n = sr_ProcessCount (snd b) \<or> n = 3 \<and> \<not> (1 \<le> sr_ProcessCount (snd b) \<and> sr_ProcessCount (snd b) \<le> 100))
     \<and> live (getSim sv') = proc_name ` {0 ..< nat n} \<and> card (live (getSim sv')) = nat n
     \<and> hub_bus (hw_hub (sv_hub sv')) = sv_sim sv' \<and> gm_len (hw_runs (sv_hub sv')) = 1
     \<and> hub_sub (hw_hub (sv_hub sv')) = Some c \<and> map_of (eb_subs (sim_bus (getSim sv'))) c = Some []
     \<and> sv_sim sv' \<noteq> sv_sim sv \<and> events_Done (sim_bus (sv_sims sv' ! sv_sim sv))"
proof -
  have inv: "server_inv sv" by (rule server.inv_reachable [OF assms(1,2)])
  obtain ct dm n where n: "bd = CountBody ''reset'' n" "1 \<le> n" "n \<le> 100"
      "n = (if sr_ProcessCount (snd b) < 1 \<or> sr_ProcessCount (snd b) > 100 then 3 else sr_ProcessCount (snd b))" and
    sv': "sv' = setSim (se_now e) (spawn_count e n ct dm
       (simulation_New \<lparr>sc_ClockType = ct, sc_DeliveryMode = dm, sc_Channels = ''full_mesh''\<rparr>)) sv"
    by (rule reset_ok [OF assms(3)]) (rule that; assumption)
  define sim where "sim = spawn_count e n ct dm
       (simulation_New \<lparr>sc_ClockType = ct, sc_DeliveryMode = dm, sc_Channels = ''full_mesh''\<rparr> :: string Simulation)"
  obtain bus c where g: "getSim (setSim (se_now e) sim sv) = sim\<lparr>sim_bus := bus\<rparr>" "map_of (eb_subs bus) c = Some []"
      "hub_sub (hw_hub (sv_hub (setSim (se_now e) sim sv))) = Some c"
      "hub_bus (hw_hub (sv_hub (setSim (se_now e) sim sv))) = length (sv_sims sv)"
      "gm_len (hw_runs (sv_hub (setSim (se_now e) sim sv))) = 1"
    by (rule getSim_setSim [OF inv, of "se_now e" sim]) (rule that; assumption)
  note g = g [unfolded sim_def, folded sv', folded sim_def]
  have live: "live (getSim sv') = proc_name ` {0 ..< nat n}"
    using spawn_count_fresh [OF n(3), of e ct dm] by (simp add: g(1) live_def sim_def)
  then have "card (live (getSim sv')) = nat n" by (simp add: card_image inj_proc_name)
  moreover have "events_Done (sim_bus (sv_sims sv' ! sv_sim sv))" unfolding sv' by (rule setSim_stops [OF inv])
  moreover have "sv_sim sv' = length (sv_sims sv)" "sv_sim sv < length (sv_sims sv)"
    using server_invD(1) [OF inv] by (simp_all add: sv')
  ultimately show ?thesis using n g live by (intro exI [of _ n] exI [of _ c]) auto
qed

text \<open>Which simulation the store publishes to never changes, and the current simulation only moves on.\<close>

definition sims_advance :: "Server \<Rightarrow> Server \<Rightarrow> bool" where
  "sims_advance sv sv' \<longleftrightarrow> sv_kvSim sv' = sv_kvSim sv \<and> sv_sim sv \<le> sv_sim sv'"

lemma sims_advance_refl [simp]: "sims_advance sv sv"
  by (simp add: sims_advance_def)

lemma sims_parts [simp]:
  "sims_advance sv (upd_sim f sv)" "sims_advance sv (kv_put d sv)" "sims_advance sv (snd (on_sim g sv))"
  "sims_advance sv (runner_step i sv)" "sims_advance sv (cg_take k sv)" "sims_advance sv (cg_exit k sv)"
  "sims_advance sv (Shutdown now sv)" "sims_advance sv (snd (limit_request t r sv))"
  by (simp_all add: sims_advance_def upd_sim_def kv_put_def on_sim_def runner_step_def cg_take_def cg_exit_def Shutdown_def
      limit_request_def Let_def split: option.splits prod.splits list.splits)

lemma sims_on_sim: "on_sim f sv = (r, sv') \<Longrightarrow> sims_advance sv sv'"
  using sims_parts(3) [of sv f] by simp

lemma sims_setSim: "server_inv sv \<Longrightarrow> sims_advance sv (setSim now sim sv)"
  using server_invD(1) [of sv] by (simp add: sims_advance_def)

lemma sims_handlers:
  "sims_advance sv (snd (handleSimulationStart e b1 sv))" "sims_advance sv (snd (handleSimulationConfig b2 sv))"
  "sims_advance sv (snd (handleSpawnProcess e b3 sv))" "sims_advance sv (snd (handleKillProcess p sv))"
  "sims_advance sv (snd (handleInternalEvent e p sv))" "sims_advance sv (snd (handleTriggerSnapshot e p sv))"
  "sims_advance sv (snd (handleSendMessage e b4 sv))" "sims_advance sv (snd (handleBroadcast e b5 sv))"
  "sims_advance sv (snd (handleFaultDelay b6 sv))" "sims_advance sv (snd (handleFaultDrop b7 sv))"
  "sims_advance sv (snd (handleClearFaults sv))" "sims_advance sv (snd (handleFaultPartition b8 sv))"
  "sims_advance sv (snd (handleHealPartition sv))" "sims_advance sv (snd (handleKVWrite t1 t2 key b9 sv))"
  "sims_advance sv (snd (handleKVResolve key b10 sv))" "sims_advance sv (snd (handleRunScenario e nm sv))"
  unfolding handleSimulationStart_def handleSimulationConfig_def handleSpawnProcess_def
    handleKillProcess_def handleInternalEvent_def handleTriggerSnapshot_def handleSendMessage_def handleBroadcast_def
    handleFaultDelay_def handleFaultDrop_def handleClearFaults_def handleFaultPartition_def handleHealPartition_def
    handleKVWrite_def handleKVResolve_def handleRunScenario_def Let_def
  by (simp_all add: sims_on_sim sims_advance_def [of sv "sv\<lparr>sv_runners := _\<rparr>"] split: prod.split option.split sum.split)

lemma sims_dispatch: "server_inv sv \<Longrightarrow> sims_advance sv (snd (dispatch e q sv))"
proof -
  assume inv: "server_inv sv"
  have "sims_advance sv (snd (handleSimulationReset e b sv))" for b
    using sims_setSim [OF inv] by (simp add: handleSimulationReset_def Let_def split: option.split)
  then show ?thesis by (cases q) (simp_all add: sims_handlers)
qed

lemma sims_serve: "server_inv sv \<Longrightarrow> sims_advance sv (snd (snd (serve route e uuid now r sv)))"
proof -
  assume inv: "server_inv sv"
  obtain res sv1 where l: "limit_request now r sv = (res, sv1)" by fastforce
  then have sv1: "sims_advance sv sv1" "server_inv sv1" using sims_parts(8) [of sv now r] inv_limit [OF inv, of now r] by simp_all
  then have "sims_advance sv (snd (dispatch e q sv1))" for q using sims_dispatch [OF sv1(2), of e q] by (simp add: sims_advance_def)
  moreover obtain ch m where c: "corsMiddleware (sv_allowed sv) r = (ch, m)" by fastforce
  ultimately show ?thesis using sv1(1) by (simp add: serve_def Let_def l c split: mw_result.split option.split)
qed

lemma sims_step: "server_step marshal sv sv' \<Longrightarrow> server_inv sv \<Longrightarrow> sims_advance sv sv'"
  by (induction rule: server_step.induct) (simp_all add: sims_serve, simp_all add: sims_advance_def)

lemma sims_steps: "(server_step marshal)\<^sup>*\<^sup>* sv sv' \<Longrightarrow> server_inv sv \<Longrightarrow> sims_advance sv sv'"
proof (induction rule: rtranclp_induct)
  case (step y z)
  then have "sims_advance y z" using sims_step server.inv_steps by blast
  with step show ?case by (simp add: sims_advance_def)
qed simp

text \<open>C36: what a reset does not replace. The server's causal graph keeps the events of the old
  simulation, and the key-value store keeps its contents and goes on publishing its conflict events
  on the bus of an earlier simulation: in no state that the server reaches afterwards, by any
  requests, further resets and background work, does a write or a resolution through the REST
  interface change the current simulation or anything of its bus, so no WebSocket client hears of a
  conflict.\<close>

theorem reset_leaves_kv_and_graph:
  assumes "server_init s" and "(server_step marshal)\<^sup>*\<^sup>* s sv" and "handleSimulationReset e b sv = ((200, bd), sv')"
    and "(server_step marshal)\<^sup>*\<^sup>* sv' sv''"
  shows "sv_causalGraph sv' = sv_causalGraph sv \<and> sv_kv sv' = sv_kv sv \<and> sv_kvSim sv'' \<noteq> sv_sim sv''
     \<and> getSim (snd (handleKVWrite t1 t2 key w sv'')) = getSim sv''
     \<and> getSim (snd (handleKVResolve key strategy sv'')) = getSim sv''"
proof -
  have inv: "server_inv sv" by (rule server.inv_reachable [OF assms(1,2)])
  obtain sim where sv': "sv' = setSim (se_now e) sim sv" by (rule reset_ok [OF assms(3)]) (rule that; assumption)
  have "server_inv sv'" using inv_handlers(2) [OF inv, of e b] assms(3) by simp
  from sims_steps [OF assms(4) this] have ne: "sv_kvSim sv'' \<noteq> sv_sim sv''"
    using server_invD(2) [OF inv] by (simp add: sv' sims_advance_def)
  then have put: "getSim (kv_put d sv'') = getSim sv''" for d by (simp add: kv_put_def getSim_def split: option.splits)
  have "getSim (snd (handleKVWrite t1 t2 key w sv'')) = getSim sv''"
    using put by (simp add: handleKVWrite_def split: prod.split sum.split)
  moreover have "getSim (snd (handleKVResolve key strategy sv'')) = getSim sv''"
    using put by (simp add: handleKVResolve_def split: prod.split option.split)
  ultimately show ?thesis using ne by (simp add: sv')
qed

text \<open>A server with no processes, no tokens and no rate limit.\<close>

definition demo_server :: Server where
  "demo_server = NewServerWithRateLimit (spawn_count demo_env 0 ClockVector CausalDelivery
     (simulation_New \<lparr>sc_ClockType = ClockVector, sc_DeliveryMode = CausalDelivery, sc_Channels = ''full_mesh''\<rparr>))
     [] \<lparr>mgr_tokens = []\<rparr> 0 0"

lemma server_init_demo: "server_init demo_server"
  unfolding server_init_def demo_server_def by ((rule exI)+, rule conjI [rotated], rule refl) simp

definition demo_reset :: "startRequest bound" where
  "demo_reset = (True, \<lparr>sr_ProcessCount = 2, sr_ClockType = '''', sr_DeliveryMode = ''immediate''\<rparr>)"

lemma demo_reset_ok: "fst (fst (handleSimulationReset demo_env demo_reset sv)) = 200"
  by (simp add: handleSimulationReset_def demo_reset_def parseClockType_def parseDeliveryMode_def Let_def)

theorem reset_correct_witness:
  "live (getSim (snd (handleSimulationReset demo_env demo_reset demo_server))) = proc_name ` {0 ..< 2}"
proof -
  obtain bd sv' where r: "handleSimulationReset demo_env demo_reset demo_server = ((200, bd), sv')"
    using demo_reset_ok [of demo_server] by (metis prod.collapse)
  have "sr_ProcessCount (snd demo_reset) = 2" by (simp add: demo_reset_def)
  with reset_correct [OF server_init_demo rtranclp.rtrancl_refl r] r show ?thesis by auto
qed

theorem reset_leaves_kv_and_graph_witness:
  "sv_kvSim (snd (handleSimulationReset demo_env demo_reset demo_server))
     \<noteq> sv_sim (snd (handleSimulationReset demo_env demo_reset demo_server))"
proof -
  obtain bd sv' where r: "handleSimulationReset demo_env demo_reset demo_server = ((200, bd), sv')"
    using demo_reset_ok [of demo_server] by (metis prod.collapse)
  from reset_leaves_kv_and_graph [OF server_init_demo rtranclp.rtrancl_refl r rtranclp.rtrancl_refl, of undefined undefined "''k''"
      "(False, undefined)" "(False, '''')"] r show ?thesis by simp
qed

definition demo_kill :: http_request where
  "demo_kill = \<lparr>hr_Method = ''DELETE'', hr_Path = ''/api/v1/processes/no/such'', hr_Origin = '''', hr_Cookie = '''', hr_Authorization = '''',
     hr_RequestId = '''', hr_HasBody = False, hr_ContentLength = 0, hr_ClientIP = ''''\<rparr>"

lemma demo_plain: "sv_auth demo_server = \<lparr>mgr_tokens = []\<rparr>" "sv_limiter demo_server = None"
  by (simp_all add: demo_server_def NewServerWithRateLimit_def Let_def hub_put_def subscribeCausalGraph_def cancel_cg_def)

theorem rest_client_error_changes_nothing_witness:
  "fst (fst (snd (serve (\<lambda>r. Some (KillProc ''no/such'')) demo_env '''' 0 demo_kill demo_server))) = 400
     \<and> snd (snd (serve (\<lambda>r. Some (KillProc ''no/such'')) demo_env '''' 0 demo_kill demo_server)) = demo_server"
proof -
  obtain hs status bd sv' where s: "serve (\<lambda>r. Some (KillProc ''no/such'')) demo_env '''' 0 demo_kill demo_server = (hs, (status, bd), sv')"
    by (metis prod.collapse)
  have "validatePID ''no/such'' = Some PidMalformed" by code_simp
  then have "status = 400"
    using s by (simp add: serve_def maxBodyMiddleware_def MaxJSONBodyBytes_def corsMiddleware_def limit_request_def demo_plain
        auth_Middleware_def mgr_Enabled_def gm_len_def Let_def handleKillProcess_def safeError_def demo_kill_def)
  with rest_client_error_changes_nothing [OF s] s demo_plain(2) show ?thesis by auto
qed

text \<open>C8: in every state the server reaches, under every sequence of requests, scenario runs, resets and
  background work (the stages of kills and the goroutines of simulations, hub and connections
  included), each simulation it holds is well wired (the transport delivers to every live process,
  every two of them have channels both ways, and whoever the snapshot coordinator has registered is
  live or about to be deregistered), every process identifier in it matches the pattern of
  \<^verbatim>\<open>validatePID\<close>, the references to the current simulation and to the store's one are valid, and
  the hub has at most one fan-out goroutine, which has never sent on a closed client channel. (Other
  panics of the hub are not excluded: overlapping calls of \<^verbatim>\<open>stop\<close> may close the cancel channel twice.)\<close>

theorem server_safety:
  assumes "server_init s" and "(server_step marshal)\<^sup>*\<^sup>* s sv"
  shows "sv_sim sv < length (sv_sims sv) \<and> sv_kvSim sv < length (sv_sims sv)
     \<and> (\<forall>sim \<in> set (sv_sims sv). wired sim \<and> (\<forall>p \<in> live sim. validatePID p = None))
     \<and> \<not> hw_fanout_panicked (sv_hub sv) \<and> gm_len (hw_runs (sv_hub sv)) \<le> 1"
proof -
  have inv: "server_inv sv" by (rule server.inv_reachable [OF assms])
  then have h: "run_inv (sv_hub sv)" "client_inv (sv_hub sv)" by (auto simp: server_inv_def hub_inv_def)
  then show ?thesis
    using inv run_inv_one [OF h(1)] by (auto simp: server_inv_def list_all_iff good_sim_def client_inv_def)
qed

theorem server_safety_witness:
  "sv_sim (snd (handleSimulationReset demo_env demo_reset demo_server)) = 1
     \<and> live (sv_sims (snd (handleSimulationReset demo_env demo_reset demo_server)) ! 1) \<subseteq> {p. validatePID p = None}"
proof -
  let ?r = "\<lparr>hr_Method = ''POST'', hr_Path = ''/api/v1/simulation/reset'', hr_Origin = '''', hr_Cookie = '''', hr_Authorization = '''',
    hr_RequestId = '''', hr_HasBody = True, hr_ContentLength = 0, hr_ClientIP = ''''\<rparr>"
  let ?sv = "snd (handleSimulationReset demo_env demo_reset demo_server)"
  have demo: "sv_auth demo_server = \<lparr>mgr_tokens = []\<rparr>" "sv_limiter demo_server = None" "length (sv_sims demo_server) = 1"
    by (simp_all add: demo_server_def NewServerWithRateLimit_def Let_def hub_put_def subscribeCausalGraph_def cancel_cg_def)
  have "snd (snd (serve (\<lambda>r. Some (ResetSim demo_reset)) demo_env '''' 0 ?r demo_server)) = ?sv"
    by (simp add: serve_def maxBodyMiddleware_def MaxJSONBodyBytes_def corsMiddleware_def limit_request_def demo
        auth_Middleware_def mgr_Enabled_def gm_len_def Let_def)
  then have "server_step (\<lambda>_. None) demo_server ?sv" by (metis http)
  from server_safety [OF server_init_demo r_into_rtranclp [where r = "server_step (\<lambda>_. None)", OF this]]
  have s: "sv_sim ?sv < length (sv_sims ?sv)" "\<forall>sim \<in> set (sv_sims ?sv). \<forall>p \<in> live sim. validatePID p = None" by auto
  obtain bd sv' where r: "handleSimulationReset demo_env demo_reset demo_server = ((200, bd), sv')"
    using demo_reset_ok [of demo_server] by (metis prod.collapse)
  obtain sim where "sv' = setSim (se_now demo_env) sim demo_server" by (rule reset_ok [OF r]) (rule that; assumption)
  then have "sv_sim ?sv = 1" using r demo by simp
  moreover from this s have "\<forall>p \<in> live (sv_sims ?sv ! 1). validatePID p = None" by (metis nth_mem)
  ultimately show ?thesis by auto
qed

section \<open>Requests without credentials\<close>

lemma auth_Middleware_rejects:
  assumes "mgr_Enabled m" "path \<notin> {''/healthz'', ''/readyz'', ''/metrics''}"
    "\<forall>name secret. TrimPrefix authz ''Bearer '' = name @ '':'' @ secret
       \<longrightarrow> map_option tok_Secret (map_of (mgr_tokens m) name) \<noteq> Some secret"
  obtains msg where "auth_Middleware m path authz = Abort 401 msg"
proof (cases "split_token (TrimPrefix authz ''Bearer '')")
  case None
  with assms(1,2) that show ?thesis by (cases "authz = ''''") (auto simp: auth_Middleware_def)
next
  case (Some t)
  then have "\<not> mgr_Validate (tok_Name t) (tok_Secret t) m"
    using assms(3) split_token_Some [of "TrimPrefix authz ''Bearer ''" t]
    by (auto simp: mgr_Validate_def split: option.splits)
  with Some assms(1,2) that show ?thesis by (cases "authz = ''''") (auto simp: auth_Middleware_def)
qed

text \<open>The chain of middleware, for a request without credentials.\<close>

lemma serve_rejects:
  assumes "mgr_Enabled (sv_auth sv)" and "hr_Path r \<notin> {''/healthz'', ''/readyz'', ''/metrics''}"
    and "\<forall>name secret. TrimPrefix (hr_Authorization r) ''Bearer '' = name @ '':'' @ secret
       \<longrightarrow> map_option tok_Secret (map_of (mgr_tokens (sv_auth sv)) name) \<noteq> Some secret"
  shows "case serve route e uuid now r sv of (hs, (status, bd), sv') \<Rightarrow>
     status \<in> {204, 401, 413, 429} \<and> (\<exists>l. sv' = sv\<lparr>sv_limiter := l\<rparr>) \<and> set securityHeaders \<subseteq> set hs"
proof -
  obtain msg where a: "auth_Middleware (sv_auth sv) (hr_Path r) (hr_Authorization r) = Abort 401 msg"
    by (rule auth_Middleware_rejects [OF assms])
  have same: "\<exists>l. sv = sv\<lparr>sv_limiter := l\<rparr>" by (rule exI [of _ "sv_limiter sv"]) simp
  obtain res l where l: "limit_request now r sv = (res, sv\<lparr>sv_limiter := l\<rparr>)" "res = Pass None \<or> (\<exists>m. res = Abort 429 m)"
  proof (cases "sv_limiter sv")
    case None
    then have "limit_request now r sv = (Pass None, sv\<lparr>sv_limiter := None\<rparr>)" by (simp add: limit_request_def)
    with that show ?thesis by blast
  next
    case (Some rl)
    obtain res rl' where "RateLimitMiddleware now (hr_Path r) (hr_ClientIP r) rl = (res, rl')" by fastforce
    moreover from this have "res = Pass None \<or> (\<exists>m. res = Abort 429 m)"
      by (auto simp: RateLimitMiddleware_def Let_def split: if_splits prod.splits)
    ultimately show ?thesis using that Some by (simp add: limit_request_def)
  qed
  let ?hs = "securityHeaders @ [(''X-Request-Id'', requestID uuid r)]"
  obtain ch where ch: "corsMiddleware (sv_allowed sv) r = (ch, if hr_Method r = ''OPTIONS'' then Abort 204 '''' else Pass None)"
    unfolding corsMiddleware_def Let_def by blast
  have "\<exists>hs st m sv'. serve route e uuid now r sv = (?hs @ hs, (st, ErrorBody m), sv') \<and> st \<in> {204, 401, 413, 429}
      \<and> (sv' = sv \<or> sv' = sv\<lparr>sv_limiter := l\<rparr>)"
  proof (cases "hr_HasBody r \<and> hr_ContentLength r > MaxJSONBodyBytes")
    case True
    then show ?thesis by (simp add: serve_def maxBodyMiddleware_def Let_def)
  next
    case False
    then have m: "maxBodyMiddleware MaxJSONBodyBytes r = Pass None" by (auto simp: maxBodyMiddleware_def)
    consider "hr_Method r = ''OPTIONS''" | "hr_Method r \<noteq> ''OPTIONS''" "res = Pass None"
      | m where "hr_Method r \<noteq> ''OPTIONS''" "res = Abort 429 m" using l(2) by blast
    then show ?thesis
    proof cases
      case 1
      then have "serve route e uuid now r sv = (?hs @ ch, (204, ErrorBody ''''), sv)"
        unfolding serve_def Let_def m ch by simp
      then show ?thesis by blast
    next
      case 2
      then have "serve route e uuid now r sv = (?hs @ ch, (401, ErrorBody msg), sv\<lparr>sv_limiter := l\<rparr>)"
        unfolding serve_def Let_def m ch l(1) using a by simp
      then show ?thesis by blast
    next
      case (3 msg')
      then have "serve route e uuid now r sv = (?hs @ ch @ [(''Retry-After'', ''1'')], (429, ErrorBody msg'), sv\<lparr>sv_limiter := l\<rparr>)"
        unfolding serve_def Let_def m ch l(1) by simp
      then show ?thesis by blast
    qed
  qed
  then obtain hs st m sv' where "serve route e uuid now r sv = (?hs @ hs, (st, ErrorBody m), sv')" "st \<in> {204, 401, 413, 429}"
    "\<exists>l. sv' = sv\<lparr>sv_limiter := l\<rparr>" using same by blast
  then show ?thesis by (simp add: subset_insertI2)
qed

text \<open>C23: nothing passes the chain of middleware without credentials. When tokens are configured and the
  request names a protected path without the secret stored for its name, the answer is 401, or one
  of the answers given before authentication (413 for an oversized body, 204 for a preflight
  request, 429 by the rate limiter); no route is dispatched, the server is unchanged but for the
  limiter's buckets, and the security headers are set.\<close>

theorem serve_needs_credentials:
  assumes "mgr_Enabled (sv_auth sv)" and "hr_Path r \<notin> {''/healthz'', ''/readyz'', ''/metrics''}"
    and "\<forall>name secret. TrimPrefix (hr_Authorization r) ''Bearer '' = name @ '':'' @ secret
       \<longrightarrow> map_option tok_Secret (map_of (mgr_tokens (sv_auth sv)) name) \<noteq> Some secret"
  shows "case serve route e uuid now r sv of (hs, (status, bd), sv') \<Rightarrow>
     status \<in> {204, 401, 413, 429} \<and> (\<exists>l. sv' = sv\<lparr>sv_limiter := l\<rparr>) \<and> set securityHeaders \<subseteq> set hs"
  using assms by (rule serve_rejects)

theorem serve_needs_credentials_witness:
  "case serve (\<lambda>r. Some (ResetSim demo_reset)) demo_env '''' 0 \<lparr>hr_Method = ''POST'', hr_Path = ''/api/v1/simulation/reset'',
       hr_Origin = '''', hr_Cookie = '''', hr_Authorization = ''Bearer bot:guess'', hr_RequestId = '''', hr_HasBody = True,
       hr_ContentLength = 0, hr_ClientIP = ''''\<rparr>
       (demo_server\<lparr>sv_auth := \<lparr>mgr_tokens = [(''bot'', \<lparr>tok_Name = ''bot'', tok_Secret = ''b0t''\<rparr>)]\<rparr>\<rparr>) of
     (hs, (status, bd), sv') \<Rightarrow> status \<in> {204, 401, 413, 429} \<and> getSim sv' = getSim demo_server"
proof -
  let ?m = "\<lparr>mgr_tokens = [(''bot'', \<lparr>tok_Name = ''bot'', tok_Secret = ''b0t''\<rparr>)]\<rparr>"
  have en: "mgr_Enabled ?m" by code_simp
  have "map_option tok_Secret (map_of (mgr_tokens ?m) name) \<noteq> Some secret"
    if "TrimPrefix ''Bearer bot:guess'' ''Bearer '' = name @ '':'' @ secret" for name secret
  proof -
    have "TrimPrefix ''Bearer bot:guess'' ''Bearer '' = ''bot:guess''" by code_simp
    with that show ?thesis by auto
  qed
  then show ?thesis
    using serve_needs_credentials [of "demo_server\<lparr>sv_auth := ?m\<rparr>" "\<lparr>hr_Method = ''POST'', hr_Path = ''/api/v1/simulation/reset'',
       hr_Origin = '''', hr_Cookie = '''', hr_Authorization = ''Bearer bot:guess'', hr_RequestId = '''', hr_HasBody = True,
       hr_ContentLength = 0, hr_ClientIP = ''''\<rparr>" "\<lambda>r. Some (ResetSim demo_reset)" demo_env "''''" 0] en
    by (auto simp: getSim_def split: prod.splits)
qed

end
