(* ===== verification/Gateway_Shutdown.thy ===== *)
theory Gateway_Shutdown
  imports Gateway_Runs
begin

text \<open>
  The end of \<^verbatim>\<open>Shutdown\<close> in \<^verbatim>\<open>gateway/server.go\<close>: which goroutines it waits for, and that the goroutines of the
  server, of the hub and of the WebSocket connections come to their ends once it has stopped the hub, closed
  the connections and cancelled the causal-graph subscription.
\<close>

section \<open>The wait\<close>

text \<open>The count of the server's \<^verbatim>\<open>WaitGroup\<close>: the goroutines of \<^verbatim>\<open>subscribeCausalGraph\<close>, and the scenario runners
  that have steps left or have not started.\<close>

definition runner_live :: "nat option \<times> ScenarioStep list \<Rightarrow> bool" where
  "runner_live r \<longleftrightarrow> fst r = None \<or> snd r \<noteq> []"

definition wg_count :: "Server \<Rightarrow> nat" where
  "wg_count sv = gm_len (sv_cgs sv) + length (filter runner_live (sv_runners sv))"

text \<open>\<^verbatim>\<open>Shutdown\<close> returns when the count is zero or its context is over.\<close>

definition Shutdown_returns :: "bool \<Rightarrow> Server \<Rightarrow> bool" where
  "Shutdown_returns ctxDone sv \<longleftrightarrow> wg_count sv = 0 \<or> ctxDone"

section \<open>Connections and subscriptions\<close>

text \<open>A client whose read loop has ended has a closed connection and a stopped ping; every other one is registered
  at the hub.\<close>

definition conn_ok :: "'d hub_world \<Rightarrow> bool" where
  "conn_ok w \<longleftrightarrow> (\<forall>k c. map_of (hw_clients w) k = Some c \<longrightarrow>
     (cl_closed c \<longrightarrow> cl_connClosed c \<and> cl_pingStop c) \<and> (\<not> cl_closed c \<longrightarrow> map_of (hub_clients (hw_hub w)) k \<noteq> None))"

lemma conn_okD:
  assumes "conn_ok w" "map_of (hw_clients w) k = Some c"
  shows "cl_closed c \<Longrightarrow> cl_connClosed c" "cl_closed c \<Longrightarrow> cl_pingStop c"
    "\<not> cl_closed c \<Longrightarrow> map_of (hub_clients (hw_hub w)) k \<noteq> None"
  using assms unfolding conn_ok_def by blast+

lemma conn_ok_same:
  "conn_ok w \<Longrightarrow> hw_clients w' = hw_clients w \<Longrightarrow> hub_clients (hw_hub w') = hub_clients (hw_hub w) \<Longrightarrow> conn_ok w'"
  by (simp add: conn_ok_def)

lemma upd_client_clients:
  "map_of (hw_clients (upd_client k f w)) j = (if j = k then map_option f (map_of (hw_clients w) k) else map_of (hw_clients w) j)"
  by (simp add: upd_client_def split: option.splits)

definition keeps_conn :: "('d client \<Rightarrow> 'd client) \<Rightarrow> bool" where
  "keeps_conn f \<longleftrightarrow> (\<forall>c. cl_closed (f c) = cl_closed c \<and> (cl_connClosed c \<longrightarrow> cl_connClosed (f c)) \<and> (cl_pingStop c \<longrightarrow> cl_pingStop (f c)))"

lemma keeps_conn_ops [simp]:
  "keeps_conn (replay_next marshal timeout)" "keeps_conn (write_pump werr)" "keeps_conn (ping_loop tick werr)"
  "keeps_conn (\<lambda>c. c\<lparr>cl_replay := x\<rparr>)" "keeps_conn (\<lambda>c. c\<lparr>cl_connClosed := True\<rparr>)"
  by (auto simp: keeps_conn_def replay_next_def write_pump_def ping_loop_def split: option.splits list.splits)

lemma conn_ok_upd:
  assumes "conn_ok w" "keeps_conn f"
  shows "conn_ok (upd_client k f w)"
  unfolding conn_ok_def
proof (intro allI impI)
  fix j c
  assume "map_of (hw_clients (upd_client k f w)) j = Some c"
  then obtain c0 where "map_of (hw_clients w) j = Some c0" "c = c0 \<or> c = f c0"
    by (auto simp: upd_client_clients split: if_splits)
  then show "(cl_closed c \<longrightarrow> cl_connClosed c \<and> cl_pingStop c)
      \<and> (\<not> cl_closed c \<longrightarrow> map_of (hub_clients (hw_hub (upd_client k f w))) j \<noteq> None)"
    using conn_okD [OF assms(1)] assms(2) by (auto simp: keeps_conn_def)
qed

lemma conn_ok_fold: "conn_ok w \<Longrightarrow> keeps_conn f \<Longrightarrow> conn_ok (fold (\<lambda>k. upd_client k f) ks w)"
  by (induction ks arbitrary: w) (auto intro: conn_ok_upd)

lemma conn_ok_cleanup: "conn_ok w \<Longrightarrow> conn_ok (hub_cleanup k w)"
  by (auto simp: conn_ok_def hub_cleanup_def Let_def split: option.splits)

lemma conn_ok_register: "conn_ok w \<Longrightarrow> conn_ok (hub_register upgraded now w)"
  by (auto simp: conn_ok_def hub_register_def Let_def)

lemma conn_ok_deliver:
  assumes "conn_ok w" "client_inv w"
  shows "conn_ok (hub_deliver marshal e w)"
proof (cases "marshal e")
  case (Some data)
  obtain h cls where f: "hub_fanout data (hw_hub w, hw_clients w) = Some (h, cls)" "hub_clients h = hub_clients (hw_hub w)"
    and cls: "\<And>k. map_of cls k = (if map_of (hub_clients (hw_hub w)) k \<noteq> None
         then map_option (\<lambda>c. c\<lparr>cl_send := chan_try_send WSClientSendBuffer data (cl_send c)\<rparr>) (map_of (hw_clients w) k)
         else map_of (hw_clients w) k)"
    by (rule hub_fanout_ok [OF assms(2), of data]) (rule that; assumption)
  have "conn_ok (w\<lparr>hw_hub := h, hw_clients := cls\<rparr>)"
    unfolding conn_ok_def
  proof (intro allI impI)
    fix k c
    assume "map_of (hw_clients (w\<lparr>hw_hub := h, hw_clients := cls\<rparr>)) k = Some c"
    then obtain c0 where "map_of (hw_clients w) k = Some c0" "cl_closed c = cl_closed c0"
        "cl_connClosed c = cl_connClosed c0" "cl_pingStop c = cl_pingStop c0"
      using cls [of k] by (auto split: if_splits)
    then show "(cl_closed c \<longrightarrow> cl_connClosed c \<and> cl_pingStop c)
        \<and> (\<not> cl_closed c \<longrightarrow> map_of (hub_clients (hw_hub (w\<lparr>hw_hub := h, hw_clients := cls\<rparr>))) k \<noteq> None)"
      using conn_okD [OF assms(1)] f(2) by auto
  qed
  then show ?thesis by (simp add: hub_deliver_def Some f(1))
qed (simp add: hub_deliver_def assms)

lemma conn_ok_fanout: "fanout_step marshal d w w' \<Longrightarrow> hub_inv w \<Longrightarrow> conn_ok w \<Longrightarrow> conn_ok w'"
proof (induction rule: fanout_step.induct)
  case (select_event w a ch e es)
  let ?w = "upd_bus a (chan_receive ch) (w\<lparr>hw_runs := gm_set (hw_runs w) d None\<rparr>)"
  have "client_inv ?w" by (rule client_inv_mono [of w]) (use select_event in \<open>auto simp: hub_inv_def\<close>)
  moreover have "conn_ok ?w" by (rule conn_ok_same [of w]) (use select_event in auto)
  ultimately show ?case by (intro conn_ok_deliver)
qed (rule conn_ok_same, assumption, simp_all add: run_exit_def)+

lemma conn_ok_step: "hub_step marshal w w' \<Longrightarrow> hub_inv w \<Longrightarrow> conn_ok w \<Longrightarrow> conn_ok w'"
proof (induction rule: hub_step.induct)
  case (started w w')
  then show ?case using hub_start_simps(7,8) [of w w'] by (auto intro: conn_ok_same [of w])
next
  case (stop_moves w xs pc ys r w')
  then show ?case using stop_stage_simps [OF stop_moves(2)] by (auto intro: conn_ok_same [of w])
next
  case (fans_out d w w')
  then show ?case by (auto intro: conn_ok_fanout)
next
  case (replay w k c)
  then show ?case unfolding replay_start_conv by (intro conn_ok_upd) auto
next
  case (close_all w)
  then show ?case unfolding hub_closeAllClients_def by (intro conn_ok_fold) auto
qed (simp_all add: read_loop_def conn_ok_cleanup conn_ok_register conn_ok_upd, (rule conn_ok_same, assumption, simp_all add: run_exit_def)+)

text \<open>The context of every causal-graph goroutine but the latest was cancelled, and each listens to a simulation
  that the server had.\<close>

definition cgs_ok :: "Server \<Rightarrow> bool" where
  "cgs_ok sv \<longleftrightarrow> (\<forall>g c. map_of (sv_cgs sv) g = Some c \<longrightarrow>
     (cg_cancelled c \<or> sv_cgCancel sv = Some g) \<and> cg_sim c < length (sv_sims sv))"

definition tidy :: "Server \<Rightarrow> bool" where
  "tidy sv \<longleftrightarrow> conn_ok (sv_hub sv) \<and> cgs_ok sv"

text \<open>What a request other than a reset, and the goroutines of a simulation, leave alone.\<close>

definition same_bg :: "Server \<Rightarrow> Server \<Rightarrow> bool" where
  "same_bg sv sv' \<longleftrightarrow> sv_hub sv' = sv_hub sv \<and> sv_cgs sv' = sv_cgs sv \<and> sv_cgCancel sv' = sv_cgCancel sv
     \<and> length (sv_sims sv') = length (sv_sims sv)"

lemma tidy_same: "tidy sv \<Longrightarrow> same_bg sv sv' \<Longrightarrow> tidy sv'"
  by (simp add: tidy_def same_bg_def cgs_ok_def)

lemma same_bg_parts [simp]:
  "same_bg sv sv" "same_bg sv (upd_sim f sv)" "same_bg sv (kv_put d sv)" "same_bg sv (snd (on_sim g sv))"
  "same_bg sv (runner_step i sv)" "same_bg sv (cg_take k sv)" "same_bg sv (snd (limit_request t r sv))"
  "same_bg sv (sv\<lparr>sv_sims := (sv_sims sv)[j := x]\<rparr>)" "same_bg sv (sv\<lparr>sv_runners := ys\<rparr>)" "same_bg sv (sv\<lparr>sv_limiter := l\<rparr>)"
  by (simp_all add: same_bg_def upd_sim_def kv_put_def on_sim_def runner_step_def cg_take_def limit_request_def Let_def
      split: option.splits prod.splits list.splits)

lemma same_bg_on_sim: "on_sim f sv = (r, sv') \<Longrightarrow> same_bg sv sv'"
  using same_bg_parts(4) [of sv f] by simp

lemma same_bg_handlers:
  "same_bg sv (snd (handleSimulationStart e b1 sv))" "same_bg sv (snd (handleSimulationConfig b2 sv))"
  "same_bg sv (snd (handleSpawnProcess e b3 sv))" "same_bg sv (snd (handleKillProcess p sv))"
  "same_bg sv (snd (handleInternalEvent e p sv))" "same_bg sv (snd (handleTriggerSnapshot e p sv))"
  "same_bg sv (snd (handleSendMessage e b4 sv))" "same_bg sv (snd (handleBroadcast e b5 sv))"
  "same_bg sv (snd (handleFaultDelay b6 sv))" "same_bg sv (snd (handleFaultDrop b7 sv))"
  "same_bg sv (snd (handleClearFaults sv))" "same_bg sv (snd (handleFaultPartition b8 sv))"
  "same_bg sv (snd (handleHealPartition sv))" "same_bg sv (snd (handleKVWrite t1 t2 key b9 sv))"
  "same_bg sv (snd (handleKVResolve key b10 sv))" "same_bg sv (snd (handleRunScenario e nm sv))"
  unfolding handleSimulationStart_def handleSimulationConfig_def handleSpawnProcess_def
    handleKillProcess_def handleInternalEvent_def handleTriggerSnapshot_def handleSendMessage_def handleBroadcast_def
    handleFaultDelay_def handleFaultDrop_def handleClearFaults_def handleFaultPartition_def handleHealPartition_def
    handleKVWrite_def handleKVResolve_def handleRunScenario_def Let_def
  by (simp_all add: same_bg_on_sim split: prod.split option.split sum.split)

lemma cgs_ok_cancel: "cgs_ok sv \<Longrightarrow> map_of (sv_cgs (cancel_cg sv)) g = Some c \<Longrightarrow> cg_cancelled c"
  unfolding cancel_cg_def cgs_ok_def by (cases "sv_cgCancel sv") (auto split: option.splits if_splits, metis option.distinct(1))

lemma cgs_ok_cancel_sim: "cgs_ok sv \<Longrightarrow> map_of (sv_cgs (cancel_cg sv)) g = Some c \<Longrightarrow> cg_sim c < length (sv_sims sv)"
  unfolding cancel_cg_def cgs_ok_def by (auto split: option.splits if_splits)

lemma cgs_okI:
  assumes "\<And>g c. map_of (sv_cgs sv) g = Some c \<Longrightarrow> (cg_cancelled c \<or> sv_cgCancel sv = Some g) \<and> cg_sim c < length (sv_sims sv)"
  shows "cgs_ok sv"
  using assms unfolding cgs_ok_def by blast

lemma tidy_cancel:
  assumes "tidy sv"
  shows "tidy (cancel_cg sv)"
proof -
  have ok: "cgs_ok sv" "conn_ok (sv_hub sv)" using assms by (simp_all add: tidy_def)
  have "cgs_ok (cancel_cg sv)"
    by (rule cgs_okI) (simp add: cgs_ok_cancel [OF ok(1)] cgs_ok_cancel_sim [OF ok(1)])
  then show ?thesis using ok(2) by (simp add: tidy_def)
qed

lemma tidy_subscribe:
  assumes "tidy sv" "i < length (sv_sims sv)"
  shows "tidy (subscribeCausalGraph i sv)"
proof -
  have ok: "cgs_ok sv" "conn_ok (sv_hub sv)" using assms(1) by (simp_all add: tidy_def)
  have "cgs_ok (subscribeCausalGraph i sv)"
  proof (rule cgs_okI)
    fix g c
    assume "map_of (sv_cgs (subscribeCausalGraph i sv)) g = Some c"
    then consider "map_of (sv_cgs (cancel_cg sv)) g = Some c" | "cg_sim c = i" "sv_cgCancel (subscribeCausalGraph i sv) = Some g"
      by (auto simp: subscribeCausalGraph_def Let_def split: if_splits)
    then show "(cg_cancelled c \<or> sv_cgCancel (subscribeCausalGraph i sv) = Some g) \<and> cg_sim c < length (sv_sims (subscribeCausalGraph i sv))"
      by cases (use assms(2) cgs_ok_cancel [OF ok(1)] cgs_ok_cancel_sim [OF ok(1)] in simp_all)
  qed
  moreover have "conn_ok (sv_hub (subscribeCausalGraph i sv))"
    by (rule conn_ok_same [OF ok(2)]) (simp_all add: subscribeCausalGraph_def Let_def)
  ultimately show ?thesis by (simp add: tidy_def)
qed

lemma tidy_hub_put: "tidy sv \<Longrightarrow> conn_ok w \<Longrightarrow> tidy (hub_put w sv)"
  by (simp add: tidy_def cgs_ok_def hub_put_def)

lemma conn_ok_view [simp]: "conn_ok (hub_view sv) = conn_ok (sv_hub sv)"
  by (simp add: conn_ok_def hub_view_def)

lemma conn_ok_settle: "conn_ok w \<Longrightarrow> conn_ok (hub_settle w)"
proof -
  assume w: "conn_ok w"
  have "conn_ok (w'\<lparr>hw_starts := n\<rparr>)" if "hub_start v = Some w'" "conn_ok v" for n and v w' :: "'a hub_world"
    using hub_start_simps(7,8) [OF that(1)] that(2) by (auto intro: conn_ok_same [of v])
  moreover have "conn_ok (run_exit d w)" for d by (rule conn_ok_same [OF w]) (simp_all add: run_exit_def)
  ultimately show ?thesis using w by (simp add: hub_settle_def split: option.split)
qed

lemma tidy_setSim:
  assumes "tidy sv"
  shows "tidy (setSim now sim sv)"
proof -
  define sv1 where "sv1 = sv\<lparr>sv_sims := sv_sims sv @ [sim], sv_sim := length (sv_sims sv)\<rparr>"
  have sv1: "tidy sv1" using assms by (auto simp: sv1_def tidy_def cgs_ok_def intro: less_SucI)
  then have view: "conn_ok (hub_view sv1)" by (simp add: tidy_def)
  have "conn_ok (hub_reconnect i (hub_view sv1))" for i by (rule conn_ok_same [OF view]) simp_all
  with sv1 have "tidy (subscribeCausalGraph (length (sv_sims sv))
      (hub_put (hub_settle (hub_reconnect (length (sv_sims sv)) (hub_view sv1))) sv1))"
    by (intro tidy_subscribe tidy_hub_put conn_ok_settle) (simp_all add: sv1_def)
  then show ?thesis by (simp add: setSim_def Let_def sv1_def tidy_def cgs_ok_def)
qed

lemma tidy_dispatch: "tidy sv \<Longrightarrow> tidy (snd (dispatch e q sv))"
proof -
  assume t: "tidy sv"
  then have "tidy (snd (handleSimulationReset e b sv))" for b
    by (auto simp: handleSimulationReset_def Let_def intro: tidy_setSim split: option.split)
  with t show ?thesis by (cases q) (simp_all add: tidy_same [OF t] same_bg_handlers)
qed

lemma tidy_serve: "tidy sv \<Longrightarrow> tidy (snd (snd (serve route e uuid now r sv)))"
proof -
  assume t: "tidy sv"
  obtain res sv1 where l: "limit_request now r sv = (res, sv1)" by fastforce
  then have "tidy sv1" using tidy_same [OF t] same_bg_parts(7) [of sv now r] by simp
  moreover obtain ch m where c: "corsMiddleware (sv_allowed sv) r = (ch, m)" by fastforce
  ultimately show ?thesis
    using t by (simp add: serve_def Let_def l(1) c tidy_dispatch split: mw_result.split option.split)
qed

lemma tidy_exit: "tidy sv \<Longrightarrow> tidy (cg_exit g sv)"
  by (auto simp: tidy_def cgs_ok_def cg_exit_def Let_def split: option.split if_splits)

lemma conn_ok_closing: "conn_ok w \<Longrightarrow> conn_ok (hub_closeAllClients (hub_stop w))"
  unfolding hub_closeAllClients_def by (intro conn_ok_fold conn_ok_same [of w "hub_stop w"]) simp_all

lemma tidy_shutdown: "tidy sv \<Longrightarrow> tidy (Shutdown now sv)"
proof -
  assume t: "tidy sv"
  define sv1 where "sv1 = sv\<lparr>sv_ready := False, sv_healthErr := ''shutting down''\<rparr>"
  have sv1: "tidy sv1" using t by (simp add: sv1_def tidy_def cgs_ok_def)
  then have "tidy (hub_put (hub_closeAllClients (hub_stop (hub_view sv1))) sv1)"
    by (intro tidy_hub_put conn_ok_closing) (simp_all add: tidy_def)
  then show ?thesis unfolding Shutdown_def Let_def sv1_def [symmetric] by (intro tidy_cancel tidy_same [OF _ same_bg_parts(2)])
qed

lemma tidy_ready: "tidy (sv\<lparr>sv_ready := b\<rparr>) = tidy sv"
  by (simp add: tidy_def cgs_ok_def)

interpretation tidy: transition_system server_init "server_step marshal" "\<lambda>sv. server_inv sv \<and> tidy sv"
proof unfold_locales
  fix sv
  assume init: "server_init sv"
  then obtain s0 allowed mgr rate burst where sv: "sv = NewServerWithRateLimit s0 allowed mgr rate burst"
    by (auto simp: server_init_def)
  have "conn_ok (newWSHub 1 (\<lambda>i. sim_bus s0) 0 allowed)" by (simp add: conn_ok_def newWSHub_def)
  then have "tidy (hub_put (hub_settle (newWSHub 1 (\<lambda>i. sim_bus s0) 0 allowed)) v)" if "sv_cgs v = []" for v
    using that by (simp add: tidy_def cgs_ok_def hub_put_def conn_ok_settle)
  then have "tidy sv" unfolding sv NewServerWithRateLimit_def Let_def tidy_ready by (intro tidy_subscribe) simp_all
  with server.inv_init [OF init] show "server_inv sv \<and> tidy sv" by simp
next
  fix sv sv'
  assume step: "server_step marshal sv sv'" and inv: "server_inv sv \<and> tidy sv"
  from step inv have "tidy sv'"
  proof (induction rule: server_step.induct)
    case (hub_runs sv w)
    then have "conn_ok w" using conn_ok_step [of marshal "hub_view sv" w] server_invD(6) by (auto simp: tidy_def)
    with hub_runs show ?case by (simp add: tidy_hub_put)
  qed (auto intro: tidy_serve tidy_exit tidy_shutdown tidy_same)
  then show "server_inv sv' \<and> tidy sv'" using server.inv_step [OF step] inv by blast
qed

section \<open>The goroutines after a shutdown\<close>

text \<open>
  All steps of the goroutines that are to end: scenario runners; causal-graph goroutines, which take an event
  or leave when their context is cancelled (with both possible the select may take either); the fan-out
  goroutine; and the goroutines of the connections. A read on a closed connection fails. The rules leave out
  rounds in which a goroutine only waits.
\<close>

definition cg_queue :: "Server \<Rightarrow> cg_sub \<Rightarrow> string Event list" where
  "cg_queue sv c = gm_get [] (eb_chans (sim_bus (sv_sims sv ! cg_sim c))) (cg_chan c)"

inductive drain_step :: "(string Event \<Rightarrow> string option) \<Rightarrow> Server \<Rightarrow> Server \<Rightarrow> bool"
  for marshal :: "string Event \<Rightarrow> string option" where
  runner: "i < length (sv_runners sv) \<Longrightarrow> runner_live (sv_runners sv ! i) \<Longrightarrow> drain_step marshal sv (runner_step i sv)"
| graph_event: "map_of (sv_cgs sv) g = Some c \<Longrightarrow> cg_queue sv c \<noteq> [] \<Longrightarrow> drain_step marshal sv (cg_take g sv)"
| graph_exit: "map_of (sv_cgs sv) g = Some c \<Longrightarrow> cg_cancelled c \<Longrightarrow> drain_step marshal sv (cg_exit g sv)"
| fanout: "fanout_step marshal d (hub_view sv) w \<Longrightarrow> drain_step marshal sv (hub_put w sv)"
| read_fails: "map_of (hw_clients (sv_hub sv)) k = Some c \<Longrightarrow> \<not> cl_closed c \<Longrightarrow> cl_connClosed c \<Longrightarrow>
    drain_step marshal sv (hub_put (read_loop True k (hub_view sv)) sv)"
| replay_begins: "map_of (hw_clients (sv_hub sv)) k = Some c \<Longrightarrow> cl_replay c = None \<Longrightarrow>
    drain_step marshal sv (hub_put (replay_start k (hub_view sv)) sv)"
| client_moves: "map_of (hw_clients (sv_hub sv)) k = Some c \<Longrightarrow>
    f = replay_next marshal timeout \<or> f = write_pump werr \<or> f = ping_loop tick werr \<Longrightarrow> f c \<noteq> c \<Longrightarrow>
    drain_step marshal sv (hub_put (upd_client k f (hub_view sv)) sv)"

lemma hub_view_simps [simp]:
  "hw_clients (hub_view sv) = hw_clients (sv_hub sv)" "hw_runs (hub_view sv) = hw_runs (sv_hub sv)"
  "hw_hub (hub_view sv) = hw_hub (sv_hub sv)" "hw_closed (hub_view sv) = hw_closed (sv_hub sv)"
  "run_cancelled (hub_view sv) = run_cancelled (sv_hub sv)"
  by (simp_all add: hub_view_def run_cancelled_def hw_is_closed_def split: option.split)

lemma hub_put_bg [simp]: "sv_hub (hub_put w sv) = w" "sv_cgs (hub_put w sv) = sv_cgs sv"
  by (simp_all add: hub_put_def)

text \<open>What else goes on: the goroutines of the simulations and of their buses, the eviction of idle rate-limit
  buckets, and rounds in which a goroutine finds nothing to do.\<close>

inductive others_step :: "Server \<Rightarrow> Server \<Rightarrow> bool" where
  sim_runs: "i < length (sv_sims sv) \<Longrightarrow> sim_background (sv_sims sv ! i) s \<Longrightarrow>
    others_step sv (sv\<lparr>sv_sims := (sv_sims sv)[i := s]\<rparr>)"
| bus_runs: "f = events_Publish e \<or> f = events_Stop \<or> (\<exists>b. events_loop (hw_buses (hub_view sv) a) b \<and> f = (\<lambda>_. b)) \<Longrightarrow>
    others_step sv (hub_put (upd_bus a f (hub_view sv)) sv)"
| evict: "sv_limiter sv = Some rl \<Longrightarrow> others_step sv (sv\<lparr>sv_limiter := Some (rl_gc now rl)\<rparr>)"
| waits: "sv' = sv \<or> sv' = hub_put (hub_view sv) sv \<Longrightarrow> others_step sv sv'"

text \<open>What the HTTP server's own shutdown, which comes first, keeps away: requests, new connections, and calls
  of the hub by a handler.\<close>

inductive arrival :: "(string Event \<Rightarrow> string option) \<Rightarrow> Server \<Rightarrow> Server \<Rightarrow> bool"
  for marshal :: "string Event \<Rightarrow> string option" where
  "arrival marshal sv (snd (snd (serve route e uuid now r sv)))"
| "arrival marshal sv (Shutdown now sv)"
| "w = (hub_view sv)\<lparr>hw_starts := hw_starts (sv_hub sv) + 1\<rparr> \<or> w = stop_call next (hub_view sv)
     \<or> w = hub_register upgraded ns (hub_view sv) \<or> w = hub_closeAllClients (hub_view sv) \<Longrightarrow> arrival marshal sv (hub_put w sv)"

text \<open>No call of \<^verbatim>\<open>start\<close>, \<^verbatim>\<open>stop\<close> or \<^verbatim>\<open>reconnect\<close> is under way in the hub.\<close>

definition hub_idle :: "'d hub_world \<Rightarrow> bool" where
  "hub_idle w \<longleftrightarrow> hw_stops w = [] \<and> hw_swaps w = [] \<and> hw_starts w = 0"

lemma hub_view_idle [simp]: "hub_idle (hub_view sv) = hub_idle (sv_hub sv)"
  by (simp add: hub_idle_def hub_view_def)

lemma drain_is_step: "drain_step marshal sv sv' \<Longrightarrow> server_step marshal sv sv'"
proof (induction rule: drain_step.induct)
  case (fanout d sv w)
  then show ?case by (intro server_step.hub_runs hub_step.fans_out)
next
  case (client_moves sv k c f timeout werr tick)
  from client_moves(2) show ?case
    by (elim disjE) (auto intro!: server_step.hub_runs hub_step.replay_event hub_step.pump hub_step.ping)
next
  case (read_fails sv k c)
  then show ?case by (intro server_step.hub_runs hub_step.reads) auto
next
  case (replay_begins sv k c)
  then show ?case by (intro server_step.hub_runs hub_step.replay) auto
qed (auto intro: server_step.intros)

text \<open>A client whose goroutines have ended, and a hub without any goroutine.\<close>

definition client_over :: "'d client \<Rightarrow> bool" where
  "client_over c \<longleftrightarrow> cl_closed c \<and> \<not> cl_pump c \<and> \<not> cl_ping c \<and> cl_replay c = Some []"

definition hub_quiet :: "'d hub_world \<Rightarrow> bool" where
  "hub_quiet w \<longleftrightarrow> gm_len (hw_runs w) = 0 \<and> gm_len (hub_clients (hw_hub w)) = 0
     \<and> (\<forall>k c. map_of (hw_clients w) k = Some c \<longrightarrow> client_over c)"

definition drained :: "Server \<Rightarrow> bool" where
  "drained sv \<longleftrightarrow> wg_count sv = 0 \<and> hub_quiet (sv_hub sv)"

text \<open>What is left to do.\<close>

definition client_work :: "'d client \<Rightarrow> nat" where
  "client_work c = (if cl_closed c then 0 else 1) + (if cl_pump c then 1 else 0) + (if cl_ping c then 1 else 0)
     + (case cl_replay c of None \<Rightarrow> Suc historySize | Some es \<Rightarrow> length es)"

definition clients_work :: "(nat, 'd client) gomap \<Rightarrow> nat" where
  "clients_work m = (\<Sum>k \<in> dom (map_of m). client_work (the (map_of m k)))"

definition runs_work :: "'d hub_world \<Rightarrow> nat" where
  "runs_work w = (\<Sum>d \<in> dom (map_of (hw_runs w)). run_weight w d)"

definition runner_work :: "nat option \<times> ScenarioStep list \<Rightarrow> nat" where
  "runner_work r = (if fst r = None then 1 else 0) + length (snd r)"

definition drain_work :: "Server \<Rightarrow> nat" where
  "drain_work sv = clients_work (hw_clients (sv_hub sv)) + runs_work (sv_hub sv) + gm_len (sv_cgs sv)
     + sum_list (map runner_work (sv_runners sv))"

text \<open>The events that wait for the causal-graph goroutines.\<close>

definition pending :: "Server \<Rightarrow> nat" where
  "pending sv = (\<Sum>g \<in> dom (map_of (sv_cgs sv)). length (cg_queue sv (the (map_of (sv_cgs sv) g))))"

definition closing :: "Server \<Rightarrow> bool" where
  "closing sv \<longleftrightarrow> server_inv sv \<and> tidy sv \<and> hub_idle (sv_hub sv)
     \<and> (\<forall>k c. map_of (hw_clients (sv_hub sv)) k = Some c \<longrightarrow> cl_connClosed c)
     \<and> (\<forall>d. map_of (hw_runs (sv_hub sv)) d \<noteq> None \<longrightarrow> run_cancelled (sv_hub sv))
     \<and> (\<forall>g c. map_of (sv_cgs sv) g = Some c \<longrightarrow> cg_cancelled c)"

lemma closingD:
  assumes "closing sv"
  shows "map_of (hw_clients (sv_hub sv)) k = Some c \<Longrightarrow> cl_connClosed c"
    "map_of (hw_runs (sv_hub sv)) d \<noteq> None \<Longrightarrow> run_cancelled (sv_hub sv)"
    "map_of (sv_cgs sv) g = Some cg \<Longrightarrow> cg_cancelled cg" "client_inv (sv_hub sv)" "run_inv (sv_hub sv)" "conn_ok (sv_hub sv)"
    "hub_inv (hub_view sv)" "hub_idle (sv_hub sv)" "cgs_ok sv"
proof -
  show "hub_inv (hub_view sv)" using assms server_invD(6) unfolding closing_def by blast
qed (use assms in \<open>unfold closing_def tidy_def server_inv_def hub_inv_def, blast\<close>)+

subsection \<open>A shutdown makes them end\<close>

lemma closeAll_fold:
  "map_of (hw_clients (fold (\<lambda>k. upd_client k (\<lambda>c. c\<lparr>cl_connClosed := True\<rparr>)) ks w)) j =
     map_option (\<lambda>c. if j \<in> set ks then c\<lparr>cl_connClosed := True\<rparr> else c) (map_of (hw_clients w) j)"
  by (induction ks arbitrary: w) (auto simp: upd_client_clients map_option_case split: option.split)

lemma hub_stop_cancels:
  assumes "run_inv w" "map_of (hw_runs w) d \<noteq> None"
  shows "run_cancelled (hub_stop w)"
proof -
  have "hub_runCancel (hw_hub w) \<noteq> None" using run_inv_D [OF assms(1)] assms(2) by auto
  then show ?thesis by (auto simp: run_cancelled_def hw_is_closed_def hub_stop_def split: option.splits)
qed

lemma hub_closed_down:
  assumes "hub_inv w" "conn_ok w"
  defines "w' \<equiv> hub_closeAllClients (hub_stop w)"
  shows "map_of (hw_clients w') k = Some c \<Longrightarrow> cl_connClosed c" "map_of (hw_runs w') d \<noteq> None \<Longrightarrow> run_cancelled w'"
proof -
  show "cl_connClosed c" if c: "map_of (hw_clients w') k = Some c"
  proof -
    obtain c0 where c0: "map_of (hw_clients w) k = Some c0"
        "c = (if map_of (hub_clients (hw_hub w)) k \<noteq> None then c0\<lparr>cl_connClosed := True\<rparr> else c0)"
      using c by (auto simp: w'_def hub_closeAllClients_def closeAll_fold domIff)
    then show ?thesis using conn_okD(1,3) [OF assms(2) c0(1)] by (cases "cl_closed c0") auto
  qed
  show "run_cancelled w'" if "map_of (hw_runs w') d \<noteq> None"
    using that hub_stop_cancels [of w d] assms(1)
    by (simp add: w'_def run_cancelled_def hw_is_closed_def hub_inv_def split: option.splits)
qed

lemma Shutdown_parts:
  "sv_hub (Shutdown now sv) = hub_closeAllClients (hub_stop (hub_view sv))" "sv_runners (Shutdown now sv) = sv_runners sv"
  "sv_cgs (Shutdown now sv) = sv_cgs (cancel_cg sv)"
  by (simp_all add: Shutdown_def Let_def upd_sim_def hub_view_def cancel_cg_def hub_put_def split: option.split)

lemma closing_Shutdown:
  assumes "server_inv sv" "tidy sv" "hub_idle (sv_hub sv)"
  shows "closing (Shutdown now sv)"
proof -
  have "hub_inv (hub_view sv)" "conn_ok (hub_view sv)" "cgs_ok sv" using server_invD(6) [OF assms(1)] assms(2) by (auto simp: tidy_def)
  moreover have "hub_idle (sv_hub (Shutdown now sv))" using assms(3) by (simp add: Shutdown_parts hub_idle_def hub_view_def)
  ultimately show ?thesis
    using hub_closed_down [of "hub_view sv"] cgs_ok_cancel [of sv] inv_shutdown [OF assms(1)] tidy_shutdown [OF assms(2)]
    unfolding closing_def Shutdown_parts by blast
qed

subsection \<open>Every step uses up work\<close>

lemma gm_len_del_less: "map_of m k \<noteq> None \<Longrightarrow> gm_len (gm_del m k) < gm_len m"
proof -
  assume "map_of m k \<noteq> None"
  then have "0 < card (dom (map_of m))" by (auto simp: card_gt_0_iff finite_dom_map_of)
  then show ?thesis using \<open>map_of m k \<noteq> None\<close> by (simp add: gm_len_conv_keys finite_dom_map_of domIff)
qed

lemma clients_work_less:
  assumes "map_of m k = Some c" "client_work c' < client_work c"
  shows "clients_work (gm_set m k c') < clients_work m"
proof -
  have d: "k \<in> dom (map_of m)" "finite (dom (map_of m))" "dom (map_of (gm_set m k c')) = dom (map_of m)"
    using assms(1) by (auto simp: finite_dom_map_of)
  have "(\<Sum>j \<in> dom (map_of m) - {k}. client_work (the (map_of (gm_set m k c') j)))
      = (\<Sum>j \<in> dom (map_of m) - {k}. client_work (the (map_of m j)))"
    by (rule sum.cong) auto
  then show ?thesis
    using assms d by (simp add: clients_work_def d(3) sum.remove [OF d(2,1)])
qed

lemma clients_work_upd:
  "map_of (hw_clients w) k = Some c \<Longrightarrow> client_work (f c) < client_work c \<Longrightarrow>
     clients_work (hw_clients (upd_client k f w)) < clients_work (hw_clients w)"
  using clients_work_less [of "hw_clients w" k c "f c"] by (simp add: upd_client_def)

lemma clients_work_deliver:
  assumes "client_inv w"
  shows "clients_work (hw_clients (hub_deliver marshal e w)) = clients_work (hw_clients w)"
proof (cases "marshal e")
  case (Some data)
  obtain h cls where f: "hub_fanout data (hw_hub w, hw_clients w) = Some (h, cls)"
    and cls: "\<And>k. map_of cls k = (if map_of (hub_clients (hw_hub w)) k \<noteq> None
         then map_option (\<lambda>c. c\<lparr>cl_send := chan_try_send WSClientSendBuffer data (cl_send c)\<rparr>) (map_of (hw_clients w) k)
         else map_of (hw_clients w) k)"
    by (rule hub_fanout_ok [OF assms, of data]) (rule that; assumption)
  have "dom (map_of cls) = dom (map_of (hw_clients w))" using cls by (auto split: if_splits)
  moreover have "client_work (the (map_of cls k)) = client_work (the (map_of (hw_clients w) k))" if "k \<in> dom (map_of (hw_clients w))" for k
    using that cls [of k] by (auto simp: client_work_def)
  ultimately show ?thesis by (simp add: hub_deliver_def Some f clients_work_def)
qed (simp add: hub_deliver_def)

lemma runs_work_less:
  assumes "run_weight w' d < run_weight w d" "\<And>j. j \<noteq> d \<Longrightarrow> map_of (hw_runs w') j = map_of (hw_runs w) j"
  shows "runs_work w' < runs_work w"
proof -
  have same: "run_weight w' j = run_weight w j" if "j \<noteq> d" for j using assms(2) [OF that] by (simp add: run_weight_def)
  have d: "d \<in> dom (map_of (hw_runs w))" using assms(1) by (auto simp: run_weight_def split: option.splits)
  have sub: "dom (map_of (hw_runs w')) \<subseteq> dom (map_of (hw_runs w))"
  proof
    fix j
    assume "j \<in> dom (map_of (hw_runs w'))"
    then show "j \<in> dom (map_of (hw_runs w))" using d assms(2) [of j] by (cases "j = d") (auto simp: domIff)
  qed
  have "runs_work w' = (\<Sum>j \<in> dom (map_of (hw_runs w)). run_weight w' j)" unfolding runs_work_def
    using sub by (intro sum.mono_neutral_left) (auto simp: finite_dom_map_of run_weight_def split: option.splits)
  also have "\<dots> < runs_work w" unfolding runs_work_def
    using d same assms(1) by (intro sum_strict_mono_ex1) (auto simp: finite_dom_map_of, metis order.refl less_imp_le)
  finally show ?thesis .
qed

lemma runs_work_same: "hw_runs w' = hw_runs w \<Longrightarrow> runs_work w' = runs_work w"
  by (simp add: runs_work_def run_weight_def)

lemma fanout_work:
  assumes "fanout_step marshal d w w'" "run_cancelled w" "hub_inv w"
  shows "clients_work (hw_clients w') + runs_work w' < clients_work (hw_clients w) + runs_work w"
proof -
  have inv: "run_inv w" "client_inv w" using assms(3) by (simp_all add: hub_inv_def)
  have "clients_work (hw_clients w') = clients_work (hw_clients w)"
    using assms(1)
  proof (cases rule: fanout_step.cases)
    case (select_event a ch e es)
    have "client_inv (upd_bus a (chan_receive ch) (w\<lparr>hw_runs := gm_set (hw_runs w) d None\<rparr>))"
      by (rule client_inv_mono [OF inv(2)]) auto
    then show ?thesis using select_event(1) by (simp add: clients_work_deliver)
  qed (simp_all add: run_exit_def)
  then show ?thesis using fanout_step_cancelled [OF assms(1,2) inv(1)] runs_work_less [of w' d w] by simp
qed

lemma length_History_le: "length (events_History b) \<le> historySize"
  by (auto simp: events_History_def)

lemma client_move_work:
  assumes "cl_connClosed c" "f = replay_next marshal timeout \<or> f = write_pump werr \<or> f = ping_loop tick werr" "f c \<noteq> c"
  shows "client_work (f c) < client_work c"
proof -
  have "client_work (replay_next marshal timeout c) < client_work c" if ne: "replay_next marshal timeout c \<noteq> c"
  proof -
    obtain e es where r: "cl_replay c = Some (e # es)"
      using ne by (auto simp: replay_next_def split: option.splits list.splits)
    then show ?thesis using ne by (cases "marshal e") (auto simp: replay_next_def client_work_def split: if_splits)
  qed
  moreover have "client_work (write_pump werr c) < client_work c" if ne: "write_pump werr c \<noteq> c"
    using ne assms(1) by (cases "cl_pump c"; cases "cl_send c") (auto simp: write_pump_def client_work_def split: if_splits)
  moreover have "client_work (ping_loop tick werr c) < client_work c" if ne: "ping_loop tick werr c \<noteq> c"
    using ne assms(1) by (cases "cl_ping c"; cases tick) (auto simp: ping_loop_def client_work_def split: if_splits)
  ultimately show ?thesis using assms(2,3) by blast
qed

lemma client_move_closed:
  assumes "cl_connClosed c" "f = replay_next marshal timeout \<or> f = write_pump werr \<or> f = ping_loop tick werr"
  shows "cl_connClosed (f c)"
proof -
  have "keeps_conn f" using assms(2) by auto
  then show ?thesis using assms(1) by (simp add: keeps_conn_def)
qed

lemma runner_step_work:
  assumes "i < length (sv_runners sv)" "runner_live (sv_runners sv ! i)"
  shows "sum_list (map runner_work (sv_runners (runner_step i sv))) < sum_list (map runner_work (sv_runners sv))"
proof -
  have less: "sum_list (map runner_work ((sv_runners sv)[i := r])) < sum_list (map runner_work (sv_runners sv))"
    if "runner_work r < runner_work (sv_runners sv ! i)" for r
  proof -
    have "runner_work (sv_runners sv ! i) \<le> sum_list (map runner_work (sv_runners sv))"
      using assms(1) by (intro member_le_sum_list) auto
    then show ?thesis using that assms(1) by (simp add: map_update sum_list_update)
  qed
  show ?thesis
    using assms(2) less by (auto simp: runner_step_def runner_live_def runner_work_def split: prod.splits option.splits list.splits)
qed

text \<open>An event taken by a causal-graph goroutine is one less that waits.\<close>

lemma cg_take_pending:
  assumes "map_of (sv_cgs sv) g = Some c" "cg_queue sv c \<noteq> []" "cg_sim c < length (sv_sims sv)"
  shows "pending (cg_take g sv) < pending sv"
proof -
  obtain e es where q: "cg_queue sv c = e # es" using assms(2) by (cases "cg_queue sv c") auto
  let ?sv = "cg_take g sv" and ?bus = "chan_receive (cg_chan c) (sim_bus (sv_sims sv ! cg_sim c))"
  have t: "sv_cgs ?sv = sv_cgs sv" "sv_sims ?sv = (sv_sims sv)[cg_sim c := (sv_sims sv ! cg_sim c)\<lparr>sim_bus := ?bus\<rparr>]"
    using assms(1) q by (simp_all add: cg_take_def Let_def cg_queue_def)
  have "cg_queue ?sv x = (if cg_sim x = cg_sim c \<and> cg_chan x = cg_chan c then es else cg_queue sv x)" for x
    using q assms(3) by (auto simp: cg_queue_def t(2) chan_receive_def gm_get_def nth_list_update split: option.splits)
  then have le: "length (cg_queue ?sv x) \<le> length (cg_queue sv x)" and "length (cg_queue ?sv c) < length (cg_queue sv c)" for x
    using q by (auto simp: cg_queue_def)
  then show ?thesis
    unfolding pending_def t(1) using assms(1) by (intro sum_strict_mono_ex1) (auto simp: finite_dom_map_of intro!: bexI [of _ g])
qed

lemma drain_work_put:
  "hw_runs w = hw_runs (sv_hub sv) \<Longrightarrow> clients_work (hw_clients w) < clients_work (hw_clients (sv_hub sv)) \<Longrightarrow>
     drain_work (hub_put w sv) < drain_work sv"
  using runs_work_same [of w "sv_hub sv"] by (simp add: drain_work_def)

lemma drain_less:
  assumes "closing sv" "drain_step marshal sv sv'"
  shows "drain_work sv' < drain_work sv \<or> drain_work sv' = drain_work sv \<and> pending sv' < pending sv"
  using assms(2,1)
proof (induction rule: drain_step.induct)
  case (runner i sv)
  have "same_bg sv (runner_step i sv)" by simp
  then show ?case using runner_step_work [OF runner(1,2)] by (simp add: drain_work_def same_bg_def)
next
  case (graph_event sv g c)
  have "sv_runners (cg_take g sv) = sv_runners sv" by (simp add: cg_take_def Let_def split: option.split list.split)
  moreover have "same_bg sv (cg_take g sv)" by simp
  moreover have "cg_sim c < length (sv_sims sv)" using closingD(9) [OF graph_event(3)] graph_event(1) by (auto simp: cgs_ok_def)
  ultimately show ?case using cg_take_pending [OF graph_event(1,2)] by (simp add: drain_work_def same_bg_def)
next
  case (graph_exit sv g c)
  then have "gm_len (gm_del (sv_cgs sv) g) < gm_len (sv_cgs sv)"
    by (simp add: gm_len_del_less)
  then show ?case using graph_exit by (simp add: drain_work_def cg_exit_def Let_def)
next
  case (fanout d sv w)
  have "map_of (hw_runs (sv_hub sv)) d \<noteq> None" using fanout(1) by (cases rule: fanout_step.cases) auto
  then have "run_cancelled (hub_view sv)" using closingD(2) [OF fanout(2)] by simp
  from fanout_work [OF fanout(1) this closingD(7) [OF fanout(2)]] show ?case using runs_work_same [of "hub_view sv" "sv_hub sv"] by (simp add: drain_work_def)
next
  case (read_fails sv k c)
  then have "clients_work (hw_clients (read_loop True k (hub_view sv))) < clients_work (hw_clients (sv_hub sv))"
    using clients_work_less [OF read_fails(1), of "c\<lparr>cl_pingStop := True, cl_connClosed := True, cl_closed := True\<rparr>"]
    by (simp add: read_loop_def hub_cleanup_def Let_def client_work_def)
  then show ?case by (intro disjI1 drain_work_put) (simp_all add: read_loop_def hub_cleanup_def Let_def split: option.split)
next
  case (replay_begins sv k c)
  have "client_work (c\<lparr>cl_replay := Some (events_History b)\<rparr>) < client_work c" for b
    using replay_begins(2) length_History_le [of b] by (simp add: client_work_def)
  then show ?case
    using clients_work_upd [of "hub_view sv" k c] replay_begins(1) unfolding replay_start_conv by (simp add: drain_work_put)
next
  case (client_moves sv k c f timeout werr tick)
  then have "client_work (f c) < client_work c" using client_move_work closingD(1) by metis
  then show ?case using clients_work_upd [of "hub_view sv" k c f] client_moves(1) by (simp add: drain_work_put)
qed

subsection \<open>They stay on their way out\<close>

lemma closing_hub_put:
  assumes "closing sv" "server_step marshal sv (hub_put w sv)" "hub_idle w"
    and "\<And>k c. map_of (hw_clients w) k = Some c \<Longrightarrow> cl_connClosed c"
    and "\<And>d. map_of (hw_runs w) d \<noteq> None \<Longrightarrow> map_of (hw_runs (sv_hub sv)) d \<noteq> None"
    and "run_cancelled (sv_hub sv) \<Longrightarrow> run_cancelled w"
  shows "closing (hub_put w sv)"
proof -
  have "server_inv (hub_put w sv) \<and> tidy (hub_put w sv)" using tidy.inv_step [OF assms(2)] assms(1) by (simp add: closing_def)
  moreover have "run_cancelled w" if "map_of (hw_runs w) d \<noteq> None" for d
    using assms(5) [OF that] assms(6) closingD(2) [OF assms(1)] by blast
  ultimately show ?thesis using assms(1,3,4) unfolding closing_def by (simp; blast)
qed

lemma run_cancelled_upd [simp]: "run_cancelled (upd_client k f w) = run_cancelled w"
  by (simp add: run_cancelled_def hw_is_closed_def split: option.split)

lemma hub_idle_upd [simp]:
  "hub_idle (upd_client k f w) = hub_idle w" "hub_idle (upd_bus a g w) = hub_idle w" "hub_idle (run_exit d w) = hub_idle w"
  "hub_idle (hub_deliver marshal e w) = hub_idle w" "hub_idle (w\<lparr>hw_runs := rs\<rparr>) = hub_idle w"
  "hub_idle (read_loop err k w) = hub_idle w"
  by (simp_all add: hub_idle_def read_loop_def hub_cleanup_def Let_def split: option.split)

lemma fanout_closed:
  assumes "fanout_step marshal d w w'" "client_inv w" "map_of (hw_clients w') k = Some c'"
  shows "\<exists>c. map_of (hw_clients w) k = Some c \<and> cl_connClosed c' = cl_connClosed c"
  using assms(1)
proof (cases rule: fanout_step.cases)
  case (select_event a ch e es)
  let ?w = "upd_bus a (chan_receive ch) (w\<lparr>hw_runs := gm_set (hw_runs w) d None\<rparr>)"
  have inv: "client_inv ?w" by (rule client_inv_mono [OF assms(2)]) auto
  show ?thesis
  proof (cases "marshal e")
    case (Some data)
    show ?thesis
      by (rule hub_fanout_ok [OF inv, of data]) (use assms(3) select_event(1) Some in \<open>auto simp: hub_deliver_def split: if_splits\<close>)
  qed (use assms(3) select_event(1) in \<open>simp add: hub_deliver_def\<close>)
qed (use assms(3) in \<open>simp_all add: run_exit_def\<close>)

lemma fanout_runs:
  assumes "fanout_step marshal d w w'"
  shows "map_of (hw_runs w) d \<noteq> None" "map_of (hw_runs w') j \<noteq> None \<Longrightarrow> map_of (hw_runs w) j \<noteq> None" "hub_idle w' = hub_idle w"
proof -
  show "map_of (hw_runs w) d \<noteq> None" using assms by (cases rule: fanout_step.cases) simp_all
  show "map_of (hw_runs w) j \<noteq> None" if "map_of (hw_runs w') j \<noteq> None"
    using assms that by (cases rule: fanout_step.cases) (simp_all add: run_exit_def split: if_splits)
  show "hub_idle w' = hub_idle w" using assms by (cases rule: fanout_step.cases) simp_all
qed

lemma closing_step: "drain_step marshal sv sv' \<Longrightarrow> closing sv \<Longrightarrow> closing sv'"
proof -
  assume step: "drain_step marshal sv sv'" and cl: "closing sv"
  note sstep = drain_is_step [OF step]
  from step cl sstep show ?thesis
  proof (induction rule: drain_step.induct)
    case (runner i sv)
    have "same_bg sv (runner_step i sv)" by simp
    then show ?case using tidy.inv_step [OF runner(4)] runner(3) by (simp add: closing_def same_bg_def)
  next
    case (graph_exit sv g c)
    then show ?case
      using tidy.inv_step [OF graph_exit(4)] by (auto simp: closing_def cg_exit_def Let_def split: option.splits if_splits)
  next
    case (graph_event sv g c)
    have "same_bg sv (cg_take g sv)" by simp
    then show ?case using tidy.inv_step [OF graph_event(4)] graph_event(3) by (simp add: closing_def same_bg_def)
  next
    case (fanout d sv w)
    have inv: "run_inv (hub_view sv)" "client_inv (hub_view sv)" using closingD(7) [OF fanout(2)] by (simp_all add: hub_inv_def)
    note runs = fanout_runs [OF fanout(1)]
    have c: "run_cancelled (hub_view sv)" using runs(1) closingD(2) [OF fanout(2)] by simp
    show ?case
    proof (rule closing_hub_put [OF fanout(2,3)])
      show "cl_connClosed c'" if "map_of (hw_clients w) k = Some c'" for k c'
        using fanout_closed [OF fanout(1) inv(2) that] closingD(1) [OF fanout(2)] by auto
    qed (use runs fanout_step_cancelled(2) [OF fanout(1) c inv(1)] closingD(8) [OF fanout(2)] in auto)
  next
    case (read_fails sv k c)
    have "run_cancelled (read_loop True k (hub_view sv))" if "run_cancelled (sv_hub sv)"
      by (rule run_cancelled_mono [OF that]) (simp_all add: read_loop_def hub_cleanup_def Let_def hw_is_closed_def split: option.split)
    then show ?case
      using closingD(1,8) [OF read_fails(4)]
      by (intro closing_hub_put [OF read_fails(4,5)])
        (auto simp: read_loop_def hub_cleanup_def Let_def hub_idle_def hub_view_def split: option.splits if_splits)
  next
    case (replay_begins sv k c)
    then show ?case
      using closingD(1,8) [OF replay_begins(3)] unfolding replay_start_conv
      by (intro closing_hub_put) (auto simp: upd_client_clients split: if_splits)
  next
    case (client_moves sv k c f timeout werr tick)
    have "cl_connClosed c'" if "map_of (hw_clients (upd_client k f (hub_view sv))) j = Some c'" for j c'
      using that closingD(1) [OF client_moves(4)] client_move_closed [OF _ client_moves(2)]
      by (auto simp: upd_client_clients split: if_splits)
    then show ?case using closingD(8) [OF client_moves(4)] by (intro closing_hub_put [OF client_moves(4,5)]) auto
  qed
qed

lemma others_is_step: "others_step sv sv' \<Longrightarrow> server_step marshal sv sv' \<or> sv' = sv \<or> sv' = hub_put (hub_view sv) sv"
proof (induction rule: others_step.induct)
  case (bus_runs f e sv a)
  then show ?case
    by (auto intro!: server_step.hub_runs hub_step.bus_publish hub_step.bus_stop hub_step.bus_loop)
qed (auto intro: server_step.intros)

lemma hub_put_view_inv: "server_inv sv \<and> tidy sv \<Longrightarrow> server_inv (hub_put (hub_view sv) sv) \<and> tidy (hub_put (hub_view sv) sv)"
  using tidy.inv_step [OF server_step.hub_runs [OF connect [of "\<lambda>_. None" "hub_view sv" False]]] by (simp add: hub_register_def)

lemma others_closing:
  assumes "others_step sv sv'" "closing sv"
  shows "closing sv' \<and> drain_work sv' = drain_work sv"
proof -
  have "server_inv sv' \<and> tidy sv'"
    using others_is_step [OF assms(1)] assms(2) tidy.inv_step hub_put_view_inv unfolding closing_def by blast
  moreover have "hw_clients (sv_hub sv') = hw_clients (sv_hub sv) \<and> hw_runs (sv_hub sv') = hw_runs (sv_hub sv)
      \<and> (run_cancelled (sv_hub sv') = run_cancelled (sv_hub sv)) \<and> (hub_idle (sv_hub sv') = hub_idle (sv_hub sv))
      \<and> sv_cgs sv' = sv_cgs sv \<and> sv_runners sv' = sv_runners sv"
    using assms(1) by (cases rule: others_step.cases) (auto simp: run_cancelled_def hw_is_closed_def split: option.split)
  ultimately show ?thesis
    using assms(2) runs_work_same [of "sv_hub sv'" "sv_hub sv"] unfolding closing_def drain_work_def by simp
qed

text \<open>Nothing is left out: every step of the server in such a state is one of these, or an arrival.\<close>

lemma gm_set_same: "map_of m k = Some v \<Longrightarrow> gm_set m k v = m"
  unfolding gm_set_def by (induction m) auto

lemma upd_client_waits:
  "map_of (hw_clients (hub_view sv)) k = None \<or> (\<exists>c. map_of (hw_clients (hub_view sv)) k = Some c \<and> f c = c) \<Longrightarrow>
     others_step sv (hub_put (upd_client k f (hub_view sv)) sv)"
  by (rule waits) (auto simp: upd_client_def gm_set_same simp del: hub_view_simps)

lemma client_moves_or_waits:
  assumes "f = replay_next marshal timeout \<or> f = write_pump werr \<or> f = ping_loop tick werr"
  shows "drain_step marshal sv (hub_put (upd_client k f (hub_view sv)) sv) \<or> others_step sv (hub_put (upd_client k f (hub_view sv)) sv)"
proof (cases "map_of (hw_clients (sv_hub sv)) k")
  case (Some c)
  then show ?thesis using client_moves [OF Some assms] upd_client_waits [of sv k f] by (cases "f c = c") auto
qed (simp add: upd_client_waits)

lemma hub_drain_covers:
  assumes "hub_step marshal (hub_view sv) w" "closing sv"
  shows "drain_step marshal sv (hub_put w sv) \<or> others_step sv (hub_put w sv) \<or> arrival marshal sv (hub_put w sv)"
proof -
  have idle: "hw_stops (hub_view sv) = []" "hw_swaps (hub_view sv) = []" "hw_starts (hub_view sv) = 0" "hw_starts (sv_hub sv) = 0"
    using closingD(8) [OF assms(2)] by (simp_all add: hub_idle_def hub_view_def)
  from assms(1) show ?thesis
  proof (cases rule: hub_step.cases)
    case (reads k c err)
    then show ?thesis using closingD(1) [OF assms(2), of k c] read_fails [of sv k c marshal] by auto
  next
    case (replay_event k timeout)
    then show ?thesis using client_moves_or_waits [of "replay_next marshal timeout"] by blast
  next
    case (pump k werr)
    then show ?thesis using client_moves_or_waits [of "write_pump werr"] by blast
  next
    case (ping k tick werr)
    then show ?thesis using client_moves_or_waits [of "ping_loop tick werr"] by blast
  qed (use idle in \<open>auto intro: fanout replay_begins bus_runs arrival.intros(3)\<close>)
qed

lemma drain_covers:
  assumes "server_step marshal sv sv'" "closing sv"
  shows "drain_step marshal sv sv' \<or> others_step sv sv' \<or> arrival marshal sv sv'"
  using assms(1)
proof (cases rule: server_step.cases)
  case (runner i)
  have "runner_step i sv = sv" if "\<not> runner_live (sv_runners sv ! i)"
    using that by (auto simp: runner_live_def runner_step_def split: prod.split option.split)
  then show ?thesis using runner by (cases "runner_live (sv_runners sv ! i)") (auto intro: drain_step.runner waits)
next
  case (graph_event g)
  have "cg_take g sv = sv" if "\<nexists>c. map_of (sv_cgs sv) g = Some c \<and> cg_queue sv c \<noteq> []"
    using that by (auto simp: cg_take_def cg_queue_def Let_def split: option.split list.split)
  then show ?thesis using graph_event by (metis drain_step.graph_event waits)
next
  case (graph_exit g)
  have "cg_exit g sv = sv" if "\<nexists>c. map_of (sv_cgs sv) g = Some c \<and> cg_cancelled c"
    using that by (auto simp: cg_exit_def split: option.split)
  then show ?thesis using graph_exit by (metis drain_step.graph_exit waits)
next
  case (hub_runs w)
  then show ?thesis using hub_drain_covers [OF _ assms(2)] by blast
qed (auto intro: others_step.intros arrival.intros)

subsection \<open>Until all have ended\<close>

lemma client_progress:
  assumes "closing sv" "map_of (hw_clients (sv_hub sv)) k = Some c" "\<not> client_over c"
  shows "\<exists>sv'. drain_step marshal sv sv'"
proof (cases "cl_closed c")
  case False
  then show ?thesis using assms(2) closingD(1) [OF assms(1,2)] by (blast intro: read_fails)
next
  case True
  have closed: "cl_connClosed c" "cl_pingStop c" using conn_okD [OF closingD(6) [OF assms(1)] assms(2)] True by auto
  consider "cl_pump c" | "cl_ping c" | "cl_replay c = None" | e es where "cl_replay c = Some (e # es)"
    using assms(3) True unfolding client_over_def by (cases "cl_replay c"; cases "the (cl_replay c)") auto
  then show ?thesis
  proof cases
    case 1
    then have "\<not> cl_pump (write_pump False c)" using True closed by (simp add: write_pump_def split: list.split)
    with 1 have "write_pump False c \<noteq> c" by metis
    then show ?thesis using client_moves [OF assms(2), of "write_pump False"] by blast
  next
    case 2
    then have "\<not> cl_ping (ping_loop False False c)" using closed by (simp add: ping_loop_def)
    with 2 have "ping_loop False False c \<noteq> c" by metis
    then show ?thesis using client_moves [OF assms(2), of "ping_loop False False"] by blast
  next
    case 3
    then show ?thesis using assms(2) by (blast intro: replay_begins)
  next
    case 4
    then have "cl_replay (replay_next marshal True c) \<in> {Some es, Some []}"
      by (simp add: replay_next_def split: option.split)
    with 4 have "replay_next marshal True c \<noteq> c" by auto
    then show ?thesis using client_moves [OF assms(2), of "replay_next marshal True"] by blast
  qed
qed

lemma gm_len_zero: "gm_len m = 0 \<longleftrightarrow> (\<forall>k. map_of m k = None)"
  by (auto simp: gm_len_conv_keys finite_dom_map_of dom_eq_empty_conv fun_eq_iff)

lemma drain_progress:
  assumes cl: "closing sv" and "\<not> drained sv"
  shows "\<exists>sv'. drain_step marshal sv sv'"
proof -
  consider k c where "map_of (hw_clients (sv_hub sv)) k = Some c" "\<not> client_over c"
    | d where "map_of (hw_runs (sv_hub sv)) d \<noteq> None" | g c where "map_of (sv_cgs sv) g = Some c"
    | r where "r \<in> set (sv_runners sv)" "runner_live r"
    | k where "map_of (hub_clients (hw_hub (sv_hub sv))) k \<noteq> None"
    using assms(2) unfolding drained_def wg_count_def hub_quiet_def by (simp add: gm_len_zero filter_empty_conv) blast
  then show ?thesis
  proof cases
    case (2 d)
    then have "fanout_step marshal d (hub_view sv) (run_exit d (hub_view sv))" using closingD(2) [OF cl] by (intro run_exit_step) simp_all
    then show ?thesis by (blast intro: fanout)
  next
    case (4 r)
    then show ?thesis by (auto simp: in_set_conv_nth intro: runner)
  next
    case (5 k)
    then show ?thesis using client_inv_open [OF closingD(4) [OF cl]] client_progress [OF cl] by (metis client_over_def)
  qed (use cl closingD client_progress in \<open>blast intro: graph_exit\<close>)+
qed

text \<open>The states right after the shutdown of a server in operation, with no call of the hub under way.\<close>

definition shut_down :: "(string Event \<Rightarrow> string option) \<Rightarrow> Server \<Rightarrow> bool" where
  "shut_down marshal t \<longleftrightarrow>
     (\<exists>s sv now. server_init s \<and> (server_step marshal)\<^sup>*\<^sup>* s sv \<and> hub_idle (sv_hub sv) \<and> t = Shutdown now sv)"

interpretation shutdown: draining_system "shut_down marshal" "drain_step marshal" closing others_step drain_work pending drained
proof unfold_locales
  show "closing s" if "shut_down marshal s" for s
    using that tidy.inv_reachable closing_Shutdown by (fastforce simp: shut_down_def)
  show "drain_step marshal s t \<Longrightarrow> closing s \<Longrightarrow> closing t" for s t by (rule closing_step)
  show "closing s \<Longrightarrow> drain_step marshal s t \<Longrightarrow> drain_work t < drain_work s \<or> drain_work t = drain_work s \<and> pending t < pending s" for s t
    by (rule drain_less)
  show "others_step s t \<Longrightarrow> closing s \<Longrightarrow> closing t" "closing s \<Longrightarrow> others_step s t \<Longrightarrow> drain_work t \<le> drain_work s" for s t
    using others_closing [of s t] by simp_all
  show "closing s \<Longrightarrow> \<not> drained s \<Longrightarrow> \<exists>t. drain_step marshal s t" for s by (rule drain_progress)
qed

section \<open>Properties\<close>

text \<open>
  C28: shutting down comes to an end. From every state the server reaches with no call of \<^verbatim>\<open>start\<close>, \<^verbatim>\<open>stop\<close> or
  \<^verbatim>\<open>reconnect\<close> under way in the hub (the handlers that make them have returned: the HTTP server's own shutdown waits
  for them), once \<^verbatim>\<open>Shutdown\<close> has stopped the hub, closed the connections and cancelled the subscription, the
  goroutines that are still there (scenario runners, causal-graph goroutines, the fan-out of the hub; readers,
  writers, pings and replays of the WebSocket clients) make at most \<open>N + a\<close> steps, in whatever order and
  whatever the simulations do meanwhile, where \<open>a\<close> is the number of events that reached the channels of the
  causal-graph goroutines after the shutdown: a cancelled goroutine may still take those. They cannot stop
  before all of them have ended, when \<^verbatim>\<open>Shutdown\<close> returns without its context being over and no client is
  registered. Nothing is left out: every step the server can make is one of these goroutines', one of a
  simulation, of a bus or of the limiter, or a new request.
\<close>

theorem shutdown_drains:
  assumes "server_init s" and "(server_step marshal)\<^sup>*\<^sup>* s sv" and "hub_idle (sv_hub sv)"
  shows "\<exists>N. \<forall>n a t. counted_run (drain_step marshal) others_step pending n a (Shutdown now sv) t \<longrightarrow>
     n \<le> N + a
     \<and> (Shutdown_returns False t \<and> hub_quiet (sv_hub t) \<or> (\<exists>u. drain_step marshal t u))
     \<and> (\<forall>u. server_step marshal t u \<longrightarrow> drain_step marshal t u \<or> others_step t u \<or> arrival marshal t u)"
proof (intro exI allI impI)
  fix n a t
  assume run: "counted_run (drain_step marshal) others_step pending n a (Shutdown now sv) t"
  have sd: "shut_down marshal (Shutdown now sv)" using assms by (auto simp: shut_down_def)
  have "closing t" using shutdown.run_work [OF run shutdown.inv_init [OF sd]] by blast
  with shutdown.run_ends [OF sd run] drain_covers [of marshal t]
  show "n \<le> drain_work (Shutdown now sv) + pending (Shutdown now sv) + a
     \<and> (Shutdown_returns False t \<and> hub_quiet (sv_hub t) \<or> (\<exists>u. drain_step marshal t u))
     \<and> (\<forall>u. server_step marshal t u \<longrightarrow> drain_step marshal t u \<or> others_step t u \<or> arrival marshal t u)"
    unfolding drained_def Shutdown_returns_def by blast
qed

lemma cancel_cg_dom: "dom (map_of (sv_cgs (cancel_cg sv))) = dom (map_of (sv_cgs sv))"
  by (auto simp: cancel_cg_def split: option.splits if_splits)

lemma demo_cgs: obtains g c where "map_of (sv_cgs demo_server) g = Some c"
proof -
  have "\<exists>g. map_of (sv_cgs (subscribeCausalGraph i sv)) g \<noteq> None" for i sv
    by (auto simp: subscribeCausalGraph_def Let_def)
  then show ?thesis using that by (fastforce simp: demo_server_def NewServerWithRateLimit_def Let_def)
qed

lemma demo_idle: "hub_idle (sv_hub demo_server)"
proof -
  have "hub_idle (hub_settle (newWSHub n b a xs))" for n a xs and b :: "nat \<Rightarrow> string EventBus"
    by (simp add: hub_idle_def hub_settle_def newWSHub_def hub_start_def hub_spawn_run_def Let_def upd_bus_def)
  then show ?thesis
    by (simp add: demo_server_def NewServerWithRateLimit_def Let_def subscribeCausalGraph_def hub_idle_def)
qed

theorem shutdown_drains_witness:
  "\<exists>u. drain_step (\<lambda>_. None) (Shutdown (\<lambda>_. 0) demo_server) u"
proof -
  have "gm_len (sv_cgs (Shutdown (\<lambda>_. 0) demo_server)) \<noteq> 0"
    using demo_cgs cancel_cg_dom [of demo_server] by (fastforce simp: Shutdown_parts gm_len_conv_keys finite_dom_map_of)
  then have "\<not> Shutdown_returns False (Shutdown (\<lambda>_. 0) demo_server)" by (simp add: Shutdown_returns_def wg_count_def)
  moreover have "counted_run (drain_step (\<lambda>_. None)) others_step pending 0 0 (Shutdown (\<lambda>_. 0) demo_server) (Shutdown (\<lambda>_. 0) demo_server)"
    by (rule no_step)
  ultimately show ?thesis
    using shutdown_drains [OF server_init_demo rtranclp.rtrancl_refl demo_idle, of "\<lambda>_. None" "\<lambda>_. 0"] by blast
qed

text \<open>
  The wait does not cover all goroutines of the package, as the comment on the server says it does: those of the
  hub are not counted. After one step, the end of its only causal-graph goroutine, the shutdown of an idle server
  returns while the fan-out goroutine of the hub is live.
\<close>

lemma demo_parts: "gm_len (sv_cgs demo_server) = 1" "gm_len (hw_runs (sv_hub demo_server)) = 1" "sv_runners demo_server = []"
proof -
  show "gm_len (sv_cgs demo_server) = 1" "sv_runners demo_server = []"
    by (simp_all add: demo_server_def NewServerWithRateLimit_def Let_def subscribeCausalGraph_def cancel_cg_def hub_put_def
        gm_len_set gm_len_zero)
  have "gm_len (hw_runs (hub_settle (newWSHub 1 b 0 []))) = 1" for b :: "nat \<Rightarrow> string EventBus"
    using hub_settle_started(1) [of "newWSHub 1 b 0 []"] hub_new_inv [of 1 b 0 "[]"] by (simp add: hub_inv_def)
  then show "gm_len (hw_runs (sv_hub demo_server)) = 1"
    by (simp add: demo_server_def NewServerWithRateLimit_def Let_def subscribeCausalGraph_def cancel_cg_def hub_put_def)
qed

theorem shutdown_misses_fanout:
  "\<exists>t. drain_step marshal (Shutdown (\<lambda>_. 0) demo_server) t \<and> Shutdown_returns False t \<and> \<not> hub_quiet (sv_hub t)"
proof -
  let ?sv = "Shutdown (\<lambda>_. 0) demo_server"
  have one: "gm_len (sv_cgs ?sv) = 1" using demo_parts(1) cancel_cg_dom [of demo_server] by (simp add: Shutdown_parts gm_len_conv_keys)
  then obtain g c where g: "map_of (sv_cgs ?sv) g = Some c" by (metis gm_len_zero option.exhaust zero_neq_one)
  have "closing ?sv" using tidy.inv_init [OF server_init_demo] demo_idle by (auto intro: closing_Shutdown)
  then have c: "cg_cancelled c" using closingD(3) g by blast
  have "gm_len (gm_del (sv_cgs ?sv) g) = 0" using gm_len_del_less [of "sv_cgs ?sv" g] g one by simp
  then have "wg_count (cg_exit g ?sv) = 0"
    using g c demo_parts(3) by (simp add: wg_count_def cg_exit_def Let_def Shutdown_parts)
  moreover have "gm_len (hw_runs (sv_hub (cg_exit g ?sv))) = 1"
    using g c demo_parts(2) by (simp add: cg_exit_def Let_def Shutdown_parts)
  ultimately show ?thesis
    using graph_exit [OF g c, of marshal] by (intro exI [of _ "cg_exit g ?sv"]) (simp add: Shutdown_returns_def hub_quiet_def)
qed

end
