(* ===== verification/Gateway_Metrics.thy ===== *)
theory Gateway_Metrics
  imports Gateway_Server
begin

text \<open>
  \<^verbatim>\<open>gateway/metrics.go\<close>, the text exposition of the gathered metrics, and from \<^verbatim>\<open>gateway/server.go\<close> the
  middleware that counts requests and the one that recovers from panics. The gathered families are
  data of a third-party library; sample values are reals, printed by \<open>g\<close> (the verb \<^verbatim>\<open>%g\<close>), and
  counts are unsigned integers. Writing to the client does not fail in the model.
\<close>

section \<open>Exposition\<close>

datatype MetricType = COUNTER | GAUGE | SUMMARY | UNTYPED | HISTOGRAM | GAUGE_HISTOGRAM

type_synonym label_pair = "string \<times> string"

record Metric =
  m_Label :: "label_pair list"
  m_Counter :: real
  m_Gauge :: real
  m_Untyped :: real
  m_Buckets :: "(real \<times> u64) list"
  m_SampleCount :: u64
  m_SampleSum :: real
  m_Quantiles :: "(real \<times> real) list"

record MetricFamily =
  mf_Name :: string
  mf_Type :: MetricType
  mf_Metric :: "Metric list"

definition newline :: string where
  "newline = [CHR 0x0A]"

definition quote :: char where
  "quote = CHR 0x22"

definition backslash :: char where
  "backslash = CHR 0x5C"

definition labelsKey :: "label_pair list \<Rightarrow> string" where
  "labelsKey labels = join_comma (map (\<lambda>(n, v). n @ ''='' @ v) labels)"

definition escapeLabelValue :: "string \<Rightarrow> string" where
  "escapeLabelValue s = concat (map (\<lambda>c. if c = backslash then [backslash, backslash] else [c]) s)"

definition render_pair :: "label_pair \<Rightarrow> string" where
  "render_pair lp = (case lp of (n, v) \<Rightarrow> n @ ''='' @ [quote] @ escapeLabelValue v @ [quote])"

definition renderLabels :: "label_pair list \<Rightarrow> string" where
  "renderLabels labels = (if labels = [] then '''' else ''{'' @ join_comma (map render_pair labels) @ ''}'')"

definition appendLabel :: "string \<Rightarrow> string \<Rightarrow> string \<Rightarrow> string" where
  "appendLabel existing nm v =
     (if existing = '''' then ''{'' @ render_pair (nm, v) @ ''}''
      else take (length existing - 1) existing @ '','' @ render_pair (nm, v) @ ''}'')"

definition formatFloat :: "(real \<Rightarrow> string) \<Rightarrow> real \<Rightarrow> string" where
  "formatFloat g f = g f"

definition writeMetric :: "(real \<Rightarrow> string) \<Rightarrow> string \<Rightarrow> MetricType \<Rightarrow> Metric \<Rightarrow> string" where
  "writeMetric g nm t m =
     (let labels = renderLabels (m_Label m);
          sample = (\<lambda>suffix ls v. nm @ suffix @ ls @ '' '' @ v @ newline)
      in case t of
           COUNTER \<Rightarrow> sample '''' labels (g (m_Counter m))
         | GAUGE \<Rightarrow> sample '''' labels (g (m_Gauge m))
         | UNTYPED \<Rightarrow> sample '''' labels (g (m_Untyped m))
         | HISTOGRAM \<Rightarrow>
             concat (map (\<lambda>(bound, n). sample ''_bucket'' (appendLabel labels ''le'' (formatFloat g bound)) (dec (unat n)))
               (sort_key fst (m_Buckets m)))
             @ sample ''_bucket'' (appendLabel labels ''le'' ''+Inf'') (dec (unat (m_SampleCount m)))
             @ sample ''_sum'' labels (g (m_SampleSum m))
             @ sample ''_count'' labels (dec (unat (m_SampleCount m)))
         | SUMMARY \<Rightarrow>
             concat (map (\<lambda>(q, v). sample '''' (appendLabel labels ''quantile'' (formatFloat g q)) (g v)) (m_Quantiles m))
             @ sample ''_sum'' labels (g (m_SampleSum m))
             @ sample ''_count'' labels (dec (unat (m_SampleCount m)))
         | GAUGE_HISTOGRAM \<Rightarrow> '''')"

definition type_name :: "MetricType \<Rightarrow> string option" where
  "type_name t =
     (case t of COUNTER \<Rightarrow> Some ''counter'' | GAUGE \<Rightarrow> Some ''gauge'' | HISTOGRAM \<Rightarrow> Some ''histogram''
      | SUMMARY \<Rightarrow> Some ''summary'' | UNTYPED \<Rightarrow> Some ''untyped'' | GAUGE_HISTOGRAM \<Rightarrow> None)"

definition writeFamily :: "(real \<Rightarrow> string) \<Rightarrow> MetricFamily \<Rightarrow> string" where
  "writeFamily g f =
     (case type_name (mf_Type f) of
        None \<Rightarrow> ''''
      | Some t \<Rightarrow> ''# TYPE '' @ mf_Name f @ '' '' @ t @ newline
          @ concat (map (writeMetric g (mf_Name f) (mf_Type f)) (sort_key (\<lambda>m. labelsKey (m_Label m)) (mf_Metric f))))"

definition renderPrometheus :: "(real \<Rightarrow> string) \<Rightarrow> MetricFamily list \<Rightarrow> string" where
  "renderPrometheus g families = concat (map (writeFamily g) families)"

text \<open>The handler of \<^verbatim>\<open>/metrics\<close>: \<open>gathered\<close> is what the registry yields, or \<open>None\<close> when gathering fails.\<close>

definition handlePrometheusMetrics :: "(real \<Rightarrow> string) \<Rightarrow> MetricFamily list option \<Rightarrow> nat \<times> string" where
  "handlePrometheusMetrics g gathered =
     (case gathered of None \<Rightarrow> (500, ''metrics gather failed'') | Some families \<Rightarrow> (200, renderPrometheus g families))"

subsection \<open>Reading labels\<close>

text \<open>A reader of the label block of the text format: in a value a backslash protects the next character,
  and \<^verbatim>\<open>\n\<close> stands for a line feed.\<close>

fun read_value :: "string \<Rightarrow> (string \<times> string) option" where
  "read_value [] = None"
| "read_value (c # cs) =
     (if c = quote then Some ([], cs)
      else if c = backslash
      then (case cs of [] \<Rightarrow> None
            | d # ds \<Rightarrow> map_option (\<lambda>(v, r). ((if d = CHR ''n'' then CHR 0x0A else d) # v, r)) (read_value ds))
      else map_option (\<lambda>(v, r). (c # v, r)) (read_value cs))"

fun read_pairs :: "nat \<Rightarrow> string \<Rightarrow> label_pair list option" where
  "read_pairs 0 s = None"
| "read_pairs (Suc k) s =
     (let nm = takeWhile (\<lambda>c. c \<noteq> CHR ''='') s
      in case drop (length nm) s of
           c # q # r \<Rightarrow>
             (if q \<noteq> quote then None
              else case read_value r of
                     Some (v, d # rest) \<Rightarrow>
                       (if d = CHR '','' then map_option (Cons (nm, v)) (read_pairs k rest)
                        else if d = CHR ''}'' \<and> rest = [] then Some [(nm, v)] else None)
                   | _ \<Rightarrow> None)
         | _ \<Rightarrow> None)"

definition read_labels :: "string \<Rightarrow> label_pair list option" where
  "read_labels s =
     (case s of [] \<Rightarrow> Some [] | c # cs \<Rightarrow> if c = CHR ''{'' then read_pairs (length cs) cs else None)"

lemma read_value_escape:
  "quote \<notin> set v \<Longrightarrow> read_value (escapeLabelValue v @ quote # r) = Some (v, r)"
  by (induction v) (auto simp: escapeLabelValue_def quote_def backslash_def)

lemma read_pair:
  assumes "CHR ''='' \<notin> set n" "quote \<notin> set v"
  shows "read_pairs (Suc k) (render_pair (n, v) @ d # rest) =
     (if d = CHR '','' then map_option (Cons (n, v)) (read_pairs k rest)
      else if d = CHR ''}'' \<and> rest = [] then Some [(n, v)] else None)"
proof -
  have "takeWhile (\<lambda>c. c \<noteq> CHR ''='') (n @ CHR ''='' # xs) = n" for xs
    using assms(1) by (subst takeWhile_append2) auto
  then show ?thesis
    using read_value_escape [OF assms(2), of "d # rest"] by (simp add: render_pair_def Let_def)
qed

lemma read_pairs_render:
  assumes "ls \<noteq> []" "\<forall>(n, v) \<in> set ls. CHR ''='' \<notin> set n \<and> quote \<notin> set v" "length ls \<le> k"
  shows "read_pairs k (join_comma (map render_pair ls) @ ''}'') = Some ls"
  using assms
proof (induction ls arbitrary: k)
  case (Cons p ls)
  obtain n v where p: "p = (n, v)" by fastforce
  obtain k' where k: "k = Suc k'" using Cons.prems by (cases k) auto
  have nv: "CHR ''='' \<notin> set n" "quote \<notin> set v" using Cons.prems p by auto
  show ?case
  proof (cases ls)
    case Nil
    then show ?thesis using read_pair [OF nv, of k' "CHR ''}''" "[]"] by (simp add: p k)
  next
    case (Cons q qs)
    then have "join_comma (map render_pair (p # ls)) @ ''}'' = render_pair (n, v) @ CHR '','' # (join_comma (map render_pair ls) @ ''}'')"
      by (simp add: p)
    moreover have "read_pairs k' (join_comma (map render_pair ls) @ ''}'') = Some ls"
      using Cons.IH [of k'] \<open>ls = q # qs\<close> Cons.prems k by auto
    ultimately show ?thesis using read_pair [OF nv, of k' "CHR '',''" "join_comma (map render_pair ls) @ ''}''"] by (simp add: p k)
  qed
qed simp

lemma join_comma_snoc: "join_comma (xs @ [y]) = (if xs = [] then y else join_comma xs @ '','' @ y)"
  by (induction xs rule: join_comma.induct) auto

text \<open>Appending a label to rendered labels is rendering one label more.\<close>

lemma appendLabel_render: "appendLabel (renderLabels ls) n v = renderLabels (ls @ [(n, v)])"
  by (simp add: appendLabel_def renderLabels_def join_comma_snoc)

lemma length_join_comma: "(\<And>s. s \<in> set ss \<Longrightarrow> s \<noteq> []) \<Longrightarrow> length ss \<le> length (join_comma ss)"
proof (induction ss rule: join_comma.induct)
  case (2 s)
  then show ?case by (cases s) auto
next
  case (3 s a ss)
  then have "length (a # ss) \<le> length (join_comma (a # ss))" by simp
  then show ?case by simp
qed simp

section \<open>Counting requests\<close>

record Metrics =
  mx_HTTPRequests :: "(string \<times> string \<times> string, nat) gomap"
  mx_HTTPDuration :: "(string \<times> string, nat) gomap"
  mx_HTTPInFlight :: int
  mx_HTTPErrors :: "(string \<times> string \<times> string, nat) gomap"
  mx_PanicsRecovered :: nat

definition NewMetrics :: Metrics where
  "NewMetrics = \<lparr>mx_HTTPRequests = [], mx_HTTPDuration = [], mx_HTTPInFlight = 0, mx_HTTPErrors = [], mx_PanicsRecovered = 0\<rparr>"

text \<open>How the rest of the chain ends: it returns having set a status, or it panics, with the status it had written
  by then, if any. Before anything is written the writer's status is 200.\<close>

datatype outcome = Returned int | Panicked "int option"

fun writer_status :: "outcome \<Rightarrow> int" where
  "writer_status (Returned st) = st"
| "writer_status (Panicked (Some st)) = st"
| "writer_status (Panicked None) = 200"

definition counter_inc :: "'k \<Rightarrow> ('k, nat) gomap \<Rightarrow> ('k, nat) gomap" where
  "counter_inc k m = gm_set m k (gm_get 0 m k + 1)"

text \<open>The two halves of \<^verbatim>\<open>metricsMiddleware\<close>: before the rest of the chain, and the deferred function, which also runs
  when the chain panics.\<close>

definition metrics_enter :: "Metrics \<Rightarrow> Metrics" where
  "metrics_enter m = m\<lparr>mx_HTTPInFlight := mx_HTTPInFlight m + 1\<rparr>"

definition metrics_leave :: "string \<Rightarrow> string \<Rightarrow> outcome \<Rightarrow> Metrics \<Rightarrow> Metrics" where
  "metrics_leave meth fullPath out m =
     (let route = (if fullPath = '''' then ''unknown'' else fullPath);
          st = writer_status out;
          m1 = m\<lparr>mx_HTTPInFlight := mx_HTTPInFlight m - 1,
                 mx_HTTPRequests := counter_inc (meth, route, httpStatusLabel st) (mx_HTTPRequests m),
                 mx_HTTPDuration := counter_inc (meth, route) (mx_HTTPDuration m)\<rparr>
      in if st \<ge> 400 then m1\<lparr>mx_HTTPErrors := counter_inc (meth, route, httpStatusLabel st) (mx_HTTPErrors m1)\<rparr> else m1)"

text \<open>\<^verbatim>\<open>ginZapRecovery\<close>, the outermost middleware: the status the client sees.\<close>

definition ginZapRecovery :: "outcome \<Rightarrow> Metrics \<Rightarrow> int \<times> Metrics" where
  "ginZapRecovery out m =
     (case out of
        Returned st \<Rightarrow> (st, m)
      | Panicked written \<Rightarrow>
          (case written of None \<Rightarrow> 500 | Some st \<Rightarrow> st, m\<lparr>mx_PanicsRecovered := mx_PanicsRecovered m + 1\<rparr>))"

text \<open>Requests in the rest of the chain, requests that the counting middleware has left and the recovering one
  has not, and answered ones, each with its method, route and outcome, the answered ones with the status the
  client sees. Requests move on in any order.\<close>

record meter =
  mt_metrics :: Metrics
  mt_active :: "(string \<times> string) list"
  mt_unwinding :: "(string \<times> string \<times> outcome) list"
  mt_answered :: "(string \<times> string \<times> outcome \<times> int) list"

inductive meter_step :: "meter \<Rightarrow> meter \<Rightarrow> bool" where
  enter: "meter_step s (s\<lparr>mt_metrics := metrics_enter (mt_metrics s), mt_active := (meth, path) # mt_active s\<rparr>)"
| leave: "(meth, path) \<in> set (mt_active s) \<Longrightarrow>
    meter_step s (s\<lparr>mt_metrics := metrics_leave meth path out (mt_metrics s),
      mt_active := remove1 (meth, path) (mt_active s), mt_unwinding := (meth, path, out) # mt_unwinding s\<rparr>)"
| recover: "(meth, path, out) \<in> set (mt_unwinding s) \<Longrightarrow> ginZapRecovery out (mt_metrics s) = (st, m) \<Longrightarrow>
    meter_step s (s\<lparr>mt_metrics := m,
      mt_unwinding := remove1 (meth, path, out) (mt_unwinding s), mt_answered := (meth, path, out, st) # mt_answered s\<rparr>)"

definition meter_init :: "meter \<Rightarrow> bool" where
  "meter_init s \<longleftrightarrow> s = \<lparr>mt_metrics = NewMetrics, mt_active = [], mt_unwinding = [], mt_answered = []\<rparr>"

text \<open>The status classes by their ranges, and the class a request is to be counted in: that of the status it had
  written when it left the chain. A request that panicked before it wrote anything is in the class 2xx.\<close>

definition in_class :: "string \<Rightarrow> int \<Rightarrow> bool" where
  "in_class lb st \<longleftrightarrow> lb = ''1xx'' \<and> st < 200 \<or> lb = ''2xx'' \<and> 200 \<le> st \<and> st < 300
     \<or> lb = ''3xx'' \<and> 300 \<le> st \<and> st < 400 \<or> lb = ''4xx'' \<and> 400 \<le> st \<and> st < 500 \<or> lb = ''5xx'' \<and> 500 \<le> st"

definition outcome_class :: "string \<Rightarrow> outcome \<Rightarrow> bool" where
  "outcome_class lb out \<longleftrightarrow> (case out of Returned st \<Rightarrow> in_class lb st
     | Panicked (Some st) \<Rightarrow> in_class lb st | Panicked None \<Rightarrow> lb = ''2xx'')"

definition mt_finished :: "meter \<Rightarrow> (string \<times> string \<times> outcome) list" where
  "mt_finished s = mt_unwinding s @ map (\<lambda>(meth, path, out, st). (meth, path, out)) (mt_answered s)"

definition finished_on :: "string \<Rightarrow> string \<Rightarrow> (outcome \<Rightarrow> bool) \<Rightarrow> meter \<Rightarrow> nat" where
  "finished_on meth route sel s = length (filter (\<lambda>(me, path, out). me = meth
      \<and> (if path = '''' then route = ''unknown'' else route = path) \<and> sel out) (mt_finished s))"

definition meter_inv :: "meter \<Rightarrow> bool" where
  "meter_inv s \<longleftrightarrow> mx_HTTPInFlight (mt_metrics s) = int (length (mt_active s))
     \<and> (\<forall>meth route lb. gm_get 0 (mx_HTTPRequests (mt_metrics s)) (meth, route, lb) = finished_on meth route (outcome_class lb) s
         \<and> gm_get 0 (mx_HTTPDuration (mt_metrics s)) (meth, route) = finished_on meth route (\<lambda>out. True) s
         \<and> gm_get 0 (mx_HTTPErrors (mt_metrics s)) (meth, route, lb)
             = (if lb \<in> {''4xx'', ''5xx''} then finished_on meth route (outcome_class lb) s else 0))
     \<and> mx_PanicsRecovered (mt_metrics s) = length (filter (\<lambda>(me, p, out, st). \<exists>w. out = Panicked w) (mt_answered s))
     \<and> (\<forall>me p out st. (me, p, out, st) \<in> set (mt_answered s) \<longrightarrow>
         st = (case out of Returned w \<Rightarrow> w | Panicked (Some w) \<Rightarrow> w | Panicked None \<Rightarrow> 500))"

definition route_of :: "string \<Rightarrow> string" where
  "route_of path = (if path = '''' then ''unknown'' else path)"

lemma status_error: "400 \<le> st \<longleftrightarrow> httpStatusLabel st \<in> {''4xx'', ''5xx''}"
  by (auto simp: httpStatusLabel_def)

lemma in_class_label: "in_class lb st \<longleftrightarrow> httpStatusLabel st = lb"
  by (auto simp: in_class_def httpStatusLabel_def)

lemma outcome_class_label: "outcome_class lb out \<longleftrightarrow> httpStatusLabel (writer_status out) = lb"
  by (cases out rule: writer_status.cases) (auto simp: outcome_class_def in_class_label httpStatusLabel_def)

lemma finished_on_leave:
  "finished_on me route sel (s\<lparr>mt_metrics := m, mt_active := xs, mt_unwinding := (meth, path, out) # mt_unwinding s\<rparr>)
     = finished_on me route sel s + (if me = meth \<and> route = route_of path \<and> sel out then 1 else 0)"
  by (auto simp: finished_on_def mt_finished_def route_of_def)

text \<open>The recovery only moves a request among the finished ones.\<close>

lemma length_filter_remove1:
  "x \<in> set xs \<Longrightarrow> length (filter P (remove1 x xs)) + (if P x then 1 else 0) = length (filter P xs)"
  by (induction xs) auto

lemma finished_on_recover:
  assumes "(meth, path, out) \<in> set (mt_unwinding s)"
  shows "finished_on me route sel (s\<lparr>mt_metrics := m, mt_unwinding := remove1 (meth, path, out) (mt_unwinding s),
      mt_answered := (meth, path, out, st) # mt_answered s\<rparr>) = finished_on me route sel s"
  using length_filter_remove1 [OF assms, of "\<lambda>(me', path, out). me' = me
      \<and> (if path = '''' then route = ''unknown'' else route = path) \<and> sel out"]
  by (auto simp: finished_on_def mt_finished_def split: if_splits)

lemma recovery_simps [simp]:
  "mx_HTTPInFlight (snd (ginZapRecovery out m)) = mx_HTTPInFlight m" "mx_HTTPRequests (snd (ginZapRecovery out m)) = mx_HTTPRequests m"
  "mx_HTTPErrors (snd (ginZapRecovery out m)) = mx_HTTPErrors m" "mx_HTTPDuration (snd (ginZapRecovery out m)) = mx_HTTPDuration m"
  "mx_PanicsRecovered (snd (ginZapRecovery out m)) = mx_PanicsRecovered m + (if \<exists>w. out = Panicked w then 1 else 0)"
  by (auto simp: ginZapRecovery_def split: outcome.splits)

lemma leave_simps [simp]:
  "mx_HTTPInFlight (metrics_leave meth path out m) = mx_HTTPInFlight m - 1"
  "mx_HTTPRequests (metrics_leave meth path out m) =
     counter_inc (meth, route_of path, httpStatusLabel (writer_status out)) (mx_HTTPRequests m)"
  "mx_HTTPErrors (metrics_leave meth path out m) = (if httpStatusLabel (writer_status out) \<in> {''4xx'', ''5xx''}
     then counter_inc (meth, route_of path, httpStatusLabel (writer_status out)) (mx_HTTPErrors m) else mx_HTTPErrors m)"
  "mx_HTTPDuration (metrics_leave meth path out m) = counter_inc (meth, route_of path) (mx_HTTPDuration m)"
  "mx_PanicsRecovered (metrics_leave meth path out m) = mx_PanicsRecovered m"
  using status_error [of "writer_status out"] by (auto simp: metrics_leave_def Let_def route_of_def)

lemma counter_inc_get [simp]: "gm_get 0 (counter_inc k m) j = gm_get 0 m j + (if j = k then 1 else 0)"
  by (simp add: counter_inc_def)

interpretation meter: transition_system meter_init meter_step meter_inv
proof unfold_locales
  show "meter_init s \<Longrightarrow> meter_inv s" for s
    by (simp add: meter_init_def meter_inv_def NewMetrics_def finished_on_def mt_finished_def)
  show "meter_step s t \<Longrightarrow> meter_inv s \<Longrightarrow> meter_inv t" for s t
  proof (induction rule: meter_step.induct)
    case (enter s meth path)
    then show ?case by (simp add: meter_inv_def metrics_enter_def finished_on_def mt_finished_def)
  next
    case (leave meth path s out)
    then have "length (mt_active s) = Suc (length (remove1 (meth, path) (mt_active s)))"
      using length_pos_if_in_set [OF leave(1)] by (simp add: length_remove1)
    with leave(2) show ?case by (auto simp: meter_inv_def finished_on_leave outcome_class_label)
  next
    case (recover meth path out s st m)
    have m: "m = snd (ginZapRecovery out (mt_metrics s))"
      and st: "st = (case out of Returned w \<Rightarrow> w | Panicked (Some w) \<Rightarrow> w | Panicked None \<Rightarrow> 500)"
      using recover(2) by (auto simp: ginZapRecovery_def split: outcome.splits option.splits)
    show ?case
      using recover(3) st unfolding meter_inv_def finished_on_recover [OF recover(1)] m by auto
  qed
qed

section \<open>Properties\<close>

text \<open>The labels of the text exposition can be read back. A reader of the text format recovers the
  label names and values that were rendered, backslashes included, and the label that a histogram
  bucket or a quantile adds is read last, provided no name contains an equals sign and no value a
  double quote, which the renderer does not escape.\<close>

theorem exposition_labels_roundtrip:
  assumes "\<forall>(n, v) \<in> set ls. CHR ''='' \<notin> set n \<and> CHR 0x22 \<notin> set v"
    and "CHR ''='' \<notin> set nm" and "CHR 0x22 \<notin> set val"
  shows "read_labels (renderLabels ls) = Some ls \<and> read_labels (appendLabel (renderLabels ls) nm val) = Some (ls @ [(nm, val)])"
proof -
  have "read_labels (renderLabels xs) = Some xs" if "\<forall>(n, v) \<in> set xs. CHR ''='' \<notin> set n \<and> quote \<notin> set v" for xs
  proof (cases "xs = []")
    case False
    have "length (map render_pair xs) \<le> length (join_comma (map render_pair xs))"
      by (rule length_join_comma) (auto simp: render_pair_def)
    with read_pairs_render [OF False that, of "Suc (length (join_comma (map render_pair xs)))"] False
    show ?thesis by (simp add: renderLabels_def read_labels_def)
  qed (simp add: renderLabels_def read_labels_def)
  from this [of ls] this [of "ls @ [(nm, val)]"] assms show ?thesis by (auto simp: appendLabel_render quote_def)
qed

theorem exposition_labels_roundtrip_witness:
  "read_labels (appendLabel (renderLabels [(''route'', [CHR 0x5C] @ ''x'')]) ''le'' ''0.5'') = Some [(''route'', [CHR 0x5C] @ ''x''), (''le'', ''0.5'')]"
  using exposition_labels_roundtrip [of "[(''route'', [CHR 0x5C] @ ''x'')]" "''le''" "''0.5''"] by simp

text \<open>C32: the request metrics count what happened. In every state reached by requests that enter and
  leave the middlewares in any order, panics included, the in-flight gauge is the number of requests
  under way; each series of \<^verbatim>\<open>vc_http_requests_total\<close> is the number of finished requests of its
  method and route whose status was in the range of its class (1xx below 200, then the hundreds,
  5xx from 500) when they left the chain; \<^verbatim>\<open>vc_http_errors_total\<close> agrees with it on 4xx and 5xx and is
  zero elsewhere; the duration histogram has one observation per finished request; the panic counter
  is the number of answered requests that panicked. The client sees the status that was counted,
  except for a request that panics before it has written anything: it is answered with 500 and
  counted in 2xx.\<close>

theorem metrics_account:
  assumes "meter_init s" and "meter_step\<^sup>*\<^sup>* s t"
  shows "mx_HTTPInFlight (mt_metrics t) = int (length (mt_active t))
     \<and> gm_get 0 (mx_HTTPRequests (mt_metrics t)) (meth, route, lb) = finished_on meth route (outcome_class lb) t
     \<and> gm_get 0 (mx_HTTPDuration (mt_metrics t)) (meth, route) = finished_on meth route (\<lambda>out. True) t
     \<and> gm_get 0 (mx_HTTPErrors (mt_metrics t)) (meth, route, lb)
         = (if lb \<in> {''4xx'', ''5xx''} then finished_on meth route (outcome_class lb) t else 0)
     \<and> mx_PanicsRecovered (mt_metrics t) = length (filter (\<lambda>(me, p, out, st). \<exists>w. out = Panicked w) (mt_answered t))
     \<and> (\<forall>me p out st. (me, p, out, st) \<in> set (mt_answered t) \<longrightarrow>
         st = (case out of Returned w \<Rightarrow> w | Panicked (Some w) \<Rightarrow> w | Panicked None \<Rightarrow> 500))"
  using meter.inv_reachable [OF assms] unfolding meter_inv_def by blast

theorem metrics_account_witness:
  "gm_get 0 (mx_HTTPRequests (metrics_leave ''GET'' '''' (Returned 404) (metrics_enter NewMetrics))) (''GET'', ''unknown'', ''4xx'') = 1"
proof -
  let ?s = "\<lparr>mt_metrics = NewMetrics, mt_active = [], mt_unwinding = [], mt_answered = []\<rparr>"
  let ?t = "?s\<lparr>mt_metrics := metrics_enter NewMetrics, mt_active := [(''GET'', '''')]\<rparr>"
  let ?u = "?t\<lparr>mt_metrics := metrics_leave ''GET'' '''' (Returned 404) (metrics_enter NewMetrics),
      mt_active := [], mt_unwinding := [(''GET'', '''', Returned 404)]\<rparr>"
  have "meter_step ?s ?t" using enter [of ?s "''GET''" "''''"] by simp
  moreover have "meter_step ?t ?u" using leave [of "''GET''" "''''" ?t "Returned 404"] by simp
  ultimately have "meter_step\<^sup>*\<^sup>* ?s ?u" by auto
  from metrics_account [of ?s ?u "''GET''" "''unknown''" "''4xx''"] this show ?thesis
    by (simp add: meter_init_def finished_on_def mt_finished_def outcome_class_def in_class_def)
qed

text \<open>The recovery middleware stands outside the counting one, so a request whose handler panics before it has
  written anything is answered with 500 but counted as a success, and not as an error.\<close>

lemma panic_counted_as_success:
  assumes "m' = metrics_leave meth path (Panicked None) m"
  shows "fst (ginZapRecovery (Panicked None) m') = 500 \<and> mx_HTTPErrors m' = mx_HTTPErrors m
     \<and> gm_get 0 (mx_HTTPRequests m') (meth, route_of path, ''2xx'') = gm_get 0 (mx_HTTPRequests m) (meth, route_of path, ''2xx'') + 1"
  using assms by (simp add: ginZapRecovery_def httpStatusLabel_def)

end
