(* ===== verification/Tls_Config.thy ===== *)
theory Tls_Config
  imports Go_Interfaces
begin

text \<open>
  \<^verbatim>\<open>gateway/tlsconfig/tlsconfig.go\<close>: the certificate the server presents and its periodic reload.
  What the files hold at a moment is a value of the record \<open>disk\<close>: the key pair that
  \<^verbatim>\<open>tls.LoadX509KeyPair\<close> makes of two paths, the size and modification time of a path, the
  contents of a path, and the pool that \<^verbatim>\<open>AppendCertsFromPEM\<close> makes of contents. Certificates and
  pools are the types \<open>'cert\<close> and \<open>'pool\<close>; the parsed leaf is part of the certificate. The code
  reads the key pair first and the file's times afterwards, so \<open>Reload\<close> takes two disks.
\<close>

section \<open>State\<close>

record fileFingerprint =
  ff_size :: int
  ff_mtime :: int

datatype client_auth = NoClientCert | RequestClientCert | RequireAnyClientCert | VerifyClientCertIfGiven
  | RequireAndVerifyClientCert

record 'pool tls_settings =
  ts_MinVersion :: int
  ts_NextProtos :: "string list"
  ts_ClientCAs :: "'pool option"
  ts_ClientAuth :: client_auth
  ts_GetCertificate :: bool

definition VersionTLS12 :: int where
  "VersionTLS12 = 0x0303"

text \<open>\<open>c_reloader\<close>: the interval of the reload goroutine, once it has been started.\<close>

record ('cert, 'pool) Config =
  c_certFile :: string
  c_keyFile :: string
  c_clientCAFile :: string
  c_cert :: "'cert option"
  c_lastLoaded :: "fileFingerprint option"
  c_tlsConfig :: "'pool tls_settings"
  c_reloader :: "int option"

record ('cert, 'pool) disk =
  dk_pair :: "string \<Rightarrow> string \<Rightarrow> 'cert option"
  dk_stat :: "string \<Rightarrow> fileFingerprint option"
  dk_read :: "string \<Rightarrow> string option"
  dk_pool :: "string \<Rightarrow> 'pool option"

datatype tls_error = CertRequired | KeyRequired | LoadFailed | StatFailed | CAReadFailed | CAEmpty

section \<open>Operations\<close>

definition certFingerprint :: "('cert, 'pool) disk \<Rightarrow> string \<Rightarrow> tls_error + fileFingerprint" where
  "certFingerprint d path = (case dk_stat d path of None \<Rightarrow> Inl StatFailed | Some fp \<Rightarrow> Inr fp)"

definition loadClientCAPool :: "('cert, 'pool) disk \<Rightarrow> string \<Rightarrow> tls_error + 'pool" where
  "loadClientCAPool d path =
     (case dk_read d path of
        None \<Rightarrow> Inl CAReadFailed
      | Some data \<Rightarrow> (case dk_pool d data of None \<Rightarrow> Inl CAEmpty | Some pool \<Rightarrow> Inr pool))"

definition tls_Reload :: "('cert, 'pool) disk \<Rightarrow> ('cert, 'pool) disk \<Rightarrow> ('cert, 'pool) Config \<Rightarrow>
    (tls_error + unit) \<times> ('cert, 'pool) Config" where
  "tls_Reload d d' c =
     (case dk_pair d (c_certFile c) (c_keyFile c) of
        None \<Rightarrow> (Inl LoadFailed, c)
      | Some cert \<Rightarrow>
          (case certFingerprint d' (c_certFile c) of
             Inl e \<Rightarrow> (Inl e, c)
           | Inr fp \<Rightarrow>
               if (case c_lastLoaded c of None \<Rightarrow> False
                   | Some prev \<Rightarrow> ff_size prev = ff_size fp \<and> ff_mtime prev = ff_mtime fp) then (Inr (), c)
               else (Inr (), c\<lparr>c_cert := Some cert, c_lastLoaded := Some fp\<rparr>)))"

text \<open>\<open>d''\<close> is the disk when the client CA is read.\<close>

definition tls_Load :: "('cert, 'pool) disk \<Rightarrow> ('cert, 'pool) disk \<Rightarrow> ('cert, 'pool) disk \<Rightarrow> string \<Rightarrow> string \<Rightarrow> string \<Rightarrow>
    tls_error + ('cert, 'pool) Config" where
  "tls_Load d d' d'' certFile keyFile clientCAFile =
     (if certFile = '''' then Inl CertRequired
      else if keyFile = '''' then Inl KeyRequired
      else let c = \<lparr>c_certFile = certFile, c_keyFile = keyFile, c_clientCAFile = clientCAFile, c_cert = None,
                    c_lastLoaded = None,
                    c_tlsConfig = \<lparr>ts_MinVersion = VersionTLS12, ts_NextProtos = [''h2'', ''http/1.1''],
                      ts_ClientCAs = None, ts_ClientAuth = NoClientCert, ts_GetCertificate = False\<rparr>,
                    c_reloader = None\<rparr>
           in case tls_Reload d d' c of
                (Inl e, c1) \<Rightarrow> Inl e
              | (Inr u, c1) \<Rightarrow>
                  (case (if clientCAFile \<noteq> ''''
                         then (case loadClientCAPool d'' clientCAFile of
                                 Inl e \<Rightarrow> Inl e
                               | Inr pool \<Rightarrow> Inr (c1\<lparr>c_tlsConfig := (c_tlsConfig c1)\<lparr>ts_ClientCAs := Some pool,
                                   ts_ClientAuth := RequireAndVerifyClientCert\<rparr>\<rparr>))
                         else Inr c1) of
                     Inl e \<Rightarrow> Inl e
                   | Inr c2 \<Rightarrow> Inr (c2\<lparr>c_tlsConfig := (c_tlsConfig c2)\<lparr>ts_GetCertificate := True\<rparr>\<rparr>)))"

definition getCertificate :: "('cert, 'pool) Config \<Rightarrow> 'cert option" where
  "getCertificate c = c_cert c"

definition ClientAuthEnabled :: "('cert, 'pool) Config \<Rightarrow> bool" where
  "ClientAuthEnabled c \<longleftrightarrow> ts_ClientAuth (c_tlsConfig c) = RequireAndVerifyClientCert
     \<or> ts_ClientAuth (c_tlsConfig c) = RequestClientCert \<or> ts_ClientAuth (c_tlsConfig c) = VerifyClientCertIfGiven"

definition StartReloader :: "int \<Rightarrow> ('cert, 'pool) Config \<Rightarrow> ('cert, 'pool) Config" where
  "StartReloader interval c =
     (if interval \<le> 0 then c
      else if c_reloader c \<noteq> None then c
      else c\<lparr>c_reloader := Some interval\<rparr>)"

text \<open>The ticks of the reload goroutine: an error is logged and the next tick tries again.\<close>

definition reloader_tick :: "('cert, 'pool) disk \<times> ('cert, 'pool) disk \<Rightarrow> ('cert, 'pool) Config \<Rightarrow> ('cert, 'pool) Config" where
  "reloader_tick dd c = (case dd of (d, d') \<Rightarrow> snd (tls_Reload d d' c))"

definition reloaderLoop :: "(('cert, 'pool) disk \<times> ('cert, 'pool) disk) list \<Rightarrow> ('cert, 'pool) Config \<Rightarrow> ('cert, 'pool) Config" where
  "reloaderLoop ticks c = fold reloader_tick ticks c"

section \<open>What reloading keeps\<close>

lemma reload_simps [simp]:
  "c_certFile (snd (tls_Reload d d' c)) = c_certFile c" "c_keyFile (snd (tls_Reload d d' c)) = c_keyFile c"
  "c_tlsConfig (snd (tls_Reload d d' c)) = c_tlsConfig c"
  by (simp_all add: tls_Reload_def split: option.splits sum.splits)

lemma tick_simps [simp]:
  "c_certFile (reloader_tick dd c) = c_certFile c" "c_keyFile (reloader_tick dd c) = c_keyFile c"
  "c_tlsConfig (reloader_tick dd c) = c_tlsConfig c"
  by (simp_all add: reloader_tick_def split: prod.splits)

lemma reloader_simps [simp]:
  "c_certFile (reloaderLoop ticks c) = c_certFile c" "c_keyFile (reloaderLoop ticks c) = c_keyFile c"
  "c_tlsConfig (reloaderLoop ticks c) = c_tlsConfig c"
  by (induction ticks arbitrary: c) (simp_all add: reloaderLoop_def)

lemma reloaderLoop_Cons [simp]: "reloaderLoop (dd # ticks) c = reloaderLoop ticks (reloader_tick dd c)"
  by (simp add: reloaderLoop_def)

lemma reloaderLoop_snoc: "reloaderLoop (ticks @ [dd]) c = reloader_tick dd (reloaderLoop ticks c)"
  by (simp add: reloaderLoop_def)

lemma fingerprint_eq: "ff_size a = ff_size b \<and> ff_mtime a = ff_mtime b \<longleftrightarrow> a = (b :: fileFingerprint)"
  by (cases a; cases b) auto

lemma reload_cases:
  obtains (same) "snd (tls_Reload d d' c) = c"
  | (new) crt fp where "dk_pair d (c_certFile c) (c_keyFile c) = Some crt" "dk_stat d' (c_certFile c) = Some fp"
      "c_lastLoaded c \<noteq> Some fp" "snd (tls_Reload d d' c) = c\<lparr>c_cert := Some crt, c_lastLoaded := Some fp\<rparr>"
proof (cases "snd (tls_Reload d d' c) = c")
  case False
  then show ?thesis
    using new by (auto simp: tls_Reload_def certFingerprint_def fingerprint_eq split: option.splits sum.splits if_splits)
qed (rule same)

lemma Load_Inr:
  assumes "tls_Load d d' d'' cf kf ca = Inr c"
  obtains crt fp where "cf \<noteq> ''''" "kf \<noteq> ''''" "c_certFile c = cf" "c_keyFile c = kf" "c_cert c = Some crt" "c_lastLoaded c = Some fp"
    "dk_pair d cf kf = Some crt" "dk_stat d' cf = Some fp" "ts_MinVersion (c_tlsConfig c) = VersionTLS12"
    "ts_GetCertificate (c_tlsConfig c)"
    "ts_ClientAuth (c_tlsConfig c) = (if ca = '''' then NoClientCert else RequireAndVerifyClientCert)"
    "ca \<noteq> '''' \<Longrightarrow> ts_ClientCAs (c_tlsConfig c) \<noteq> None"
  using assms
  by (auto simp: tls_Load_def tls_Reload_def certFingerprint_def Let_def split: if_splits prod.splits sum.splits option.splits)

text \<open>The certificate in use came from the disk at one of the loads, and so did its fingerprint.\<close>

definition from_loads :: "(('cert, 'pool) disk \<times> ('cert, 'pool) disk) set \<Rightarrow> ('cert, 'pool) Config \<Rightarrow> bool" where
  "from_loads D c \<longleftrightarrow> (\<exists>(d, d') \<in> D. c_cert c \<noteq> None \<and> c_cert c = dk_pair d (c_certFile c) (c_keyFile c)
     \<and> c_lastLoaded c \<noteq> None \<and> c_lastLoaded c = dk_stat d' (c_certFile c))"

lemma from_loadsI:
  "(d, d') \<in> D \<Longrightarrow> dk_pair d (c_certFile c) (c_keyFile c) = Some crt \<Longrightarrow> dk_stat d' (c_certFile c) = Some fp \<Longrightarrow>
     c_cert c = Some crt \<Longrightarrow> c_lastLoaded c = Some fp \<Longrightarrow> from_loads D c"
  by (auto simp: from_loads_def intro!: bexI [of _ "(d, d')"])

lemma from_loads_tick: "from_loads D c \<Longrightarrow> from_loads (insert dd D) (reloader_tick dd c)"
proof -
  assume D: "from_loads D c"
  obtain d d' where dd: "dd = (d, d')" by fastforce
  show ?thesis
  proof (rule reload_cases [of d d' c])
    assume "snd (tls_Reload d d' c) = c"
    then show ?thesis using D by (auto simp: dd reloader_tick_def from_loads_def)
  next
    fix crt fp
    assume "dk_pair d (c_certFile c) (c_keyFile c) = Some crt" "dk_stat d' (c_certFile c) = Some fp"
      "snd (tls_Reload d d' c) = c\<lparr>c_cert := Some crt, c_lastLoaded := Some fp\<rparr>"
    then show ?thesis by (intro from_loadsI [of d d' _ _ crt fp]) (auto simp: dd reloader_tick_def)
  qed
qed

lemma from_loads_loop: "from_loads D c \<Longrightarrow> from_loads (D \<union> set ticks) (reloaderLoop ticks c)"
proof (induction ticks arbitrary: c D)
  case (Cons dd ticks)
  from Cons.IH [OF from_loads_tick [OF Cons.prems]] show ?case by simp
qed (simp add: reloaderLoop_def)

lemma from_loads_Load: "tls_Load d d' d'' cf kf ca = Inr c \<Longrightarrow> from_loads {(d, d')} c"
  by (erule Load_Inr) (rule from_loadsI [of d d']; simp)

section \<open>Properties\<close>

text \<open>C31: once the configuration has loaded, every handshake gets a certificate, whatever becomes of
  the files: after any number of reload attempts, failed ones included, it is one that the key pair
  on disk gave at one of the attempts. The settings stay those of the start: TLS 1.2 at least, and
  client certificates required and verified exactly if a client CA was named.\<close>

theorem tls_always_serves:
  assumes "tls_Load d d' d'' certFile keyFile clientCAFile = Inr c"
  shows "(\<exists>crt. getCertificate (reloaderLoop ticks c) = Some crt
       \<and> Some crt \<in> (\<lambda>disk. dk_pair disk certFile keyFile) ` (insert d (fst ` set ticks)))
     \<and> ts_MinVersion (c_tlsConfig (reloaderLoop ticks c)) = 0x0303
     \<and> ClientAuthEnabled (reloaderLoop ticks c) = (clientCAFile \<noteq> '''')
     \<and> (ts_ClientAuth (c_tlsConfig (reloaderLoop ticks c)) = RequireAndVerifyClientCert) = (clientCAFile \<noteq> '''')"
proof -
  have l: "from_loads ({(d, d')} \<union> set ticks) (reloaderLoop ticks c)"
    by (rule from_loads_loop [OF from_loads_Load [OF assms]])
  obtain crt fp where c: "c_certFile c = certFile" "c_keyFile c = keyFile" "ts_MinVersion (c_tlsConfig c) = VersionTLS12"
    "ts_ClientAuth (c_tlsConfig c) = (if clientCAFile = '''' then NoClientCert else RequireAndVerifyClientCert)"
    by (rule Load_Inr [OF assms]) (rule that; assumption)
  have "\<exists>crt. getCertificate (reloaderLoop ticks c) = Some crt
       \<and> Some crt \<in> (\<lambda>disk. dk_pair disk certFile keyFile) ` (insert d (fst ` set ticks))"
    using l by (force simp: from_loads_def getCertificate_def c)
  then show ?thesis by (simp add: c ClientAuthEnabled_def VersionTLS12_def)
qed

text \<open>The reload goroutine picks up a renewed certificate. If the files do not change while they
  are read, and at the moments they are read equal sizes and modification times of the
  certificate file mean an equal key pair, then after a reload that succeeds the certificate
  presented is the one on disk, whatever happened at the reloads before.\<close>

theorem tls_reload_serves_current:
  assumes "tls_Load d d d'' certFile keyFile clientCAFile = Inr c"
    and "\<forall>(x, x') \<in> set ticks. x = x'"
    and "\<forall>x \<in> insert d (insert cur (fst ` set ticks)). \<forall>y \<in> insert d (insert cur (fst ` set ticks)).
       dk_stat x certFile = dk_stat y certFile \<longrightarrow> dk_pair x certFile keyFile = dk_pair y certFile keyFile"
    and "fst (tls_Reload cur cur (reloaderLoop ticks c)) = Inr ()"
  shows "getCertificate (reloaderLoop (ticks @ [(cur, cur)]) c) = dk_pair cur certFile keyFile"
proof -
  have l: "from_loads ({(d, d)} \<union> set ticks) (reloaderLoop ticks c)"
    by (rule from_loads_loop [OF from_loads_Load [OF assms(1)]])
  obtain crt fp where c: "c_certFile c = certFile" "c_keyFile c = keyFile"
    by (rule Load_Inr [OF assms(1)]) (rule that; assumption)
  obtain x x' where x: "(x, x') \<in> {(d, d)} \<union> set ticks" "c_cert (reloaderLoop ticks c) = dk_pair x certFile keyFile"
      "c_lastLoaded (reloaderLoop ticks c) = dk_stat x' certFile"
    using l by (auto simp: from_loads_def c)
  have same: "x' = x" using x(1) assms(2) by auto
  have mem: "x \<in> insert d (insert cur (fst ` set ticks))" using x(1) by force
  let ?c = "reloaderLoop ticks c"
  obtain crt fp where cur: "dk_pair cur certFile keyFile = Some crt" "dk_stat cur certFile = Some fp"
    using assms(4) by (auto simp: tls_Reload_def certFingerprint_def c split: option.splits sum.splits if_splits)
  show ?thesis
  proof (cases "c_lastLoaded ?c = Some fp")
    case True
    then have "dk_pair x certFile keyFile = dk_pair cur certFile keyFile"
      using assms(3) mem x(3) same cur(2) by (metis insertI1 insertI2)
    then show ?thesis
      using True cur x(2) by (simp add: getCertificate_def reloaderLoop_snoc reloader_tick_def tls_Reload_def certFingerprint_def c)
  next
    case False
    then have "snd (tls_Reload cur cur ?c) = ?c\<lparr>c_cert := Some crt, c_lastLoaded := Some fp\<rparr>"
      using cur by (auto simp: tls_Reload_def certFingerprint_def c fingerprint_eq split: option.splits)
    then show ?thesis using cur by (simp add: getCertificate_def reloaderLoop_snoc reloader_tick_def)
  qed
qed

text \<open>The hypothesis that the files do not change while they are read is needed: when the certificate is
  replaced between the two reads of one reload, the old certificate is kept under the fingerprint
  of the new file, and no later reload of the unchanged files replaces it.\<close>

theorem tls_reload_race:
  assumes "dk_pair old certFile keyFile = Some crt" and "dk_pair new certFile keyFile = Some crt'"
    and "dk_stat new certFile = Some fp" and "c_certFile c = certFile" and "c_keyFile c = keyFile"
    and "c_lastLoaded c \<noteq> Some fp"
  shows "getCertificate (reloaderLoop ((old, new) # replicate n (new, new)) c) = Some crt"
proof -
  let ?c = "c\<lparr>c_cert := Some crt, c_lastLoaded := Some fp\<rparr>"
  have "reloader_tick (old, new) c = ?c"
    using assms by (auto simp: reloader_tick_def tls_Reload_def certFingerprint_def fingerprint_eq split: option.splits)
  moreover have "reloader_tick (new, new) ?c = ?c"
    using assms by (simp add: reloader_tick_def tls_Reload_def certFingerprint_def)
  then have "reloaderLoop (replicate n (new, new)) ?c = ?c" by (induction n) (simp_all add: reloaderLoop_def)
  ultimately show ?thesis by (simp add: getCertificate_def)
qed

definition demo_disk :: "nat \<Rightarrow> (nat, nat) disk" where
  "demo_disk n = \<lparr>dk_pair = (\<lambda>_ _. Some n), dk_stat = (\<lambda>_. Some \<lparr>ff_size = 100, ff_mtime = int n\<rparr>), dk_read = (\<lambda>_. None),
     dk_pool = (\<lambda>_. None)\<rparr>"

definition demo_tls :: "(nat, nat) Config" where
  "demo_tls = (case tls_Load (demo_disk 1) (demo_disk 1) (demo_disk 1) ''c.pem'' ''k.pem'' '''' of Inr c \<Rightarrow> c)"

lemma demo_Load: "tls_Load (demo_disk 1) (demo_disk 1) (demo_disk 1) ''c.pem'' ''k.pem'' '''' = Inr demo_tls"
  by (simp add: demo_tls_def tls_Load_def tls_Reload_def certFingerprint_def demo_disk_def Let_def)

theorem tls_always_serves_witness:
  "getCertificate (reloaderLoop [(demo_disk 2, demo_disk 2)] demo_tls) \<noteq> None"
  using tls_always_serves [OF demo_Load, of "[(demo_disk 2, demo_disk 2)]"] by auto

theorem tls_reload_serves_current_witness:
  "getCertificate (reloaderLoop ([(demo_disk 2, demo_disk 2)] @ [(demo_disk 3, demo_disk 3)]) demo_tls) = Some 3"
proof -
  have "fst (tls_Reload (demo_disk 3) (demo_disk 3) (reloaderLoop [(demo_disk 2, demo_disk 2)] demo_tls)) = Inr ()"
    by (simp add: tls_Reload_def certFingerprint_def demo_disk_def)
  then show ?thesis
    using tls_reload_serves_current [OF demo_Load, of "[(demo_disk 2, demo_disk 2)]" "demo_disk 3"] by (simp add: demo_disk_def)
qed

end
