(* ===== verification/Cert_Gen.thy ===== *)
theory Cert_Gen
  imports Tls_Config Gateway_Limits
begin

text \<open>
  \<^verbatim>\<open>gateway/tlsconfig/gencert.go\<close> and \<^verbatim>\<open>scripts/gen-test-cert/main.go\<close>: the certificates made for development
  and tests. Cryptography is symbolic: a key is a value of the type \<open>'key\<close>, \<open>pub_of\<close> its public half,
  and a signature is the public key under which it verifies. An encoded object is the object itself
  (\<open>der\<close>), and a file or a PEM string is the first block it holds, if any. What the generators draw
  from their surroundings (the fresh key and serial number, the time, and whether the library's
  encoders succeed) is the record \<open>entropy\<close>.
\<close>

section \<open>Certificates\<close>

datatype key_usage = DigitalSignature | KeyEncipherment | CertSign | CRLSign

datatype ext_usage = ServerAuth | ClientAuth

record 'ip cert_template =
  t_SerialNumber :: int
  t_CommonName :: string
  t_Organization :: "string list"
  t_NotBefore :: int
  t_NotAfter :: int
  t_KeyUsage :: "key_usage list"
  t_ExtKeyUsage :: "ext_usage list"
  t_BasicConstraintsValid :: bool
  t_IsCA :: bool
  t_DNSNames :: "string list"
  t_IPAddresses :: "'ip list"

record ('pub, 'ip) x509 =
  x_template :: "'ip cert_template"
  x_Issuer :: "string \<times> string list"
  x_PublicKey :: 'pub
  x_SignedBy :: 'pub

datatype ('key, 'pub, 'ip) der = CertDER "('pub, 'ip) x509" | KeyDER 'key

datatype ('key, 'pub, 'ip) pem = Pem string "('key, 'pub, 'ip) der"

record ('key, 'pub, 'ip) CertPair =
  cp_CertPEM :: "('key, 'pub, 'ip) pem option"
  cp_KeyPEM :: "('key, 'pub, 'ip) pem option"

record 'key entropy =
  en_key :: "'key option"
  en_serial :: "int option"
  en_now :: int
  en_create_ok :: bool
  en_marshal_ok :: bool

datatype gen_error = GenKey | GenSerial | CreateFailed | MarshalFailed | NilCA | NoCertBlock | ParseCert | NoKeyBlock | ParseKey

definition cert_subject :: "'ip cert_template \<Rightarrow> string \<times> string list" where
  "cert_subject t = (t_CommonName t, t_Organization t)"

text \<open>\<^verbatim>\<open>x509.CreateCertificate\<close>: the template's contents for a public key, signed for a parent's subject.\<close>

definition CreateCertificate :: "'ip cert_template \<Rightarrow> 'ip cert_template \<Rightarrow> 'pub \<Rightarrow> 'pub \<Rightarrow> ('pub, 'ip) x509" where
  "CreateCertificate tmpl parent pub signer =
     \<lparr>x_template = tmpl, x_Issuer = cert_subject parent, x_PublicKey = pub, x_SignedBy = signer\<rparr>"

definition encodePair :: "bool \<Rightarrow> ('pub, 'ip) x509 \<Rightarrow> 'key \<Rightarrow> gen_error + ('key, 'pub, 'ip) CertPair" where
  "encodePair marshal_ok cert priv =
     (if \<not> marshal_ok then Inl MarshalFailed
      else Inr \<lparr>cp_CertPEM = Some (Pem ''CERTIFICATE'' (CertDER cert)), cp_KeyPEM = Some (Pem ''PRIVATE KEY'' (KeyDER priv))\<rparr>)"

definition parsePair :: "('key, 'pub, 'ip) CertPair \<Rightarrow> gen_error + ('pub, 'ip) x509 \<times> 'key" where
  "parsePair p =
     (case cp_CertPEM p of
        None \<Rightarrow> Inl NoCertBlock
      | Some (Pem _ (KeyDER _)) \<Rightarrow> Inl ParseCert
      | Some (Pem _ (CertDER cert)) \<Rightarrow>
          (case cp_KeyPEM p of
             None \<Rightarrow> Inl NoKeyBlock
           | Some (Pem _ (CertDER _)) \<Rightarrow> Inl ParseKey
           | Some (Pem _ (KeyDER key)) \<Rightarrow> Inr (cert, key)))"

text \<open>The part the three generators share: a fresh key and serial number, the certificate, its encoding.\<close>

definition draw :: "'key entropy \<Rightarrow> gen_error + 'key \<times> int" where
  "draw en =
     (case en_key en of
        None \<Rightarrow> Inl GenKey
      | Some priv \<Rightarrow> (case en_serial en of None \<Rightarrow> Inl GenSerial | Some serial \<Rightarrow> Inr (priv, serial)))"

definition finish_cert :: "'key entropy \<Rightarrow> ('pub, 'ip) x509 \<Rightarrow> 'key \<Rightarrow> gen_error + ('key, 'pub, 'ip) CertPair" where
  "finish_cert en cert priv = (if \<not> en_create_ok en then Inl CreateFailed else encodePair (en_marshal_ok en) cert priv)"

definition GenerateSelfSignedCert :: "('key \<Rightarrow> 'pub) \<Rightarrow> 'key entropy \<Rightarrow> string \<Rightarrow> string list \<Rightarrow> 'ip list \<Rightarrow>
    gen_error + ('key, 'pub, 'ip) CertPair" where
  "GenerateSelfSignedCert pub_of en commonName dnsSANs ipSANs =
     (case draw en of
        Inl e \<Rightarrow> Inl e
      | Inr (priv, serial) \<Rightarrow>
          let tmpl = \<lparr>t_SerialNumber = serial, t_CommonName = commonName, t_Organization = [''Vector Clock Lab (generated)''],
                t_NotBefore = en_now en - hour, t_NotAfter = en_now en + 365 * 24 * hour,
                t_KeyUsage = [DigitalSignature, KeyEncipherment], t_ExtKeyUsage = [ServerAuth, ClientAuth],
                t_BasicConstraintsValid = True, t_IsCA = False, t_DNSNames = dnsSANs, t_IPAddresses = ipSANs\<rparr>
          in finish_cert en (CreateCertificate tmpl tmpl (pub_of priv) (pub_of priv)) priv)"

definition GenerateCA :: "('key \<Rightarrow> 'pub) \<Rightarrow> 'key entropy \<Rightarrow> string \<Rightarrow> gen_error + ('key, 'pub, 'ip) CertPair" where
  "GenerateCA pub_of en commonName =
     (case draw en of
        Inl e \<Rightarrow> Inl e
      | Inr (priv, serial) \<Rightarrow>
          let tmpl = \<lparr>t_SerialNumber = serial, t_CommonName = commonName, t_Organization = [''Vector Clock Lab (generated CA)''],
                t_NotBefore = en_now en - hour, t_NotAfter = en_now en + 365 * 24 * hour,
                t_KeyUsage = [CertSign, CRLSign], t_ExtKeyUsage = [ClientAuth, ServerAuth],
                t_BasicConstraintsValid = True, t_IsCA = True, t_DNSNames = [], t_IPAddresses = []\<rparr>
          in finish_cert en (CreateCertificate tmpl tmpl (pub_of priv) (pub_of priv)) priv)"

definition GenerateCASignedCert :: "('key \<Rightarrow> 'pub) \<Rightarrow> 'key entropy \<Rightarrow> ('key, 'pub, 'ip) CertPair option \<Rightarrow> string \<Rightarrow> string list \<Rightarrow>
    'ip list \<Rightarrow> gen_error + ('key, 'pub, 'ip) CertPair" where
  "GenerateCASignedCert pub_of en ca commonName dnsSANs ipSANs =
     (case ca of
        None \<Rightarrow> Inl NilCA
      | Some ca \<Rightarrow>
          (case parsePair ca of
             Inl e \<Rightarrow> Inl e
           | Inr (caCert, caKey) \<Rightarrow>
               (case draw en of
                  Inl e \<Rightarrow> Inl e
                | Inr (priv, serial) \<Rightarrow>
                    let tmpl = \<lparr>t_SerialNumber = serial, t_CommonName = commonName,
                          t_Organization = [''Vector Clock Lab (generated leaf)''],
                          t_NotBefore = en_now en - hour, t_NotAfter = en_now en + 365 * 24 * hour,
                          t_KeyUsage = [DigitalSignature], t_ExtKeyUsage = [ClientAuth],
                          t_BasicConstraintsValid = True, t_IsCA = False, t_DNSNames = dnsSANs, t_IPAddresses = ipSANs\<rparr>
                    in finish_cert en (CreateCertificate tmpl (x_template caCert) (pub_of priv) (pub_of caKey)) priv)))"

section \<open>The script\<close>

definition splitNonEmpty :: "string \<Rightarrow> string list" where
  "splitNonEmpty s = fold (\<lambda>p out. let t = TrimSpace p in if t \<noteq> '''' then out @ [t] else out) (Split s (CHR '','')) []"

record gen_flags =
  fl_out :: string
  fl_cert :: string
  fl_key :: string
  fl_cn :: string
  fl_dns :: string
  fl_ip :: string

datatype script_error = InvalidIP string | GenerateFailed gen_error | WriteCert | WriteKey

fun parse_ips :: "(string \<Rightarrow> 'ip option) \<Rightarrow> string list \<Rightarrow> script_error + 'ip list" where
  "parse_ips ParseIP [] = Inr []"
| "parse_ips ParseIP (s # ss) =
     (case ParseIP s of
        None \<Rightarrow> Inl (InvalidIP s)
      | Some ip \<Rightarrow> (case parse_ips ParseIP ss of Inl e \<Rightarrow> Inl e | Inr ips \<Rightarrow> Inr (ip # ips)))"

text \<open>\<open>writable\<close>: the paths that can be written. The result is the error, if any, and the file system.\<close>

definition gen_test_cert :: "(string \<Rightarrow> 'ip option) \<Rightarrow> ('key \<Rightarrow> 'pub) \<Rightarrow> 'key entropy \<Rightarrow> (string \<Rightarrow> bool) \<Rightarrow> gen_flags \<Rightarrow>
    (string \<Rightarrow> ('key, 'pub, 'ip) pem option) \<Rightarrow> script_error option \<times> (string \<Rightarrow> ('key, 'pub, 'ip) pem option)" where
  "gen_test_cert ParseIP pub_of en writable fl files =
     (case parse_ips ParseIP (splitNonEmpty (fl_ip fl)) of
        Inl e \<Rightarrow> (Some e, files)
      | Inr ipList \<Rightarrow>
          (case GenerateSelfSignedCert pub_of en (fl_cn fl) (splitNonEmpty (fl_dns fl)) ipList of
             Inl e \<Rightarrow> (Some (GenerateFailed e), files)
           | Inr pair \<Rightarrow>
               let certPath = (if fl_cert fl = '''' then fl_out fl @ ''.cert.pem'' else fl_cert fl);
                   keyPath = (if fl_key fl = '''' then fl_out fl @ ''.key.pem'' else fl_key fl)
               in if \<not> writable certPath then (Some WriteCert, files)
                  else let files1 = files(certPath := cp_CertPEM pair)
                       in if \<not> writable keyPath then (Some WriteKey, files1)
                          else (None, files1(keyPath := cp_KeyPEM pair))))"

section \<open>What the certificates are good for\<close>

text \<open>\<^verbatim>\<open>tls.LoadX509KeyPair\<close> on the files: both parse and the public keys agree.\<close>

definition LoadX509KeyPair :: "('key \<Rightarrow> 'pub) \<Rightarrow> (string \<Rightarrow> ('key, 'pub, 'ip) pem option) \<Rightarrow> string \<Rightarrow> string \<Rightarrow> (('pub, 'ip) x509 \<times> 'key) option" where
  "LoadX509KeyPair pub_of files certFile keyFile =
     (case parsePair \<lparr>cp_CertPEM = files certFile, cp_KeyPEM = files keyFile\<rparr> of
        Inl e \<Rightarrow> None
      | Inr (cert, key) \<Rightarrow> if x_PublicKey cert = pub_of key then Some (cert, key) else None)"

text \<open>When a verifier accepts a certificate for a usage at a time, with another one as the trusted authority.\<close>

definition valid_at :: "int \<Rightarrow> ('pub, 'ip) x509 \<Rightarrow> bool" where
  "valid_at t c \<longleftrightarrow> t_NotBefore (x_template c) \<le> t \<and> t \<le> t_NotAfter (x_template c)"

definition chain_ok :: "int \<Rightarrow> ext_usage \<Rightarrow> ('pub, 'ip) x509 \<Rightarrow> ('pub, 'ip) x509 \<Rightarrow> bool" where
  "chain_ok t usage ca c \<longleftrightarrow> x_Issuer c = cert_subject (x_template ca) \<and> x_SignedBy c = x_PublicKey ca
     \<and> t_BasicConstraintsValid (x_template ca) \<and> t_IsCA (x_template ca) \<and> CertSign \<in> set (t_KeyUsage (x_template ca))
     \<and> valid_at t ca \<and> valid_at t c \<and> usage \<in> set (t_ExtKeyUsage (x_template ca)) \<and> usage \<in> set (t_ExtKeyUsage (x_template c))"

lemma parse_encode: "encodePair ok cert key = Inr p \<Longrightarrow> parsePair p = Inr (cert, key)"
  by (auto simp: encodePair_def parsePair_def split: if_splits)

lemma finish_Inr: "finish_cert en cert key = Inr p \<Longrightarrow> parsePair p = Inr (cert, key)"
  by (auto simp: finish_cert_def dest: parse_encode split: if_splits)

text \<open>The certificates of a generated authority serve their purpose. A leaf signed with a generated CA is
  accepted as a client certificate by every verifier that trusts the CA, while both are valid,
  carries the public half of the key handed out with it, and is accepted for no other usage.\<close>

theorem ca_signed_cert_verifies:
  assumes "GenerateCA pub_of en ca_name = Inr ca"
    and "GenerateCASignedCert pub_of en' (Some ca) nm dns ips = Inr leaf"
    and "en_now en - hour \<le> t" and "t \<le> en_now en + 365 * 24 * hour"
    and "en_now en' - hour \<le> t" and "t \<le> en_now en' + 365 * 24 * hour"
  shows "\<exists>caCert caKey cert key. parsePair ca = Inr (caCert, caKey) \<and> parsePair leaf = Inr (cert, key)
     \<and> (chain_ok t usage caCert cert \<longleftrightarrow> usage = ClientAuth) \<and> x_PublicKey cert = pub_of key \<and> \<not> t_IsCA (x_template cert)"
proof -
  obtain k serial where d: "draw en = Inr (k, serial)"
    using assms(1) by (auto simp: GenerateCA_def split: sum.splits)
  obtain k' serial' where d': "draw en' = Inr (k', serial')"
    using assms(2) by (auto simp: GenerateCASignedCert_def split: sum.splits)
  obtain caCert where ca: "parsePair ca = Inr (caCert, k)" "x_PublicKey caCert = pub_of k"
      "t_IsCA (x_template caCert)" "t_BasicConstraintsValid (x_template caCert)" "CertSign \<in> set (t_KeyUsage (x_template caCert))"
      "valid_at t caCert" "set (t_ExtKeyUsage (x_template caCert)) = {ClientAuth, ServerAuth}"
    using assms(1,3,4) finish_Inr d by (fastforce simp: GenerateCA_def Let_def CreateCertificate_def valid_at_def)
  obtain cert where leaf: "parsePair leaf = Inr (cert, k')" "x_PublicKey cert = pub_of k'" "\<not> t_IsCA (x_template cert)"
      "x_Issuer cert = cert_subject (x_template caCert)" "x_SignedBy cert = pub_of k" "valid_at t cert"
      "set (t_ExtKeyUsage (x_template cert)) = {ClientAuth}"
    using assms(2,5,6) finish_Inr d' ca(1)
    by (fastforce simp: GenerateCASignedCert_def Let_def CreateCertificate_def valid_at_def)
  have "chain_ok t usage caCert cert \<longleftrightarrow> usage = ClientAuth" using ca leaf by (auto simp: chain_ok_def)
  with ca leaf show ?thesis by blast
qed

text \<open>What the script writes can be served. After a run that succeeds, with different paths for the
  certificate and the key, loading the TLS configuration from the two files succeeds, and the
  certificate presented names the common name and the DNS names asked for.\<close>

theorem gen_test_cert_loads:
  assumes "gen_test_cert ParseIP pub_of en writable fl files = (None, files')"
    and "certPath = (if fl_cert fl = '''' then fl_out fl @ ''.cert.pem'' else fl_cert fl)"
    and "keyPath = (if fl_key fl = '''' then fl_out fl @ ''.key.pem'' else fl_key fl)"
    and "certPath \<noteq> keyPath" and "dk_pair d = LoadX509KeyPair pub_of files'" and "dk_stat d certPath \<noteq> None"
  shows "\<exists>c cert key. tls_Load d d d certPath keyPath '''' = Inr c \<and> getCertificate c = Some (cert, key)
     \<and> t_CommonName (x_template cert) = fl_cn fl \<and> t_DNSNames (x_template cert) = splitNonEmpty (fl_dns fl)"
proof -
  obtain ips pair where g: "GenerateSelfSignedCert pub_of en (fl_cn fl) (splitNonEmpty (fl_dns fl)) ips = Inr pair" and
    f: "files' = files(certPath := cp_CertPEM pair, keyPath := cp_KeyPEM pair)"
    using assms(1-3) by (auto simp: gen_test_cert_def Let_def split: sum.splits if_splits)
  obtain k serial where d: "draw en = Inr (k, serial)" using g by (auto simp: GenerateSelfSignedCert_def split: sum.splits)
  obtain cert where cert: "parsePair pair = Inr (cert, k)" "x_PublicKey cert = pub_of k" "t_CommonName (x_template cert) = fl_cn fl"
      "t_DNSNames (x_template cert) = splitNonEmpty (fl_dns fl)"
    using g finish_Inr d by (fastforce simp: GenerateSelfSignedCert_def Let_def CreateCertificate_def)
  have pair: "\<lparr>cp_CertPEM = cp_CertPEM pair, cp_KeyPEM = cp_KeyPEM pair\<rparr> = pair" by (cases pair) simp
  have "LoadX509KeyPair pub_of files' certPath keyPath = Some (cert, k)"
    using cert assms(4) by (simp add: LoadX509KeyPair_def f pair)
  moreover obtain fp where "dk_stat d certPath = Some fp" using assms(6) by auto
  moreover have "certPath \<noteq> ''''" "keyPath \<noteq> ''''" using assms(2,3) by auto
  ultimately show ?thesis
    using assms(5) cert by (auto simp: tls_Load_def tls_Reload_def certFingerprint_def getCertificate_def Let_def)
qed

definition demo_entropy :: "nat entropy" where
  "demo_entropy = \<lparr>en_key = Some 7, en_serial = Some 1, en_now = 0, en_create_ok = True, en_marshal_ok = True\<rparr>"

definition demo_flags :: gen_flags where
  "demo_flags = \<lparr>fl_out = ''vc'', fl_cert = '''', fl_key = '''', fl_cn = ''localhost'', fl_dns = ''localhost'', fl_ip = ''''\<rparr>"

theorem ca_signed_cert_verifies_witness:
  "\<exists>ca leaf caCert caKey cert key. GenerateCA id demo_entropy ''CA'' = Inr (ca :: (nat, nat, nat) CertPair)
     \<and> GenerateCASignedCert id (demo_entropy\<lparr>en_key := Some 8\<rparr>) (Some ca) ''client'' [] [] = Inr leaf
     \<and> parsePair ca = Inr (caCert, caKey) \<and> parsePair leaf = Inr (cert, key) \<and> chain_ok 0 ClientAuth caCert cert"
proof -
  obtain ca where ca: "GenerateCA id demo_entropy ''CA'' = Inr (ca :: (nat, nat, nat) CertPair)"
    by (simp add: GenerateCA_def demo_entropy_def draw_def finish_cert_def encodePair_def Let_def)
  obtain leaf where leaf: "GenerateCASignedCert id (demo_entropy\<lparr>en_key := Some 8\<rparr>) (Some ca) ''client'' [] [] = Inr leaf"
    using ca by (auto simp: GenerateCA_def GenerateCASignedCert_def demo_entropy_def draw_def finish_cert_def encodePair_def
        parsePair_def Let_def)
  from ca_signed_cert_verifies [OF ca leaf, of 0 ClientAuth] ca leaf show ?thesis by (auto simp: demo_entropy_def hour_def)
qed

theorem gen_test_cert_loads_witness:
  "\<exists>files' c. gen_test_cert (\<lambda>s. None :: nat option) id demo_entropy (\<lambda>_. True) demo_flags (\<lambda>_. None) = (None, files')
     \<and> tls_Load \<lparr>dk_pair = LoadX509KeyPair id files', dk_stat = (\<lambda>_. Some \<lparr>ff_size = 1, ff_mtime = 1\<rparr>), dk_read = (\<lambda>_. None),
          dk_pool = (\<lambda>_. None :: nat option)\<rparr>
        \<lparr>dk_pair = LoadX509KeyPair id files', dk_stat = (\<lambda>_. Some \<lparr>ff_size = 1, ff_mtime = 1\<rparr>), dk_read = (\<lambda>_. None),
          dk_pool = (\<lambda>_. None)\<rparr>
        \<lparr>dk_pair = LoadX509KeyPair id files', dk_stat = (\<lambda>_. Some \<lparr>ff_size = 1, ff_mtime = 1\<rparr>), dk_read = (\<lambda>_. None),
          dk_pool = (\<lambda>_. None)\<rparr> ''vc.cert.pem'' ''vc.key.pem'' '''' = Inr c"
proof -
  have "splitNonEmpty '''' = []" by code_simp
  then obtain files' where r: "gen_test_cert (\<lambda>s. None :: nat option) id demo_entropy (\<lambda>_. True) demo_flags (\<lambda>_. None) = (None, files')"
    by (simp add: gen_test_cert_def demo_flags_def GenerateSelfSignedCert_def demo_entropy_def draw_def finish_cert_def encodePair_def Let_def)
  let ?d = "\<lparr>dk_pair = LoadX509KeyPair id files', dk_stat = (\<lambda>_. Some \<lparr>ff_size = 1, ff_mtime = 1\<rparr>), dk_read = (\<lambda>_. None),
          dk_pool = (\<lambda>_. None :: nat option)\<rparr>"
  from gen_test_cert_loads [OF r, of "''vc.cert.pem''" "''vc.key.pem''" ?d] r show ?thesis by (auto simp: demo_flags_def)
qed

end
