(* ===== verification/Telemetry_Init.thy ===== *)
theory Telemetry_Init
  imports Gateway_Auth Complex_Main
begin

text \<open>
  \<^verbatim>\<open>internal/telemetry/telemetry.go\<close>: how the tracing configuration is normalised and which provider
  is installed. The OpenTelemetry SDK is third-party code: the resource it merges and the exporters it
  builds are parameters (the record \<open>sdk\<close>), of which \<^verbatim>\<open>Init\<close> only uses whether they succeed, and the
  provider is the value \<open>provider\<close>. A sample ratio is a real number.
\<close>

record tel_Config =
  tc_ServiceName :: string
  tc_ServiceVersion :: string
  tc_Exporter :: string
  tc_OTLPEndpoint :: string
  tc_SampleRatio :: real
  tc_Insecure :: bool

text \<open>\<open>sdk_merge\<close>: \<^verbatim>\<open>resource.Merge\<close> with the default resource; \<open>sdk_stdout\<close>, \<open>sdk_otlp\<close>: the exporter and
  whether it comes with a closer.\<close>

record ('res, 'exp) sdk =
  sdk_hostname :: "string option"
  sdk_uuid :: string
  sdk_merge :: "(string \<times> string) list \<Rightarrow> 'res option"
  sdk_stdout :: "'exp option"
  sdk_otlp :: "string \<Rightarrow> bool \<Rightarrow> ('exp \<times> bool) option"

datatype tel_error = UnknownExporter string | ResourceFailed | ExporterFailed

datatype ('res, 'exp) provider = NoopProvider | SdkProvider 'res 'exp bool real

text \<open>\<^verbatim>\<open>strings.ToLower\<close> on the ASCII letters. No other code point has a lower-case form among the letters of
  the names compared with below.\<close>

definition ToLower :: "string \<Rightarrow> string" where
  "ToLower s = map (\<lambda>c. if CHR ''A'' \<le> c \<and> c \<le> CHR ''Z'' then char_of (of_char c + (32 :: nat)) else c) s"

definition buildResource :: "('res, 'exp) sdk \<Rightarrow> tel_Config \<Rightarrow> 'res option" where
  "buildResource sdk cfg =
     (let host = (case sdk_hostname sdk of None \<Rightarrow> ''unknown'' | Some h \<Rightarrow> if h = '''' then ''unknown'' else h)
      in sdk_merge sdk [(''service.name'', tc_ServiceName cfg), (''service.version'', tc_ServiceVersion cfg),
           (''service.instance.id'', sdk_uuid sdk), (''host.name'', host)])"

definition buildExporter :: "('res, 'exp) sdk \<Rightarrow> string \<Rightarrow> tel_Config \<Rightarrow> ('exp \<times> bool) option" where
  "buildExporter sdk kind cfg =
     (if kind = ''stdout'' then (case sdk_stdout sdk of None \<Rightarrow> None | Some x \<Rightarrow> Some (x, False))
      else if kind = ''otlp'' then sdk_otlp sdk (tc_OTLPEndpoint cfg) (tc_Insecure cfg)
      else None)"

definition tel_Init :: "('res, 'exp) sdk \<Rightarrow> tel_Config \<Rightarrow> tel_error + ('res, 'exp) provider" where
  "tel_Init sdk cfg =
     (let exporter = ToLower (TrimSpace (tc_Exporter cfg));
          exporter = (if exporter = '''' then ''none'' else exporter);
          cfg = (if tc_ServiceName cfg = '''' then cfg\<lparr>tc_ServiceName := ''vectorclock-server''\<rparr> else cfg);
          cfg = (if tc_SampleRatio cfg < 0 then cfg\<lparr>tc_SampleRatio := 0\<rparr> else cfg);
          cfg = (if tc_SampleRatio cfg > 1 then cfg\<lparr>tc_SampleRatio := 1\<rparr> else cfg)
      in if exporter = ''none'' then Inr NoopProvider
         else if exporter = ''stdout'' \<or> exporter = ''otlp''
         then (case buildResource sdk cfg of
                 None \<Rightarrow> Inl ResourceFailed
               | Some res \<Rightarrow>
                   (case buildExporter sdk exporter cfg of
                      None \<Rightarrow> Inl ExporterFailed
                    | Some (x, closer) \<Rightarrow> Inr (SdkProvider res x closer (tc_SampleRatio cfg))))
         else Inl (UnknownExporter (tc_Exporter cfg)))"

text \<open>The shutdown function: \<open>down\<close> and \<open>close\<close> are the errors of the provider and of the exporter's closer.\<close>

definition tel_shutdown :: "('res, 'exp) provider \<Rightarrow> 'err option \<Rightarrow> 'err option \<Rightarrow> 'err option" where
  "tel_shutdown p down close =
     (case p of
        NoopProvider \<Rightarrow> None
      | SdkProvider res x closer ratio \<Rightarrow>
          (if closer then (case close of None \<Rightarrow> down | Some e \<Rightarrow> if down = None then Some e else down) else down))"

text \<open>The sampler always gets a ratio between 0 and 1, and an unknown exporter is always refused.\<close>

lemma tel_Init_ratio: "tel_Init sdk cfg = Inr (SdkProvider res x closer ratio) \<Longrightarrow> 0 \<le> ratio \<and> ratio \<le> 1"
  by (auto simp: tel_Init_def Let_def split: if_splits option.splits)

lemma tel_Init_unknown:
  "ToLower (TrimSpace (tc_Exporter cfg)) \<notin> {'''', ''none'', ''stdout'', ''otlp''} \<Longrightarrow>
     tel_Init sdk cfg = Inl (UnknownExporter (tc_Exporter cfg))"
  by (simp add: tel_Init_def Let_def)

lemma tel_Init_none: "ToLower (TrimSpace (tc_Exporter cfg)) \<in> {'''', ''none''} \<Longrightarrow> tel_Init sdk cfg = Inr NoopProvider"
  by (auto simp: tel_Init_def Let_def)

lemma tel_shutdown_first_error:
  "tel_shutdown (SdkProvider res x True ratio) down close = None \<longleftrightarrow> down = None \<and> close = None"
  by (auto simp: tel_shutdown_def split: option.splits)

end
