(* ===== verification/Server_Main.thy ===== *)
theory Server_Main
  imports Gateway_Shutdown Telemetry_Init Tls_Config
begin

text \<open>
  \<^verbatim>\<open>cmd/server/main.go\<close>: how the program is configured and started. What it reads from its
  surroundings is a value of the record \<open>host\<close>: the environment, the files, and what third-party or
  system code makes of them (the YAML decoder, the parsers of floating-point numbers and durations,
  the SDK of the traces, the key files). Each \<^verbatim>\<open>log.Fatal\<close> is an error value; what listening returns is
  a parameter; the logger is left out. The disk does not change while the program starts.
\<close>

section \<open>Configuration\<close>

record serverConfig =
  sc_Port :: int
  sc_WSBuffer :: int
  sc_RateLimitPerIP :: real
  sc_RateLimitBurst :: real
  sc_InitialProcesses :: int
  sc_SimClockType :: string
  sc_SimDeliveryMode :: string
  sc_SimChannels :: string
  sc_Level :: string
  sc_Format :: string

text \<open>\<open>h_stat\<close>: whether the path exists and is a regular file; \<open>h_yaml\<close>: the configuration after decoding a file
  into one, also when decoding fails halfway.\<close>

record ('res, 'exp, 'cert, 'pool) host =
  h_env :: "string \<Rightarrow> string"
  h_clean :: "string \<Rightarrow> string"
  h_stat :: "string \<Rightarrow> bool option"
  h_file :: "string \<Rightarrow> string option"
  h_yaml :: "string \<Rightarrow> serverConfig \<Rightarrow> serverConfig"
  h_tokens :: "string \<Rightarrow> Token list option"
  h_float :: "string \<Rightarrow> real option"
  h_duration :: "string \<Rightarrow> int option"
  h_sdk :: "('res, 'exp) sdk"
  h_disk :: "('cert, 'pool) disk"

definition default_config :: serverConfig where
  "default_config = \<lparr>sc_Port = 8080, sc_WSBuffer = 0, sc_RateLimitPerIP = 167 / 100, sc_RateLimitBurst = 10,
     sc_InitialProcesses = 3, sc_SimClockType = ''vector'', sc_SimDeliveryMode = ''causal'', sc_SimChannels = ''full_mesh'',
     sc_Level = ''info'', sc_Format = ''''\<rparr>"

definition loadConfig :: "('res, 'exp, 'cert, 'pool) host \<Rightarrow> string \<Rightarrow> serverConfig" where
  "loadConfig h path =
     (let cfg = default_config; cleaned = h_clean h path
      in case h_stat h cleaned of
           None \<Rightarrow> cfg
         | Some regular \<Rightarrow>
             if \<not> regular then cfg
             else case h_file h cleaned of
                    None \<Rightarrow> cfg
                  | Some data \<Rightarrow> h_yaml h data cfg)"

text \<open>\<^verbatim>\<open>strconv.Atoi\<close>: an optional sign and decimal digits, in the range of a 64-bit integer.\<close>

definition is_digit :: "char \<Rightarrow> bool" where
  "is_digit c \<longleftrightarrow> CHR ''0'' \<le> c \<and> c \<le> CHR ''9''"

definition Atoi :: "string \<Rightarrow> int option" where
  "Atoi s =
     (let neg = take 1 s = ''-'';
          ds = (if neg \<or> take 1 s = ''+'' then drop 1 s else s)
      in if ds = '''' \<or> \<not> list_all is_digit ds then None
         else let n = int (undec ds)
              in if neg then (if n \<le> 2 ^ 63 then Some (- n) else None)
                 else if n < 2 ^ 63 then Some n else None)"

datatype port_error = ConfigPortRange int | PortNotInteger string | EnvPortRange int

definition resolvePort :: "string \<Rightarrow> int \<Rightarrow> port_error + int" where
  "resolvePort envValue configDefault =
     (if envValue = ''''
      then (if configDefault < 0 \<or> configDefault > 65535 then Inl (ConfigPortRange configDefault) else Inr configDefault)
      else case Atoi envValue of
             None \<Rightarrow> Inl (PortNotInteger envValue)
           | Some port \<Rightarrow> if port < 1 \<or> port > 65535 then Inl (EnvPortRange port) else Inr port)"

definition envOr :: "(string \<Rightarrow> string) \<Rightarrow> string \<Rightarrow> string \<Rightarrow> string" where
  "envOr env nm dflt = (let v = TrimSpace (env nm) in if v \<noteq> '''' then v else dflt)"

definition envOrFloat :: "('res, 'exp, 'cert, 'pool) host \<Rightarrow> string \<Rightarrow> real \<Rightarrow> real" where
  "envOrFloat h nm dflt =
     (let v = TrimSpace (h_env h nm)
      in if v = '''' then dflt else case h_float h v of None \<Rightarrow> dflt | Some f \<Rightarrow> f)"

definition parseDurationEnv :: "('res, 'exp, 'cert, 'pool) host \<Rightarrow> string \<Rightarrow> int \<Rightarrow> int" where
  "parseDurationEnv h nm dflt =
     (let v = TrimSpace (h_env h nm)
      in if v = '''' then dflt else case h_duration h v of None \<Rightarrow> dflt | Some d \<Rightarrow> d)"

section \<open>Starting\<close>

datatype main_error = TelemetryFatal tel_error | BadInitialProcesses int | SpawnFatal sim_error | PortFatal port_error
  | AuthFatal auth_error | TlsKeyMissing | TlsFatal tls_error

text \<open>The configuration with its reloader started, if any.\<close>

definition buildTLSConfig :: "('res, 'exp, 'cert, 'pool) host \<Rightarrow> main_error + ('cert, 'pool) Config option" where
  "buildTLSConfig h =
     (let certFile = TrimSpace (h_env h ''VC_TLS_CERT_FILE'')
      in if certFile = '''' then Inr None
         else let keyFile = TrimSpace (h_env h ''VC_TLS_KEY_FILE'')
              in if keyFile = '''' then Inl TlsKeyMissing
                 else let clientCAFile = TrimSpace (h_env h ''VC_TLS_CLIENT_CA_FILE'')
                      in case tls_Load (h_disk h) (h_disk h) (h_disk h) certFile keyFile clientCAFile of
                           Inl e \<Rightarrow> Inl (TlsFatal e)
                         | Inr cfg \<Rightarrow>
                             let reloadInterval = parseDurationEnv h ''VC_TLS_RELOAD_INTERVAL'' 0
                             in Inr (Some (if reloadInterval > 0 then StartReloader reloadInterval cfg else cfg)))"

text \<open>The loop that spawns the initial processes stops at the first error.\<close>

fun main_spawn :: "scen_env \<Rightarrow> ClockType \<Rightarrow> DeliveryMode \<Rightarrow> nat list \<Rightarrow> string Simulation \<Rightarrow> sim_error + string Simulation" where
  "main_spawn e ct dm [] sim = Inr sim"
| "main_spawn e ct dm (i # is') sim =
     (case SpawnProcess (se_now e)
             \<lparr>cfg_ID = proc_name i, cfg_ClockType = ct, cfg_DeliveryMode = dm, cfg_Peers = [], cfg_AllPIDs = []\<rparr> sim of
        (Inl err, sim') \<Rightarrow> Inl err
      | (Inr u, sim') \<Rightarrow> main_spawn e ct dm is' sim')"

definition config_path :: "('res, 'exp, 'cert, 'pool) host \<Rightarrow> string" where
  "config_path h = (if h_env h ''CONFIG_PATH'' = '''' then ''config.yaml'' else h_env h ''CONFIG_PATH'')"

definition telemetry_config :: "('res, 'exp, 'cert, 'pool) host \<Rightarrow> tel_Config" where
  "telemetry_config h =
     \<lparr>tc_ServiceName = envOr (h_env h) ''OTEL_SERVICE_NAME'' ''vectorclock-server'', tc_ServiceVersion = ''dev'',
      tc_Exporter = envOr (h_env h) ''OTEL_EXPORTER'' ''none'',
      tc_OTLPEndpoint = envOr (h_env h) ''OTEL_EXPORTER_OTLP_ENDPOINT'' ''localhost:4318'',
      tc_SampleRatio = envOrFloat h ''OTEL_SAMPLE_RATIO'' 1, tc_Insecure = (h_env h ''OTEL_INSECURE'' = ''true'')\<rparr>"

text \<open>\<^verbatim>\<open>main\<close> up to listening: the port, the TLS configuration and the server.\<close>

definition main_setup :: "scen_env \<Rightarrow> ('res, 'exp, 'cert, 'pool) host \<Rightarrow> main_error + int \<times> ('cert, 'pool) Config option \<times> Server" where
  "main_setup e h =
     (let cfg = loadConfig h (config_path h)
      in case tel_Init (h_sdk h) (telemetry_config h) of
           Inl err \<Rightarrow> Inl (TelemetryFatal err)
         | Inr prov \<Rightarrow>
      (let clockType = (if sc_SimClockType cfg = '''' then ClockVector else sc_SimClockType cfg);
           deliveryMode = (if sc_SimDeliveryMode cfg = '''' then CausalDelivery else sc_SimDeliveryMode cfg)
       in if sc_InitialProcesses cfg < 0 \<or> sc_InitialProcesses cfg > 100 then Inl (BadInitialProcesses (sc_InitialProcesses cfg))
          else case main_spawn e clockType deliveryMode [0 ..< nat (sc_InitialProcesses cfg)]
                      (simulation_New \<lparr>sc_ClockType = clockType, sc_DeliveryMode = deliveryMode, sc_Channels = sc_SimChannels cfg\<rparr>) of
                 Inl err \<Rightarrow> Inl (SpawnFatal err)
               | Inr sim \<Rightarrow>
          (case resolvePort (h_env h ''PORT'') (sc_Port cfg) of
             Inl err \<Rightarrow> Inl (PortFatal err)
           | Inr port \<Rightarrow>
          (case NewManager (h_tokens h) (h_env h ''API_TOKENS_FILE'') (h_env h ''VC_API_TOKENS'') of
             Inl err \<Rightarrow> Inl (AuthFatal err)
           | Inr authMgr \<Rightarrow>
               let srv = NewServerWithRateLimit sim (EnvAllowedOrigins (h_env h ''VC_ALLOWED_ORIGINS'')) authMgr
                           (sc_RateLimitPerIP cfg) (sc_RateLimitBurst cfg)
               in case buildTLSConfig h of
                    Inl err \<Rightarrow> Inl err
                  | Inr tlsCfg \<Rightarrow> Inr (port, tlsCfg, srv)))))"

text \<open>The end of \<^verbatim>\<open>main\<close>: the server is shut down and the first simulation stopped once more.\<close>

definition main_stop :: "(u64 \<Rightarrow> int) \<Rightarrow> Server \<Rightarrow> Server" where
  "main_stop now sv = (let sv1 = Shutdown now sv in sv1\<lparr>sv_sims := (sv_sims sv1)[0 := simulation_Stop now (sv_sims sv1 ! 0)]\<rparr>)"

text \<open>\<^verbatim>\<open>StartTLS\<close> and \<^verbatim>\<open>Start\<close> of \<^verbatim>\<open>gateway/server.go\<close>. \<open>listen\<close> is what the HTTP library's server returns when it ends, for an
  address, with or without TLS.\<close>

datatype listen_error = ErrServerClosed | ListenError string

definition StartTLS :: "(string \<Rightarrow> bool \<Rightarrow> listen_error option) \<Rightarrow> string \<Rightarrow> ('cert, 'pool) Config option \<Rightarrow> listen_error option" where
  "StartTLS listen addr tlsCfg =
     (let err = listen addr (tlsCfg \<noteq> None) in if err \<noteq> None \<and> err \<noteq> Some ErrServerClosed then err else None)"

definition server_Start :: "(string \<Rightarrow> bool \<Rightarrow> listen_error option) \<Rightarrow> string \<Rightarrow> listen_error option" where
  "server_Start listen addr = StartTLS listen addr (None :: (unit, unit) Config option)"

text \<open>The goroutine that serves, up to what \<^verbatim>\<open>main\<close> receives from its channel (\<open>None\<close> from the closed one).\<close>

definition main_serve :: "(string \<Rightarrow> bool \<Rightarrow> listen_error option) \<Rightarrow> string \<Rightarrow> ('cert, 'pool) Config option \<Rightarrow> listen_error option" where
  "main_serve listen addr tlsCfg =
     (let startErr = (if tlsCfg \<noteq> None then StartTLS listen addr tlsCfg else server_Start listen addr)
      in if startErr \<noteq> None \<and> startErr \<noteq> Some ErrServerClosed then startErr else None)"

datatype wakeup = ServerEnded "listen_error option" | Signalled

text \<open>What \<^verbatim>\<open>main\<close> does when it wakes up: it fails, or stops the reloader of the certificates and the server.\<close>

definition main_end :: "(u64 \<Rightarrow> int) \<Rightarrow> wakeup \<Rightarrow> ('cert, 'pool) Config option \<Rightarrow> Server \<Rightarrow>
    listen_error + ('cert, 'pool) Config option \<times> Server" where
  "main_end now wake tlsCfg sv =
     (case wake of
        ServerEnded (Some err) \<Rightarrow> Inl err
      | _ \<Rightarrow> Inr (map_option (\<lambda>c. c\<lparr>c_reloader := None\<rparr>) tlsCfg, main_stop now sv))"

section \<open>The credentials never change\<close>

lemma auth_parts [simp]:
  "sv_auth (upd_sim f sv) = sv_auth sv" "sv_auth (kv_put d sv) = sv_auth sv" "sv_auth (snd (on_sim g sv)) = sv_auth sv"
  "sv_auth (runner_step i sv) = sv_auth sv" "sv_auth (cg_take k sv) = sv_auth sv" "sv_auth (cg_exit k sv) = sv_auth sv"
  "sv_auth (Shutdown now sv) = sv_auth sv" "sv_auth (snd (limit_request t r sv)) = sv_auth sv"
  by (simp_all add: upd_sim_def kv_put_def on_sim_def runner_step_def cg_take_def cg_exit_def Shutdown_def limit_request_def Let_def
      split: option.splits prod.splits list.splits)

lemma auth_on_sim: "on_sim f sv = (r, sv') \<Longrightarrow> sv_auth sv' = sv_auth sv"
  using auth_parts(3) [of f sv] by simp

lemma auth_handlers:
  "sv_auth (snd (handleSimulationStart e b1 sv)) = sv_auth sv" "sv_auth (snd (handleSimulationReset e b1 sv)) = sv_auth sv"
  "sv_auth (snd (handleSimulationConfig b2 sv)) = sv_auth sv" "sv_auth (snd (handleSpawnProcess e b3 sv)) = sv_auth sv"
  "sv_auth (snd (handleKillProcess p sv)) = sv_auth sv" "sv_auth (snd (handleInternalEvent e p sv)) = sv_auth sv"
  "sv_auth (snd (handleTriggerSnapshot e p sv)) = sv_auth sv" "sv_auth (snd (handleSendMessage e b4 sv)) = sv_auth sv"
  "sv_auth (snd (handleBroadcast e b5 sv)) = sv_auth sv" "sv_auth (snd (handleFaultDelay b6 sv)) = sv_auth sv"
  "sv_auth (snd (handleFaultDrop b7 sv)) = sv_auth sv" "sv_auth (snd (handleClearFaults sv)) = sv_auth sv"
  "sv_auth (snd (handleFaultPartition b8 sv)) = sv_auth sv" "sv_auth (snd (handleHealPartition sv)) = sv_auth sv"
  "sv_auth (snd (handleKVWrite t1 t2 key b9 sv)) = sv_auth sv" "sv_auth (snd (handleKVResolve key b10 sv)) = sv_auth sv"
  "sv_auth (snd (handleRunScenario e nm sv)) = sv_auth sv"
  unfolding handleSimulationStart_def handleSimulationReset_def handleSimulationConfig_def handleSpawnProcess_def
    handleKillProcess_def handleInternalEvent_def handleTriggerSnapshot_def handleSendMessage_def handleBroadcast_def
    handleFaultDelay_def handleFaultDrop_def handleClearFaults_def handleFaultPartition_def handleHealPartition_def
    handleKVWrite_def handleKVResolve_def handleRunScenario_def Let_def
  by (simp_all add: auth_on_sim split: prod.split option.split sum.split)

lemma auth_dispatch: "sv_auth (snd (dispatch e q sv)) = sv_auth sv"
  by (cases q) (simp_all add: auth_handlers)

lemma auth_serve: "sv_auth (snd (snd (serve route e uuid now r sv))) = sv_auth sv"
proof -
  obtain res sv1 where l: "limit_request now r sv = (res, sv1)" "sv_auth sv1 = sv_auth sv"
    using auth_parts(8) [of now r sv] by (cases "limit_request now r sv") auto
  obtain ch m where c: "corsMiddleware (sv_allowed sv) r = (ch, m)" by fastforce
  show ?thesis
    using l(2) by (simp add: serve_def Let_def l(1) c auth_dispatch split: mw_result.split option.split)
qed

lemma auth_step: "server_step marshal sv sv' \<Longrightarrow> sv_auth sv' = sv_auth sv"
  by (induction rule: server_step.induct) (simp_all add: auth_serve)

lemma auth_steps: "(server_step marshal)\<^sup>*\<^sup>* sv sv' \<Longrightarrow> sv_auth sv' = sv_auth sv"
  by (induction rule: rtranclp_induct) (auto dest: auth_step)

section \<open>What a start yields\<close>

lemma main_spawn_snoc:
  "main_spawn e ct dm (xs @ [i]) s =
     (case main_spawn e ct dm xs s of Inl err \<Rightarrow> Inl err | Inr s' \<Rightarrow> main_spawn e ct dm [i] s')"
  by (induction xs arbitrary: s) (auto split: prod.splits sum.splits)

text \<open>On a fresh simulation no spawn fails, so the loop of \<^verbatim>\<open>main\<close> and the one of the handlers agree.\<close>

lemma main_spawn_fresh:
  "m \<le> 100 \<Longrightarrow> main_spawn e ct dm [0 ..< m] (simulation_New cfg) = Inr (fold (spawn_one e ct dm) [0 ..< m] (simulation_New cfg))"
proof (induction m)
  case (Suc m)
  define s where "s = fold (spawn_one e ct dm) [0 ..< m] (simulation_New cfg)"
  have s: "calm 0 s" "live s = proc_name ` {0 ..< m}" using spawn_fresh [of m e ct dm cfg] Suc.prems by (auto simp: s_def)
  let ?cfg = "\<lparr>cfg_ID = proc_name m, cfg_ClockType = ct, cfg_DeliveryMode = dm, cfg_Peers = [], cfg_AllPIDs = []\<rparr>"
  have "card (live s) < 100" using s(2) Suc.prems by (simp add: card_image inj_proc_name)
  moreover have "proc_name m \<notin> live s" using s(2) by (auto simp: proc_name_def)
  moreover have "proc_name m \<noteq> ''''" "length (proc_name m) \<le> 64"
    using valid_proc_name [of m] Suc.prems by (auto simp: validatePID_def split: if_splits)
  ultimately have "fst (SpawnProcess (se_now e) ?cfg s) = Inr ()" using calm_spawn(1) [OF s(1), of ?cfg] by simp
  then have "main_spawn e ct dm [m] s = Inr (spawn_one e ct dm m s)"
    by (cases "SpawnProcess (se_now e) ?cfg s") (simp add: spawn_one_def)
  then show ?case using Suc main_spawn_snoc [of e ct dm "[0 ..< m]" m "simulation_New cfg"] by (simp add: s_def)
qed simp

lemma main_spawn_count:
  "0 \<le> n \<Longrightarrow> n \<le> 100 \<Longrightarrow> main_spawn e ct dm [0 ..< nat n] (simulation_New cfg) = Inr (spawn_count e n ct dm (simulation_New cfg))"
  using main_spawn_fresh [of "nat n" e ct dm cfg] by (simp add: spawn_count_def)

lemma NewServer_simps:
  "sv_auth (NewServerWithRateLimit sim allowed mgr rate burst) = mgr" "sv_ready (NewServerWithRateLimit sim allowed mgr rate burst)"
  "live (getSim (NewServerWithRateLimit sim allowed mgr rate burst)) = live sim"
  by (simp_all add: NewServerWithRateLimit_def Let_def getSim_def live_def hub_put_def subscribeCausalGraph_def cancel_cg_def)

lemma NewManager_enabled:
  "NewManager file path raw = Inr m \<Longrightarrow> mgr_Enabled m \<longleftrightarrow> \<not> (path = '''' \<and> raw = '''')"
  by (auto simp: NewManager_def mgr_load_def mgr_Enabled_set mgr_Enabled_def [of "\<lparr>mgr_tokens = []\<rparr>"] gm_len_pos
      split: option.splits sum.splits if_splits)

lemma main_setup_Inr:
  assumes "main_setup e h = Inr (port, tls, srv)"
  shows "server_init srv" "mgr_Enabled (sv_auth srv) \<longleftrightarrow> \<not> (h_env h ''API_TOKENS_FILE'' = '''' \<and> h_env h ''VC_API_TOKENS'' = '''')"
proof -
  define cfg where "cfg = loadConfig h (config_path h)"
  define ct where "ct = (if sc_SimClockType cfg = '''' then ClockVector else sc_SimClockType cfg)"
  define dm where "dm = (if sc_SimDeliveryMode cfg = '''' then CausalDelivery else sc_SimDeliveryMode cfg)"
  note run = assms [unfolded main_setup_def Let_def, folded cfg_def, folded ct_def dm_def]
  have n: "0 \<le> sc_InitialProcesses cfg" "sc_InitialProcesses cfg \<le> 100"
    using run by (simp_all split: sum.splits if_splits)
  obtain m where m: "NewManager (h_tokens h) (h_env h ''API_TOKENS_FILE'') (h_env h ''VC_API_TOKENS'') = Inr m" and
    srv: "srv = NewServerWithRateLimit (spawn_count e (sc_InitialProcesses cfg) ct dm
        (simulation_New \<lparr>sc_ClockType = ct, sc_DeliveryMode = dm, sc_Channels = sc_SimChannels cfg\<rparr>))
        (EnvAllowedOrigins (h_env h ''VC_ALLOWED_ORIGINS'')) m (sc_RateLimitPerIP cfg) (sc_RateLimitBurst cfg)"
    using run n by (simp add: main_spawn_count split: sum.splits)
  show "server_init srv" unfolding server_init_def srv by ((rule exI)+, rule conjI [rotated], rule refl) (rule n(2))
  show "mgr_Enabled (sv_auth srv) \<longleftrightarrow> \<not> (h_env h ''API_TOKENS_FILE'' = '''' \<and> h_env h ''VC_API_TOKENS'' = '''')"
    using srv NewManager_enabled [OF m] by (simp add: NewServer_simps)
qed

lemma main_setup_ok:
  assumes "sc_InitialProcesses (loadConfig h (config_path h)) = n" "0 \<le> n" "n \<le> 100"
    "tel_Init (h_sdk h) (telemetry_config h) = Inr prov"
    "resolvePort (h_env h ''PORT'') (sc_Port (loadConfig h (config_path h))) = Inr port"
    "NewManager (h_tokens h) (h_env h ''API_TOKENS_FILE'') (h_env h ''VC_API_TOKENS'') = Inr m"
    "buildTLSConfig h = Inr tls"
  obtains srv where "main_setup e h = Inr (port, tls, srv)" "live (getSim srv) = proc_name ` {0 ..< nat n}" "sv_ready srv"
    "sv_auth srv = m"
proof -
  define cfg where "cfg = loadConfig h (config_path h)"
  define ct where "ct = (if sc_SimClockType cfg = '''' then ClockVector else sc_SimClockType cfg)"
  define dm where "dm = (if sc_SimDeliveryMode cfg = '''' then CausalDelivery else sc_SimDeliveryMode cfg)"
  let ?srv = "NewServerWithRateLimit (spawn_count e n ct dm
        (simulation_New \<lparr>sc_ClockType = ct, sc_DeliveryMode = dm, sc_Channels = sc_SimChannels cfg\<rparr>))
        (EnvAllowedOrigins (h_env h ''VC_ALLOWED_ORIGINS'')) m (sc_RateLimitPerIP cfg) (sc_RateLimitBurst cfg)"
  have "main_setup e h = Inr (port, tls, ?srv)"
    unfolding main_setup_def Let_def cfg_def [symmetric] ct_def [symmetric] dm_def [symmetric]
    using assms by (simp add: main_spawn_count cfg_def [symmetric])
  then show ?thesis
    using that [of ?srv] spawn_count_fresh [OF assms(3), of e ct dm] by (simp add: NewServer_simps)
qed

section \<open>Properties\<close>

lemma digits_dec: "list_all is_digit (dec n)"
proof (induction n rule: dec.induct)
  case (1 n)
  have "is_digit (digit k)" if "k < 10" for k
  proof -
    have "k \<in> {0, 1, 2, 3, 4, 5, 6, 7, 8, 9}" using that by auto
    then show ?thesis by (elim insertE emptyE; simp add: digit_def is_digit_def; code_simp)
  qed
  with 1 show ?case by (subst dec.simps) auto
qed

lemma dec_not_Nil [simp]: "dec n \<noteq> []"
  by (subst dec.simps) simp

lemma Atoi_dec: "Atoi (dec n) = (if n < 2 ^ 63 then Some (int n) else None)"
proof -
  obtain c cs where d: "dec n = c # cs" by (cases "dec n") auto
  then have "is_digit c" using digits_dec [of n] by simp
  moreover have "\<not> is_digit (CHR ''-'')" "\<not> is_digit (CHR ''+'')" by code_simp+
  ultimately have "c \<noteq> CHR ''-''" "c \<noteq> CHR ''+''" by auto
  moreover have "int n < 2 ^ 63 \<longleftrightarrow> n < 2 ^ 63" using of_nat_less_iff [of n "2 ^ 63", where ?'a = int] by simp
  ultimately show ?thesis using digits_dec [of n] undec_dec [of n] by (simp add: Atoi_def Let_def d)
qed

text \<open>The port in the environment. The decimal text of a number is the port it denotes if that lies
  between 1 and 65535, whatever the configuration file says; a larger number that fits an integer, and
  zero, are reported as out of range, and a number too large for an integer as no integer.\<close>

theorem resolvePort_roundtrip:
  "resolvePort (dec n) configDefault =
     (if 1 \<le> n \<and> n \<le> 65535 then Inr (int n)
      else if n < 2 ^ 63 then Inl (EnvPortRange (int n)) else Inl (PortNotInteger (dec n)))"
  by (auto simp: resolvePort_def Atoi_dec)

text \<open>The program starts. With between 0 and 100 initial processes, a port in range, tokens, key
  files and tracing that load, the start-up runs through, no spawn fails, and the server is ready with
  exactly the processes \<open>P1\<close> to \<open>Pn\<close>.\<close>

theorem main_starts:
  assumes "sc_InitialProcesses (loadConfig h (config_path h)) = n" and "0 \<le> n" and "n \<le> 100"
    and "tel_Init (h_sdk h) (telemetry_config h) = Inr prov"
    and "resolvePort (h_env h ''PORT'') (sc_Port (loadConfig h (config_path h))) = Inr port"
    and "NewManager (h_tokens h) (h_env h ''API_TOKENS_FILE'') (h_env h ''VC_API_TOKENS'') = Inr m"
    and "buildTLSConfig h = Inr tls"
  shows "\<exists>srv. main_setup e h = Inr (port, tls, srv) \<and> live (getSim srv) = proc_name ` {0 ..< nat n} \<and> sv_ready srv"
  by (rule main_setup_ok [OF assms]) blast

text \<open>C9: a configured server is protected from start to end. If the program starts with a token file or
  tokens in its environment, then in every state it reaches, a request to a protected path without
  the secret of a configured token is answered 401 (or 413, 204 or 429 before that) and changes at
  most the limiter's buckets; and it serves plain HTTP only if no certificate file is named.\<close>

theorem main_protects:
  assumes "main_setup e h = Inr (port, tls, srv)" and "(server_step marshal)\<^sup>*\<^sup>* srv sv"
    and "h_env h ''API_TOKENS_FILE'' \<noteq> '''' \<or> h_env h ''VC_API_TOKENS'' \<noteq> ''''"
    and "hr_Path r \<notin> {''/healthz'', ''/readyz'', ''/metrics''}"
    and "\<forall>name secret. TrimPrefix (hr_Authorization r) ''Bearer '' = name @ '':'' @ secret
       \<longrightarrow> map_option tok_Secret (map_of (mgr_tokens (sv_auth srv)) name) \<noteq> Some secret"
  shows "(tls = None \<longleftrightarrow> TrimSpace (h_env h ''VC_TLS_CERT_FILE'') = '''')
     \<and> (case serve route e' uuid now r sv of (hs, (status, bd), sv') \<Rightarrow>
          status \<in> {204, 401, 413, 429} \<and> (\<exists>l. sv' = sv\<lparr>sv_limiter := l\<rparr>))"
proof -
  have auth: "sv_auth sv = sv_auth srv" by (rule auth_steps [OF assms(2)])
  then have "mgr_Enabled (sv_auth sv)" using main_setup_Inr(2) [OF assms(1)] assms(3) by simp
  from serve_rejects [OF this assms(4), of route e' uuid now] assms(5) auth
  have "case serve route e' uuid now r sv of (hs, (status, bd), sv') \<Rightarrow>
      status \<in> {204, 401, 413, 429} \<and> (\<exists>l. sv' = sv\<lparr>sv_limiter := l\<rparr>)" by (auto split: prod.splits)
  moreover have "buildTLSConfig h = Inr tls"
    using assms(1) by (simp add: main_setup_def Let_def split: sum.splits if_splits)
  then have "tls = None \<longleftrightarrow> TrimSpace (h_env h ''VC_TLS_CERT_FILE'') = ''''"
    by (auto simp: buildTLSConfig_def Let_def split: if_splits sum.splits)
  ultimately show ?thesis by blast
qed

text \<open>How the program ends. A signal, or the end of serving without an error, stops it in an orderly way: it is no
  longer ready, its current and its first simulation are stopped, the reloader of the certificates is stopped, and,
  when no reset is under way in the hub, every connection is closed and the goroutines are on their way out. It fails only with the error of the
  listener, which is never the one that reports a regular end.\<close>

theorem main_end_orderly:
  assumes "main_setup e h = Inr (port, tls, srv)" and "(server_step marshal)\<^sup>*\<^sup>* srv sv" and "main_end now wake tls sv = Inr (tls', sv')"
  shows "\<not> sv_ready sv' \<and> events_Done (sim_bus (getSim sv')) \<and> events_Done (sim_bus (sv_sims sv' ! 0)) \<and> (hub_idle (sv_hub sv) \<longrightarrow> closing (Shutdown now sv))
     \<and> (tls' = None \<or> c_reloader (the tls') = None)"
proof -
  have inv: "server_inv sv" "tidy sv" using tidy.inv_reachable [OF main_setup_Inr(1) [OF assms(1)] assms(2)] by auto
  have sv': "sv' = main_stop now sv" "tls' = None \<or> c_reloader (the tls') = None"
    using assms(3) by (auto simp: main_end_def map_option_case split: wakeup.splits option.splits)
  have stop: "events_Done (sim_bus (simulation_Stop now s))" for s :: "string Simulation"
    by (simp add: simulation_Stop_def events_Done_def events_Stop_def split: prod.splits)
  have sd: "sv_sim (Shutdown now sv) = sv_sim sv" "length (sv_sims (Shutdown now sv)) = length (sv_sims sv)" "\<not> sv_ready (Shutdown now sv)"
    by (simp_all add: Shutdown_def Let_def upd_sim_def hub_put_def)
  have "events_Done (sim_bus (sv_sims (Shutdown now sv) ! sv_sim sv))"
    using server_invD(1) [OF inv(1)] stop by (simp add: Shutdown_def Let_def upd_sim_def getSim_def hub_put_def)
  moreover have "0 < length (sv_sims (Shutdown now sv))" using server_invD(1) [OF inv(1)] sd(2) by linarith
  ultimately have "events_Done (sim_bus (sv_sims sv' ! sv_sim sv))" "events_Done (sim_bus (sv_sims sv' ! 0))"
    using stop by (simp_all add: sv'(1) main_stop_def Let_def nth_list_update)
  then show ?thesis
    using sv' sd closing_Shutdown [OF inv, of now] by (simp add: main_stop_def Let_def getSim_def)
qed

text \<open>A regular end of the listener is no error, with TLS and without.\<close>

theorem main_serve_errors:
  "main_serve listen addr tls = (if listen addr (tls \<noteq> None) = Some ErrServerClosed then None else listen addr (tls \<noteq> None))"
  by (simp add: main_serve_def server_Start_def StartTLS_def Let_def)

text \<open>A host with nothing configured but a token.\<close>

definition demo_host :: "(nat, nat, nat, nat) host" where
  "demo_host = \<lparr>h_env = (\<lambda>nm. if nm = ''VC_API_TOKENS'' then ''bot:b0t'' else ''''), h_clean = id, h_stat = (\<lambda>_. None),
     h_file = (\<lambda>_. None), h_yaml = (\<lambda>_ cfg. cfg), h_tokens = (\<lambda>_. None), h_float = (\<lambda>_. None), h_duration = (\<lambda>_. None),
     h_sdk = \<lparr>sdk_hostname = None, sdk_uuid = '''', sdk_merge = (\<lambda>_. None), sdk_stdout = None, sdk_otlp = (\<lambda>_ _. None)\<rparr>,
     h_disk = demo_disk 1\<rparr>"

definition demo_manager :: Manager where
  "demo_manager = \<lparr>mgr_tokens = [(''bot'', \<lparr>tok_Name = ''bot'', tok_Secret = ''b0t''\<rparr>)]\<rparr>"

lemma Trim_empty: "TrimSpace '''' = ''''" "ToLower (TrimSpace ''none'') = ''none''"
  by code_simp+

lemma demo_start:
  "sc_InitialProcesses (loadConfig demo_host (config_path demo_host)) = 3"
  "tel_Init (h_sdk demo_host) (telemetry_config demo_host) = Inr NoopProvider"
  "resolvePort (h_env demo_host ''PORT'') (sc_Port (loadConfig demo_host (config_path demo_host))) = Inr 8080"
  "NewManager (h_tokens demo_host) (h_env demo_host ''API_TOKENS_FILE'') (h_env demo_host ''VC_API_TOKENS'') = Inr demo_manager"
  "buildTLSConfig demo_host = Inr None"
proof -
  have cfg: "loadConfig demo_host (config_path demo_host) = default_config"
    by (simp add: loadConfig_def demo_host_def Let_def)
  show "sc_InitialProcesses (loadConfig demo_host (config_path demo_host)) = 3" by (simp add: cfg default_config_def)
  show "tel_Init (h_sdk demo_host) (telemetry_config demo_host) = Inr NoopProvider"
    by (rule tel_Init_none) (simp add: telemetry_config_def envOr_def demo_host_def Let_def Trim_empty)
  show "resolvePort (h_env demo_host ''PORT'') (sc_Port (loadConfig demo_host (config_path demo_host))) = Inr 8080"
    unfolding cfg by (simp add: resolvePort_def demo_host_def default_config_def)
  have "NewManager (\<lambda>_. None) '''' ''bot:b0t'' = Inr demo_manager" by code_simp
  then show "NewManager (h_tokens demo_host) (h_env demo_host ''API_TOKENS_FILE'') (h_env demo_host ''VC_API_TOKENS'') = Inr demo_manager"
    by (simp add: demo_host_def)
  show "buildTLSConfig demo_host = Inr None" by (simp add: buildTLSConfig_def demo_host_def Let_def Trim_empty)
qed

theorem main_starts_witness:
  "\<exists>srv. main_setup demo_env demo_host = Inr (8080, None, srv) \<and> live (getSim srv) = proc_name ` {0 ..< 3}"
  using main_starts [OF demo_start(1) _ _ demo_start(2-5), of demo_env] by auto

theorem main_protects_witness:
  "\<exists>srv. main_setup demo_env demo_host = Inr (8080, None, srv)
     \<and> fst (fst (snd (serve (\<lambda>r. None) demo_env '''' 0 \<lparr>hr_Method = ''GET'', hr_Path = ''/ws'', hr_Origin = '''', hr_Cookie = '''',
          hr_Authorization = '''', hr_RequestId = '''', hr_HasBody = False, hr_ContentLength = 0, hr_ClientIP = ''''\<rparr> srv)))
        \<in> {204, 401, 413, 429}"
proof -
  obtain srv where srv: "main_setup demo_env demo_host = Inr (8080, None, srv)"
    by (rule main_setup_ok [OF demo_start(1) _ _ demo_start(2-5), of demo_env]) auto
  have "h_env demo_host ''VC_API_TOKENS'' \<noteq> ''''" by (simp add: demo_host_def)
  then have "case serve (\<lambda>r. None) demo_env '''' 0 \<lparr>hr_Method = ''GET'', hr_Path = ''/ws'', hr_Origin = '''', hr_Cookie = '''',
          hr_Authorization = '''', hr_RequestId = '''', hr_HasBody = False, hr_ContentLength = 0, hr_ClientIP = ''''\<rparr> srv of
      (hs, (status, bd), sv') \<Rightarrow> status \<in> {204, 401, 413, 429} \<and> (\<exists>l. sv' = srv\<lparr>sv_limiter := l\<rparr>)"
    by (intro main_protects [OF srv rtranclp.rtrancl_refl, THEN conjunct2]) (simp_all add: TrimPrefix_def)
  then show ?thesis using srv by (auto split: prod.splits)
qed

end
