(* ===== verification/Spec2Isabelle.thy ===== *)
theory Spec2Isabelle
  imports Lamport_Clock Vector_Clock Vector_System Version_Vectors Matrix_Clock Causal_Graph Topo_Sort Causal_Cut Event_Bus
    Conflict_Store Hold_Back Process_Model Sim_Transport Transport_Stages Snapshot_Coord Snapshot_Verify Simulation_Model Simulation_Runs
    Scenarios Gateway_Auth Gateway_Limits Gateway_Hub Gateway_Server Gateway_Rest Gateway_Runs Gateway_Shutdown
    Gateway_Metrics Tls_Config Cert_Gen Telemetry_Init Server_Main
begin

text \<open>
  A verification library of the Vector Clock Lab, a Go server that simulates distributed processes with
  logical clocks and serves the simulation over HTTP and WebSockets.

  \<^bold>\<open>The program and how its parts interact.\<close>
  Processes (\<^verbatim>\<open>internal/process\<close>) keep a Lamport, vector or matrix clock (\<^verbatim>\<open>internal/clock\<close>), exchange messages
  through a simulated transport with injected faults (\<^verbatim>\<open>internal/simulation/transport.go\<close>), and deliver
  them at once or in causal order through a hold-back queue. The simulation
  (\<^verbatim>\<open>internal/simulation/simulation.go\<close>) wires processes, transport, the Chandy-Lamport coordinator
  (\<^verbatim>\<open>internal/snapshot\<close>), an event bus (\<^verbatim>\<open>internal/events\<close>) and a causal graph (\<^verbatim>\<open>internal/causality\<close>)
  together. A multi-version key-value store detects conflicts (\<^verbatim>\<open>internal/conflict\<close>). The gateway
  (\<^verbatim>\<open>gateway\<close>) puts a REST interface, a WebSocket hub, authentication, rate limiting and metrics in front of
  one simulation at a time; \<^verbatim>\<open>cmd/server/main.go\<close> configures and starts it, with TLS and tracing.

  \<^bold>\<open>How the code is represented.\<close>
  A struct is a record, an enumeration or a tagged value a datatype (or the strings the code uses, for
  clock types and delivery modes), a method a function from the state to the state. Code that holds a
  mutex for its whole body is one step; goroutines are rules of an inductive step relation, and what
  holds in every reachable state is shown through the locale \<open>transition_system\<close> of
  \<^verbatim>\<open>Go_Interfaces\<close>. Errors are values of a sum or option type. An unsigned 64-bit counter is a
  \<^typ>\<open>64 word\<close>, so it wraps; where a theorem needs that it does not, the hypothesis \<open>can_inc\<close> says so. A map
  is an association list read through \<^const>\<open>map_of\<close>, and the theorems hold for every list, hence for every
  order in which Go may visit a map. Shared objects that may be replaced or killed while others
  refer to them (processes, simulations, buses) live in stores and are referred to by index. Third-party
  code and the outside world are parameters: the JSON and YAML decoders, the HTTP framework's routing,
  the clock readings, the file system, certificates, the tracing SDK.

  \<^bold>\<open>The theories.\<close>

  \<^item> \<^verbatim>\<open>Go_Prelude\<close>, \<^verbatim>\<open>Go_Interfaces\<close>: maps, words, channels, number formatting; the locales
    \<open>transition_system\<close> (invariants of reachable states) with its extension \<open>draining_system\<close> (goroutines on
    their way out make a bounded number of steps, counted by \<open>counted_run\<close> while others go on, and cannot stop before
    they have finished), \<open>bounded_queue\<close> (a buffered channel with
    non-blocking send), \<open>componentwise_order\<close> (comparison of clocks) and \<open>logical_clock\<close> (the clock
    condition along runs). Every locale is interpreted on the definitions of the components that provide it.
  \<^item> \<^verbatim>\<open>Lamport_Clock\<close>, \<^verbatim>\<open>Vector_Clock\<close>, \<^verbatim>\<open>Vector_System\<close>, \<^verbatim>\<open>Version_Vectors\<close>, \<^verbatim>\<open>Matrix_Clock\<close>: the clocks. Shown:
    comparison decides the pointwise order and, in a system of processes, exactly the happened-before
    relation of the events; the clock condition along every run without overflow, differential encoding is a
    round trip, version vectors and dotted version vectors, and that the matrix clock's garbage-collection
    test is safe in every state of a system of processes.
  \<^item> \<^verbatim>\<open>Causal_Graph\<close>, \<^verbatim>\<open>Topo_Sort\<close>, \<^verbatim>\<open>Causal_Cut\<close>: reachability search, causal history, topological sorting with its
    termination, and the enumeration of consistent cuts: it returns exactly those in which no message is received
    inside and sent outside the frontier.
  \<^item> \<^verbatim>\<open>Event_Bus\<close>: publishing, the loop goroutine, the ring buffer of the history (a refinement of the list
    of recent events) and the fan-out to subscribers.
  \<^item> \<^verbatim>\<open>Conflict_Store\<close>: writes, siblings, resolution, anti-entropy, the causal key-value store, and the bounds
    on keys and siblings.
  \<^item> \<^verbatim>\<open>Hold_Back\<close>, \<^verbatim>\<open>Process_Model\<close>: the hold-back queue delivers exhaustively, ends, and never against the causal
    order; the process with all its operations, and causal delivery for a process in operation.
  \<^item> \<^verbatim>\<open>Sim_Transport\<close>, \<^verbatim>\<open>Transport_Stages\<close>: channels, delays, drops, reordering, partitions; a channel without
    faults is a bounded FIFO queue under any interleaving of sends and forwards. \<^verbatim>\<open>Send\<close> at the granularity of its locks, with any number of goroutines in it:
    alone it is the function of \<^verbatim>\<open>Sim_Transport\<close>; no message is invented, and none duplicated unless two
    sends race for a buffered message, which can happen.
  \<^item> \<^verbatim>\<open>Snapshot_Coord\<close>, \<^verbatim>\<open>Snapshot_Verify\<close>: the coordinator with every interleaving of initiations, markers and
    messages; when a snapshot completes and what its channels record; the verifier decides the cut
    condition.
  \<^item> \<^verbatim>\<open>Simulation_Model\<close>, \<^verbatim>\<open>Simulation_Runs\<close>: the simulation and its goroutines, with \<^verbatim>\<open>KillProcess\<close> in the
    stages between which it holds no lock (\<open>KillProcess_begin\<close>, \<open>kill_stage\<close>; \<open>sim_kills\<close> has the calls under way). The
    wiring invariant \<open>wired\<close> holds in every reachable state; that the coordinator has the live processes registered
    (\<open>registered\<close>) is shown along \<open>sim_trace\<close>, which collects the identifiers spawned during a kill of the same
    identifier, for which it may fail. Reachable runs show where this, the snapshots and the causal graph
    fall short.
  \<^item> \<^verbatim>\<open>Scenarios\<close>: the eight scripts and the loop that runs them; each succeeds on a fresh simulation.
  \<^item> \<^verbatim>\<open>Gateway_Auth\<close>, \<^verbatim>\<open>Gateway_Limits\<close>, \<^verbatim>\<open>Gateway_Metrics\<close>: tokens and the authentication middleware; the token bucket,
    with the number of requests it admits in an interval; the counting and the recovery middleware, each a step of its
    own, with what the counters show in every interleaving; the text exposition.
  \<^item> \<^verbatim>\<open>Gateway_Hub\<close>: the WebSocket hub, its clients with their connections, and its goroutines. Calls of
    \<^verbatim>\<open>start\<close>, \<^verbatim>\<open>stop\<close> and \<^verbatim>\<open>reconnect\<close> run in stages and may overlap; \<open>fanout_step\<close> has the steps of the fan-out goroutine.
    Shown: safety of every interleaving, what one event does to the clients, that a cancelled fan-out goroutine
    ends within two steps and a reconnect completes; and the two panics that remain possible.
  \<^item> \<^verbatim>\<open>Gateway_Server\<close>, \<^verbatim>\<open>Gateway_Rest\<close>, \<^verbatim>\<open>Gateway_Runs\<close>: the server's state, replacement of the simulation, middleware,
    every handler, the routes, and the whole server as a transition system: invariants under every
    sequence of requests and background steps, that refused requests change nothing, what a reset does
    and does not do, and that no request passes without credentials.
  \<^item> \<^verbatim>\<open>Gateway_Shutdown\<close>: the end of \<^verbatim>\<open>Shutdown\<close>: all goroutines of the server, the hub and the connections come to
    their ends in a bounded number of steps of their own (\<open>drain_step\<close>), whatever else goes on (\<open>others_step\<close>); those
    that the wait does not count.
  \<^item> \<^verbatim>\<open>Tls_Config\<close>, \<^verbatim>\<open>Cert_Gen\<close>, \<^verbatim>\<open>Telemetry_Init\<close>, \<^verbatim>\<open>Server_Main\<close>: certificates and their reload, their generation
    (symbolic cryptography), tracing, configuration, start-up and end; that a configured program is
    protected in every state it reaches.

  \<^bold>\<open>Properties across the parts.\<close>
  The invariant of the server composes those of the simulation (\<open>wired\<close>), of the hub (\<open>hub_inv\<close>) and of the
  scenario steps (\<open>keeps_good\<close>); \<open>main_protects\<close> composes start-up, the authentication of \<^verbatim>\<open>Gateway_Auth\<close>, the
  chain of middleware and every later step of the server; \<open>gen_test_cert_loads\<close> instantiates the disk of
  \<^verbatim>\<open>Tls_Config\<close> with files that the generator wrote.

  \<^bold>\<open>Bounds and fuel.\<close>
  No definition of the model runs on fuel: loops are structural recursion, folds, or functions with a
  termination proof (the work lists of the graph searches, the rounds of the hold-back queue, the
  enumeration of cuts), except the reader \<open>read_pairs\<close> of a specification in \<^verbatim>\<open>Gateway_Metrics\<close>, which gets the
  length of its input. The limits of the code appear as its constants: the search depth of the causal graph, 100
  processes, 256 messages in a client's buffer, the sizes of channels and of the history.

  \<^bold>\<open>What is simplified.\<close>
  Broadcasts, markers and the requests of the REST interface run \<^verbatim>\<open>Send\<close> of the transport as one step; single
  sends of a simulation also run it in its stages. \<^verbatim>\<open>SetDeliveryMode\<close> and \<^verbatim>\<open>Stop\<close> of the simulation are one step each,
  although they call the processes after they have released the lock, and so are the operations that look
  a process up under the lock and then call it. The request that kills a process answers in the model before the last
  stages of the kill, which follow as steps of the simulation. In the server, \<open>setSim\<close> replaces the simulation in one step,
  in which the hub runs on one of its schedules (\<open>hub_settle\<close>), so two resets at the same time are one after the other
  there; overlapping calls of the hub itself are covered by \<open>hub_step\<close>. The chain \<open>serve\<close> leaves out the tracing and the
  counting middleware (the latter is in \<^verbatim>\<open>Gateway_Metrics\<close>) and the route of the WebSocket, whose handler is
  the step \<open>connect\<close> of the hub. Token buckets, sample ratios and metric values are real numbers instead of
  floating-point numbers. A body in JSON is the value that is encoded. Byte lengths of strings are list lengths.

  \<^bold>\<open>Not modelled.\<close>
  Logging; listening, sockets, frames and deadlines (the HTTP and WebSocket libraries); the recovery from panics
  inside a process, which no modelled operation raises; the registration of collectors and the measured durations; the test command of
  \<^verbatim>\<open>internal/telemetry\<close>; the front end, deployment files and tests.
\<close>

end
